(* ===== verification/Prelude.thy ===== *)
theory Prelude
  imports Main "HOL-Library.Word" "HOL-Library.While_Combinator"
begin

text \<open>
  Shared ground of the development: the machine integer types of the C code, bit lemmas for the
  masks the code uses, the byte-buffer helpers (\<open>memchr\<close>), and the outcome monad in which the
  firmware operations are written. A firmware operation returns (\<open>Ret\<close>), leaves by \<open>longjmp\<close>
  through \<open>shutdown()\<close> with the state it has reached (\<open>Shutdown\<close>), or does something C leaves
  undefined, such as following a NULL pointer or never leaving a loop (\<open>Undef\<close>).
\<close>

unbundle bit_operations_syntax

type_synonym u8 = "8 word"
type_synonym u16 = "16 word"
type_synonym u32 = "32 word"
type_synonym u64 = "64 word"

named_theorems op_defs \<open>definitions of the outcome monad\<close>
named_theorems op_simps \<open>evaluation rules of the outcome monad\<close>

subsection \<open>Outcomes of firmware operations\<close>

datatype ('s, 'a) outcome = Ret 'a 's | Shutdown string 's | Undef

type_synonym ('s, 'a) op = "'s \<Rightarrow> ('s, 'a) outcome"

definition ret :: "'a \<Rightarrow> ('s, 'a) op" where
  [op_defs]: "ret x = (\<lambda>s. Ret x s)"

definition bind_op :: "('s, 'a) op \<Rightarrow> ('a \<Rightarrow> ('s, 'b) op) \<Rightarrow> ('s, 'b) op" where
  [op_defs]: "bind_op m f =
     (\<lambda>s. case m s of Ret x t \<Rightarrow> f x t | Shutdown e t \<Rightarrow> Shutdown e t | Undef \<Rightarrow> Undef)"

definition then_op :: "('s, 'a) op \<Rightarrow> ('s, 'b) op \<Rightarrow> ('s, 'b) op" where
  [op_defs]: "then_op m n = bind_op m (\<lambda>_. n)"

definition get_op :: "('s \<Rightarrow> 'a) \<Rightarrow> ('s, 'a) op" where
  [op_defs]: "get_op f = (\<lambda>s. Ret (f s) s)"

definition set_op :: "('s \<Rightarrow> 's) \<Rightarrow> ('s, unit) op" where
  [op_defs]: "set_op f = (\<lambda>s. Ret () (f s))"

definition shutdown_op :: "string \<Rightarrow> ('s, 'a) op" where
  [op_defs]: "shutdown_op e = (\<lambda>s. Shutdown e s)"

definition undef_op :: "('s, 'a) op" where
  [op_defs]: "undef_op = (\<lambda>s. Undef)"

definition when_op :: "bool \<Rightarrow> ('s, unit) op \<Rightarrow> ('s, unit) op" where
  [op_defs]: "when_op b m = (if b then m else ret ())"

definition option_op :: "'a option \<Rightarrow> ('s, 'a) op" where
  [op_defs]: "option_op x = (case x of None \<Rightarrow> undef_op | Some y \<Rightarrow> ret y)"

text \<open>A computation that neither reads nor writes the state, but may shut down.\<close>

definition pure_op :: "(unit, 'a) op \<Rightarrow> ('s, 'a) op" where
  [op_defs]: "pure_op m =
     (\<lambda>s. case m () of Ret x _ \<Rightarrow> Ret x s | Shutdown e _ \<Rightarrow> Shutdown e s | Undef \<Rightarrow> Undef)"

fun each_op :: "('a \<Rightarrow> ('s, unit) op) \<Rightarrow> 'a list \<Rightarrow> ('s, unit) op" where
  "each_op f [] = ret ()"
| "each_op f (x # xs) = then_op (f x) (each_op f xs)"

text \<open>\<open>while (c) m;\<close> A loop that never ends is \<open>Undef\<close>.\<close>

definition while_op :: "('s \<Rightarrow> bool) \<Rightarrow> ('s, unit) op \<Rightarrow> ('s, unit) op" where
  "while_op c m s =
     (case while_option (\<lambda>r. case r of Ret _ t \<Rightarrow> c t | _ \<Rightarrow> False)
             (\<lambda>r. case r of Ret _ t \<Rightarrow> m t | _ \<Rightarrow> r) (Ret () s) of
        None \<Rightarrow> Undef
      | Some r \<Rightarrow> r)"

text \<open>Evaluation of an operation applied to a state.\<close>

lemma ret_app [op_simps]: "ret x s = Ret x s"
  by (simp add: ret_def)

lemma get_op_app [op_simps]: "get_op f s = Ret (f s) s"
  by (simp add: get_op_def)

lemma set_op_app [op_simps]: "set_op f s = Ret () (f s)"
  by (simp add: set_op_def)

lemma shutdown_op_app [op_simps]: "shutdown_op e s = Shutdown e s"
  by (simp add: shutdown_op_def)

lemma undef_op_app [op_simps]: "undef_op s = Undef"
  by (simp add: undef_op_def)

lemma when_op_app [op_simps]: "when_op b m s = (if b then m s else Ret () s)"
  by (simp add: when_op_def ret_def)

lemma option_op_app [op_simps]: "option_op x s = (case x of None \<Rightarrow> Undef | Some y \<Rightarrow> Ret y s)"
  by (simp add: option_op_def ret_def undef_op_def split: option.split)

lemma pure_op_app [op_simps]:
  "pure_op m s = (case m () of Ret x _ \<Rightarrow> Ret x s | Shutdown e _ \<Rightarrow> Shutdown e s | Undef \<Rightarrow> Undef)"
  by (simp add: pure_op_def)

lemma bind_op_app [op_simps]:
  "bind_op m f s = (case m s of Ret x t \<Rightarrow> f x t | Shutdown e t \<Rightarrow> Shutdown e t | Undef \<Rightarrow> Undef)"
  by (simp add: bind_op_def)

lemma then_op_app [op_simps]:
  "then_op m n s = (case m s of Ret x t \<Rightarrow> n t | Shutdown e t \<Rightarrow> Shutdown e t | Undef \<Rightarrow> Undef)"
  by (simp add: then_op_def bind_op_def)

lemma while_op_unfold: "while_op c m s = (if c s then then_op m (while_op c m) s else Ret () s)"
proof (cases "c s")
  case True
  show ?thesis
  proof (cases "m s")
    case (Ret u t)
    with True show ?thesis
      by (simp add: while_op_def then_op_app) (subst while_option_unfold, simp)
  qed (use True in \<open>simp add: while_op_def then_op_app, subst while_option_unfold, simp, subst while_option_unfold, simp\<close>)+
next
  case False
  then show ?thesis by (simp add: while_op_def) (subst while_option_unfold, simp)
qed

lemma bind_op_Ret_iff:
  "bind_op m f s = Ret y u \<longleftrightarrow> (\<exists>x t. m s = Ret x t \<and> f x t = Ret y u)"
  by (cases "m s") (simp_all add: bind_op_def)

lemma then_op_Ret_iff:
  "then_op m n s = Ret y u \<longleftrightarrow> (\<exists>x t. m s = Ret x t \<and> n t = Ret y u)"
  by (simp add: then_op_def bind_op_Ret_iff)

text \<open>
  The state an operation leaves behind, whether it returned or shut down; \<open>keeps P m\<close> says that
  the operation never gets stuck from a state in \<open>P\<close> and that the state it leaves is in \<open>P\<close>.
\<close>

fun out_state :: "('s, 'a) outcome \<Rightarrow> 's option" where
  "out_state (Ret x s) = Some s"
| "out_state (Shutdown e s) = Some s"
| "out_state Undef = None"

definition out_ok :: "('s \<Rightarrow> bool) \<Rightarrow> ('s, 'a) outcome \<Rightarrow> bool" where
  "out_ok P r = (case r of Ret x s \<Rightarrow> P s | Shutdown e s \<Rightarrow> P s | Undef \<Rightarrow> False)"

definition keeps :: "('s \<Rightarrow> bool) \<Rightarrow> ('s, 'a) op \<Rightarrow> bool" where
  "keeps P m \<longleftrightarrow> (\<forall>s. P s \<longrightarrow> out_ok P (m s))"

lemma out_ok_simps [simp]:
  "out_ok P (Ret x s) = P s" "out_ok P (Shutdown e s) = P s" "\<not> out_ok P Undef"
  by (simp_all add: out_ok_def)

lemma keepsD: "keeps P m \<Longrightarrow> P s \<Longrightarrow> out_ok P (m s)"
  by (simp add: keeps_def)

lemma keepsI: "(\<And>s. P s \<Longrightarrow> out_ok P (m s)) \<Longrightarrow> keeps P m"
  by (simp add: keeps_def)

lemma keeps_ret: "keeps P (ret x)"
  by (simp add: keeps_def ret_def)

lemma keeps_get: "keeps P (get_op f)"
  by (simp add: keeps_def get_op_def)

lemma keeps_shutdown: "keeps P (shutdown_op e)"
  by (simp add: keeps_def shutdown_op_def)

lemma keeps_set: "(\<And>s. P s \<Longrightarrow> P (f s)) \<Longrightarrow> keeps P (set_op f)"
  by (simp add: keeps_def set_op_def)

lemma keeps_bind: "keeps P m \<Longrightarrow> (\<And>x. keeps P (f x)) \<Longrightarrow> keeps P (bind_op m f)"
proof (rule keepsI)
  fix s
  assume m: "keeps P m" and f: "\<And>x. keeps P (f x)" and s: "P s"
  from keepsD [OF m s] f show "out_ok P (bind_op m f s)"
    by (cases "m s") (simp_all add: bind_op_def keepsD)
qed

lemma keeps_then: "keeps P m \<Longrightarrow> keeps P n \<Longrightarrow> keeps P (then_op m n)"
  by (simp add: then_op_def keeps_bind)

lemma keeps_when: "keeps P m \<Longrightarrow> keeps P (when_op b m)"
  by (simp add: when_op_def keeps_ret)

lemma keeps_if: "(b \<Longrightarrow> keeps P m) \<Longrightarrow> (\<not> b \<Longrightarrow> keeps P n) \<Longrightarrow> keeps P (if b then m else n)"
  by simp

lemma keeps_each: "(\<And>x. keeps P (f x)) \<Longrightarrow> keeps P (each_op f xs)"
  by (induction xs) (simp_all add: keeps_ret keeps_then)

lemmas keeps_intros = keeps_ret keeps_get keeps_shutdown keeps_bind keeps_then keeps_when keeps_each

text \<open>
  \<open>safe_op P m\<close>: whatever state \<open>m\<close> leaves behind when started in \<open>P\<close> is in \<open>P\<close>, with nothing said of
  runs that get stuck.
\<close>

definition safe_op :: "('s \<Rightarrow> bool) \<Rightarrow> ('s, 'a) op \<Rightarrow> bool" where
  "safe_op P m \<longleftrightarrow> (\<forall>s t. P s \<longrightarrow> out_state (m s) = Some t \<longrightarrow> P t)"

lemma safe_opD: "safe_op P m \<Longrightarrow> P s \<Longrightarrow> out_state (m s) = Some t \<Longrightarrow> P t"
  by (auto simp: safe_op_def)

lemma safe_bind:
  assumes "safe_op P m" "\<And>x s t. P s \<Longrightarrow> m s = Ret x t \<Longrightarrow> safe_op P (f x)"
  shows "safe_op P (bind_op m f)"
  unfolding safe_op_def
proof (intro allI impI)
  fix s t
  assume s: "P s" and t: "out_state (bind_op m f s) = Some t"
  show "P t"
  proof (cases "m s")
    case (Ret x u)
    with safe_opD [OF assms(1) s] have "P u" by simp
    with Ret t assms(2) [OF s Ret] show ?thesis by (auto simp: bind_op_def dest: safe_opD)
  qed (use t safe_opD [OF assms(1) s] in \<open>simp_all add: bind_op_def\<close>)
qed

lemma safe_then: "safe_op P m \<Longrightarrow> safe_op P n \<Longrightarrow> safe_op P (then_op m n)"
  unfolding then_op_def by (rule safe_bind)

lemma safe_ret: "safe_op P (ret x)" and safe_get: "safe_op P (get_op f)"
  and safe_shutdown: "safe_op P (shutdown_op e)" and safe_undef: "safe_op P undef_op"
  and safe_set: "(\<And>s. P s \<Longrightarrow> P (g s)) \<Longrightarrow> safe_op P (set_op g)"
  by (auto simp: safe_op_def op_defs)

lemma safe_pure: "safe_op P (pure_op m)" and safe_option: "safe_op P (option_op x)"
  by (auto simp: safe_op_def pure_op_def option_op_app split: outcome.splits option.splits)

subsection \<open>Bits of the masks used by the code\<close>

lemma bit_int_mask: "(m::int) = mask k \<Longrightarrow> bit m n \<longleftrightarrow> n < k"
  by (simp add: bit_mask_iff)

lemma bit_int_exp: "(m::int) = 2 ^ k \<Longrightarrow> bit m n \<longleftrightarrow> n = k"
  by (auto simp: bit_exp_iff)

lemma bit_0f [bit_simps]: "bit (15::int) n \<longleftrightarrow> n < 4"
  by (rule bit_int_mask) (simp add: mask_eq_exp_minus_1)

lemma bit_1f [bit_simps]: "bit (31::int) n \<longleftrightarrow> n < 5"
  by (rule bit_int_mask) (simp add: mask_eq_exp_minus_1)

lemma bit_7f [bit_simps]: "bit (127::int) n \<longleftrightarrow> n < 7"
  by (rule bit_int_mask) (simp add: mask_eq_exp_minus_1)

lemma bit_ff [bit_simps]: "bit (255::int) n \<longleftrightarrow> n < 8"
  by (rule bit_int_mask) (simp add: mask_eq_exp_minus_1)

lemma bit_10 [bit_simps]: "bit (16::int) n \<longleftrightarrow> n = 4"
  by (rule bit_int_exp) simp

lemma bit_80 [bit_simps]: "bit (128::int) n \<longleftrightarrow> n = 7"
  by (rule bit_int_exp) simp

lemma bit_60 [bit_simps]: "bit (96::int) n \<longleftrightarrow> n = 5 \<or> n = 6"
proof -
  have "(96::int) = 2 ^ 5 OR 2 ^ 6" by simp
  then show ?thesis by (simp only: bit_or_iff bit_exp_iff) auto
qed

lemma and_bit_zero_iff: "(w :: 'a::len word) AND (2 ^ n) = 0 \<longleftrightarrow> \<not> bit w n"
  by (metis and_exp_eq_0_iff_not_bit)

lemma bit_3f80 [bit_simps]: "bit (16256::int) n \<longleftrightarrow> 7 \<le> n \<and> n < 14"
proof -
  have "(16256::int) = push_bit 7 127" by (simp add: push_bit_eq_mult)
  then show ?thesis by (simp only: bit_push_bit_iff) (auto simp: bit_simps)
qed

lemma u8_high_bits [simp]: "\<not> bit (w :: u8) (8 + n)"
  using bit_imp_le_length [of w "8 + n"] by auto

lemma bit_imp_exp_le_unat: "bit (w :: 'a::len word) n \<Longrightarrow> 2 ^ n \<le> unat w"
proof -
  assume "bit w n"
  then have "bit (unat w) n" by (simp add: bit_unsigned_iff)
  then have "unat w div 2 ^ n \<noteq> 0" by (metis bit_iff_odd even_zero)
  then show ?thesis by (meson div_less leI)
qed

lemma bit_less_exp: "unat (w :: 'a::len word) < 2 ^ k \<Longrightarrow> bit w n \<Longrightarrow> n < k"
  by (metis bit_imp_exp_le_unat le_less_trans one_less_numeral_iff power_strict_increasing_iff semiring_norm(76))

lemma and_0f_take_bit: "(x :: 'a::len word) AND 0xf = take_bit 4 x"
  by (simp add: take_bit_eq_mask mask_eq_exp_minus_1)

lemma uint_and_0f: "uint ((x :: 'a::len word) AND 0xf) = uint x mod 16" if "4 \<le> LENGTH('a)"
proof -
  have "uint (take_bit 4 x) = take_bit 4 (uint x)" by (simp add: unsigned_take_bit_eq)
  then show ?thesis by (simp add: and_0f_take_bit take_bit_eq_mod)
qed

lemma unat_of_nat_u8: "n < 256 \<Longrightarrow> unat (of_nat n :: u8) = n"
  by (simp add: unat_of_nat)

lemma unat_of_nat_u64: "n < 2 ^ 64 \<Longrightarrow> unat (of_nat n :: u64) = n"
  by (simp add: unat_of_nat)

lemma unat_u8_add1: "unat (j :: u8) + 1 < 256 \<Longrightarrow> unat (j + 1) = unat j + 1"
  by (simp add: unat_word_ariths)

text \<open>Narrowing of 64-bit clocks to 32 bits, and sign extension back.\<close>

lemma uint_ucast_u32: "uint (ucast (a :: u64) :: u32) = uint a mod 2 ^ 32"
  by (simp add: unsigned_ucast_eq take_bit_eq_mod)

lemma ucast_u32_add: "(ucast (a + b :: u64) :: u32) = ucast a + ucast b"
proof (rule unsigned_word_eqI)
  have d: "(4294967296 :: int) dvd 18446744073709551616" by presburger
  show "uint (ucast (a + b) :: u32) = uint (ucast a + ucast b :: u32)"
    by (simp add: uint_ucast_u32 uint_word_ariths mod_mod_cancel [OF d] mod_simps)
qed

lemma ucast_u32_diff: "(ucast (a - b :: u64) :: u32) = ucast a - ucast b"
proof (rule unsigned_word_eqI)
  have d: "(4294967296 :: int) dvd 18446744073709551616" by presburger
  show "uint (ucast (a - b) :: u32) = uint (ucast a - ucast b :: u32)"
    by (simp add: uint_ucast_u32 uint_word_ariths mod_mod_cancel [OF d] mod_simps)
qed

lemma ucast_scast_u32 [simp]: "(ucast (scast (x :: u32) :: u64) :: u32) = x"
  by (rule bit_word_eqI) (simp add: bit_simps)

lemma ucast_ucast_u32 [simp]: "(ucast (ucast (x :: u32) :: u64) :: u32) = x"
  by (rule bit_word_eqI) (simp add: bit_simps)

lemma sint_scast_u64 [simp]: "sint (scast (x :: u32) :: u64) = sint x"
  by (rule sint_up_scast) (simp add: is_up)

lemma sint_u32_range: "- (2 ^ 31) \<le> sint (x :: u32)" "sint (x :: u32) < 2 ^ 31"
  using sint_range_size [of x] by (simp_all add: word_size)

lemma scast_ucast_u32:
  assumes "- (2 ^ 31) \<le> sint (d :: u64)" "sint d < 2 ^ 31"
  shows "scast (ucast d :: u32) = d"
proof -
  have "sint (ucast d :: u32) = signed_take_bit 31 (sint d)"
    by (simp add: signed_ucast_eq uint_sint signed_take_bit_take_bit)
  also have "\<dots> = sint d" using assms by (simp add: signed_take_bit_int_eq_self)
  finally have eq: "sint (ucast d :: u32) = sint d" .
  have "scast (ucast d :: u32) = (word_of_int (sint (ucast d :: u32)) :: u64)" by (rule scast_eq)
  also have "\<dots> = word_of_int (sint d)" by (simp only: eq)
  also have "\<dots> = d" by simp
  finally show ?thesis .
qed

subsection \<open>Byte buffers\<close>

text \<open>\<open>memchr(buf, c, n)\<close>: the offset of the first byte equal to \<open>c\<close>.\<close>

fun memchr :: "'a \<Rightarrow> 'a list \<Rightarrow> nat option" where
  "memchr c [] = None"
| "memchr c (x # xs) = (if x = c then Some 0 else map_option Suc (memchr c xs))"

lemma memchr_Some: "memchr c xs = Some i \<Longrightarrow> i < length xs \<and> xs ! i = c \<and> c \<notin> set (take i xs)"
proof (induction xs arbitrary: i)
  case (Cons x xs)
  then show ?case by (cases i) (auto split: if_splits)
qed simp

lemma memchr_None: "memchr c xs = None \<longleftrightarrow> c \<notin> set xs"
  by (induction xs) auto

lemma memchr_append: "c \<notin> set xs \<Longrightarrow> memchr c (xs @ c # ys) = Some (length xs)"
  by (induction xs) auto

lemma nth_append_add: "(xs @ ys) ! (length xs + n) = ys ! n"
  by (simp add: nth_append)

subsection \<open>Step schedules\<close>

text \<open>
  What a move of the motion protocol promises, and both ends of the link refer to: the clock of the \<open>k\<close>-th
  step of a move that starts at clock \<open>w\<close>.
\<close>

definition step_clock :: "u32 \<Rightarrow> u32 \<Rightarrow> u16 \<Rightarrow> nat \<Rightarrow> u32" where
  "step_clock w interval add k = w + of_nat k * interval + of_nat (k * (k - 1) div 2) * scast add"

lemma step_clock_Suc: "step_clock w i a (Suc k) = step_clock w i a k + (i + of_nat k * scast a)"
proof -
  have "Suc k * k div 2 = k * (k - 1) div 2 + k"
  proof -
    have "Suc k * k = k * (k - 1) + 2 * k" by (cases k) auto
    then show ?thesis by simp
  qed
  then have "(of_nat (Suc k * (Suc k - 1) div 2) :: u32) = of_nat (k * (k - 1) div 2) + of_nat k" by simp
  then show ?thesis unfolding step_clock_def by (simp only: of_nat_Suc distrib_right) (simp add: algebra_simps)
qed

lemma step_clock_0 [simp]: "step_clock w i a 0 = w"
  by (simp add: step_clock_def)

lemma step_clock_shift: "step_clock w i a k = w + step_clock 0 i a k"
  by (simp add: step_clock_def)

end
