(* ===== verification/Wire.thy ===== *)
theory Wire
  imports Prelude
begin

text \<open>
  The byte-level codecs of the firmware: the CRC of \<open>generic/crc16_ccitt.c\<close> and the variable
  length quantities of \<open>command.c\<close>. A write through \<open>uint8_t *p\<close> is modelled by the bytes that
  are appended at \<open>p\<close>; a read through \<open>uint8_t **pp\<close> consumes bytes from the front of the list
  that starts at \<open>*pp\<close>, and is \<open>None\<close> where it would run past the end of that list. The locale
  \<open>int_codec\<close> is the contract the message layers rely on.
\<close>

subsection \<open>Layout of a message block (command.h, msgblock.h)\<close>

abbreviation (input) MESSAGE_MIN :: nat where "MESSAGE_MIN \<equiv> 5"
abbreviation (input) MESSAGE_MAX :: nat where "MESSAGE_MAX \<equiv> 64"
abbreviation (input) MESSAGE_HEADER_SIZE :: nat where "MESSAGE_HEADER_SIZE \<equiv> 2"
abbreviation (input) MESSAGE_TRAILER_SIZE :: nat where "MESSAGE_TRAILER_SIZE \<equiv> 3"
abbreviation (input) MESSAGE_POS_LEN :: nat where "MESSAGE_POS_LEN \<equiv> 0"
abbreviation (input) MESSAGE_POS_SEQ :: nat where "MESSAGE_POS_SEQ \<equiv> 1"
abbreviation (input) MESSAGE_TRAILER_CRC :: nat where "MESSAGE_TRAILER_CRC \<equiv> 3"
abbreviation (input) MESSAGE_TRAILER_SYNC :: nat where "MESSAGE_TRAILER_SYNC \<equiv> 1"
abbreviation (input) MESSAGE_PAYLOAD_MAX :: nat where "MESSAGE_PAYLOAD_MAX \<equiv> MESSAGE_MAX - MESSAGE_MIN"
abbreviation (input) MESSAGE_SEQ_MASK :: "'a::len word" where "MESSAGE_SEQ_MASK \<equiv> 0x0f"
abbreviation (input) MESSAGE_DEST :: "'a::len word" where "MESSAGE_DEST \<equiv> 0x10"
abbreviation (input) MESSAGE_SYNC :: u8 where "MESSAGE_SYNC \<equiv> 0x7E"

subsection \<open>CRC (generic/crc16_ccitt.c)\<close>

definition crc_data :: "u16 \<Rightarrow> u8 \<Rightarrow> u8" where
  "crc_data crc b = (let data = b XOR ucast (crc AND 0xff) in data XOR push_bit 4 data)"

definition crc_step :: "u16 \<Rightarrow> u8 \<Rightarrow> u16" where
  "crc_step crc b =
     (let data = crc_data crc b
      in ((push_bit 8 (ucast data) OR drop_bit 8 crc) XOR ucast (drop_bit 4 data))
           XOR push_bit 3 (ucast data))"

definition crc16_ccitt :: "u8 list \<Rightarrow> u16" where
  "crc16_ccitt buf = foldl crc_step 0xffff buf"

subsection \<open>Variable length quantities (command.c)\<close>

text \<open>\<open>sv < (3L<<k) && sv >= -(1L<<k)\<close>, the test of each \<open>goto\<close> of \<open>encode_int\<close>.\<close>

definition vlq_fits :: "nat \<Rightarrow> u32 \<Rightarrow> bool" where
  "vlq_fits k v \<longleftrightarrow> sint v < 3 * 2 ^ k \<and> - (2 ^ k) \<le> sint v"

definition vlq_low :: "u32 \<Rightarrow> u8" where
  "vlq_low v = ucast (v AND 0x7f)"

definition vlq_more :: "nat \<Rightarrow> u32 \<Rightarrow> u8" where
  "vlq_more n v = ucast ((drop_bit n v AND 0x7f) OR 0x80)"

definition vlq_top :: "u32 \<Rightarrow> u8" where
  "vlq_top v = ucast (drop_bit 28 v OR 0x80)"

definition encode_int :: "u32 \<Rightarrow> u8 list" where
  "encode_int v =
     (if vlq_fits 5 v then [vlq_low v]
      else if vlq_fits 12 v then [vlq_more 7 v, vlq_low v]
      else if vlq_fits 19 v then [vlq_more 14 v, vlq_more 7 v, vlq_low v]
      else if vlq_fits 26 v then [vlq_more 21 v, vlq_more 14 v, vlq_more 7 v, vlq_low v]
      else [vlq_top v, vlq_more 21 v, vlq_more 14 v, vlq_more 7 v, vlq_low v])"

fun parse_int_loop :: "u32 \<Rightarrow> u8 \<Rightarrow> u8 list \<Rightarrow> (u32 \<times> u8 list) option" where
  "parse_int_loop v c p =
     (if c AND 0x80 = 0 then Some (v, p)
      else case p of
          [] \<Rightarrow> None
        | c' # p' \<Rightarrow> parse_int_loop (push_bit 7 v OR ucast (c' AND 0x7f)) c' p')"

definition parse_int :: "u8 list \<Rightarrow> (u32 \<times> u8 list) option" where
  "parse_int p =
     (case p of
        [] \<Rightarrow> None
      | c # p' \<Rightarrow>
          (let v = ucast (c AND 0x7f);
               v = (if c AND 0x60 = 0x60 then v OR (- 0x20) else v)
           in parse_int_loop v c p'))"

definition encode_msgid :: "u16 \<Rightarrow> u8 list" where
  "encode_msgid encoded_msgid =
     (if encoded_msgid \<ge> 0x80 then [ucast (drop_bit 7 encoded_msgid OR 0x80)] else [])
       @ [ucast (encoded_msgid AND 0x7f)]"

definition command_parse_msgid :: "u8 list \<Rightarrow> (u16 \<times> u8 list) option" where
  "command_parse_msgid p =
     (case p of
        [] \<Rightarrow> None
      | c # p' \<Rightarrow>
          (let encoded_msgid = ucast c :: u16
           in if encoded_msgid AND 0x80 \<noteq> 0
              then (case p' of
                      [] \<Rightarrow> None
                    | d # p'' \<Rightarrow> Some (push_bit 7 (encoded_msgid AND 0x7f) OR ucast d, p''))
              else Some (encoded_msgid, p')))"

declare parse_int_loop.simps [simp del]

subsection \<open>Well formed message blocks\<close>

text \<open>
  The abstract description of the wire format that both receivers check and both senders build:
  a length byte, a sequence byte, the payload, the CRC of everything before it and a SYNC byte.
\<close>

definition seq_ok :: "u8 \<Rightarrow> bool" where
  "seq_ok q \<longleftrightarrow> q AND NOT MESSAGE_SEQ_MASK = MESSAGE_DEST"

definition crc_bytes :: "u8 list \<Rightarrow> u8 list" where
  "crc_bytes body = [ucast (drop_bit 8 (crc16_ccitt body)), ucast (crc16_ccitt body)]"

definition mk_block :: "u8 \<Rightarrow> u8 list \<Rightarrow> u8 list" where
  "mk_block seq payload =
     (let body = [of_nat (length payload + MESSAGE_MIN), seq] @ payload
      in body @ crc_bytes body @ [MESSAGE_SYNC])"

definition valid_block :: "u8 list \<Rightarrow> bool" where
  "valid_block m \<longleftrightarrow>
     MESSAGE_MIN \<le> length m \<and> length m \<le> MESSAGE_MAX \<and>
     unat (m ! 0) = length m \<and> seq_ok (m ! 1) \<and>
     drop (length m - 3) m = crc_bytes (take (length m - 3) m) @ [MESSAGE_SYNC]"

subsection \<open>The contract of an integer codec\<close>

text \<open>\<open>parse_many dec n p\<close>: \<open>n\<close> successive parses, as the argument loops of both ends make.\<close>

fun parse_many :: "(u8 list \<Rightarrow> (u32 \<times> u8 list) option) \<Rightarrow> nat \<Rightarrow> u8 list \<Rightarrow> (u32 list \<times> u8 list) option" where
  "parse_many dec 0 p = Some ([], p)"
| "parse_many dec (Suc n) p =
     (case dec p of
        None \<Rightarrow> None
      | Some (v, p') \<Rightarrow> map_option (\<lambda>(vs, q). (v # vs, q)) (parse_many dec n p'))"

locale int_codec =
  fixes enc :: "u32 \<Rightarrow> u8 list" and dec :: "u8 list \<Rightarrow> (u32 \<times> u8 list) option"
  assumes dec_enc: "dec (enc v @ p) = Some (v, p)"
    and enc_len: "1 \<le> length (enc v)" "length (enc v) \<le> 5"
begin

lemma enc_prefix_free: "enc v @ p = enc w @ q \<Longrightarrow> v = w \<and> p = q"
  by (metis dec_enc option.inject prod.inject)

lemma enc_inj: "enc v = enc w \<Longrightarrow> v = w"
  using enc_prefix_free [of v "[]" w "[]"] by simp

lemma parse_many_enc: "parse_many dec (length vs) (concat (map enc vs) @ p) = Some (vs, p)"
  by (induction vs) (simp_all add: dec_enc)

lemma enc_list_inj:
  "length vs = length ws \<Longrightarrow> concat (map enc vs) = concat (map enc ws) \<Longrightarrow> vs = ws"
  by (metis parse_many_enc option.inject prod.inject)

lemma enc_list_len: "length (concat (map enc vs)) \<le> 5 * length vs"
proof (induction vs)
  case (Cons v vs)
  then show ?case using enc_len(2) [of v] by simp
qed simp

end

subsection \<open>CRC: every burst of up to two bytes is detected\<close>

text \<open>The two bytes of the next CRC, and that each half of the step can be undone.\<close>

lemma crc_step_high:
  "(ucast (drop_bit 8 (crc_step c b)) :: u8) = crc_data c b XOR drop_bit 5 (crc_data c b)"
  unfolding crc_step_def Let_def
  by (rule bit_word_eqI) (auto simp: bit_simps dest: bit_imp_le_length)

lemma crc_step_low:
  "(ucast (crc_step c b) :: u8) =
     ucast (drop_bit 8 c) XOR drop_bit 4 (crc_data c b) XOR push_bit 3 (crc_data c b)"
  unfolding crc_step_def Let_def
  by (rule bit_word_eqI) (auto simp: bit_simps)

lemma xor_drop5_inj: "x XOR drop_bit 5 x = y XOR drop_bit 5 y \<Longrightarrow> x = (y :: u8)"
proof -
  have "(z XOR drop_bit 5 z) XOR drop_bit 5 (z XOR drop_bit 5 z) = z" for z :: u8
    by (rule bit_word_eqI) (auto simp: bit_simps dest: bit_imp_le_length)
  then show "x XOR drop_bit 5 x = y XOR drop_bit 5 y \<Longrightarrow> x = y" by metis
qed

lemma xor_push4_inj: "x XOR push_bit 4 x = y XOR push_bit 4 y \<Longrightarrow> x = (y :: u8)"
proof -
  have "(z XOR push_bit 4 z) XOR push_bit 4 (z XOR push_bit 4 z) = z" for z :: u8
    by (rule bit_word_eqI) (auto simp: bit_simps)
  then show "x XOR push_bit 4 x = y XOR push_bit 4 y \<Longrightarrow> x = y" by metis
qed

lemma u16_split: "(c :: u16) = push_bit 8 (ucast (ucast (drop_bit 8 c) :: u8)) OR ucast (ucast c :: u8)"
  by (rule bit_word_eqI) (auto simp: bit_simps)

lemma xor_right_cancel: "a XOR (c :: u8) = b XOR c \<longleftrightarrow> a = b"
  by (metis xor.assoc xor_self_eq xor.right_neutral)

lemma crc_step_data_eq:
  assumes "crc_step c b = crc_step c' b'"
  shows "crc_data c b = crc_data c' b'" "(ucast (drop_bit 8 c) :: u8) = ucast (drop_bit 8 c')"
proof -
  from assms have "crc_data c b XOR drop_bit 5 (crc_data c b) = crc_data c' b' XOR drop_bit 5 (crc_data c' b')"
    by (metis crc_step_high)
  then show eq: "crc_data c b = crc_data c' b'"
    by (rule xor_drop5_inj)
  from assms have "(ucast (drop_bit 8 c) :: u8) XOR drop_bit 4 (crc_data c b) XOR push_bit 3 (crc_data c b)
      = ucast (drop_bit 8 c') XOR drop_bit 4 (crc_data c' b') XOR push_bit 3 (crc_data c' b')"
    by (metis crc_step_low)
  then show "(ucast (drop_bit 8 c) :: u8) = ucast (drop_bit 8 c')"
    unfolding eq by (simp only: xor_right_cancel)
qed

lemma crc_data_xor_eq:
  assumes "crc_data c b = crc_data c' b'"
  shows "b XOR ucast c = b' XOR ucast c'"
proof -
  have low: "ucast (c AND 0xff) = (ucast c :: u8)" for c :: u16
    by (rule bit_word_eqI) (simp add: bit_simps)
  from assms show ?thesis
    unfolding crc_data_def Let_def low by (rule xor_push4_inj)
qed

lemma crc_step_inj_crc:
  assumes "crc_step c b = crc_step c' b"
  shows "c = c'"
proof -
  from crc_data_xor_eq [OF crc_step_data_eq(1) [OF assms]] have "(ucast c :: u8) = ucast c'"
    by (metis xor.commute xor_right_cancel)
  with crc_step_data_eq(2) [OF assms] show ?thesis
    by (metis u16_split)
qed

lemma crc_step_inj_byte: "crc_step c b = crc_step c b' \<Longrightarrow> b = b'"
  by (metis crc_data_xor_eq crc_step_data_eq(1) xor_right_cancel)

lemma crc_steps_inj_crc: "foldl crc_step c bs = foldl crc_step c' bs \<Longrightarrow> c = c'"
  by (induction bs arbitrary: c c') (auto dest: crc_step_inj_crc)

lemma crc_two_steps_inj:
  assumes "crc_step (crc_step c a) b = crc_step (crc_step c a') b'"
  shows "a = a' \<and> b = b'"
proof -
  have "crc_data c a XOR drop_bit 5 (crc_data c a) = crc_data c a' XOR drop_bit 5 (crc_data c a')"
    using crc_step_data_eq(2) [OF assms] by (simp only: crc_step_high)
  then have "crc_data c a = crc_data c a'" by (rule xor_drop5_inj)
  then have "a = a'" using crc_data_xor_eq by (metis xor_right_cancel)
  with assms show ?thesis by (auto dest: crc_step_inj_byte)
qed

lemma crc16_burst:
  assumes "crc16_ccitt (xs @ [a, b] @ ys) = crc16_ccitt (xs @ [a', b'] @ ys)"
  shows "a = a' \<and> b = b'"
  using assms crc_steps_inj_crc [THEN crc_two_steps_inj] by (simp add: crc16_ccitt_def)

subsection \<open>VLQ: the parser inverts the encoder\<close>

lemma int_vlq_range_div:
  fixes i :: int
  assumes "i < 3 * 2 ^ k" "- (2 ^ k) \<le> i"
  shows "i div 2 ^ k \<in> {-1, 0, 1, 2}"
proof -
  have "(-1 * 2 ^ k) div 2 ^ k \<le> i div 2 ^ k"
    using assms(2) by (intro zdiv_mono1) auto
  then have lo: "-1 \<le> i div 2 ^ k"
    by (simp only: nonzero_mult_div_cancel_right power_not_zero zero_neq_numeral [symmetric]
        not_False_eq_True)
  have "i div 2 ^ k * 2 ^ k \<le> i"
    by (metis div_mult_mod_eq le_add_same_cancel1 pos_mod_sign zero_less_numeral zero_less_power)
  then have "i div 2 ^ k * 2 ^ k < 3 * 2 ^ k" using assms(1) by linarith
  then have "i div 2 ^ k < 3" by simp
  with lo show ?thesis by auto
qed

lemma int_vlq_sign:
  fixes i :: int
  assumes "i < 3 * 2 ^ k" "- (2 ^ k) \<le> i"
  shows "bit i k \<and> bit i (Suc k) \<longleftrightarrow> i < 0"
proof -
  have eq: "i div 2 ^ Suc k = i div 2 ^ k div 2"
    by (simp only: power_Suc2 zdiv_zmult2_eq)
  have "(i < 0) = (i div 2 ^ k < 0)" by (simp add: pos_imp_zdiv_neg_iff)
  with int_vlq_range_div [OF assms] show ?thesis
    by (auto simp: bit_iff_odd eq simp del: power_Suc)
qed

lemma int_vlq_high:
  fixes i :: int
  assumes "i < 3 * 2 ^ k" "- (2 ^ k) \<le> i" "k + 2 \<le> n"
  shows "bit i n \<longleftrightarrow> i < 0"
proof -
  obtain m where n: "n = k + (2 + m)" using assms(3) by (metis le_Suc_ex add.assoc)
  have eq: "i div 2 ^ n = i div 2 ^ k div 4 div 2 ^ m"
    unfolding n power_add
    by (simp only: zdiv_zmult2_eq zero_le_power zero_le_numeral mult_nonneg_nonneg power2_eq_square)
      (simp add: ac_simps flip: zdiv_zmult2_eq)
  have "(i < 0) = (i div 2 ^ k < 0)" by (simp add: pos_imp_zdiv_neg_iff)
  moreover have "(-1 :: int) div 2 ^ m = -1" by (simp add: div_eq_minus1)
  ultimately show ?thesis
    using int_vlq_range_div [OF assms(1,2)] by (auto simp: bit_iff_odd eq)
qed

lemma vlq_fits_sign:
  "vlq_fits k v \<Longrightarrow> k < 31 \<Longrightarrow> (bit v k \<and> bit v (Suc k)) \<longleftrightarrow> sint v < 0"
  using int_vlq_sign [of "sint v" k] by (simp add: vlq_fits_def bit_sint_iff)

lemma vlq_fits_high:
  "vlq_fits k v \<Longrightarrow> k + 2 \<le> n \<Longrightarrow> n < 32 \<Longrightarrow> bit v n \<longleftrightarrow> sint v < 0"
  using int_vlq_high [of "sint v" k n] by (simp add: vlq_fits_def bit_sint_iff)

text \<open>
  \<open>vlq_pre n w v\<close>: the value \<open>w\<close> accumulated so far holds the bits of \<open>v\<close> from \<open>n\<close> upwards.
  Every continuation byte moves \<open>n\<close> down by seven.
\<close>

definition vlq_pre :: "nat \<Rightarrow> u32 \<Rightarrow> u32 \<Rightarrow> bool" where
  "vlq_pre n w v \<longleftrightarrow> (\<forall>j. j + n < 32 \<longrightarrow> bit w j = bit v (j + n))"

definition vlq_first :: "u8 \<Rightarrow> u32" where
  "vlq_first c = (if c AND 0x60 = 0x60 then ucast (c AND 0x7f) OR (- 0x20) else ucast (c AND 0x7f))"

lemma vlq_pre_0: "vlq_pre 0 w v \<Longrightarrow> w = v"
  by (rule bit_word_eqI) (simp add: vlq_pre_def)

lemma vlq_pre_step:
  assumes "vlq_pre (n + 7) w v" "\<And>j. j < 7 \<Longrightarrow> bit c j \<longleftrightarrow> bit v (j + n)"
  shows "vlq_pre n (push_bit 7 w OR ucast (c AND (0x7f :: u8))) v"
  unfolding vlq_pre_def
proof (intro allI impI)
  fix j assume j: "j + n < 32"
  show "bit (push_bit 7 w OR ucast (c AND (0x7f :: u8))) j = bit v (j + n)"
  proof (cases "j < 7")
    case True
    then show ?thesis using assms(2) [OF True] by (simp add: bit_simps)
  next
    case False
    then show ?thesis using assms(1) [unfolded vlq_pre_def, rule_format, of "j - 7"] j
      by (simp add: bit_simps)
  qed
qed

lemma bit_vlq_more: "j < 7 \<Longrightarrow> bit (vlq_more n v) j \<longleftrightarrow> bit v (j + n)"
  by (auto simp: vlq_more_def bit_simps add.commute)

lemma bit_vlq_low: "j < 7 \<Longrightarrow> bit (vlq_low v) j \<longleftrightarrow> bit v (j + 0)"
  by (simp add: vlq_low_def bit_simps)

lemma and_60_iff: "(c :: u8) AND 0x60 = 0x60 \<longleftrightarrow> bit c 5 \<and> bit c 6"
proof
  assume eq: "c AND 0x60 = 0x60"
  have "bit (c AND 0x60) 5" "bit (c AND 0x60) 6"
    unfolding eq by (simp_all add: bit_simps)
  then show "bit c 5 \<and> bit c 6" by (simp add: bit_simps)
next
  assume "bit c 5 \<and> bit c 6"
  then show "c AND 0x60 = 0x60" by (intro bit_word_eqI) (auto simp: bit_simps)
qed

lemma bit_minus_20: "bit (- 0x20 :: u32) n \<longleftrightarrow> 5 \<le> n \<and> n < 32"
proof -
  have "(- 0x20 :: u32) = NOT 0x1f" by simp
  then show ?thesis by (simp only: bit_not_iff bit_numeral_word_iff) (auto simp: bit_simps)
qed

lemma bit_vlq_first:
  "bit (vlq_first c) j \<longleftrightarrow> j < 7 \<and> bit c j \<or> (j < 32 \<and> 5 \<le> j \<and> bit c 5 \<and> bit c 6)"
  unfolding vlq_first_def and_60_iff by (auto simp: bit_simps bit_minus_20)

lemma vlq_pre_first:
  assumes "vlq_fits (n + 5) v" "n + 7 \<le> 32" "\<And>j. j < 7 \<Longrightarrow> bit c j \<longleftrightarrow> bit v (j + n)"
  shows "vlq_pre n (vlq_first c) v"
  unfolding vlq_pre_def
proof (intro allI impI)
  fix j assume j: "j + n < 32"
  have sgn: "bit c 5 \<and> bit c 6 \<longleftrightarrow> sint v < 0"
    using vlq_fits_sign [OF assms(1)] assms(2) assms(3) [of 5] assms(3) [of 6]
    by (simp add: add.commute)
  consider "j < 5" | "j = 5" | "j = 6" | "7 \<le> j" by linarith
  then show "bit (vlq_first c) j = bit v (j + n)"
  proof cases
    case 4
    then show ?thesis
      using vlq_fits_high [OF assms(1), of "j + n"] j sgn by (simp add: bit_vlq_first)
  qed (use assms(3) [of j] in \<open>auto simp: bit_vlq_first\<close>)
qed

lemma vlq_pre_top: "vlq_pre 28 (vlq_first (vlq_top v)) v"
  by (auto simp: vlq_pre_def vlq_top_def bit_vlq_first bit_simps add.commute)

lemma and_80_iff: "(c :: u8) AND 0x80 = 0 \<longleftrightarrow> \<not> bit c 7"
  using and_bit_zero_iff [of c 7] by simp

lemma parse_loop_last: "\<not> bit c 7 \<Longrightarrow> parse_int_loop w c p = Some (w, p)"
  by (simp add: parse_int_loop.simps and_80_iff)

lemma parse_loop_next:
  "bit c 7 \<Longrightarrow>
   parse_int_loop w c (d # p) = parse_int_loop (push_bit 7 w OR ucast (d AND 0x7f)) d p"
  by (subst parse_int_loop.simps) (simp add: and_80_iff)

lemma vlq_bit7 [simp]: "\<not> bit (vlq_low v) 7" "bit (vlq_more n v) 7" "bit (vlq_top v) 7"
  by (simp_all add: vlq_low_def vlq_more_def vlq_top_def bit_simps)

lemma parse_int_Cons: "parse_int (c # p) = parse_int_loop (vlq_first c) c p"
  by (simp add: parse_int_def vlq_first_def Let_def)

lemmas vlq_parse_simps = parse_int_Cons parse_loop_last parse_loop_next

text \<open>The tail of the encoding after the byte that carries bits \<open>n\<close> to \<open>n + 6\<close>.\<close>

lemma vlq_tail7:
  assumes "vlq_pre 7 w v" "bit c 7"
  shows "parse_int_loop w c (vlq_low v # p) = Some (v, p)"
  using vlq_pre_0 [OF vlq_pre_step [where n = 0, OF _ bit_vlq_low]] assms
  by (simp add: vlq_parse_simps)

lemma vlq_tail14:
  assumes "vlq_pre 14 w v" "bit c 7"
  shows "parse_int_loop w c (vlq_more 7 v # vlq_low v # p) = Some (v, p)"
  using vlq_tail7 [OF vlq_pre_step [where n = 7, OF _ bit_vlq_more]] assms
  by (simp add: parse_loop_next)

lemma vlq_tail21:
  assumes "vlq_pre 21 w v" "bit c 7"
  shows "parse_int_loop w c (vlq_more 14 v # vlq_more 7 v # vlq_low v # p) = Some (v, p)"
  using vlq_tail14 [OF vlq_pre_step [where n = 14, OF _ bit_vlq_more]] assms
  by (simp add: parse_loop_next)

lemma vlq_tail28:
  assumes "vlq_pre 28 w v" "bit c 7"
  shows "parse_int_loop w c (vlq_more 21 v # vlq_more 14 v # vlq_more 7 v # vlq_low v # p) = Some (v, p)"
  using vlq_tail21 [OF vlq_pre_step [where n = 21, OF _ bit_vlq_more]] assms
  by (simp add: parse_loop_next)

lemmas vlq_tails = vlq_tail7 vlq_tail14 vlq_tail21 vlq_tail28

lemma parse_encode_int: "parse_int (encode_int v @ p) = Some (v, p)"
proof -
  have first: "vlq_fits (n + 5) v \<Longrightarrow> n + 7 \<le> 32 \<Longrightarrow> vlq_pre n (vlq_first (vlq_more n v)) v" for n
    by (rule vlq_pre_first) (simp_all add: bit_vlq_more)
  have low: "vlq_fits 5 v \<Longrightarrow> vlq_first (vlq_low v) = v"
    by (rule vlq_pre_0, rule vlq_pre_first) (simp_all add: bit_vlq_low [simplified])
  show ?thesis
    using first [of 7] first [of 14] first [of 21] low vlq_pre_top [of v]
    by (simp add: encode_int_def parse_int_Cons parse_loop_last vlq_tails)
qed

lemma encode_int_length: "1 \<le> length (encode_int v)" "length (encode_int v) \<le> 5"
  by (simp_all add: encode_int_def)

interpretation mcu_int: int_codec encode_int parse_int
  by unfold_locales (simp_all add: parse_encode_int encode_int_length [simplified])

lemma parse_encode_msgid:
  assumes "encoded_msgid < 0x4000"
  shows "command_parse_msgid (encode_msgid encoded_msgid @ p) = Some (encoded_msgid, p)"
proof (cases "encoded_msgid \<ge> 0x80")
  case True
  have hi: "bit encoded_msgid n \<Longrightarrow> n < 14" for n
    using bit_less_exp [of encoded_msgid 14 n] assms by (simp add: word_less_nat_alt)
  let ?c = "ucast (ucast (drop_bit 7 encoded_msgid OR 0x80) :: u8) :: u16"
  have "bit (?c AND 0x80) 7" by (simp add: bit_simps)
  then have "?c AND 0x80 \<noteq> 0" by (metis bit_0_eq bot_apply bot_bool_def)
  moreover have "push_bit 7 (?c AND 0x7f) OR ucast (ucast (encoded_msgid AND 0x7f) :: u8) = encoded_msgid"
    by (rule bit_word_eqI) (auto simp: bit_simps dest: hi)
  ultimately show ?thesis
    using True by (simp add: encode_msgid_def command_parse_msgid_def Let_def)
next
  case False
  then have lo: "bit encoded_msgid n \<Longrightarrow> n < 7" for n
    using bit_less_exp [of encoded_msgid 7 n] by (simp add: word_le_nat_alt)
  have "(ucast (ucast (encoded_msgid AND 0x7f) :: u8) :: u16) = encoded_msgid"
    by (rule bit_word_eqI) (auto simp: bit_simps dest: lo)
  moreover have "encoded_msgid AND 0x80 = 0"
    by (rule bit_word_eqI) (auto simp: bit_simps dest: lo)
  ultimately show ?thesis
    using False by (simp add: encode_msgid_def command_parse_msgid_def Let_def)
qed

subsection \<open>Blocks that are built are well formed\<close>

lemma length_crc_bytes [simp]: "length (crc_bytes body) = 2"
  by (simp add: crc_bytes_def)

lemma length_mk_block [simp]: "length (mk_block seq payload) = length payload + MESSAGE_MIN"
  by (simp add: mk_block_def)

lemma mk_block_nth: "mk_block seq payload ! 0 = of_nat (length payload + MESSAGE_MIN)"
  "mk_block seq payload ! Suc 0 = seq"
  by (simp_all add: mk_block_def Let_def)

lemma valid_mk_block:
  assumes "length payload \<le> MESSAGE_PAYLOAD_MAX" "seq_ok seq"
  shows "valid_block (mk_block seq payload)"
proof -
  let ?body = "[of_nat (length payload + MESSAGE_MIN), seq] @ payload"
  have eq: "mk_block seq payload = ?body @ crc_bytes ?body @ [MESSAGE_SYNC]"
    by (simp add: mk_block_def Let_def)
  have len: "length payload + 5 - 3 = length ?body" by simp
  have "take (length ?body) (mk_block seq payload) = ?body"
    "drop (length ?body) (mk_block seq payload) = crc_bytes ?body @ [MESSAGE_SYNC]"
    unfolding eq by simp_all
  moreover have "unat (of_nat (length payload + 5) :: u8) = length payload + 5"
    using assms(1) by (intro unat_of_nat_u8) simp
  ultimately show ?thesis
    using assms unfolding valid_block_def by (simp add: mk_block_nth len del: length_append)
qed

lemma crc_bytes_inj: "crc_bytes xs = crc_bytes ys \<Longrightarrow> crc16_ccitt xs = crc16_ccitt ys"
  using u16_split [of "crc16_ccitt xs"] u16_split [of "crc16_ccitt ys"]
  by (simp add: crc_bytes_def)

lemma valid_block_burst:
  assumes "valid_block (x # xs @ [a, b] @ ys @ t)" "valid_block (x # xs @ [a', b'] @ ys @ t)"
    and "length t = MESSAGE_TRAILER_SIZE"
  shows "a = a' \<and> b = b'"
proof -
  have crc: "crc_bytes ((x # xs) @ [c, d] @ ys) = take 2 t"
    if "valid_block (x # xs @ [c, d] @ ys @ t)" for c d
  proof -
    have "length (x # xs @ [c, d] @ ys @ t) - 3 = length ((x # xs) @ [c, d] @ ys)"
      using assms(3) by simp
    then have "t = crc_bytes ((x # xs) @ [c, d] @ ys) @ [MESSAGE_SYNC]"
      using that unfolding valid_block_def by (metis append.assoc append_Cons append_eq_conv_conj append_take_drop_id)
    then show ?thesis by (metis append_eq_conv_conj length_crc_bytes)
  qed
  from crc [OF assms(1)] crc [OF assms(2)] show ?thesis
    by (intro crc16_burst [of "x # xs" _ _ ys] crc_bytes_inj) simp
qed

text \<open>The trailer test as the receivers spell it out, byte by byte.\<close>

lemma u16_join_iff:
  "c = push_bit 8 (ucast (h :: u8)) OR ucast (l :: u8) \<longleftrightarrow>
   h = ucast (drop_bit 8 c) \<and> l = ucast (c :: u16)"
proof
  assume "c = push_bit 8 (ucast h) OR ucast l"
  then show "h = ucast (drop_bit 8 c) \<and> l = ucast c"
    by (auto intro!: bit_word_eqI simp: bit_simps)
next
  assume "h = ucast (drop_bit 8 c) \<and> l = ucast c"
  then show "c = push_bit 8 (ucast h) OR ucast l"
    using u16_split by simp
qed

lemma drop3_iff:
  assumes "3 \<le> length m"
  shows "drop (length m - 3) m = [a, b, c] \<longleftrightarrow>
    m ! (length m - 3) = a \<and> m ! (length m - 3 + 1) = b \<and> m ! (length m - 1) = c"
proof -
  have "drop (length m - 3) m = [m ! (length m - 3), m ! (length m - 3 + 1), m ! (length m - 1)]"
    using assms by (intro nth_equalityI) (auto simp: less_Suc_eq numeral_3_eq_3 Suc_diff_Suc)
  then show ?thesis by simp
qed

lemma valid_block_iff:
  "valid_block m \<longleftrightarrow>
     MESSAGE_MIN \<le> length m \<and> length m \<le> MESSAGE_MAX \<and>
     unat (m ! 0) = length m \<and> seq_ok (m ! 1) \<and> m ! (length m - 1) = MESSAGE_SYNC \<and>
     crc16_ccitt (take (length m - 3) m) =
       push_bit 8 (ucast (m ! (length m - 3))) OR ucast (m ! (length m - 3 + 1))"
  by (auto simp: valid_block_def u16_join_iff crc_bytes_def drop3_iff)

subsection \<open>Properties\<close>

text \<open>
  The firmware's message id parser inverts its encoder and stops right behind it, for every id
  that fits in the two bytes the format has.
\<close>

theorem msgid_roundtrip:
  assumes "encoded_msgid < 0x4000"
  shows "command_parse_msgid (encode_msgid encoded_msgid @ p) = Some (encoded_msgid, p)"
  using assms by (rule parse_encode_msgid)

theorem msgid_roundtrip_witness:
  "command_parse_msgid (encode_msgid 300 @ [1, 2]) = Some (300, [1, 2])"
  using msgid_roundtrip [of 300 "[1, 2]"] by simp

text \<open>
  C29: The CRC detects every corruption that is confined to two adjacent bytes of a block before its
  trailer: changing them in a well formed block gives a block that is not well formed.
\<close>

theorem block_burst_detected:
  assumes "valid_block (x # xs @ [a, b] @ ys @ t)" "length t = MESSAGE_TRAILER_SIZE"
    and "(a', b') \<noteq> (a, b)"
  shows "\<not> valid_block (x # xs @ [a', b'] @ ys @ t)"
  using valid_block_burst [OF assms(1)] assms(2,3) by blast

theorem block_burst_detected_witness:
  "valid_block [7, 0x10, 1, 2, 0xEB, 0x5F, 0x7E] \<and> \<not> valid_block [7, 0x10, 3, 9, 0xEB, 0x5F, 0x7E]"
proof -
  have "valid_block (7 # [0x10] @ [1, 2] @ [] @ [0xEB, 0x5F, 0x7E])" by code_simp
  from block_burst_detected [OF this, of 3 9] this show ?thesis by simp
qed

end
