(* ===== verification/Msgblock.thy ===== *)
theory Msgblock
  imports Wire Complex_Main
begin

text \<open>
  The host side of the message-block protocol, \<open>klippy/chelper/msgblock.c\<close>: the host's own copies
  of the CRC and of the integer codec, the check and the decoding of a received block, the
  encoding of outgoing messages into the fixed \<open>msg[MESSAGE_MAX]\<close> array, and the clock
  estimation helpers. Times of type \<open>double\<close> are exact reals. A result \<open>None\<close> is an access
  outside the array at hand; the properties show that it does not happen.
\<close>

subsection \<open>Serial protocol helpers\<close>

fun msgblock_crc_loop :: "u16 \<Rightarrow> u8 list \<Rightarrow> u16" where
  "msgblock_crc_loop crc [] = crc"
| "msgblock_crc_loop crc (b # buf) =
     (let data = b XOR ucast (crc AND 0xff);
          data = data XOR push_bit 4 data
      in msgblock_crc_loop
           (((push_bit 8 (ucast data) OR drop_bit 8 crc) XOR ucast (drop_bit 4 data))
              XOR push_bit 3 (ucast data)) buf)"

definition msgblock_crc16_ccitt :: "u8 list \<Rightarrow> nat \<Rightarrow> u16" where
  "msgblock_crc16_ccitt buf len = msgblock_crc_loop 0xffff (take len buf)"

definition resync :: "u8 list \<Rightarrow> int \<times> u8" where
  "resync buf =
     (case memchr MESSAGE_SYNC buf of
        Some i \<Rightarrow> (- (int i + 1), 0)
      | None \<Rightarrow> (- int (length buf), 1))"

definition msgblock_check :: "u8 \<Rightarrow> u8 list \<Rightarrow> int \<times> u8" where
  "msgblock_check need_sync buf =
     (if length buf < MESSAGE_MIN then (0, need_sync)
      else if need_sync \<noteq> 0 then resync buf
      else
        (let msglen = unat (buf ! MESSAGE_POS_LEN);
             msgseq = buf ! MESSAGE_POS_SEQ
         in if msglen < MESSAGE_MIN \<or> msglen > MESSAGE_MAX then resync buf
            else if msgseq AND NOT MESSAGE_SEQ_MASK \<noteq> MESSAGE_DEST then resync buf
            else if length buf < msglen then (0, need_sync)
            else if buf ! (msglen - MESSAGE_TRAILER_SYNC) \<noteq> MESSAGE_SYNC then resync buf
            else if msgblock_crc16_ccitt buf (msglen - MESSAGE_TRAILER_SIZE)
                      \<noteq> (push_bit 8 (ucast (buf ! (msglen - MESSAGE_TRAILER_CRC)))
                          OR ucast (buf ! (msglen - MESSAGE_TRAILER_CRC + 1)))
            then resync buf
            else (int msglen, need_sync)))"

text \<open>The labels of \<open>encode_int\<close>: each falls through to the next.\<close>

definition host_f4 :: "u32 \<Rightarrow> u8 list" where
  "host_f4 v = [ucast (v AND 0x7f)]"

definition host_f3 :: "u32 \<Rightarrow> u8 list" where
  "host_f3 v = ucast ((drop_bit 7 v AND 0x7f) OR 0x80) # host_f4 v"

definition host_f2 :: "u32 \<Rightarrow> u8 list" where
  "host_f2 v = ucast ((drop_bit 14 v AND 0x7f) OR 0x80) # host_f3 v"

definition host_f1 :: "u32 \<Rightarrow> u8 list" where
  "host_f1 v = ucast ((drop_bit 21 v AND 0x7f) OR 0x80) # host_f2 v"

definition host_encode_int :: "u32 \<Rightarrow> u8 list" where
  "host_encode_int v =
     (let sv = sint v
      in if sv < 3 * 2 ^ 5 \<and> sv \<ge> - (2 ^ 5) then host_f4 v
         else if sv < 3 * 2 ^ 12 \<and> sv \<ge> - (2 ^ 12) then host_f3 v
         else if sv < 3 * 2 ^ 19 \<and> sv \<ge> - (2 ^ 19) then host_f2 v
         else if sv < 3 * 2 ^ 26 \<and> sv \<ge> - (2 ^ 26) then host_f1 v
         else ucast (drop_bit 28 v OR 0x80) # host_f1 v)"

fun host_parse_loop :: "u8 \<Rightarrow> u32 \<Rightarrow> u8 list \<Rightarrow> (u32 \<times> u8 list) option" where
  "host_parse_loop c v [] = (if c AND 0x80 \<noteq> 0 then None else Some (v, []))"
| "host_parse_loop c v (c' # p) =
     (if c AND 0x80 \<noteq> 0
      then host_parse_loop c' (push_bit 7 v OR ucast (c' AND 0x7f)) p
      else Some (v, c' # p))"

definition host_parse_int :: "u8 list \<Rightarrow> (u32 \<times> u8 list) option" where
  "host_parse_int p =
     (case p of
        [] \<Rightarrow> None
      | c # p' \<Rightarrow>
          host_parse_loop c
            (if c AND 0x60 = 0x60 then ucast (c AND 0x7f) OR (- 0x20) else ucast (c AND 0x7f)) p')"

text \<open>
  \<open>p\<close> and \<open>end\<close> are offsets into \<open>msg\<close>; the returned list holds the words stored through \<open>data\<close>.
\<close>

fun msgblock_decode_loop :: "nat \<Rightarrow> u8 list \<Rightarrow> nat \<Rightarrow> nat \<Rightarrow> (int \<times> u32 list) option" where
  "msgblock_decode_loop 0 msg p pend = Some (if p \<noteq> pend then -1 else 0, [])"
| "msgblock_decode_loop (Suc data_len) msg p pend =
     (if p \<ge> pend then Some (-1, [])
      else case host_parse_int (drop p msg) of
          None \<Rightarrow> None
        | Some (v, rest) \<Rightarrow>
            map_option (\<lambda>(r, vs). (r, v # vs))
              (msgblock_decode_loop data_len msg (length msg - length rest) pend))"

definition msgblock_decode :: "nat \<Rightarrow> u8 list \<Rightarrow> (int \<times> u32 list) option" where
  "msgblock_decode data_len msg =
     msgblock_decode_loop data_len msg MESSAGE_HEADER_SIZE (length msg - MESSAGE_TRAILER_SIZE)"

subsection \<open>Command queue messages\<close>

record queue_message =
  qm_len :: nat
  qm_msg :: "u8 list"
  min_clock :: u64
  req_clock :: u64
  sent_time :: real
  receive_time :: real
  notify_id :: u64

definition message_alloc :: queue_message where
  "message_alloc =
     \<lparr>qm_len = 0, qm_msg = replicate MESSAGE_MAX 0, min_clock = 0, req_clock = 0,
      sent_time = 0, receive_time = 0, notify_id = 0\<rparr>"

text \<open>A copy of \<open>bs\<close> to offset \<open>p\<close> of an array; \<open>None\<close> if it does not fit.\<close>

definition store_bytes :: "u8 list \<Rightarrow> nat \<Rightarrow> u8 list \<Rightarrow> u8 list option" where
  "store_bytes a p bs =
     (if p + length bs \<le> length a then Some (take p a @ bs @ drop (p + length bs) a) else None)"

definition message_fill :: "u8 list \<Rightarrow> queue_message option" where
  "message_fill data =
     map_option (\<lambda>m. message_alloc\<lparr>qm_msg := m, qm_len := length data\<rparr>)
       (store_bytes (qm_msg message_alloc) 0 data)"

fun message_encode_loop :: "u32 list \<Rightarrow> queue_message \<Rightarrow> nat \<Rightarrow> queue_message option" where
  "message_encode_loop [] qm p = Some (qm\<lparr>qm_len := p\<rparr>)"
| "message_encode_loop (v # data) qm p =
     (case store_bytes (qm_msg qm) p (host_encode_int v) of
        None \<Rightarrow> None
      | Some m \<Rightarrow>
          (let p' = p + length (host_encode_int v)
           in if p' > MESSAGE_PAYLOAD_MAX then Some (qm\<lparr>qm_msg := m, qm_len := 0\<rparr>)
              else message_encode_loop data (qm\<lparr>qm_msg := m\<rparr>) p'))"

definition message_alloc_and_encode :: "u32 list \<Rightarrow> queue_message option" where
  "message_alloc_and_encode data = message_encode_loop data message_alloc 0"

subsection \<open>Clock estimation\<close>

record clock_estimate =
  last_clock :: u64
  conv_clock :: u64
  conv_time :: real
  est_freq :: real

definition clock_from_clock32 :: "clock_estimate \<Rightarrow> u32 \<Rightarrow> u64" where
  "clock_from_clock32 ce clock32 =
     last_clock ce + scast (ucast (ucast clock32 - last_clock ce) :: u32)"

definition clock_to_time :: "clock_estimate \<Rightarrow> u64 \<Rightarrow> real" where
  "clock_to_time ce clock =
     conv_time ce + real_of_int (sint (clock - conv_clock ce)) / est_freq ce"

text \<open>The C conversion of a \<open>double\<close> to an integer drops the fraction.\<close>

definition c_trunc :: "real \<Rightarrow> int" where
  "c_trunc x = (if 0 \<le> x then \<lfloor>x\<rfloor> else \<lceil>x\<rceil>)"

text \<open>\<open>(uint64_t)x\<close>, undefined unless the truncated value fits.\<close>

definition u64_of_double :: "real \<Rightarrow> u64 option" where
  "u64_of_double x = (if - 1 < x \<and> x < 2 ^ 64 then Some (word_of_int (c_trunc x)) else None)"

definition clock_from_time :: "clock_estimate \<Rightarrow> real \<Rightarrow> u64" where
  "clock_from_time ce time =
     word_of_int (c_trunc ((time - conv_time ce) * est_freq ce + 1 / 2)) + conv_clock ce"

subsection \<open>The host codec is the firmware codec\<close>

lemma host_encode_int_eq: "host_encode_int v = encode_int v"
  by (simp add: host_encode_int_def encode_int_def vlq_fits_def host_f1_def host_f2_def host_f3_def
      host_f4_def vlq_low_def vlq_more_def vlq_top_def Let_def)

lemma host_parse_loop_eq: "host_parse_loop c v p = parse_int_loop v c p"
  by (induction c v p rule: host_parse_loop.induct) (simp_all add: parse_int_loop.simps)

lemma host_parse_int_eq: "host_parse_int p = parse_int p"
  by (simp add: host_parse_int_def parse_int_def host_parse_loop_eq Let_def split: list.split)

lemma msgblock_crc_eq: "msgblock_crc16_ccitt buf len = crc16_ccitt (take len buf)"
proof -
  have "msgblock_crc_loop crc bs = foldl crc_step crc bs" for crc bs
    by (induction bs arbitrary: crc) (simp_all add: crc_step_def crc_data_def Let_def)
  then show ?thesis by (simp add: msgblock_crc16_ccitt_def crc16_ccitt_def)
qed

interpretation host_int: int_codec host_encode_int host_parse_int
  by unfold_locales
    (simp_all add: host_encode_int_eq host_parse_int_eq parse_encode_int encode_int_length [simplified])

subsection \<open>Checking received data\<close>

lemma msgblock_check_valid:
  assumes "valid_block b"
  shows "msgblock_check 0 (b @ rest) = (int (length b), 0)"
proof -
  have len: "MESSAGE_MIN \<le> length b" using assms by (simp add: valid_block_def)
  then have "(b @ rest) ! 0 = b ! 0" "(b @ rest) ! 1 = b ! 1" "(b @ rest) ! (length b - 1) = b ! (length b - 1)"
    "(b @ rest) ! (length b - 3) = b ! (length b - 3)"
    "(b @ rest) ! (length b - 3 + 1) = b ! (length b - 3 + 1)"
    by (auto simp: nth_append)
  with assms show ?thesis
    unfolding valid_block_iff msgblock_check_def msgblock_crc_eq seq_ok_def Let_def by simp
qed

lemma resync_nonpos: "fst (resync buf) \<le> 0"
  by (simp add: resync_def split: option.split)

lemma msgblock_check_sound:
  assumes "msgblock_check need_sync buf = (n, ns)" "0 < n"
  shows "need_sync = 0 \<and> ns = 0 \<and> nat n \<le> length buf \<and> valid_block (take (nat n) buf)"
proof -
  have "fst (resync buf) \<noteq> n" using resync_nonpos [of buf] assms(2) by linarith
  with assms show ?thesis
    by (auto simp: msgblock_check_def valid_block_iff msgblock_crc_eq seq_ok_def Let_def min_def
        split: if_splits)
qed

lemma resync_cases:
  obtains (sync) i where "resync buf = (- (int i + 1), 0)" "i < length buf" "buf ! i = MESSAGE_SYNC"
      "MESSAGE_SYNC \<notin> set (take i buf)"
    | (none) "resync buf = (- int (length buf), 1)" "MESSAGE_SYNC \<notin> set buf"
  by (cases "memchr MESSAGE_SYNC buf")
    (auto simp: resync_def memchr_None dest: memchr_Some)

lemma msgblock_check_neg_resync:
  "msgblock_check need_sync buf = (n, ns) \<Longrightarrow> n < 0 \<Longrightarrow> resync buf = (n, ns) \<and> MESSAGE_MIN \<le> length buf"
  by (auto simp: msgblock_check_def Let_def split: if_splits)

lemma msgblock_check_discard:
  assumes "msgblock_check need_sync buf = (n, ns)" "n < 0"
  shows "nat (- n) \<le> length buf \<and> MESSAGE_SYNC \<notin> set (take (nat (- n) - 1) buf) \<and>
    (if ns = 0 then buf ! (nat (- n) - 1) = MESSAGE_SYNC
     else nat (- n) = length buf \<and> MESSAGE_SYNC \<notin> set buf)"
proof -
  from msgblock_check_neg_resync [OF assms] have r: "resync buf = (n, ns)" by simp
  show ?thesis
  proof (cases rule: resync_cases [of buf])
    case (sync i)
    with r have "nat (- n) = Suc i" "ns = 0" by auto
    with sync show ?thesis by simp
  next
    case none
    with r have "nat (- n) = length buf" "ns = 1" by auto
    with none show ?thesis by (auto dest: in_set_takeD)
  qed
qed

lemma resync_zero: "fst (resync buf) = 0 \<Longrightarrow> buf = []"
  by (cases rule: resync_cases [of buf]) auto

lemma msgblock_check_progress:
  assumes "MESSAGE_MAX \<le> length buf"
  shows "fst (msgblock_check need_sync buf) \<noteq> 0"
proof -
  have "buf \<noteq> []" using assms by auto
  then have "fst (resync buf) \<noteq> 0" using resync_zero by blast
  with assms show ?thesis by (auto simp: msgblock_check_def Let_def simp del: of_nat_unat)
qed

subsection \<open>Decoding and encoding messages\<close>

lemma parse_int_loop_suffix:
  assumes "if p = [] then \<not> bit c 7 else \<not> bit (last p) 7"
  shows "\<exists>w k. parse_int_loop v c p = Some (w, drop k p)"
  using assms
proof (induction p arbitrary: v c)
  case Nil
  then show ?case by (simp add: parse_loop_last)
next
  case (Cons d p)
  show ?case
  proof (cases "bit c 7")
    case True
    obtain w k where "parse_int_loop (push_bit 7 v OR ucast (d AND 0x7f)) d p = Some (w, drop k p)"
      using Cons.IH [of d] Cons.prems by (force split: if_splits)
    with True have "parse_int_loop v c (d # p) = Some (w, drop (Suc k) (d # p))"
      by (simp add: parse_loop_next)
    then show ?thesis by blast
  next
    case False
    then have "parse_int_loop v c (d # p) = Some (v, drop 0 (d # p))" by (simp add: parse_loop_last)
    then show ?thesis by blast
  qed
qed

lemma parse_int_suffix:
  assumes "p \<noteq> []" "\<not> bit (last p) 7"
  shows "\<exists>w k. parse_int p = Some (w, drop (Suc k) p)"
proof -
  obtain c q where p: "p = c # q" using assms(1) by (cases p) auto
  with assms(2) parse_int_loop_suffix [of q c "vlq_first c"] show ?thesis
    by (auto simp: parse_int_Cons split: if_splits)
qed

lemma msgblock_decode_loop_total:
  assumes "msg \<noteq> []" "\<not> bit (last msg) 7" "pend \<le> length msg"
  shows "msgblock_decode_loop n msg p pend \<noteq> None"
proof (induction n arbitrary: p)
  case (Suc n)
  show ?case
  proof (cases "p \<ge> pend")
    case False
    with assms have "drop p msg \<noteq> []" "\<not> bit (last (drop p msg)) 7" by auto
    then obtain w k where "parse_int (drop p msg) = Some (w, drop (Suc k) (drop p msg))"
      using parse_int_suffix by blast
    with Suc.IH show ?thesis using False by (auto simp: host_parse_int_eq)
  qed simp
qed simp

lemma valid_block_last: "valid_block m \<Longrightarrow> m \<noteq> [] \<and> last m = MESSAGE_SYNC"
  by (cases "m = []") (auto simp: valid_block_iff last_conv_nth)

lemma msgblock_decode_total: "valid_block msg \<Longrightarrow> msgblock_decode n msg \<noteq> None"
  unfolding msgblock_decode_def
  by (rule msgblock_decode_loop_total) (auto dest: valid_block_last simp: bit_simps)

lemma msgblock_decode_loop_encoded:
  assumes "p = length pre" "pend = length pre + length (concat (map host_encode_int vs))"
  shows "msgblock_decode_loop (length vs) (pre @ concat (map host_encode_int vs) @ post) p pend
    = Some (0, vs)"
  using assms
proof (induction vs arbitrary: pre p pend)
  case (Cons v vs)
  have "msgblock_decode_loop (length vs) ((pre @ host_encode_int v) @ concat (map host_encode_int vs) @ post)
      (length (pre @ host_encode_int v)) pend = Some (0, vs)"
    using Cons.prems by (intro Cons.IH) auto
  moreover have "0 < length (host_encode_int v)" using host_int.enc_len(1) [of v] by linarith
  ultimately show ?case
    using Cons.prems by (simp add: host_int.dec_enc)
qed simp

lemma msgblock_decode_block:
  "msgblock_decode (length vs) (mk_block seq (concat (map host_encode_int vs))) = Some (0, vs)"
proof -
  let ?payload = "concat (map host_encode_int vs)"
  have "mk_block seq ?payload = [of_nat (length ?payload + 5), seq] @ ?payload
      @ crc_bytes ([of_nat (length ?payload + 5), seq] @ ?payload) @ [MESSAGE_SYNC]"
    by (simp add: mk_block_def Let_def)
  then show ?thesis
    unfolding msgblock_decode_def
    by (simp only:) (rule msgblock_decode_loop_encoded, simp_all)
qed

text \<open>
  What a message filled with the words \<open>vs\<close> after the bytes \<open>pre\<close> holds: the encoding if it fits
  into a payload, the empty message otherwise.
\<close>

definition encodes :: "u8 list \<Rightarrow> u32 list \<Rightarrow> queue_message \<Rightarrow> bool" where
  "encodes pre vs qm \<longleftrightarrow>
     length (qm_msg qm) = MESSAGE_MAX \<and>
     (let body = pre @ concat (map host_encode_int vs)
      in if length body \<le> MESSAGE_PAYLOAD_MAX
         then qm_len qm = length body \<and> take (qm_len qm) (qm_msg qm) = body
         else qm_len qm = 0)"

lemma encodes_Cons: "encodes pre (v # vs) qm = encodes (pre @ host_encode_int v) vs qm"
  by (simp add: encodes_def)

lemma store_bytes_Some:
  "p + length bs \<le> length a \<Longrightarrow>
   store_bytes a p bs = Some (take p a @ bs @ drop (p + length bs) a)"
  by (simp add: store_bytes_def)

lemma message_encode_loop_spec:
  assumes "length (qm_msg qm) = MESSAGE_MAX" "p \<le> MESSAGE_PAYLOAD_MAX"
  shows "\<exists>qm'. message_encode_loop vs qm p = Some qm' \<and> encodes (take p (qm_msg qm)) vs qm'"
  using assms
proof (induction vs arbitrary: qm p)
  case Nil
  then show ?case by (simp add: encodes_def Let_def)
next
  case (Cons v vs)
  let ?e = "host_encode_int v"
  let ?m = "take p (qm_msg qm) @ ?e @ drop (p + length ?e) (qm_msg qm)"
  have fit: "p + length ?e \<le> length (qm_msg qm)"
    using Cons.prems host_int.enc_len(2) [of v] by simp
  then have len: "length ?m = MESSAGE_MAX" "take (p + length ?e) ?m = take p (qm_msg qm) @ ?e"
    using Cons.prems(1) by simp_all
  show ?case
  proof (cases "p + length ?e \<le> MESSAGE_PAYLOAD_MAX")
    case True
    define q where "q = qm\<lparr>qm_msg := ?m\<rparr>"
    have "qm_msg q = ?m" by (simp add: q_def)
    with len Cons.IH [OF _ True, of q] obtain qm' where
      "message_encode_loop vs q (p + length ?e) = Some qm'" "encodes (take p (qm_msg qm) @ ?e) vs qm'"
      by metis
    with True fit show ?thesis by (simp add: store_bytes_Some encodes_Cons q_def)
  next
    case False
    with len fit Cons.prems show ?thesis
      by (simp add: store_bytes_Some encodes_def Let_def)
  qed
qed

lemma message_alloc_and_encode_spec:
  "\<exists>qm. message_alloc_and_encode vs = Some qm \<and> encodes [] vs qm"
proof -
  have "length (qm_msg message_alloc) = MESSAGE_MAX" by (simp add: message_alloc_def)
  from message_encode_loop_spec [OF this, of 0 vs] show ?thesis
    by (simp add: message_alloc_and_encode_def)
qed

subsection \<open>Clock estimation\<close>

lemma clock_from_clock32_low: "ucast (clock_from_clock32 ce c) = c"
  by (simp add: clock_from_clock32_def ucast_u32_add ucast_u32_diff)

lemma clock_from_clock32_near:
  "- (2 ^ 31) \<le> sint (clock_from_clock32 ce c - last_clock ce)"
  "sint (clock_from_clock32 ce c - last_clock ce) < 2 ^ 31"
  using sint_u32_range by (simp_all add: clock_from_clock32_def)

lemma clock_from_clock32_unique:
  assumes "- (2 ^ 31) \<le> sint (x - last_clock ce)" "sint (x - last_clock ce) < 2 ^ 31"
  shows "clock_from_clock32 ce (ucast x) = x"
proof -
  have "(ucast (ucast (ucast x :: u32) - last_clock ce) :: u32) = ucast (x - last_clock ce)"
    by (simp add: ucast_u32_diff)
  then show ?thesis
    using scast_ucast_u32 [OF assms] by (simp add: clock_from_clock32_def)
qed

lemma c_trunc_half: "c_trunc (real_of_int k + 1 / 2) = (if 0 \<le> k then k else k + 1)"
  unfolding c_trunc_def by (auto simp: floor_eq_iff ceiling_eq_iff)

lemma clock_roundtrip:
  assumes "0 < est_freq ce"
  shows "clock_from_time ce (clock_to_time ce c)
    = (if 0 \<le> sint (c - conv_clock ce) then c else c + 1)"
proof -
  let ?d = "sint (c - conv_clock ce)"
  have eq: "(clock_to_time ce c - conv_time ce) * est_freq ce = real_of_int ?d"
    using assms by (simp add: clock_to_time_def)
  show ?thesis
    unfolding clock_from_time_def eq c_trunc_half by simp
qed

subsection \<open>Properties\<close>

text \<open>
  Integers survive the link in both directions. Whatever sequence of words one end encodes, the
  argument loop of the other end reads back exactly that sequence and stops right behind it.
\<close>

theorem vlq_link_roundtrip:
  "parse_many parse_int (length vs) (concat (map host_encode_int vs) @ p) = Some (vs, p) \<and>
   parse_many host_parse_int (length vs) (concat (map encode_int vs) @ p) = Some (vs, p)"
proof -
  have "host_encode_int = encode_int" "host_parse_int = parse_int"
    by (auto simp: host_encode_int_eq host_parse_int_eq)
  then show ?thesis using mcu_int.parse_many_enc by simp
qed

text \<open>
  C30: The host accepts exactly the first well formed block of its input: on a buffer that starts with
  one it returns that block's length, and any positive result is the length of a well formed block
  at the start of the buffer.
\<close>

theorem msgblock_check_correct:
  "(valid_block b \<longrightarrow> msgblock_check 0 (b @ rest) = (int (length b), 0)) \<and>
   (msgblock_check need_sync buf = (n, ns) \<and> 0 < n \<longrightarrow>
      need_sync = 0 \<and> ns = 0 \<and> nat n \<le> length buf \<and> valid_block (take (nat n) buf))"
  using msgblock_check_valid msgblock_check_sound by auto

theorem msgblock_check_correct_witness:
  "msgblock_check 0 ([7, 0x10, 1, 2, 0xEB, 0x5F, 0x7E] @ [9, 9]) = (7, 0) \<and>
   valid_block (take 7 [7, 0x10, 1, 2, 0xEB, 0x5F, 0x7E, 9, 9])"
proof -
  have v: "valid_block [7, 0x10, 1, 2, 0xEB, 0x5F, 0x7E]" by code_simp
  have c: "msgblock_check 0 ([7, 0x10, 1, 2, 0xEB, 0x5F, 0x7E] @ [9, 9]) = (7, 0)"
    using msgblock_check_correct [of "[7, 0x10, 1, 2, 0xEB, 0x5F, 0x7E]" "[9, 9]" 0 "[]" 0 0] v by simp
  with msgblock_check_correct [of "[]" "[]" 0 "[7, 0x10, 1, 2, 0xEB, 0x5F, 0x7E, 9, 9]" 7 0]
  show ?thesis by simp
qed

text \<open>
  Resynchronisation stops at the first SYNC: when the check rejects input, what it discards ends with
  the first SYNC byte of the buffer, or is the whole buffer if it has none, in which case the
  search goes on.
\<close>

theorem msgblock_check_discards_to_sync:
  assumes "msgblock_check need_sync buf = (n, ns)" "n < 0"
  shows "nat (- n) \<le> length buf \<and> MESSAGE_SYNC \<notin> set (take (nat (- n) - 1) buf) \<and>
    (if ns = 0 then buf ! (nat (- n) - 1) = MESSAGE_SYNC
     else nat (- n) = length buf \<and> MESSAGE_SYNC \<notin> set buf)"
  using assms by (rule msgblock_check_discard)

theorem msgblock_check_discards_to_sync_witness:
  "msgblock_check 0 [1, 2, 0x7E, 4, 5] = (- 3, 0) \<and> [1, 2, 0x7E, 4, 5 :: u8] ! 2 = MESSAGE_SYNC"
proof -
  have c: "msgblock_check 0 [1, 2, 0x7E, 4, 5] = (- 3, 0)" by code_simp
  from msgblock_check_discards_to_sync [OF this] c show ?thesis by simp
qed

text \<open>
  The receiver makes progress: a buffer of \<open>MESSAGE_MAX\<close> bytes or more is never answered with
  "need more data".
\<close>

theorem msgblock_check_makes_progress:
  assumes "MESSAGE_MAX \<le> length buf"
  shows "fst (msgblock_check need_sync buf) \<noteq> 0"
  using assms by (rule msgblock_check_progress)

theorem msgblock_check_makes_progress_witness:
  "fst (msgblock_check 0 (replicate 64 (0x40 :: u8))) \<noteq> 0"
  using msgblock_check_makes_progress [of "replicate 64 0x40" 0] by simp

text \<open>
  Decoding the integers of a block recovers the words that were encoded into it, and decoding a
  well formed block never reads behind its end, however many words are asked for and whatever the
  payload holds.
\<close>

theorem msgblock_decode_correct:
  "msgblock_decode (length vs) (mk_block seq (concat (map host_encode_int vs))) = Some (0, vs) \<and>
   (valid_block msg \<longrightarrow> msgblock_decode n msg \<noteq> None)"
  using msgblock_decode_block msgblock_decode_total by blast

theorem msgblock_decode_correct_witness:
  "msgblock_decode 9 [7, 0x10, 0x81, 0x82, 0xE3, 0x9B, 0x7E] \<noteq> None"
proof -
  have "valid_block [7, 0x10, 0x81, 0x82, 0xE3, 0x9B, 0x7E]" by code_simp
  with msgblock_decode_correct [of "[]" 0 "[7, 0x10, 0x81, 0x82, 0xE3, 0x9B, 0x7E]" 9]
  show ?thesis by blast
qed

text \<open>
  Encoding a message never writes outside the 64 bytes of \<open>msg\<close>; it yields the encoding of all
  the words when that fits into a payload, and the empty message otherwise.
\<close>

theorem message_encode_bounded:
  "\<exists>qm. message_alloc_and_encode vs = Some qm \<and> length (qm_msg qm) = MESSAGE_MAX \<and>
     (let body = concat (map host_encode_int vs)
      in if length body \<le> MESSAGE_PAYLOAD_MAX
         then qm_len qm = length body \<and> take (qm_len qm) (qm_msg qm) = body
         else qm_len qm = 0)"
  using message_alloc_and_encode_spec [of vs] by (simp add: encodes_def)

text \<open>
  Widening a 32-bit clock of the micro-controller gives a 64-bit clock with those low bits, and it
  is the right one for every clock within half a turn of the last one seen.
\<close>

theorem clock32_widening:
  "ucast (clock_from_clock32 ce c) = c \<and>
   (- (2 ^ 31) \<le> sint (x - last_clock ce) \<and> sint (x - last_clock ce) < 2 ^ 31 \<longrightarrow>
      clock_from_clock32 ce (ucast x) = x)"
  using clock_from_clock32_low clock_from_clock32_unique by blast

theorem clock32_widening_witness:
  "clock_from_clock32 \<lparr>last_clock = 0xFFFFFFF0, conv_clock = 0, conv_time = 0, est_freq = 1\<rparr>
     (ucast (0x100000005 :: u64)) = 0x100000005"
  using clock32_widening
    [of "\<lparr>last_clock = 0xFFFFFFF0, conv_clock = 0, conv_time = 0, est_freq = 1\<rparr>" 0 "0x100000005"]
  by simp

text \<open>
  C31: Converting a clock to a time and back gives the clock again when it is not before the clock of
  the estimate; for an earlier one the truncation in \<open>clock_from_time\<close> gives its successor.
\<close>

theorem clock_time_roundtrip:
  assumes "0 < est_freq ce"
  shows "clock_from_time ce (clock_to_time ce c)
    = (if 0 \<le> sint (c - conv_clock ce) then c else c + 1)"
  using assms by (rule clock_roundtrip)

theorem clock_time_roundtrip_witness:
  "clock_from_time \<lparr>last_clock = 0, conv_clock = 1000, conv_time = 5, est_freq = 20\<rparr>
     (clock_to_time \<lparr>last_clock = 0, conv_clock = 1000, conv_time = 5, est_freq = 20\<rparr> 990) = 991"
  using clock_time_roundtrip
    [of "\<lparr>last_clock = 0, conv_clock = 1000, conv_time = 5, est_freq = 20\<rparr>" 990]
  by simp

end
