(* ===== verification/Sched.thy ===== *)
theory Sched
  imports Prelude
begin

text \<open>
  The scheduler of the firmware, \<open>sched.c\<close>, on top of the board interface it calls
  (\<open>generic/timer_irq.c\<close>, \<open>board/misc.h\<close>, \<open>board/gpio.h\<close>). The table of static strings that the
  build generates is the field \<open>static_id\<close>.

  The pending timers are the linked list of the C code: \<open>struct timer\<close> objects live in a heap of
  \<open>next\<close>, \<open>func\<close> and \<open>waketime\<close> fields indexed by their address (\<open>tptr\<close>), and every operation
  updates those fields as the code does. Reading the hardware counter is an oracle: the \<open>n\<close>-th
  call of \<open>timer_read_time()\<close> returns \<open>hw_clock n\<close>; likewise for input pins. Interrupt masking
  (\<open>irq_save\<close>, \<open>irq_disable\<close>, \ldots) is not part of the state: each operation is one atomic step,
  which is what the masking gives. \<open>sendf()\<close> appends to the log of responses; how a response
  becomes bytes is the subject of the theory \<open>Command\<close>.
\<close>

subsection \<open>The board\<close>

record board =
  clock_freq :: u32
  static_id :: "string \<Rightarrow> u32"
  hw_clock :: "nat \<Rightarrow> u32"
  clock_reads :: nat
  pin_in :: "nat \<Rightarrow> bool"
  pin_reads :: nat
  pin_out :: "u32 \<Rightarrow> bool"
  pwm_out :: "u32 \<Rightarrow> u16"
  sent :: "(string \<times> u32 list) list"
  kicks :: nat

definition timer_from_us :: "u32 \<Rightarrow> u32 \<Rightarrow> u32" where
  "timer_from_us freq us = us * (freq div 1000000)"

definition timer_is_before :: "u32 \<Rightarrow> u32 \<Rightarrow> bool" where
  "timer_is_before time1 time2 \<longleftrightarrow> sint (time1 - time2) < 0"

definition timer_read_time :: "('a board_scheme, u32) op" where
  "timer_read_time = (\<lambda>s. Ret (hw_clock s (clock_reads s)) (s\<lparr>clock_reads := Suc (clock_reads s)\<rparr>))"

definition timer_kick :: "('a board_scheme, unit) op" where
  "timer_kick = set_op (\<lambda>s. s\<lparr>kicks := Suc (kicks s)\<rparr>)"

definition gpio_in_read :: "('a board_scheme, bool) op" where
  "gpio_in_read = (\<lambda>s. Ret (pin_in s (pin_reads s)) (s\<lparr>pin_reads := Suc (pin_reads s)\<rparr>))"

text \<open>\<open>gpio_out_setup()\<close> drives the pin to its first value; the handle is the pin.\<close>

definition gpio_out_setup :: "u32 \<Rightarrow> bool \<Rightarrow> ('a board_scheme, u32) op" where
  "gpio_out_setup pin v = then_op (set_op (\<lambda>s. s\<lparr>pin_out := (pin_out s)(pin := v)\<rparr>)) (ret pin)"

definition gpio_out_write :: "u32 \<Rightarrow> bool \<Rightarrow> ('a board_scheme, unit) op" where
  "gpio_out_write pin v = set_op (\<lambda>s. s\<lparr>pin_out := (pin_out s)(pin := v)\<rparr>)"

definition gpio_out_toggle_noirq :: "u32 \<Rightarrow> ('a board_scheme, unit) op" where
  "gpio_out_toggle_noirq pin = set_op (\<lambda>s. s\<lparr>pin_out := (pin_out s)(pin := \<not> pin_out s pin)\<rparr>)"

definition gpio_pwm_write :: "u32 \<Rightarrow> u16 \<Rightarrow> ('a board_scheme, unit) op" where
  "gpio_pwm_write pin v = set_op (\<lambda>s. s\<lparr>pwm_out := (pwm_out s)(pin := v)\<rparr>)"

definition sendf :: "string \<Rightarrow> u32 list \<Rightarrow> ('a board_scheme, unit) op" where
  "sendf fmt args = set_op (\<lambda>s. s\<lparr>sent := sent s @ [(fmt, args)]\<rparr>)"

subsection \<open>Timers, tasks and shutdown: the state\<close>

text \<open>
  The address of a \<open>struct timer\<close>: one of the scheduler's own, or a field of an object of another
  module, given by the field and the address of the object.
\<close>

datatype timer_slot =
    Stepper_time | Trsync_report_time | Trsync_expire_time | Endstop_time | Digital_time
  | Pwm_time | Analog_time | Buttons_time | Counter_time

datatype tptr = Periodic_timer | Sentinel_timer | Deleted_timer | Obj_timer timer_slot nat

datatype timer_func =
    Null_func
  | Periodic_event | Sentinel_event | Deleted_event
  | Stepper_event_full | Stepper_event_edge | Stepper_event_avr
  | Trsync_report_event | Trsync_expire_event
  | Endstop_event | Endstop_oversample_event
  | Digital_toggle_event | Digital_load_event
  | Pwm_event | Pwm_end_event
  | Analog_in_event | Buttons_event | Counter_event

datatype sf = SF_DONE | SF_RESCHEDULE

record sched = board +
  t_next :: "tptr \<Rightarrow> tptr option"
  t_func :: "tptr \<Rightarrow> timer_func"
  t_wake :: "tptr \<Rightarrow> u32"
  timer_list :: tptr
  last_insert :: tptr
  tasks_status :: int
  shutdown_status :: u8
  shutdown_reason :: string
  task_wake :: "string \<Rightarrow> bool"
  timer_repeat_until :: u32

abbreviation (input) TS_IDLE :: int where "TS_IDLE \<equiv> - 1"
abbreviation (input) TS_REQUESTED :: int where "TS_REQUESTED \<equiv> 0"
abbreviation (input) TS_RUNNING :: int where "TS_RUNNING \<equiv> 1"

text \<open>The static initialisers of \<open>sched.c\<close>, over a given board and zeroed memory.\<close>

definition sched_init :: "sched \<Rightarrow> sched" where
  "sched_init b = b\<lparr>
     t_next := (\<lambda>_. None)(Periodic_timer \<mapsto> Sentinel_timer),
     t_func := (\<lambda>_. Null_func)(Periodic_timer := Periodic_event, Sentinel_timer := Sentinel_event,
                  Deleted_timer := Deleted_event),
     t_wake := (\<lambda>_. 0)(Sentinel_timer := 0x80000000),
     timer_list := Periodic_timer, last_insert := Periodic_timer,
     tasks_status := 0, shutdown_status := 0, shutdown_reason := [], task_wake := (\<lambda>_. False),
     timer_repeat_until := 0\<rparr>"

subsection \<open>Tasks\<close>

definition sched_wake_tasks :: "('a sched_scheme, unit) op" where
  "sched_wake_tasks = set_op (\<lambda>s. s\<lparr>tasks_status := TS_REQUESTED\<rparr>)"

definition sched_tasks_busy :: "('a sched_scheme, bool) op" where
  "sched_tasks_busy = get_op (\<lambda>s. tasks_status s \<ge> TS_REQUESTED)"

definition sched_wake_task :: "string \<Rightarrow> ('a sched_scheme, unit) op" where
  "sched_wake_task w =
     then_op sched_wake_tasks (set_op (\<lambda>s. s\<lparr>task_wake := (task_wake s)(w := True)\<rparr>))"

definition sched_check_wake :: "string \<Rightarrow> ('a sched_scheme, bool) op" where
  "sched_check_wake w =
     bind_op (get_op (\<lambda>s. task_wake s w)) (\<lambda>wake.
       if \<not> wake then ret False
       else then_op (set_op (\<lambda>s. s\<lparr>task_wake := (task_wake s)(w := False)\<rparr>)) (ret True))"

subsection \<open>Shutdown requests\<close>

definition sched_is_shutdown :: "'a sched_scheme \<Rightarrow> bool" where
  "sched_is_shutdown s \<longleftrightarrow> shutdown_status s \<noteq> 0"

definition sched_try_shutdown :: "string \<Rightarrow> ('a sched_scheme, unit) op" where
  "sched_try_shutdown reason =
     bind_op (get_op shutdown_status) (\<lambda>st. if st = 0 then shutdown_op reason else ret ())"

definition sched_clear_shutdown :: "('a sched_scheme, unit) op" where
  "sched_clear_shutdown =
     bind_op (get_op shutdown_status) (\<lambda>st.
       if st = 0 then shutdown_op ''Shutdown cleared when not shutdown''
       else if st = 2 then ret ()
       else set_op (\<lambda>s. s\<lparr>shutdown_status := 0\<rparr>))"

definition sched_report_shutdown :: "('a sched_scheme, unit) op" where
  "sched_report_shutdown =
     bind_op (get_op (\<lambda>s. static_id s (shutdown_reason s))) (\<lambda>rid.
       sendf ''is_shutdown static_string_id=%hu'' [rid])"

subsection \<open>Timers\<close>

text \<open>The loop of \<open>insert_timer\<close>: the position \<open>(prev, pos)\<close> at which it stops.\<close>

partial_function (option) insert_pos ::
  "(tptr \<Rightarrow> tptr option) \<Rightarrow> (tptr \<Rightarrow> u32) \<Rightarrow> u32 \<Rightarrow> tptr \<Rightarrow> (tptr \<times> tptr) option" where
  "insert_pos nxt wk waketime pos =
     (case nxt pos of
        None \<Rightarrow> None
      | Some pos' \<Rightarrow>
          if timer_is_before waketime (wk pos') then Some (pos, pos')
          else insert_pos nxt wk waketime pos')"

definition insert_timer :: "tptr \<Rightarrow> tptr \<Rightarrow> u32 \<Rightarrow> ('a sched_scheme, unit) op" where
  "insert_timer pos t waketime =
     bind_op (get_op (\<lambda>s. insert_pos (t_next s) (t_wake s) waketime pos)) (\<lambda>r.
     bind_op (option_op r) (\<lambda>(prev, pos).
       set_op (\<lambda>s. s\<lparr>t_next := (t_next s)(t \<mapsto> pos, prev \<mapsto> t)\<rparr>)))"

definition sched_add_timer :: "tptr \<Rightarrow> ('a sched_scheme, unit) op" where
  "sched_add_timer add =
     bind_op (get_op (\<lambda>s. t_wake s add)) (\<lambda>waketime.
     bind_op (get_op timer_list) (\<lambda>tl.
     bind_op (get_op (\<lambda>s. t_wake s tl)) (\<lambda>tlw.
       if timer_is_before waketime tlw then
         bind_op timer_read_time (\<lambda>now.
         then_op (if timer_is_before waketime now then sched_try_shutdown ''Timer too close''
                  else ret ())
         (then_op
            (set_op (\<lambda>s. s\<lparr>t_next := (t_next s)(add :=
                        (if tl = Deleted_timer then t_next s Deleted_timer else Some tl))\<rparr>))
         (then_op
            (set_op (\<lambda>s. s\<lparr>t_wake := (t_wake s)(Deleted_timer := waketime),
                          t_next := (t_next s)(Deleted_timer \<mapsto> add),
                          timer_list := Deleted_timer\<rparr>))
            timer_kick)))
       else insert_timer tl add waketime)))"

text \<open>
  The unlinking loop of \<open>sched_del_timer\<close>. It stops at the first node whose successor is \<open>del\<close> or
  at the end of the list; the value is the node to relink, if any.
\<close>

partial_function (option) del_pos ::
  "(tptr \<Rightarrow> tptr option) \<Rightarrow> tptr \<Rightarrow> tptr \<Rightarrow> tptr option option" where
  "del_pos nxt del pos =
     (case nxt pos of
        None \<Rightarrow> Some None
      | Some pos' \<Rightarrow> if pos' = del then Some (Some pos) else del_pos nxt del pos')"

definition sched_del_timer :: "tptr \<Rightarrow> ('a sched_scheme, unit) op" where
  "sched_del_timer del =
     then_op
       (bind_op (get_op timer_list) (\<lambda>tl.
          if tl = del then
            set_op (\<lambda>s. s\<lparr>t_wake := (t_wake s)(Deleted_timer := t_wake s del),
                          t_next := (t_next s)(Deleted_timer := t_next s del),
                          timer_list := Deleted_timer\<rparr>)
          else
            bind_op (get_op (\<lambda>s. del_pos (t_next s) del tl)) (\<lambda>r.
            bind_op (option_op r) (\<lambda>p.
              case p of
                None \<Rightarrow> ret ()
              | Some pos \<Rightarrow> set_op (\<lambda>s. s\<lparr>t_next := (t_next s)(pos := t_next s del)\<rparr>)))))
       (set_op (\<lambda>s. if last_insert s = del then s\<lparr>last_insert := Periodic_timer\<rparr> else s))"

definition periodic_event :: "('a sched_scheme, sf) op" where
  "periodic_event =
     then_op sched_wake_tasks
     (then_op
        (set_op (\<lambda>s. let w = t_wake s Periodic_timer + timer_from_us (clock_freq s) 100000
                     in s\<lparr>t_wake := (t_wake s)(Periodic_timer := w, Sentinel_timer := w + 0x80000000)\<rparr>))
        (ret SF_RESCHEDULE))"

definition sentinel_event :: "('a sched_scheme, sf) op" where
  "sentinel_event = shutdown_op ''sentinel timer called''"

definition deleted_event :: "('a sched_scheme, sf) op" where
  "deleted_event = ret SF_DONE"

text \<open>
  \<open>t->func(t)\<close>: the scheduler's own callbacks, and \<open>user\<close> for those of the other modules (the
  inlined \<open>stepper_event\<close> call of \<open>CONFIG_INLINE_STEPPER_HACK\<close> is one of them, under the
  \<open>Null_func\<close> pointer).
\<close>

definition call_func :: "(timer_func \<Rightarrow> tptr \<Rightarrow> ('a sched_scheme, sf) op) \<Rightarrow> tptr \<Rightarrow> ('a sched_scheme, sf) op" where
  "call_func user t =
     bind_op (get_op (\<lambda>s. t_func s t)) (\<lambda>f.
       case f of
         Periodic_event \<Rightarrow> periodic_event
       | Sentinel_event \<Rightarrow> sentinel_event
       | Deleted_event \<Rightarrow> deleted_event
       | _ \<Rightarrow> user f t)"

definition sched_timer_dispatch ::
  "(timer_func \<Rightarrow> tptr \<Rightarrow> ('a sched_scheme, sf) op) \<Rightarrow> ('a sched_scheme, u32) op" where
  "sched_timer_dispatch user =
     bind_op (get_op timer_list) (\<lambda>t.
     bind_op (call_func user t) (\<lambda>res.
     bind_op (get_op (\<lambda>s. t_wake s t)) (\<lambda>updated_waketime.
     bind_op (get_op (\<lambda>s. t_next s t)) (\<lambda>nx.
     bind_op (option_op nx) (\<lambda>next.
     bind_op (get_op (\<lambda>s. t_wake s next)) (\<lambda>next_wake.
       if res = SF_DONE then
         then_op
           (set_op (\<lambda>s. s\<lparr>timer_list := next,
                         last_insert := (if last_insert s = t then next else last_insert s)\<rparr>))
           (ret next_wake)
       else if \<not> timer_is_before updated_waketime next_wake then
         then_op (set_op (\<lambda>s. s\<lparr>timer_list := next\<rparr>))
         (bind_op (get_op (\<lambda>s. let pos = last_insert s
                               in if timer_is_before updated_waketime (t_wake s pos)
                                  then timer_list s else pos)) (\<lambda>pos.
          then_op (insert_timer pos t updated_waketime)
          (then_op (set_op (\<lambda>s. s\<lparr>last_insert := t\<rparr>)) (ret next_wake))))
       else ret updated_waketime))))))"

definition sched_timer_reset :: "('a sched_scheme, unit) op" where
  "sched_timer_reset =
     then_op
       (set_op (\<lambda>s. s\<lparr>timer_list := Deleted_timer,
                     t_wake := (t_wake s)(Deleted_timer := t_wake s Periodic_timer),
                     t_next := (t_next s)(Deleted_timer \<mapsto> Periodic_timer,
                                          Periodic_timer \<mapsto> Sentinel_timer),
                     last_insert := Periodic_timer\<rparr>))
       timer_kick"

text \<open>Assignments to the fields of a \<open>struct timer\<close> by the modules that own it.\<close>

definition wake_upd :: "tptr \<Rightarrow> (u32 \<Rightarrow> u32) \<Rightarrow> ('a sched_scheme, unit) op" where
  "wake_upd t f = set_op (\<lambda>s. s\<lparr>t_wake := (t_wake s)(t := f (t_wake s t))\<rparr>)"

definition func_set :: "tptr \<Rightarrow> timer_func \<Rightarrow> ('a sched_scheme, unit) op" where
  "func_set t f = set_op (\<lambda>s. s\<lparr>t_func := (t_func s)(t := f)\<rparr>)"

subsection \<open>Shutdown processing\<close>

definition sched_shutdown :: "string \<Rightarrow> ('a sched_scheme, 'r) op" where
  "sched_shutdown reason = shutdown_op reason"

text \<open>\<open>shutdownfuncs\<close> is the generated call list \<open>ctr_run_shutdownfuncs\<close>.\<close>

definition run_shutdown :: "('a sched_scheme, unit) op \<Rightarrow> string \<Rightarrow> ('a sched_scheme, unit) op" where
  "run_shutdown shutdownfuncs reason =
     bind_op timer_read_time (\<lambda>cur.
     then_op (set_op (\<lambda>s. if shutdown_status s = 0 then s\<lparr>shutdown_reason := reason\<rparr> else s))
     (then_op (set_op (\<lambda>s. s\<lparr>shutdown_status := 2\<rparr>))
     (then_op sched_timer_reset
     (then_op shutdownfuncs
     (then_op (set_op (\<lambda>s. s\<lparr>shutdown_status := 1\<rparr>))
     (bind_op (get_op (\<lambda>s. static_id s (shutdown_reason s))) (\<lambda>rid.
       sendf ''shutdown clock=%u static_string_id=%hu'' [cur, rid])))))))"

subsection \<open>The main loop\<close>

text \<open>
  The \<open>do { irq_wait(); } while (...)\<close> of \<open>run_tasks\<close>. \<open>irq_wait\<close> is the board's; it lets the timer
  interrupt run. The loop is given \<open>n\<close> rounds, and \<open>Undef\<close> stands for a processor that sleeps on.
\<close>

fun wait_tasks :: "nat \<Rightarrow> ('a sched_scheme, unit) op \<Rightarrow> ('a sched_scheme, unit) op" where
  "wait_tasks 0 irq_wait = undef_op"
| "wait_tasks (Suc n) irq_wait =
     then_op irq_wait
     (bind_op (get_op tasks_status) (\<lambda>st.
        if st \<noteq> TS_REQUESTED then wait_tasks n irq_wait else ret ()))"

text \<open>
  What the main loop calls but \<open>sched.c\<close> does not define: the interrupt hooks of the board, the
  generated call lists and \<open>stats_update\<close> of \<open>basecmd.c\<close>.
\<close>

record 's main_env =
  irq_poll :: "('s, unit) op"
  irq_wait :: "('s, unit) op"
  run_taskfuncs :: "('s, unit) op"
  run_shutdownfuncs :: "('s, unit) op"
  run_initfuncs :: "('s, unit) op"
  do_stats_update :: "u32 \<Rightarrow> u32 \<Rightarrow> ('s, unit) op"

text \<open>One round of the \<open>for (;;)\<close> of \<open>run_tasks\<close>: the next value of \<open>start\<close>.\<close>

definition run_tasks_round :: "'a sched_scheme main_env \<Rightarrow> nat \<Rightarrow> u32 \<Rightarrow> ('a sched_scheme, u32) op" where
  "run_tasks_round env n start =
     then_op (irq_poll env)
     (bind_op (get_op tasks_status) (\<lambda>st.
      bind_op
        (if st \<noteq> TS_REQUESTED then
           bind_op timer_read_time (\<lambda>t0.
           then_op
             (bind_op (get_op tasks_status) (\<lambda>st'.
                if st' \<noteq> TS_REQUESTED then
                  then_op (set_op (\<lambda>s. s\<lparr>tasks_status := TS_IDLE\<rparr>)) (wait_tasks n (irq_wait env))
                else ret ()))
           (bind_op timer_read_time (\<lambda>t1. ret (start - t0 + t1))))
         else ret start) (\<lambda>start'.
      then_op (set_op (\<lambda>s. s\<lparr>tasks_status := TS_RUNNING\<rparr>))
      (then_op (run_taskfuncs env)
      (bind_op timer_read_time (\<lambda>cur.
       then_op (do_stats_update env start' cur) (ret cur)))))))"

text \<open>
  Where \<open>sched_main\<close> stands: at the \<open>setjmp\<close>, reached first with 0 and then by each \<open>longjmp\<close> with
  its reason, or at the head of the loop of \<open>run_tasks\<close> with the local \<open>start\<close>.
\<close>

datatype main_at = At_setjmp "string option" | At_tasks u32

fun main_step :: "'a sched_scheme main_env \<Rightarrow> nat \<Rightarrow> main_at \<Rightarrow> ('a sched_scheme, main_at) op" where
  "main_step env n (At_setjmp r) =
     then_op (case r of None \<Rightarrow> ret () | Some reason \<Rightarrow> run_shutdown (run_shutdownfuncs env) reason)
     (bind_op timer_read_time (\<lambda>start. ret (At_tasks start)))"
| "main_step env n (At_tasks start) = bind_op (run_tasks_round env n start) (\<lambda>cur. ret (At_tasks cur))"

text \<open>\<open>k\<close> steps of the main loop; a shutdown anywhere continues behind the \<open>setjmp\<close>.\<close>

fun main_loop :: "'a sched_scheme main_env \<Rightarrow> nat \<Rightarrow> nat \<Rightarrow> main_at \<Rightarrow> ('a sched_scheme, main_at) op" where
  "main_loop env n 0 at s = Ret at s"
| "main_loop env n (Suc k) at s =
     (case main_step env n at s of
        Ret at' s' \<Rightarrow> main_loop env n k at' s'
      | Shutdown e s' \<Rightarrow> main_loop env n k (At_setjmp (Some e)) s'
      | Undef \<Rightarrow> Undef)"

definition sched_main :: "'a sched_scheme main_env \<Rightarrow> nat \<Rightarrow> nat \<Rightarrow> ('a sched_scheme, main_at) op" where
  "sched_main env n k =
     then_op (run_initfuncs env) (then_op (sendf ''starting'' []) (main_loop env n k (At_setjmp None)))"

subsection \<open>The timer interrupt (generic/timer_irq.c)\<close>

text \<open>\<open>while (diff > 0) diff = next - timer_read_time();\<close> for at most \<open>n\<close> reads of the counter.\<close>

fun spin_until :: "nat \<Rightarrow> u32 \<Rightarrow> u32 \<Rightarrow> ('a sched_scheme, unit) op" where
  "spin_until 0 nxt diff = (if sint diff > 0 then undef_op else ret ())"
| "spin_until (Suc n) nxt diff =
     (if sint diff > 0 then bind_op timer_read_time (\<lambda>now. spin_until n nxt (nxt - now)) else ret ())"

text \<open>
  \<open>timer_dispatch_many\<close> for at most \<open>k\<close> rounds of its loop. The local \<open>tru\<close> is a copy of
  \<open>timer_repeat_until\<close>. \<open>spin\<close> bounds the busy wait.
\<close>

fun timer_dispatch_loop ::
  "(timer_func \<Rightarrow> tptr \<Rightarrow> ('a sched_scheme, sf) op) \<Rightarrow> nat \<Rightarrow> nat \<Rightarrow> u32 \<Rightarrow> ('a sched_scheme, u32) op" where
  "timer_dispatch_loop user spin 0 tru = undef_op"
| "timer_dispatch_loop user spin (Suc k) tru =
     bind_op (sched_timer_dispatch user) (\<lambda>nxt.
     bind_op timer_read_time (\<lambda>now.
     bind_op (get_op (\<lambda>s. timer_from_us (clock_freq s))) (\<lambda>us.
       let diff = nxt - now
       in if sint diff > sint (us 2) then ret nxt
          else if timer_is_before tru now then
            then_op (if sint diff < sint (- us 1000)
                     then sched_try_shutdown ''Rescheduled timer in the past'' else ret ())
            (bind_op sched_tasks_busy (\<lambda>busy.
               if busy then
                 then_op (set_op (\<lambda>s. s\<lparr>timer_repeat_until := now + us 100\<rparr>)) (ret (now + us 5))
               else
                 then_op (set_op (\<lambda>s. s\<lparr>timer_repeat_until := now + us 500\<rparr>))
                 (then_op (spin_until spin nxt diff)
                    (timer_dispatch_loop user spin k (now + us 500)))))
          else
            then_op (spin_until spin nxt diff) (timer_dispatch_loop user spin k tru))))"

definition timer_dispatch_many ::
  "(timer_func \<Rightarrow> tptr \<Rightarrow> ('a sched_scheme, sf) op) \<Rightarrow> nat \<Rightarrow> nat \<Rightarrow> ('a sched_scheme, u32) op" where
  "timer_dispatch_many user spin k =
     bind_op (get_op timer_repeat_until) (\<lambda>tru. timer_dispatch_loop user spin k tru)"

definition timer_task :: "('a sched_scheme, unit) op" where
  "timer_task =
     bind_op timer_read_time (\<lambda>now.
       set_op (\<lambda>s. if timer_is_before (timer_repeat_until s) now then s\<lparr>timer_repeat_until := now\<rparr> else s))"

end
