(* ===== verification/Timers.thy ===== *)
theory Timers
  imports Sched
begin

text \<open>
  Correctness of the timer list of \<open>sched.c\<close>. The linked structure is abstracted to the list of
  timers it visits; that list is sorted by wake time, where times of the wrapping 32-bit counter
  are compared by their distance \<open>off b\<close> from a base \<open>b\<close>. The lemmas show that adding, deleting,
  resetting and dispatching implement the corresponding operations on sorted lists, that their
  pointer-chasing loops end, and that the fast paths (the search that resumes at \<open>last_insert\<close>,
  the \<open>deleted_timer\<close> stand-in at the head) do not show in the abstract list. The locale
  \<open>timer_queue\<close> is the interface the other firmware modules use.
\<close>

subsection \<open>The abstract timer list\<close>

text \<open>Ticks from the base \<open>b\<close> to \<open>w\<close>, and the order they give to insert a timer behind its equals.\<close>

definition off :: "u32 \<Rightarrow> u32 \<Rightarrow> nat" where "off b w = unat (w - b)"

definition timer_insert :: "('t \<Rightarrow> nat) \<Rightarrow> 't \<Rightarrow> 't list \<Rightarrow> 't list" where
  "timer_insert key t ts = filter (\<lambda>u. key u \<le> key t) ts @ t # filter (\<lambda>u. key t < key u) ts"

text \<open>\<open>links n xs\<close>: following \<open>n\<close> from the first element of \<open>xs\<close> visits the others in order.\<close>

fun links :: "('a \<Rightarrow> 'a option) \<Rightarrow> 'a list \<Rightarrow> bool" where
  "links n [] = True"
| "links n [x] = True"
| "links n (x # y # zs) = (n x = Some y \<and> links n (y # zs))"

text \<open>
  \<open>us\<close> is what a walk from \<open>timer_list\<close> visits before the sentinel; the sentinel is half a turn of
  the counter behind the periodic timer.
\<close>

definition timers_shape :: "tptr list \<Rightarrow> 'a sched_scheme \<Rightarrow> bool" where
  "timers_shape us s \<longleftrightarrow>
     us \<noteq> [] \<and> timer_list s = hd us \<and> links (t_next s) (us @ [Sentinel_timer]) \<and>
     t_next s Sentinel_timer = None \<and> distinct (us @ [Sentinel_timer]) \<and>
     Periodic_timer \<in> set us \<and> Deleted_timer \<notin> set (tl us) \<and> last_insert s \<in> set us \<and>
     t_wake s Sentinel_timer = t_wake s Periodic_timer + 0x80000000"

definition timers_ordered :: "u32 \<Rightarrow> tptr list \<Rightarrow> 'a sched_scheme \<Rightarrow> bool" where
  "timers_ordered b us s \<longleftrightarrow>
     (\<forall>u\<in>set us. off b (t_wake s u) < 2 ^ 31) \<and> sorted (map (\<lambda>u. off b (t_wake s u)) us)"

definition timers_ok :: "u32 \<Rightarrow> tptr list \<Rightarrow> 'a sched_scheme \<Rightarrow> bool" where
  "timers_ok b us s \<longleftrightarrow> timers_shape us s \<and> timers_ordered b us s"

text \<open>The timers that wait to be called: the list without the stand-in for a deleted head.\<close>

definition pending :: "u32 \<Rightarrow> tptr list \<Rightarrow> 'a sched_scheme \<Rightarrow> bool" where
  "pending b ts s \<longleftrightarrow> (\<exists>us. timers_ok b us s \<and> ts = filter (\<lambda>u. u \<noteq> Deleted_timer) us)"

text \<open>What the list operations may change of the state.\<close>

definition timer_frame :: "'a sched_scheme \<Rightarrow> 'a sched_scheme \<Rightarrow> bool" where
  "timer_frame s s' \<longleftrightarrow>
     s' = s\<lparr>t_next := t_next s', t_wake := (t_wake s)(Deleted_timer := t_wake s' Deleted_timer),
        timer_list := timer_list s', last_insert := last_insert s', kicks := kicks s',
        clock_reads := clock_reads s'\<rparr>"

text \<open>
  What a callback has to leave: the same list, still in order behind its head, and a new wake time
  of the head within half a turn of the counter.
\<close>

definition fired_ok :: "u32 \<Rightarrow> tptr \<Rightarrow> tptr list \<Rightarrow> 'a sched_scheme \<Rightarrow> bool" where
  "fired_ok b t us s \<longleftrightarrow>
     timers_shape (t # us) s \<and> timers_ordered b us s \<and> off b (t_wake s t) < 2 ^ 31"

subsection \<open>Comparing times on the wrapping counter\<close>

lemma bit31_iff: "bit (w :: u32) 31 \<longleftrightarrow> 2 ^ 31 \<le> unat w"
proof -
  have "unat w < 2 ^ 32" using unsigned_less [of w] by simp
  then have "unat w div 2 ^ 31 < 2" by (simp add: less_mult_imp_div_less)
  moreover have "bit w 31 \<longleftrightarrow> bit (unat w) 31" by (simp add: bit_unsigned_iff)
  then have "bit w 31 \<longleftrightarrow> odd (unat w div 2 ^ 31)" by (simp only: bit_iff_odd)
  moreover have "2 ^ 31 \<le> unat w \<longleftrightarrow> unat w div 2 ^ 31 \<noteq> 0"
    by (simp add: div_eq_0_iff not_less)
  ultimately show ?thesis
    using \<open>bit w 31 \<longleftrightarrow> odd (unat w div 2 ^ 31)\<close> by (auto simp: less_2_cases_iff)
qed

lemma timer_is_before_iff: "timer_is_before x y \<longleftrightarrow> 2 ^ 31 \<le> unat (x - y)"
  unfolding timer_is_before_def bit31_iff[symmetric]
  by (simp add: sint_uint bit_uint_iff)

lemma off_diff: "off b y \<le> off b x \<Longrightarrow> unat (x - y) = off b x - off b y"
proof -
  assume "off b y \<le> off b x"
  then have "unat ((x - b) - (y - b)) = unat (x - b) - unat (y - b)"
    unfolding off_def by (intro unat_sub) (simp add: word_le_nat_alt)
  then show ?thesis by (simp add: off_def)
qed

lemma unat_uminus: "d \<noteq> 0 \<Longrightarrow> unat (- d :: u32) = 2 ^ 32 - unat d"
proof -
  assume "d \<noteq> 0"
  then have "0 < unat d" by (simp add: word_neq_0_conv unat_gt_0)
  have "(unat d + unat (- d)) mod 2 ^ 32 = 0"
    using unat_word_ariths(1) [of d "- d"] by simp
  moreover have "unat d < 2 ^ 32" "unat (- d) < 2 ^ 32"
    using unsigned_less [of d] unsigned_less [of "- d"] by simp_all
  ultimately show ?thesis using \<open>0 < unat d\<close> by (cases "unat d + unat (- d) < 2 ^ 32") (simp_all add: mod_if split: if_splits)
qed

lemma off_diff': "off b x < off b y \<Longrightarrow> unat (x - y) = 2^32 - (off b y - off b x)"
proof -
  assume a: "off b x < off b y"
  then have "unat (y - x) = off b y - off b x" by (simp add: off_diff)
  moreover have "x - y = - (y - x)" by simp
  moreover have "y - x \<noteq> 0" using a by auto
  ultimately show ?thesis by (metis unat_uminus)
qed

lemma timer_is_before_off:
  assumes "off b x < 2 ^ 31" "off b y < 2 ^ 31"
  shows "timer_is_before x y \<longleftrightarrow> off b x < off b y"
  using assms off_diff[of b y x] off_diff'[of b x y] unfolding timer_is_before_iff by (cases "off b x < off b y") auto

lemma unat_flip31: "2 ^ 31 \<le> unat (d + 0x80000000 :: u32) \<longleftrightarrow> unat d < 2 ^ 31"
proof -
  have "unat (d + 0x80000000) = (unat d + 2 ^ 31) mod 2 ^ 32" by (simp add: unat_word_ariths)
  moreover have "unat d < 2 ^ 32" using unsigned_less [of d] by simp
  ultimately show ?thesis by (cases "unat d < 2 ^ 31") (auto simp: mod_if)
qed

lemma timer_is_before_sentinel:
  assumes "off b w < 2 ^ 31" "off b p < 2 ^ 31"
  shows "timer_is_before w (p + 0x80000000) \<longleftrightarrow> off b p \<le> off b w"
proof -
  have "(w - (p + 0x80000000)) = (w - p) + 0x80000000" by simp
  then have "timer_is_before w (p + 0x80000000) \<longleftrightarrow> \<not> timer_is_before w p"
    unfolding timer_is_before_iff by (simp only: unat_flip31 not_le)
  then show ?thesis using timer_is_before_off[OF assms] by auto
qed

subsection \<open>Linked lists\<close>

lemma links_Cons: "links n (x # xs) \<longleftrightarrow> (xs \<noteq> [] \<longrightarrow> n x = Some (hd xs)) \<and> links n xs"
  by (cases xs) auto

lemma links_append:
  "links n (xs @ ys) \<longleftrightarrow> links n xs \<and> links n ys \<and> (xs \<noteq> [] \<and> ys \<noteq> [] \<longrightarrow> n (last xs) = Some (hd ys))"
  by (induction xs) (auto simp: links_Cons)

lemma links_cong: "(\<And>x. x \<in> set (butlast xs) \<Longrightarrow> n x = m x) \<Longrightarrow> links n xs = links m xs"
proof (induction xs)
  case (Cons a xs)
  then show ?case by (cases "xs = []") (simp_all add: links_Cons)
qed simp

lemma links_upd: "x \<notin> set (butlast xs) \<Longrightarrow> links (n(x := v)) xs = links n xs"
  by (rule links_cong) auto

lemma links_splice:
  assumes "links n (pre @ post)" "pre \<noteq> []" "post \<noteq> []" "distinct (pre @ post)" "t \<notin> set (pre @ post)"
  shows "links (n(t \<mapsto> hd post, last pre \<mapsto> t)) (pre @ t # post)"
proof -
  have d: "distinct (butlast pre @ [last pre])" "last pre \<in> set pre"
    using assms(2,4) by simp_all
  then have "last pre \<notin> set (butlast pre)" by auto
  moreover have "t \<notin> set (butlast pre)" "t \<notin> set (butlast post)" "last pre \<notin> set (butlast post)" "last pre \<noteq> t"
    using assms(4,5) d(2) by (auto dest: in_set_butlastD)
  ultimately show ?thesis
    using assms(1-3) by (simp add: links_append links_Cons links_upd)
qed

lemma insert_pos_links:
  assumes "links n (pos # xs @ [y])" "\<forall>x\<in>set xs. \<not> timer_is_before w (wk x)" "timer_is_before w (wk y)"
  shows "insert_pos n wk w pos = Some (last (pos # xs), y)"
  using assms
proof (induction xs arbitrary: pos)
  case Nil
  then show ?case by (simp add: insert_pos.simps)
next
  case (Cons x xs)
  then show ?case by (subst insert_pos.simps) (simp add: links_Cons)
qed

lemma del_pos_found:
  assumes "links n (pos # xs @ [del])" "del \<notin> set xs"
  shows "del_pos n del pos = Some (Some (last (pos # xs)))"
  using assms
proof (induction xs arbitrary: pos)
  case Nil
  then show ?case by (simp add: del_pos.simps)
next
  case (Cons x xs)
  then show ?case by (subst del_pos.simps) (auto simp: links_Cons)
qed

lemma del_pos_absent:
  assumes "links n (pos # xs)" "del \<notin> set xs" "n (last (pos # xs)) = None"
  shows "del_pos n del pos = Some None"
  using assms
proof (induction xs arbitrary: pos)
  case Nil
  then show ?case by (simp add: del_pos.simps)
next
  case (Cons x xs)
  then show ?case by (subst del_pos.simps) (auto simp: links_Cons)
qed

subsection \<open>Insertion\<close>

lemma filter_sorted_split:
  "sorted (map f xs) \<Longrightarrow> filter (\<lambda>x. f x \<le> (k :: nat)) xs @ filter (\<lambda>x. k < f x) xs = xs"
proof (induction xs)
  case (Cons x xs)
  show ?case
  proof (cases "f x \<le> k")
    case False
    then have "\<forall>y\<in>set xs. k < f y" using Cons.prems by auto
    then have "filter (\<lambda>x. f x \<le> k) xs = []" "filter (\<lambda>x. k < f x) xs = xs"
      by (auto simp: filter_empty_conv filter_id_conv)
    with False show ?thesis by simp
  qed (use Cons in auto)
qed simp

lemma sorted_timer_insert: "sorted (map key ts) \<Longrightarrow> sorted (map key (timer_insert key t ts))"
  by (force simp: timer_insert_def sorted_append sorted_map sorted_wrt_filter)

lemma set_timer_insert [simp]: "set (timer_insert key t ts) = insert t (set ts)"
  by (auto simp: timer_insert_def)

lemma distinct_timer_insert: "distinct ts \<Longrightarrow> t \<notin> set ts \<Longrightarrow> distinct (timer_insert key t ts)"
  by (auto simp: timer_insert_def)

lemma insert_timer_at:
  assumes "links (t_next s) (pos # mid @ [y])" "\<forall>x\<in>set mid. \<not> timer_is_before w (t_wake s x)"
    "timer_is_before w (t_wake s y)"
  shows "insert_timer pos t w s = Ret () (s\<lparr>t_next := (t_next s)(t \<mapsto> y, last (pos # mid) \<mapsto> t)\<rparr>)"
  using insert_pos_links [OF assms] by (simp add: insert_timer_def op_simps)

lemma timers_ordered_before:
  assumes "timers_ordered b us s" "u \<in> set us" "off b w < 2 ^ 31"
  shows "timer_is_before w (t_wake s u) \<longleftrightarrow> off b w < off b (t_wake s u)"
  using assms by (intro timer_is_before_off) (auto simp: timers_ordered_def)

text \<open>Where the search of \<open>insert_timer\<close> ends: before the first later timer, or before the sentinel.\<close>

lemma insert_stop:
  assumes ord: "timers_ordered b us s" and w: "off b w < 2 ^ 31"
    and sent: "t_wake s Sentinel_timer = t_wake s Periodic_timer + 0x80000000"
    and per: "Periodic_timer \<in> set us \<or> t_wake s Periodic_timer = w"
  shows "timer_is_before w (t_wake s (hd (filter (\<lambda>u. off b w < off b (t_wake s u)) us @ [Sentinel_timer])))"
proof (cases "filter (\<lambda>u. off b w < off b (t_wake s u)) us")
  case Nil
  then have "\<forall>u\<in>set us. off b (t_wake s u) \<le> off b w" by (auto simp: filter_empty_conv)
  with per have "off b (t_wake s Periodic_timer) \<le> off b w" by auto
  with w have "timer_is_before w (t_wake s Periodic_timer + 0x80000000)"
    by (subst timer_is_before_sentinel [of b]) auto
  with Nil sent show ?thesis by simp
next
  case (Cons u us')
  then have "u \<in> set us \<and> off b w < off b (t_wake s u)"
    by (metis (no_types, lifting) filter_eq_Cons_iff in_set_conv_decomp)
  with Cons show ?thesis using timers_ordered_before [OF ord _ w] by simp
qed

text \<open>Reinsertion of a timer \<open>t\<close> outside of the list \<open>us\<close>, starting from \<open>pos\<close>.\<close>

lemma insert_timer_sorted:
  assumes ord: "timers_ordered b us s" and w: "off b w < 2 ^ 31" and t: "t_wake s t = w"
    and sent: "t_wake s Sentinel_timer = t_wake s Periodic_timer + 0x80000000"
    and per: "Periodic_timer \<in> set us \<or> t_wake s Periodic_timer = w"
    and lnk: "links (t_next s) (us @ [Sentinel_timer])" and dst: "distinct (us @ [Sentinel_timer])"
    and tn: "t \<notin> set us" "t \<noteq> Sentinel_timer"
    and us: "us \<noteq> []" "\<not> timer_is_before w (t_wake s (hd us))"
    and pos: "pos \<in> set us \<and> \<not> timer_is_before w (t_wake s pos) \<or> pos = t \<and> t_next s t = Some (hd us)"
  shows "\<exists>nx. insert_timer pos t w s = Ret () (s\<lparr>t_next := nx\<rparr>) \<and>
    links nx (timer_insert (\<lambda>u. off b (t_wake s u)) t us @ [Sentinel_timer]) \<and>
    (\<forall>u. u \<notin> set (t # us) \<longrightarrow> nx u = t_next s u)"
proof -
  let ?A = "filter (\<lambda>u. off b (t_wake s u) \<le> off b w) us"
  let ?B = "filter (\<lambda>u. off b w < off b (t_wake s u)) us @ [Sentinel_timer]"
  let ?y = "hd ?B"
  have split: "?A @ ?B = us @ [Sentinel_timer]"
    using filter_sorted_split [of "\<lambda>u. off b (t_wake s u)" us "off b w"] ord
    by (simp add: timers_ordered_def)
  have hdA: "hd us \<in> set ?A" using us timers_ordered_before [OF ord _ w, of "hd us"] by auto
  then have A: "?A \<noteq> []" by (metis empty_iff empty_set)
  have stop: "timer_is_before w (t_wake s ?y)" by (rule insert_stop [OF ord w sent per])
  have run: "\<forall>x\<in>set ?A. \<not> timer_is_before w (t_wake s x)"
    using timers_ordered_before [OF ord _ w] by auto
  have lAB: "links (t_next s) (?A @ ?B)" using lnk by (simp only: split)
  have By: "?B = ?y # tl ?B" by (cases ?B) auto
  have lA: "links (t_next s) (?A @ [?y])"
    using lAB by (subst (asm) By) (simp add: links_append links_Cons)
  have "\<exists>mid. last (pos # mid) = last ?A \<and> links (t_next s) (pos # mid @ [?y]) \<and> set mid \<subseteq> set ?A"
  proof (cases "pos = t \<and> t_next s t = Some (hd us)")
    case True
    have "hd ?A = hd us" using split A by (metis (no_types, lifting) hd_append us(1))
    with True A lA show ?thesis by (intro exI [of _ ?A]) (simp add: links_Cons)
  next
    case False
    with pos have "pos \<in> set ?A" using timers_ordered_before [OF ord _ w, of pos] by auto
    then obtain A0 mid where eq: "?A = A0 @ pos # mid" by (metis split_list)
    with lA have "links (t_next s) (pos # mid @ [?y])" by (simp add: links_append)
    moreover have "last (pos # mid) = last ?A" "set mid \<subseteq> set ?A" using eq by auto
    ultimately show ?thesis by blast
  qed
  then obtain mid where mid: "last (pos # mid) = last ?A" "links (t_next s) (pos # mid @ [?y])" "set mid \<subseteq> set ?A"
    by blast
  have "insert_timer pos t w s = Ret () (s\<lparr>t_next := (t_next s)(t \<mapsto> ?y, last ?A \<mapsto> t)\<rparr>)"
    using insert_timer_at [OF mid(2) _ stop, of t] run mid by auto
  moreover have "links ((t_next s)(t \<mapsto> ?y, last ?A \<mapsto> t)) (?A @ t # ?B)"
    using lAB A dst tn split by (intro links_splice) (auto simp: split)
  moreover have "last ?A \<in> set us" using last_in_set [OF A] by auto
  ultimately show ?thesis
    by (intro exI [of _ "(t_next s)(t \<mapsto> ?y, last ?A \<mapsto> t)"]) (simp add: timer_insert_def t)
qed

lemma timers_ordered_cong:
  "(\<And>u. u \<in> set us \<Longrightarrow> t_wake s' u = t_wake s u) \<Longrightarrow> timers_ordered b us s' = timers_ordered b us s"
  by (auto simp: timers_ordered_def cong: map_cong)

lemma timers_ordered_Cons:
  "timers_ordered b (u # us) s \<longleftrightarrow> off b (t_wake s u) < 2 ^ 31 \<and>
     (\<forall>v\<in>set us. off b (t_wake s u) \<le> off b (t_wake s v)) \<and> timers_ordered b us s"
  by (auto simp: timers_ordered_def)

lemma filter_timer_insert:
  "P t \<Longrightarrow> filter P (timer_insert key t ts) = timer_insert key t (filter P ts)"
  by (simp add: timer_insert_def conj_commute)

lemma timer_insert_first: "\<forall>u\<in>set ts. key t < key u \<Longrightarrow> timer_insert key t ts = t # ts"
  by (simp add: timer_insert_def filter_empty_conv filter_id_conv not_le)

text \<open>Adding in front of the list, behind the (re-used) deleted timer.\<close>

lemma timers_ok_push:
  assumes ok: "timers_ok b us s" and t: "t \<notin> set us" "t \<noteq> Sentinel_timer" "t \<noteq> Deleted_timer"
    and w: "off b (t_wake s t) < off b (t_wake s (hd us))"
    and vs: "vs = (if hd us = Deleted_timer then tl us else us)"
    and s': "s' = s\<lparr>t_next := (t_next s)(t := (if hd us = Deleted_timer then t_next s Deleted_timer else Some (hd us)),
                Deleted_timer \<mapsto> t), t_wake := (t_wake s)(Deleted_timer := t_wake s t), timer_list := Deleted_timer,
                kicks := k, clock_reads := c, last_insert := li\<rparr>"
   and li: "li \<in> insert Deleted_timer (set vs)"
  shows "timers_ok b (Deleted_timer # t # vs) s'"
proof -
  obtain u us' where us: "us = u # us'" using ok by (cases us) (auto simp: timers_ok_def timers_shape_def)
  have P: "Periodic_timer \<in> set vs" using ok us vs by (auto simp: timers_ok_def timers_shape_def)
  have D: "Deleted_timer \<notin> set vs" using ok us vs by (auto simp: timers_ok_def timers_shape_def)
  have "links (t_next s) (vs @ [Sentinel_timer])"
    using ok us vs by (auto simp: timers_ok_def timers_shape_def links_Cons)
  moreover have "(if hd us = Deleted_timer then t_next s Deleted_timer else Some (hd us)) = Some (hd (vs @ [Sentinel_timer]))"
    using ok us vs by (auto simp: timers_ok_def timers_shape_def links_Cons)
  moreover have "t \<notin> set (butlast (vs @ [Sentinel_timer]))" "Deleted_timer \<notin> set (butlast (vs @ [Sentinel_timer]))"
    using D t vs us by (auto split: if_splits)
  ultimately have "links (t_next s') (Deleted_timer # t # vs @ [Sentinel_timer])"
    using t by (simp add: links_Cons s' links_upd)
  then have "timers_shape (Deleted_timer # t # vs) s'"
    using ok us vs t P D li by (auto simp: timers_ok_def timers_shape_def s')
  moreover have "off b (t_wake s t) < off b (t_wake s x)" if "x \<in> set us" for x
    using ok us w that by (fastforce simp: timers_ok_def timers_ordered_Cons)
  moreover have "set vs \<subseteq> set us" "timers_ordered b vs s"
    using ok vs us by (auto simp: timers_ok_def timers_ordered_Cons)
  moreover from this(2) have "timers_ordered b vs s'"
    using D by (subst timers_ordered_cong [of _ _ s]) (auto simp: s')
  moreover have "off b (t_wake s (hd us)) < 2 ^ 31" using ok us by (simp add: timers_ok_def timers_ordered_Cons)
  ultimately show ?thesis
    using D t w by (auto simp: timers_ok_def timers_ordered_Cons s' less_imp_le)
qed

lemma timers_ok_cong:
  assumes "t_next s' = t_next s" "t_wake s' = t_wake s" "timer_list s' = timer_list s" "last_insert s' = last_insert s"
  shows "timers_ok b us s' = timers_ok b us s"
  using assms by (simp add: timers_ok_def timers_shape_def timers_ordered_def)

lemma timers_ok_nonempty: "timers_ok b us s \<Longrightarrow> us \<noteq> [] \<and> hd us \<in> set us \<and> timer_list s = hd us"
  by (auto simp: timers_ok_def timers_shape_def)

lemma sched_add_timer_eval:
  "sched_add_timer t s =
     (if timer_is_before (t_wake s t) (t_wake s (timer_list s)) then
        if timer_is_before (t_wake s t) (hw_clock s (clock_reads s)) \<and> shutdown_status s = 0
        then Shutdown ''Timer too close'' (s\<lparr>clock_reads := Suc (clock_reads s)\<rparr>)
        else Ret () (s\<lparr>clock_reads := Suc (clock_reads s),
          t_next := (t_next s)(t := (if timer_list s = Deleted_timer then t_next s Deleted_timer
                                     else Some (timer_list s)), Deleted_timer \<mapsto> t),
          t_wake := (t_wake s)(Deleted_timer := t_wake s t), timer_list := Deleted_timer,
          kicks := Suc (kicks s)\<rparr>)
      else insert_timer (timer_list s) t (t_wake s t) s)"
  by (simp add: sched_add_timer_def op_simps timer_read_time_def timer_kick_def sched_try_shutdown_def)

lemma sched_add_timer_behind:
  assumes ok: "timers_ok b us s" and t: "t \<notin> set us" "t \<noteq> Sentinel_timer" "t \<noteq> Deleted_timer"
    and w: "off b (t_wake s t) < 2 ^ 31" and bef: "\<not> timer_is_before (t_wake s t) (t_wake s (hd us))"
  shows "\<exists>s'. sched_add_timer t s = Ret () s' \<and> timer_frame s s' \<and>
    timers_ok b (timer_insert (\<lambda>u. off b (t_wake s u)) t us) s'"
proof -
  let ?us = "timer_insert (\<lambda>u. off b (t_wake s u)) t us"
  note us = timers_ok_nonempty [OF ok]
  obtain nx where nx: "insert_timer (hd us) t (t_wake s t) s = Ret () (s\<lparr>t_next := nx\<rparr>)"
      "links nx (?us @ [Sentinel_timer])" "\<forall>u. u \<notin> set (t # us) \<longrightarrow> nx u = t_next s u"
    using insert_timer_sorted [of b us s "t_wake s t" t "hd us"] ok t w bef us
    by (auto simp: timers_ok_def timers_shape_def)
  let ?s = "s\<lparr>t_next := nx\<rparr>"
  have "sched_add_timer t s = Ret () ?s"
    using us bef nx(1) by (simp add: sched_add_timer_eval)
  moreover have "timer_frame s ?s"
    by (simp add: timer_frame_def)
  moreover have "hd us \<in> set (filter (\<lambda>u. off b (t_wake s u) \<le> off b (t_wake s t)) us)"
    using us bef ok timers_ordered_before [of b us s "hd us" "t_wake s t"] w by (auto simp: timers_ok_def)
  then have "hd ?us = hd us"
    using us by (cases us) (auto simp: timer_insert_def)
  moreover have "Deleted_timer \<notin> set (tl ?us)"
  proof -
    have "tl ?us = timer_insert (\<lambda>u. off b (t_wake s u)) t (tl us)"
      using us \<open>hd us \<in> set (filter _ us)\<close> by (cases us) (auto simp: timer_insert_def)
    then show ?thesis using ok t by (auto simp: timers_ok_def timers_shape_def)
  qed
  moreover have "timers_ordered b ?us ?s"
    using ok w sorted_timer_insert by (auto simp: timers_ok_def timers_ordered_def)
  ultimately have "timers_ok b ?us ?s"
    using ok nx t by (auto simp: timers_ok_def timers_shape_def distinct_timer_insert timer_insert_def)
  with \<open>sched_add_timer t s = Ret () ?s\<close> \<open>timer_frame s ?s\<close> show ?thesis by blast
qed

lemma sched_add_timer_front:
  assumes ok: "timers_ok b us s" and t: "t \<notin> set us" "t \<noteq> Sentinel_timer" "t \<noteq> Deleted_timer"
    and w: "off b (t_wake s t) < 2 ^ 31" and bef: "timer_is_before (t_wake s t) (t_wake s (hd us))"
    and late: "\<not> timer_is_before (t_wake s t) (hw_clock s (clock_reads s)) \<or> shutdown_status s \<noteq> 0"
  shows "\<exists>s'. sched_add_timer t s = Ret () s' \<and> timer_frame s s' \<and>
    timers_ok b (Deleted_timer # t # (if hd us = Deleted_timer then tl us else us)) s'"
proof -
  note us = timers_ok_nonempty [OF ok]
  let ?s = "s\<lparr>t_next := (t_next s)(t := (if hd us = Deleted_timer then t_next s Deleted_timer else Some (hd us)),
                Deleted_timer \<mapsto> t), t_wake := (t_wake s)(Deleted_timer := t_wake s t), timer_list := Deleted_timer,
                kicks := Suc (kicks s), clock_reads := Suc (clock_reads s), last_insert := last_insert s\<rparr>"
  have "off b (t_wake s t) < off b (t_wake s (hd us))"
    using bef ok us timers_ordered_before [of b us s "hd us" "t_wake s t"] w by (auto simp: timers_ok_def)
  moreover have "last_insert s \<in> insert Deleted_timer (set (if hd us = Deleted_timer then tl us else us))"
    using ok us by (cases us) (auto simp: timers_ok_def timers_shape_def)
  ultimately have "timers_ok b (Deleted_timer # t # (if hd us = Deleted_timer then tl us else us)) ?s"
    by (rule timers_ok_push [OF ok t _ refl refl])
  moreover have "sched_add_timer t s = Ret () ?s"
    using us bef late t unfolding sched_add_timer_eval by (simp add: fun_upd_twist)
  moreover have "timer_frame s ?s" by (simp add: timer_frame_def)
  ultimately show ?thesis by blast
qed

lemma sched_add_timer_late:
  assumes "timers_ok b us s" "timer_is_before (t_wake s t) (t_wake s (hd us))"
    "timer_is_before (t_wake s t) (hw_clock s (clock_reads s))" "shutdown_status s = 0"
  shows "sched_add_timer t s = Shutdown ''Timer too close'' (s\<lparr>clock_reads := Suc (clock_reads s)\<rparr>)"
  using assms timers_ok_nonempty [OF assms(1)]
  by (simp add: sched_add_timer_eval)

lemma filter_front:
  assumes "timers_ok b us s"
  shows "filter (\<lambda>u. u \<noteq> Deleted_timer) (if hd us = Deleted_timer then tl us else us) = filter (\<lambda>u. u \<noteq> Deleted_timer) us"
  using timers_ok_nonempty [OF assms] by (cases us) auto

lemma sched_add_timer_pending:
  assumes p: "pending b ts s" and t: "t \<notin> set ts" "t \<noteq> Sentinel_timer" "t \<noteq> Deleted_timer"
    and w: "off b (t_wake s t) < 2 ^ 31"
  shows "(\<exists>s'. sched_add_timer t s = Ret () s' \<and> timer_frame s s' \<and>
            pending b (timer_insert (\<lambda>u. off b (t_wake s u)) t ts) s') \<or>
         (sched_add_timer t s = Shutdown ''Timer too close'' (s\<lparr>clock_reads := Suc (clock_reads s)\<rparr>) \<and>
            timer_is_before (t_wake s t) (hw_clock s (clock_reads s)) \<and> shutdown_status s = 0)"
proof -
  obtain us where ok: "timers_ok b us s" and ts: "ts = filter (\<lambda>u. u \<noteq> Deleted_timer) us"
    using p by (auto simp: pending_def)
  then have tu: "t \<notin> set us" using t by auto
  let ?key = "\<lambda>u. off b (t_wake s u)"
  note us = timers_ok_nonempty [OF ok]
  show ?thesis
  proof (cases "timer_is_before (t_wake s t) (t_wake s (hd us))")
    case True
    have "?key t < ?key (hd us)"
      using True ok us timers_ordered_before [of b us s "hd us" "t_wake s t"] w by (auto simp: timers_ok_def)
    moreover have "\<forall>u\<in>set us. ?key (hd us) \<le> ?key u"
      using ok us by (cases us) (auto simp: timers_ok_def timers_ordered_Cons)
    ultimately have "\<forall>u\<in>set ts. ?key t < ?key u" using ts by fastforce
    then have eq: "timer_insert ?key t ts = filter (\<lambda>u. u \<noteq> Deleted_timer)
        (Deleted_timer # t # (if hd us = Deleted_timer then tl us else us))"
      using t by (simp only: timer_insert_first) (simp add: filter_front [OF ok] ts)
    show ?thesis
    proof (cases "timer_is_before (t_wake s t) (hw_clock s (clock_reads s)) \<and> shutdown_status s = 0")
      case True
      with sched_add_timer_late [OF ok \<open>timer_is_before _ (t_wake s (hd us))\<close>] show ?thesis by blast
    next
      case False
      then show ?thesis
        using sched_add_timer_front [OF ok tu t(2,3) w True] unfolding pending_def eq by metis
    qed
  next
    case False
    have "timer_insert ?key t ts = filter (\<lambda>u. u \<noteq> Deleted_timer) (timer_insert ?key t us)"
      using t by (simp add: ts filter_timer_insert)
    with sched_add_timer_behind [OF ok tu t(2,3) w False] show ?thesis
      unfolding pending_def by metis
  qed
qed

subsection \<open>Deletion\<close>

lemma timers_ordered_filter: "timers_ordered b us s \<Longrightarrow> timers_ordered b (filter P us) s"
  by (auto simp: timers_ordered_def sorted_wrt_filter sorted_map)

lemma links_del:
  assumes "links n (pre @ d # post)" "pre \<noteq> []" "post \<noteq> []" "distinct (pre @ d # post)"
  shows "links (n(last pre := n d)) (pre @ post)"
proof -
  have d: "distinct (butlast pre @ [last pre])" "last pre \<in> set pre"
    using assms(2,4) by simp_all
  then have "last pre \<notin> set (butlast pre)" "last pre \<notin> set (butlast post)"
    using assms(4) by (auto dest: in_set_butlastD)
  then show ?thesis using assms(1-3) by (simp add: links_append links_Cons links_upd)
qed

text \<open>The head of the list is replaced by the deleted timer.\<close>

lemma timers_ok_del_head:
  assumes ok: "timers_ok b (t # us) s" and t: "t \<noteq> Periodic_timer" "t \<noteq> Deleted_timer"
   and s': "s' = s\<lparr>t_wake := (t_wake s)(Deleted_timer := t_wake s t),
      t_next := (t_next s)(Deleted_timer := t_next s t), timer_list := Deleted_timer,
      last_insert := li\<rparr>"
   and li: "li \<in> set us"
  shows "timers_ok b (Deleted_timer # us) s'"
proof -
  have D: "Deleted_timer \<notin> set us" "Deleted_timer \<notin> set (butlast (us @ [Sentinel_timer]))"
    using ok by (auto simp: timers_ok_def timers_shape_def)
  then have "timers_ordered b us s' = timers_ordered b us s"
    by (intro timers_ordered_cong) (auto simp: s')
  with D have "timers_ordered b (Deleted_timer # us) s'"
    using ok by (auto simp: timers_ok_def timers_ordered_Cons s')
  moreover have "timers_shape (Deleted_timer # us) s'"
    using ok t D li by (auto simp: timers_ok_def timers_shape_def s' links_Cons links_upd)
  ultimately show ?thesis by (simp add: timers_ok_def)
qed

lemma sched_del_timer_head:
  assumes ok: "timers_ok b (t # us) s" and t: "t \<noteq> Periodic_timer" "t \<noteq> Deleted_timer"
  shows "\<exists>s'. sched_del_timer t s = Ret () s' \<and> timer_frame s s' \<and> timers_ok b (Deleted_timer # us) s'"
proof -
  let ?li = "if last_insert s = t then Periodic_timer else last_insert s"
  let ?s = "s\<lparr>t_wake := (t_wake s)(Deleted_timer := t_wake s t),
      t_next := (t_next s)(Deleted_timer := t_next s t), timer_list := Deleted_timer, last_insert := ?li\<rparr>"
  have "?li \<in> set us" using ok t by (auto simp: timers_ok_def timers_shape_def)
  then have "timers_ok b (Deleted_timer # us) ?s" by (rule timers_ok_del_head [OF ok t refl])
  moreover have "sched_del_timer t s = Ret () ?s"
    using timers_ok_nonempty [OF ok] by (simp add: sched_del_timer_def op_simps)
  moreover have "timer_frame s ?s"
    by (simp add: timer_frame_def)
  ultimately show ?thesis by blast
qed

lemma sched_del_timer_behind:
  assumes ok: "timers_ok b (pre @ t # post) s" and t: "t \<noteq> Periodic_timer" "pre \<noteq> []"
  shows "\<exists>s'. sched_del_timer t s = Ret () s' \<and> timer_frame s s' \<and> timers_ok b (pre @ post) s'"
proof -
  obtain p pre' where pre: "pre = p # pre'" using t(2) by (cases pre) auto
  let ?li = "if last_insert s = t then Periodic_timer else last_insert s"
  let ?nx = "(t_next s)(last pre := t_next s t)"
  let ?s = "s\<lparr>t_next := ?nx, last_insert := ?li\<rparr>"
  have shape: "timers_shape (pre @ t # post) s" using ok by (simp add: timers_ok_def)
  then have d: "distinct (pre @ t # post @ [Sentinel_timer])" by (simp add: timers_shape_def)
  have "links (t_next s) ((pre @ [t]) @ post @ [Sentinel_timer])"
    using shape by (simp add: timers_shape_def)
  then have "links (t_next s) (p # pre' @ [t])" by (simp only: links_append [of _ "pre @ [t]"]) (simp add: pre)
  moreover have "t \<notin> set pre'" using d pre by auto
  ultimately have "del_pos (t_next s) t p = Some (Some (last pre))"
    using del_pos_found pre by blast
  moreover have "timer_list s = p" "p \<noteq> t" using shape pre by (auto simp: timers_shape_def)
  ultimately have "sched_del_timer t s = Ret () ?s"
    by (simp add: sched_del_timer_def op_simps)
  moreover have "timer_frame s ?s"
    by (simp add: timer_frame_def)
  moreover have "links ?nx (pre @ post @ [Sentinel_timer])"
    using shape d t(2) by (intro links_del) (auto simp: timers_shape_def)
  moreover have "last pre \<noteq> Sentinel_timer" using d last_in_set [OF t(2)] by force
  ultimately show ?thesis
    using ok t pre d by (intro exI [of _ ?s])
      (auto simp: timers_ok_def timers_shape_def timers_ordered_def sorted_append)
qed

lemma sched_del_timer_absent:
  assumes ok: "timers_ok b us s" and t: "t \<notin> set us" "t \<noteq> Sentinel_timer"
  shows "sched_del_timer t s = Ret () s"
proof -
  obtain u us' where us: "us = u # us'" using timers_ok_nonempty [OF ok] by (cases us) auto
  have "del_pos (t_next s) t u = Some None"
    using ok us t by (intro del_pos_absent [where xs = "us' @ [Sentinel_timer]"])
      (auto simp: timers_ok_def timers_shape_def)
  then show ?thesis
    using ok us t by (auto simp: sched_del_timer_def op_simps timers_ok_def timers_shape_def)
qed

lemma sched_del_timer_pending:
  assumes p: "pending b ts s" and t: "t \<noteq> Periodic_timer" "t \<noteq> Sentinel_timer" "t \<noteq> Deleted_timer"
  shows "\<exists>s'. sched_del_timer t s = Ret () s' \<and> timer_frame s s' \<and> pending b (removeAll t ts) s'"
proof -
  obtain us where ok: "timers_ok b us s" and ts: "ts = filter (\<lambda>u. u \<noteq> Deleted_timer) us"
    using p by (auto simp: pending_def)
  then have d: "distinct us" by (auto simp: timers_ok_def timers_shape_def)
  show ?thesis
  proof (cases "t \<in> set us")
    case False
    with sched_del_timer_absent [OF ok False t(2)] ts p show ?thesis
      by (intro exI [of _ s]) (simp add: timer_frame_def)
  next
    case True
    then obtain pre post where us: "us = pre @ t # post" by (metis split_list)
    with d have rem: "removeAll t ts = filter (\<lambda>u. u \<noteq> Deleted_timer) (pre @ post)"
      by (simp add: ts)
    show ?thesis
    proof (cases pre)
      case Nil
      have "filter (\<lambda>u. u \<noteq> Deleted_timer) (Deleted_timer # post) = removeAll t ts" using rem Nil by simp
      with us Nil ok sched_del_timer_head [of b t post s] t show ?thesis
        unfolding pending_def by (metis append_Nil)
    next
      case (Cons p pre')
      with us ok sched_del_timer_behind [of b pre t post s] t rem show ?thesis
        unfolding pending_def by (metis list.discI)
    qed
  qed
qed

subsection \<open>Reset, start-up and dispatch\<close>

lemma sched_timer_reset_ok:
  assumes ok: "timers_ok b us s"
  shows "\<exists>s'. sched_timer_reset s = Ret () s' \<and> timer_frame s s' \<and> timers_ok b [Deleted_timer, Periodic_timer] s'"
proof -
  have "Periodic_timer \<in> set us" "t_next s Sentinel_timer = None" "\<forall>u\<in>set us. off b (t_wake s u) < 2 ^ 31"
     "t_wake s Sentinel_timer = t_wake s Periodic_timer + 0x80000000"
    using ok by (simp_all add: timers_ok_def timers_shape_def timers_ordered_def)
  then show ?thesis
    by (simp add: sched_timer_reset_def op_simps timer_kick_def timers_ok_def timers_shape_def timers_ordered_def timer_frame_def)
qed

lemma sched_init_ok: "timers_ok 0 [Periodic_timer] (sched_init s)"
  by (simp add: sched_init_def timers_ok_def timers_shape_def timers_ordered_def off_def)

lemma off_rebase: "off b c \<le> off b w \<Longrightarrow> off c w = off b w - off b c"
  using off_diff [of b c w] by (simp add: off_def)

lemma timers_ordered_rebase:
  assumes "timers_ordered b us s" "\<forall>u\<in>set us. off b c \<le> off b (t_wake s u)"
  shows "timers_ordered c us s"
proof -
  have eq: "off c (t_wake s u) = off b (t_wake s u) - off b c" if "u \<in> set us" for u
    using assms(2) that by (intro off_rebase) auto
  then have "\<forall>u\<in>set us. off c (t_wake s u) < 2 ^ 31"
    using assms(1) by (auto simp: timers_ordered_def intro: le_less_trans)
  moreover have "sorted (map (\<lambda>u. off b (t_wake s u) - off b c) us)"
    using assms(1) by (auto simp: timers_ordered_def sorted_iff_nth_mono intro: diff_le_mono)
  ultimately show ?thesis using eq by (simp add: timers_ordered_def cong: map_cong)
qed

lemma dispatch_done:
  assumes call: "call_func user (timer_list s) s = Ret SF_DONE s1"
    and fired: "fired_ok b (timer_list s) us s1" and np: "timer_list s \<noteq> Periodic_timer"
  shows "\<exists>s2. sched_timer_dispatch user s = Ret (t_wake s2 (timer_list s2)) s2 \<and> timers_ok b us s2 \<and>
    timer_frame s1 s2"
proof -
  let ?t = "timer_list s"
  obtain u vs where us: "us = u # vs" using fired np by (cases us) (auto simp: fired_ok_def timers_shape_def)
  have "t_next s1 ?t = Some u" using fired us by (auto simp: fired_ok_def timers_shape_def)
  then have "sched_timer_dispatch user s = Ret (t_wake s1 u)
      (s1\<lparr>timer_list := u, last_insert := (if last_insert s1 = ?t then u else last_insert s1)\<rparr>)" (is "_ = Ret _ ?s")
    by (simp add: sched_timer_dispatch_def op_simps call)
  moreover have "timers_ok b us ?s"
    using fired np us by (auto simp: fired_ok_def timers_ok_def timers_shape_def timers_ordered_def)
  ultimately show ?thesis by (simp add: timer_frame_def)
qed

lemma dispatch_same:
  assumes call: "call_func user (timer_list s) s = Ret SF_RESCHEDULE s1"
    and fired: "fired_ok b (timer_list s) us s1"
    and bef: "timer_is_before (t_wake s1 (timer_list s)) (t_wake s1 (hd (us @ [Sentinel_timer])))"
  shows "sched_timer_dispatch user s = Ret (t_wake s1 (timer_list s)) s1 \<and> timers_ok b (timer_list s # us) s1"
proof -
  let ?t = "timer_list s"
  have nx: "t_next s1 ?t = Some (hd (us @ [Sentinel_timer]))"
    using fired by (auto simp: fired_ok_def timers_shape_def links_Cons)
  have "off b (t_wake s1 ?t) < off b (t_wake s1 (hd us))" if "us \<noteq> []"
    using bef fired that timers_ordered_before [of b us s1 "hd us" "t_wake s1 ?t"] by (auto simp: fired_ok_def)
  moreover have "\<forall>u\<in>set us. off b (t_wake s1 (hd us)) \<le> off b (t_wake s1 u)"
    using fired by (cases us) (auto simp: fired_ok_def timers_ordered_Cons)
  ultimately have "\<forall>u\<in>set us. off b (t_wake s1 ?t) \<le> off b (t_wake s1 u)" by (cases us) fastforce+
  then have "timers_ok b (?t # us) s1"
    using fired by (simp add: timers_ok_def fired_ok_def timers_ordered_Cons)
  then show ?thesis using nx bef by (simp add: sched_timer_dispatch_def op_simps call)
qed

lemma not_before_half_turn: "timer_is_before w (w + 0x80000000)"
  by (simp add: timer_is_before_iff)

lemma timers_shape_moved:
  assumes shape: "timers_shape (t # us) s" and t: "t \<noteq> Deleted_timer" and us: "us \<noteq> []" "key (hd us) \<le> key t"
    and lnk: "links nx (timer_insert key t us @ [Sentinel_timer])" "nx Sentinel_timer = None"
  shows "timers_shape (timer_insert key t us) (s\<lparr>timer_list := hd us, t_next := nx, last_insert := t\<rparr>)"
proof -
  obtain u vs where u: "us = u # vs" using us(1) by (cases us) auto
  then have "timer_insert key t us = u # timer_insert key t vs" using us(2) by (simp add: timer_insert_def)
  moreover have "distinct (timer_insert key t us)"
    using shape by (intro distinct_timer_insert) (auto simp: timers_shape_def)
  ultimately show ?thesis
    using shape t lnk u by (auto simp: timers_shape_def)
qed

lemma dispatch_move:
  assumes call: "call_func user (timer_list s) s = Ret SF_RESCHEDULE s1"
    and fired: "fired_ok b (timer_list s) us s1" and nd: "timer_list s \<noteq> Deleted_timer"
    and bef: "\<not> timer_is_before (t_wake s1 (timer_list s)) (t_wake s1 (hd (us @ [Sentinel_timer])))"
  shows "\<exists>s2. sched_timer_dispatch user s = Ret (t_wake s2 (timer_list s2)) s2 \<and> timer_frame s1 s2 \<and>
    timers_ok b (timer_insert (\<lambda>u. off b (t_wake s1 u)) (timer_list s) us) s2"
proof -
  let ?t = "timer_list s" and ?w = "t_wake s1 (timer_list s)" and ?key = "\<lambda>u. off b (t_wake s1 u)"
  define s2 where "s2 = s1\<lparr>timer_list := hd us\<rparr>"
  let ?pos = "if timer_is_before ?w (t_wake s1 (last_insert s1)) then hd us else last_insert s1"
  have shape: "timers_shape (?t # us) s1" and ord: "timers_ordered b us s1" and w: "off b ?w < 2 ^ 31"
    using fired by (auto simp: fired_ok_def)
  have us: "us \<noteq> []"
  proof
    assume e: "us = []"
    with shape have "t_wake s1 Sentinel_timer = ?w + 0x80000000" by (auto simp: timers_shape_def)
    with e bef not_before_half_turn show False by simp
  qed
  then have hd: "\<not> timer_is_before ?w (t_wake s1 (hd us))" "t_next s1 ?t = Some (hd us)"
    using bef shape by (auto simp: timers_shape_def links_Cons)
  have pos: "?pos \<in> set us \<and> \<not> timer_is_before ?w (t_wake s1 ?pos) \<or> ?pos = ?t \<and> t_next s1 ?t = Some (hd us)"
    using hd us shape by (auto simp: timers_shape_def)
  have "links (t_next s1) (us @ [Sentinel_timer])" "distinct (us @ [Sentinel_timer])" "?t \<notin> set us" "?t \<noteq> Sentinel_timer"
     "t_wake s1 Sentinel_timer = t_wake s1 Periodic_timer + 0x80000000"
     "Periodic_timer \<in> set us \<or> t_wake s1 Periodic_timer = ?w"
    using shape by (auto simp: timers_shape_def links_Cons)
  then obtain nx where nx: "insert_timer ?pos ?t ?w s2 = Ret () (s2\<lparr>t_next := nx\<rparr>)"
      "links nx (timer_insert ?key ?t us @ [Sentinel_timer])" "\<forall>u. u \<notin> set (?t # us) \<longrightarrow> nx u = t_next s1 u"
    using insert_timer_sorted [of b us s2 ?w ?t ?pos] ord w us hd pos
    by (auto simp: s2_def timers_ordered_def)
  let ?s = "s1\<lparr>timer_list := hd us, t_next := nx, last_insert := ?t\<rparr>"
  have hdw: "hd (us @ [Sentinel_timer]) = hd us" using us by simp
  have "sched_timer_dispatch user s = Ret (t_wake s1 (hd us)) ?s"
    using hd us nx(1) by (cases "timer_is_before ?w (t_wake s1 (last_insert s1))") (simp_all add: sched_timer_dispatch_def op_simps call s2_def Let_def)
  moreover have "timers_shape (timer_insert ?key ?t us) ?s"
  proof (rule timers_shape_moved [OF shape nd us _ nx(2)])
    show "?key (hd us) \<le> ?key ?t"
      using hd us ord w timers_ordered_before [of b us s1 "hd us" ?w] by auto
    show "nx Sentinel_timer = None" using nx(3) shape by (auto simp: timers_shape_def)
  qed
  moreover have "timers_ordered b (timer_insert ?key ?t us) ?s"
    using ord w sorted_timer_insert by (auto simp: timers_ordered_def)
  ultimately show ?thesis by (simp add: timers_ok_def timer_frame_def)
qed

lemma dispatch_reschedule:
  assumes call: "call_func user (timer_list s) s = Ret SF_RESCHEDULE s1"
    and fired: "fired_ok b (timer_list s) us s1" and nd: "timer_list s \<noteq> Deleted_timer"
  shows "\<exists>s2. sched_timer_dispatch user s = Ret (t_wake s2 (timer_list s2)) s2 \<and> timer_frame s1 s2 \<and>
    timers_ok b (timer_insert (\<lambda>u. off b (t_wake s1 u)) (timer_list s) us) s2"
proof (cases "timer_is_before (t_wake s1 (timer_list s)) (t_wake s1 (hd (us @ [Sentinel_timer])))")
  case False
  from dispatch_move [OF call fired nd False] show ?thesis .
next
  case True
  let ?key = "\<lambda>u. off b (t_wake s1 u)"
  have "timer_list s1 = timer_list s" using fired by (simp add: fired_ok_def timers_shape_def)
  have "?key (timer_list s) < ?key (hd us)" if "us \<noteq> []"
    using True fired that timers_ordered_before [of b us s1 "hd us" "t_wake s1 (timer_list s)"] by (auto simp: fired_ok_def)
  moreover have "\<forall>u\<in>set us. ?key (hd us) \<le> ?key u"
    using fired by (cases us) (auto simp: fired_ok_def timers_ordered_Cons)
  ultimately have "\<forall>u\<in>set us. ?key (timer_list s) < ?key u" by (cases us) fastforce+
  then have "timer_insert ?key (timer_list s) us = timer_list s # us" by (rule timer_insert_first)
  with dispatch_same [OF call fired True] \<open>timer_list s1 = timer_list s\<close> show ?thesis
    by (simp add: timer_frame_def)
qed

lemma periodic_fired_ok:
  assumes ok: "timers_ok b (Periodic_timer # us) s"
    and freq: "off b (t_wake s Periodic_timer + timer_from_us (clock_freq s) 100000) < 2 ^ 31"
  shows "\<exists>s1. periodic_event s = Ret SF_RESCHEDULE s1 \<and> fired_ok b Periodic_timer us s1 \<and> tasks_status s1 = TS_REQUESTED"
proof -
  let ?w = "t_wake s Periodic_timer + timer_from_us (clock_freq s) 100000"
  let ?s = "s\<lparr>tasks_status := TS_REQUESTED, t_wake := (t_wake s)(Periodic_timer := ?w, Sentinel_timer := ?w + 0x80000000)\<rparr>"
  have "Periodic_timer \<notin> set us" "Sentinel_timer \<notin> set us"
    using ok by (auto simp: timers_ok_def timers_shape_def)
  then have "timers_ordered b us ?s = timers_ordered b us s"
    by (intro timers_ordered_cong) auto
  then have "fired_ok b Periodic_timer us ?s"
    using ok freq by (simp add: timers_ok_def timers_shape_def fired_ok_def timers_ordered_Cons)
  moreover have "periodic_event s = Ret SF_RESCHEDULE ?s"
    by (simp add: periodic_event_def op_simps sched_wake_tasks_def Let_def)
  ultimately show ?thesis by simp
qed

lemma fired_ok_wake:
  assumes "timers_ok b (t # us) s" "t \<noteq> Periodic_timer" "off b w < 2 ^ 31"
    "t_next s' = t_next s" "t_wake s' = (t_wake s)(t := w)" "timer_list s' = timer_list s" "last_insert s' = last_insert s"
  shows "fired_ok b t us s'"
proof -
  have "t \<notin> set us" "t \<noteq> Sentinel_timer" using assms(1) by (auto simp: timers_ok_def timers_shape_def)
  then have "timers_ordered b us s' = timers_ordered b us s"
    using assms by (intro timers_ordered_cong) auto
  with assms \<open>t \<noteq> Sentinel_timer\<close> show ?thesis by (simp add: fired_ok_def timers_ok_def timers_shape_def timers_ordered_Cons)
qed

subsection \<open>The interface of the timer list\<close>

text \<open>
  What a module that owns timers relies on: \<open>add\<close> files a timer that is not waiting, or shuts down
  because its time has passed; \<open>del\<close> takes a timer out, waiting or not; neither touches anything
  else. \<open>holds ts s\<close> says which timers wait, in which order.
\<close>

locale timer_queue =
  fixes holds :: "'t list \<Rightarrow> 's \<Rightarrow> bool"
    and frame :: "'s \<Rightarrow> 's \<Rightarrow> bool"
    and due :: "'s \<Rightarrow> 't \<Rightarrow> nat"
    and set_due :: "'t \<Rightarrow> u32 \<Rightarrow> 's \<Rightarrow> 's"
    and client :: "'t \<Rightarrow> bool"
    and add :: "'t \<Rightarrow> ('s, unit) op"
    and del :: "'t \<Rightarrow> ('s, unit) op"
  assumes add_law: "\<lbrakk>holds ts s; client t; t \<notin> set ts; due s t < 2 ^ 31\<rbrakk> \<Longrightarrow>
      (\<exists>s'. add t s = Ret () s' \<and> frame s s' \<and> holds (timer_insert (due s) t ts) s') \<or>
      (\<exists>s'. add t s = Shutdown ''Timer too close'' s' \<and> frame s s' \<and> holds ts s')"
    and del_law: "\<lbrakk>holds ts s; client t\<rbrakk> \<Longrightarrow>
      \<exists>s'. del t s = Ret () s' \<and> frame s s' \<and> holds (removeAll t ts) s'"
    and set_due_law: "\<lbrakk>holds ts s; client t; t \<notin> set ts\<rbrakk> \<Longrightarrow> holds ts (set_due t w s)"
begin

lemma add_cases:
  assumes "holds ts s" "client t" "t \<notin> set ts" "due s t < 2 ^ 31"
  obtains (filed) s' where "add t s = Ret () s'" "frame s s'" "holds (timer_insert (due s) t ts) s'"
    | (late) s' where "add t s = Shutdown ''Timer too close'' s'" "frame s s'" "holds ts s'"
  using add_law [OF assms] by blast

text \<open>The idiom of the command handlers: take the timer out, give it a new time, file it again.\<close>

lemma restart:
  assumes h: "holds ts s" and c: "client t"
    and near: "\<And>s1. frame s s1 \<Longrightarrow> due (set_due t w s1) t < 2 ^ 31"
  shows "\<exists>s1. frame s s1 \<and>
    ((\<exists>s'. then_op (del t) (then_op (set_op (set_due t w)) (add t)) s = Ret () s' \<and>
        frame (set_due t w s1) s' \<and>
        holds (timer_insert (due (set_due t w s1)) t (removeAll t ts)) s') \<or>
     (\<exists>s'. then_op (del t) (then_op (set_op (set_due t w)) (add t)) s = Shutdown ''Timer too close'' s' \<and>
        frame (set_due t w s1) s' \<and> holds (removeAll t ts) s'))"
proof -
  obtain s1 where s1: "del t s = Ret () s1" "frame s s1" "holds (removeAll t ts) s1"
    using del_law [OF h c] by blast
  have "holds (removeAll t ts) (set_due t w s1)"
    using set_due_law [OF s1(3) c] by simp
  from add_law [OF this c _ near [OF s1(2)]] show ?thesis
    using s1 by (intro exI [of _ s1]) (auto simp: op_simps)
qed

end

text \<open>The timers of the firmware modules, as opposed to the scheduler's own three.\<close>

fun module_timer :: "tptr \<Rightarrow> bool" where
  "module_timer (Obj_timer k i) = True"
| "module_timer _ = False"

definition set_wake :: "tptr \<Rightarrow> u32 \<Rightarrow> 'a sched_scheme \<Rightarrow> 'a sched_scheme" where
  "set_wake t w s = s\<lparr>t_wake := (t_wake s)(t := w)\<rparr>"

lemma module_timerD: "module_timer t \<Longrightarrow> t \<noteq> Periodic_timer \<and> t \<noteq> Sentinel_timer \<and> t \<noteq> Deleted_timer"
  by (cases t) auto

lemma pending_cong:
  assumes "t_next s' = t_next s" "t_wake s' = t_wake s" "timer_list s' = timer_list s" "last_insert s' = last_insert s"
  shows "pending b ts s' = pending b ts s"
  using timers_ok_cong [OF assms] by (simp add: pending_def)

lemma pending_clock_reads [simp]: "pending b ts (s\<lparr>clock_reads := c\<rparr>) = pending b ts s"
  by (rule pending_cong) simp_all

lemma timer_frame_clock_reads: "timer_frame s (s\<lparr>clock_reads := c\<rparr>)"
  by (simp add: timer_frame_def)

lemma pending_set_wake:
  assumes "pending b ts s" "module_timer t" "t \<notin> set ts"
  shows "pending b ts (set_wake t w s)"
proof -
  obtain us where ok: "timers_ok b us s" and ts: "ts = filter (\<lambda>u. u \<noteq> Deleted_timer) us"
    using assms(1) by (auto simp: pending_def)
  note m = module_timerD [OF assms(2)]
  then have "t \<notin> set us" using assms(3) ts by auto
  then have "timers_ordered b us (set_wake t w s) = timers_ordered b us s"
    by (intro timers_ordered_cong) (auto simp: set_wake_def)
  then have "timers_ok b us (set_wake t w s)"
    using ok m by (auto simp: timers_ok_def timers_shape_def set_wake_def)
  with ts show ?thesis by (auto simp: pending_def)
qed

interpretation fw_timers: timer_queue "pending b" timer_frame "\<lambda>s t. off b (t_wake s t)" set_wake
    module_timer sched_add_timer sched_del_timer for b
proof unfold_locales
  fix ts and s :: "'a sched_scheme" and t
  assume "pending b ts s" "module_timer t" "t \<notin> set ts" "off b (t_wake s t) < 2 ^ 31"
  with sched_add_timer_pending [of b ts s t] module_timerD [of t]
  show "(\<exists>s'. sched_add_timer t s = Ret () s' \<and> timer_frame s s' \<and>
        pending b (timer_insert (\<lambda>u. off b (t_wake s u)) t ts) s') \<or>
      (\<exists>s'. sched_add_timer t s = Shutdown ''Timer too close'' s' \<and> timer_frame s s' \<and> pending b ts s')"
    using timer_frame_clock_reads [of s] by auto
next
  fix ts and s :: "'a sched_scheme" and t
  assume "pending b ts s" "module_timer t"
  then show "\<exists>s'. sched_del_timer t s = Ret () s' \<and> timer_frame s s' \<and> pending b (removeAll t ts) s'"
    using sched_del_timer_pending module_timerD by blast
next
  fix ts and s :: "'a sched_scheme" and t w
  assume "pending b ts s" "module_timer t" "t \<notin> set ts"
  then show "pending b ts (set_wake t w s)" by (rule pending_set_wake)
qed

subsection \<open>Shutdown\<close>

text \<open>
  \<open>shutdown_quiet I A m\<close>: from a module state in \<open>I\<close>, the shutdown functions return, keep the
  state of the shutdown and bring back no timer other than those in \<open>A\<close> (the analog inputs go on
  sampling). The functions of \<open>DECL_SHUTDOWN\<close> run with \<open>shutdown_status\<close> 2.
\<close>

definition shutdown_quiet :: "('a \<Rightarrow> bool) \<Rightarrow> tptr set \<Rightarrow> ('a sched_scheme, unit) op \<Rightarrow> bool" where
  "shutdown_quiet I A m \<longleftrightarrow>
     (\<forall>b ts s. I (sched.more s) \<and> pending b ts s \<and> shutdown_status s = 2 \<longrightarrow>
        (\<exists>s' ts'. m s = Ret () s' \<and> pending b ts' s' \<and> set ts' \<subseteq> set ts \<union> A \<and>
           shutdown_reason s' = shutdown_reason s \<and> static_id s' = static_id s \<and> sent s' = sent s))"

lemma sched_timer_reset_pending:
  assumes "pending b ts s"
  shows "\<exists>s'. sched_timer_reset s = Ret () s' \<and> timer_frame s s' \<and> pending b [Periodic_timer] s'"
proof -
  obtain us where "timers_ok b us s" using assms by (auto simp: pending_def)
  moreover have "[Periodic_timer] = filter (\<lambda>u. u \<noteq> Deleted_timer) [Deleted_timer, Periodic_timer]" by simp
  ultimately show ?thesis using sched_timer_reset_ok unfolding pending_def by metis
qed

lemma pending_Periodic: "pending b ts s \<Longrightarrow> Periodic_timer \<in> set ts"
  by (auto simp: pending_def timers_ok_def timers_shape_def)

lemma pending_distinct: "pending b ts s \<Longrightarrow> distinct ts"
  by (auto simp: pending_def timers_ok_def timers_shape_def)

lemma links_unique:
  assumes "links n (xs @ [z])" "links n (ys @ [z])" "hd (xs @ [z]) = hd (ys @ [z])" "z \<notin> set xs" "z \<notin> set ys"
  shows "xs = ys"
  using assms
proof (induction xs arbitrary: ys)
  case Nil
  then show ?case by (cases ys) auto
next
  case (Cons x xs)
  then obtain vs where ys: "ys = x # vs" by (cases ys) auto
  with Cons.prems have "links n (xs @ [z])" "links n (vs @ [z])" "hd (xs @ [z]) = hd (vs @ [z])"
    by (auto simp: links_Cons)
  with Cons.IH [of vs] Cons.prems ys show ?case by auto
qed

lemma pending_unique:
  assumes "pending b ts s" "pending c ts' s"
  shows "ts = ts'"
proof -
  obtain us us' where us: "timers_ok b us s" "ts = filter (\<lambda>u. u \<noteq> Deleted_timer) us"
      "timers_ok c us' s" "ts' = filter (\<lambda>u. u \<noteq> Deleted_timer) us'"
    using assms by (auto simp: pending_def)
  have "us = us'"
  proof (rule links_unique [of "t_next s" _ Sentinel_timer])
    show "hd (us @ [Sentinel_timer]) = hd (us' @ [Sentinel_timer])"
      using timers_ok_nonempty [OF us(1)] timers_ok_nonempty [OF us(3)] by simp
  qed (use us in \<open>simp_all add: timers_ok_def timers_shape_def\<close>)
  with us show ?thesis by simp
qed

lemma timer_frameD:
  assumes "timer_frame s s'"
  shows "sent s' = sent s" "shutdown_status s' = shutdown_status s" "shutdown_reason s' = shutdown_reason s"
    "static_id s' = static_id s" "t_func s' = t_func s" "pin_out s' = pin_out s" "pwm_out s' = pwm_out s"
    "tasks_status s' = tasks_status s" "task_wake s' = task_wake s" "sched.more s' = sched.more s"
    "hw_clock s' = hw_clock s" "clock_freq s' = clock_freq s" "t \<noteq> Deleted_timer \<Longrightarrow> t_wake s' t = t_wake s t"
  by (subst assms [unfolded timer_frame_def], simp)+

lemma run_shutdown_ok:
  assumes p: "pending b ts s" and I: "I (sched.more s)" and q: "shutdown_quiet I A funcs"
  shows "\<exists>s' ts'. run_shutdown funcs e s = Ret () s' \<and> pending b ts' s' \<and> set ts' \<subseteq> insert Periodic_timer A \<and>
    shutdown_status s' = 1 \<and> shutdown_reason s' = (if shutdown_status s = 0 then e else shutdown_reason s) \<and>
    sent s' = sent s @ [(''shutdown clock=%u static_string_id=%hu'',
      [hw_clock s (clock_reads s), static_id s (shutdown_reason s')])]"
proof -
  define r where "r = (if shutdown_status s = 0 then e else shutdown_reason s)"
  define s1 where "s1 = s\<lparr>clock_reads := Suc (clock_reads s), shutdown_reason := r, shutdown_status := 2\<rparr>"
  have "pending b ts s1" using p by (subst pending_cong [of s1 s]) (simp_all add: s1_def)
  from sched_timer_reset_pending [OF this] obtain s2 where
    s2: "sched_timer_reset s1 = Ret () s2" "timer_frame s1 s2" "pending b [Periodic_timer] s2" by blast
  note f = timer_frameD [OF s2(2)]
  have "I (sched.more s2)" "shutdown_status s2 = 2" using I by (simp_all add: f s1_def)
  with q s2(3) obtain s3 ts' where s3: "funcs s2 = Ret () s3" "pending b ts' s3"
      "set ts' \<subseteq> set [Periodic_timer] \<union> A" "shutdown_reason s3 = shutdown_reason s2" "static_id s3 = static_id s2" "sent s3 = sent s2"
    unfolding shutdown_quiet_def by blast
  have s3': "shutdown_reason s3 = r" "static_id s3 = static_id s" "sent s3 = sent s"
    using s3 by (simp_all add: f s1_def)
  define s4 where "s4 = s3\<lparr>shutdown_status := 1, sent := sent s3 @
    [(''shutdown clock=%u static_string_id=%hu'', [hw_clock s (clock_reads s), static_id s r])]\<rparr>"
  have run: "run_shutdown funcs e s = Ret () s4"
    using s2(1) s3(1) s3' by (cases "shutdown_status s = 0")
      (simp_all add: run_shutdown_def op_simps timer_read_time_def sendf_def s1_def s4_def r_def)
  have "pending b ts' s4" using s3(2) by (subst pending_cong [of s4 s3]) (simp_all add: s4_def)
  with run s3(3) s3' show ?thesis by (intro exI [of _ s4] exI [of _ ts']) (simp add: s4_def r_def)
qed

subsection \<open>Properties\<close>

text \<open>A concrete board for the instances below: a 1 MHz counter that stands at 1000.\<close>

definition example_board :: sched where
  "example_board =
     \<lparr>clock_freq = 1000000, static_id = (\<lambda>_. 7), hw_clock = (\<lambda>_. 1000), clock_reads = 0,
      pin_in = (\<lambda>_. False), pin_reads = 0, pin_out = (\<lambda>_. False), pwm_out = (\<lambda>_. 0), sent = [],
      kicks = 0, t_next = (\<lambda>_. None), t_func = (\<lambda>_. Null_func), t_wake = (\<lambda>_. 0),
      timer_list = Periodic_timer, last_insert = Periodic_timer, tasks_status = 0,
      shutdown_status = 0, shutdown_reason = [], task_wake = (\<lambda>_. False), timer_repeat_until = 0\<rparr>"

definition example_timers :: sched where
  "example_timers = set_wake (Obj_timer Stepper_time 0) 5000 (sched_init example_board)"

lemma example_pending: "pending 0 [Periodic_timer] example_timers"
proof -
  have "pending 0 [Periodic_timer] (sched_init example_board)"
    using sched_init_ok unfolding pending_def by (intro exI [of _ "[Periodic_timer]"]) simp
  then show ?thesis unfolding example_timers_def by (rule pending_set_wake) simp_all
qed

text \<open>
  C1: Adding a timer whose wake time lies within half a turn of the counter either files it into
  the linked list behind every timer that is not later and before every later one, leaving all
  other state alone, or, if its time has already passed and the machine is running, shuts down
  with "Timer too close" without touching the list. In particular the search loop always ends.
\<close>

theorem add_timer_refines:
  assumes "pending b ts s" "module_timer t" "t \<notin> set ts" "off b (t_wake s t) < 2 ^ 31"
  shows "(\<exists>s'. sched_add_timer t s = Ret () s' \<and> timer_frame s s' \<and>
            pending b (timer_insert (\<lambda>u. off b (t_wake s u)) t ts) s') \<or>
         (sched_add_timer t s = Shutdown ''Timer too close'' (s\<lparr>clock_reads := Suc (clock_reads s)\<rparr>) \<and>
            timer_is_before (t_wake s t) (hw_clock s (clock_reads s)) \<and> shutdown_status s = 0)"
  using assms module_timerD [OF assms(2)] by (intro sched_add_timer_pending) auto

theorem add_timer_refines_witness:
  "\<exists>s'. sched_add_timer (Obj_timer Stepper_time 0) example_timers = Ret () s' \<and>
     pending 0 [Periodic_timer, Obj_timer Stepper_time 0] s'"
proof -
  have "\<not> timer_is_before (t_wake example_timers (Obj_timer Stepper_time 0))
          (hw_clock example_timers (clock_reads example_timers))"
    by (simp add: example_timers_def example_board_def set_wake_def sched_init_def timer_is_before_iff)
  then show ?thesis
    using add_timer_refines [OF example_pending, of "Obj_timer Stepper_time 0"]
    by (auto simp: example_timers_def example_board_def set_wake_def sched_init_def off_def timer_insert_def)
qed

text \<open>
  C3: Deleting a timer removes it from the list of waiting timers if it is there, keeps the order of
  the others, never fails, and leaves no reference to it in \<open>last_insert\<close> or at the head.
\<close>

theorem del_timer_refines:
  assumes "pending b ts s" "module_timer t"
  shows "\<exists>s'. sched_del_timer t s = Ret () s' \<and> timer_frame s s' \<and> pending b (removeAll t ts) s' \<and>
    timer_list s' \<noteq> t \<and> last_insert s' \<noteq> t"
proof -
  obtain s' where s': "sched_del_timer t s = Ret () s'" "timer_frame s s'" "pending b (removeAll t ts) s'"
    using fw_timers.del_law [OF assms] by blast
  then obtain us where us: "timers_ok b us s'" "removeAll t ts = filter (\<lambda>u. u \<noteq> Deleted_timer) us"
    by (auto simp: pending_def)
  have "t \<notin> set (filter (\<lambda>u. u \<noteq> Deleted_timer) us)" by (simp flip: us(2))
  then have "t \<notin> set us" using module_timerD [OF assms(2)] by auto
  moreover have "timer_list s' \<in> set us" "last_insert s' \<in> set us"
    using us(1) by (auto simp: timers_ok_def timers_shape_def)
  ultimately show ?thesis using s' by auto
qed

theorem del_timer_refines_witness:
  "\<exists>s'. sched_del_timer (Obj_timer Stepper_time 0) example_timers = Ret () s' \<and> pending 0 [Periodic_timer] s' \<and>
    timer_list s' \<noteq> Obj_timer Stepper_time 0 \<and> last_insert s' \<noteq> Obj_timer Stepper_time 0"
  using del_timer_refines [OF example_pending, of "Obj_timer Stepper_time 0"] by auto

text \<open>
  C2: One dispatch of the timer interrupt. When the callback of the first timer has returned with the
  list intact behind that timer, \<open>SF_DONE\<close> drops the timer and \<open>SF_RESCHEDULE\<close> refiles it by its new
  wake time, behind the timers that are not later, whatever \<open>last_insert\<close> was; the result is
  the wake time of the timer that is now first.
\<close>

theorem dispatch_refines:
  assumes "call_func user (timer_list s) s = Ret res s1" "fired_ok b (timer_list s) us s1"
    and "res = SF_DONE \<Longrightarrow> timer_list s \<noteq> Periodic_timer"
    and "res = SF_RESCHEDULE \<Longrightarrow> timer_list s \<noteq> Deleted_timer"
  shows "\<exists>s2. sched_timer_dispatch user s = Ret (t_wake s2 (timer_list s2)) s2 \<and> timer_frame s1 s2 \<and>
    timers_ok b (if res = SF_DONE then us else timer_insert (\<lambda>u. off b (t_wake s1 u)) (timer_list s) us) s2"
proof (cases res)
  case SF_DONE
  with assms dispatch_done [of user s s1 b us] show ?thesis by auto
next
  case SF_RESCHEDULE
  with assms dispatch_reschedule [of user s s1 b us] show ?thesis by simp
qed

theorem dispatch_refines_witness:
  "\<exists>s2. sched_timer_dispatch (\<lambda>_ _. undef_op) (sched_init example_board)
      = Ret (t_wake s2 (timer_list s2)) s2 \<and> timers_ok 0 [Periodic_timer] s2"
proof -
  have "timer_list (sched_init example_board) = Periodic_timer"
    "call_func (\<lambda>_ _. undef_op) Periodic_timer (sched_init example_board) = periodic_event (sched_init example_board)"
    by (simp_all add: sched_init_def call_func_def op_simps)
  moreover obtain s1 where "periodic_event (sched_init example_board) = Ret SF_RESCHEDULE s1"
      "fired_ok 0 Periodic_timer [] s1"
    using periodic_fired_ok [OF sched_init_ok, of example_board]
    by (auto simp: sched_init_def example_board_def timer_from_us_def off_def)
  ultimately show ?thesis
    using dispatch_refines [of "\<lambda>_ _. undef_op" "sched_init example_board" SF_RESCHEDULE s1 0 "[]"]
    by (auto simp: timer_insert_def)
qed

text \<open>
  Time comparison on the wrapping 32-bit counter agrees with the order of the distances from a
  base, for times within half a turn of it.
\<close>

theorem timer_is_before_correct:
  assumes "unat (x - b) < 2 ^ 31" "unat (y - b) < 2 ^ 31"
  shows "timer_is_before x y \<longleftrightarrow> unat (x - b) < unat (y - b)"
  using timer_is_before_off [of b x y] assms by (simp add: off_def)

theorem timer_is_before_correct_witness: "timer_is_before 0xFFFFFFF0 5"
  using timer_is_before_correct [of "0xFFFFFFF0" "0xFFFFFFF0" 5] by simp

text \<open>
  Entering the shutdown state clears all module timers except those the shutdown functions bring
  back, keeps the reason of the first of a series of shutdowns, ends in \<open>shutdown_status\<close> 1 and
  reports the clock and that reason once.
\<close>

theorem run_shutdown_correct:
  assumes "pending b ts s" "I (sched.more s)" "shutdown_quiet I A funcs"
  shows "\<exists>s' ts'. run_shutdown funcs e s = Ret () s' \<and> pending b ts' s' \<and> set ts' \<subseteq> insert Periodic_timer A \<and>
    shutdown_status s' = 1 \<and> shutdown_reason s' = (if shutdown_status s = 0 then e else shutdown_reason s) \<and>
    sent s' = sent s @ [(''shutdown clock=%u static_string_id=%hu'',
      [hw_clock s (clock_reads s), static_id s (shutdown_reason s')])]"
  by (rule run_shutdown_ok [OF assms])

theorem run_shutdown_correct_witness:
  "\<exists>s' ts'. run_shutdown (ret ()) ''Timer too close'' example_timers = Ret () s' \<and>
     pending 0 ts' s' \<and> set ts' \<subseteq> {Periodic_timer} \<and> shutdown_reason s' = ''Timer too close''"
proof -
  have "shutdown_quiet (\<lambda>_. True) {} (ret () :: (sched, unit) op)"
    by (auto simp: shutdown_quiet_def op_simps)
  from run_shutdown_correct [OF example_pending _ this, of "''Timer too close''"] show ?thesis
    by (auto simp: example_timers_def example_board_def set_wake_def sched_init_def)
qed

end
