(* ===== verification/Command.thy ===== *)
theory Command
  imports Msgblock Timers
begin

text \<open>
  The firmware's end of the serial link: parsing of received blocks and encoding of responses,
  \<open>command.c\<close>, over the interrupt driven console of \<open>generic/serial_irq.c\<close>.

  A pointer into a buffer is an offset, and an access outside the buffer is \<open>Undef\<close>. The table
  \<open>command_index\<close> that the build generates, \<open>irq_poll\<close> and \<open>bootloader_request\<close> of the board are
  the parameter \<open>console_env\<close>. Both interrupts of the UART are modelled: \<open>serial_rx_byte\<close> and
  \<open>serial_get_tx_byte\<close> are operations of their own, and in the two places where the task code
  races with them (the buffer moves of \<open>console_pop_input\<close> and of \<open>console_sendf\<close>) the interrupts
  that hit the window are explicit: the list of bytes received in each round of the pop loop, and
  the number \<open>tx_irqs n\<close> of transmit interrupts during the \<open>n\<close>-th window of \<open>console_sendf\<close> (one
  behind its reads of the positions, one while the message is generated). The bytes
  handed to the UART are collected in \<open>wire\<close>.
\<close>
named_theorems cmd_defs \<open>definitions of the command layer\<close>

subsection \<open>Messages and their parameters (command.h)\<close>

datatype ptype =
    PT_uint32 | PT_int32 | PT_uint16 | PT_int16 | PT_byte
  | PT_string | PT_progmem_buffer | PT_buffer

definition pt_int :: "ptype \<Rightarrow> bool" where
  "pt_int t \<longleftrightarrow> t \<in> {PT_uint32, PT_int32, PT_uint16, PT_int16, PT_byte}"

record command_encoder =
  ce_encoded_msgid :: u16
  ce_max_size :: u8
  ce_num_params :: u8
  ce_param_types :: "ptype list"

record 's command_parser =
  cp_num_args :: u8
  cp_flags :: u8
  cp_num_params :: u8
  cp_param_types :: "ptype list"
  cp_func :: "u32 list \<Rightarrow> ('s, unit) op"

text \<open>A variable argument: an integer, or a pointer to readable bytes.\<close>

datatype va = Va_int u32 | Va_ptr "u8 list"

abbreviation (input) HF_IN_SHUTDOWN :: u8 where "HF_IN_SHUTDOWN \<equiv> 1"
abbreviation (input) CF_NEED_SYNC :: u8 where "CF_NEED_SYNC \<equiv> 1"
abbreviation (input) CF_NEED_VALID :: u8 where "CF_NEED_VALID \<equiv> 2"
abbreviation (input) RX_BUFFER_SIZE :: nat where "RX_BUFFER_SIZE \<equiv> 192"
abbreviation (input) TX_BUFFER_SIZE :: nat where "TX_BUFFER_SIZE \<equiv> 96"

record console = sched +
  next_sequence :: u8
  sync_state :: u8
  in_sendf :: u8
  receive_buf :: "u8 list"
  receive_pos :: nat
  transmit_buf :: "u8 list"
  transmit_pos :: nat
  transmit_max :: nat
  sizeof_int :: nat
  rx_base :: u32
  tx_irqs :: "nat \<Rightarrow> nat"
  tx_windows :: nat
  wire :: "u8 list"
  tx_enabled :: bool

record 's console_env =
  command_index :: "'s command_parser list"
  cmd_irq_poll :: "('s, unit) op"
  bootloader_request :: "('s, unit) op option"

subsection \<open>Parsing and encoding of parameters\<close>

text \<open>
  A buffer argument is passed as an offset into the receive buffer where pointers are wider than
  32 bits (\<open>rx_base = 0\<close>), and as the address itself otherwise.
\<close>

definition command_encode_ptr :: "'a console_scheme \<Rightarrow> nat \<Rightarrow> u32" where
  "command_encode_ptr s p = rx_base s + of_nat p"

definition command_decode_ptr :: "'a console_scheme \<Rightarrow> u32 \<Rightarrow> nat" where
  "command_decode_ptr s v = unat (v - rx_base s)"

text \<open>
  The loop of \<open>command_parsef\<close>, given \<open>command_encode_ptr\<close>: where it stops and the words stored
  through \<open>args\<close>.
\<close>

fun parsef_loop ::
  "(nat \<Rightarrow> u32) \<Rightarrow> u8 list \<Rightarrow> nat \<Rightarrow> nat \<Rightarrow> ptype list \<Rightarrow> nat \<Rightarrow> (unit, nat \<times> u32 list) op" where
  "parsef_loop ptr buf maxend 0 ts p = ret (p, [])"
| "parsef_loop ptr buf maxend (Suc num_params) ts p =
     (if p > maxend then shutdown_op ''Command parser error''
      else case ts of
          [] \<Rightarrow> undef_op
        | t # ts' \<Rightarrow>
            if pt_int t then
              (case parse_int (drop p buf) of
                 None \<Rightarrow> undef_op
               | Some (v, rest) \<Rightarrow>
                   bind_op (parsef_loop ptr buf maxend num_params ts' (length buf - length rest))
                     (\<lambda>(q, args). ret (q, v # args)))
            else if t = PT_buffer then
              (if p \<ge> length buf then undef_op
               else
                 (let len = unat (buf ! p); p' = p + 1
                  in if p' + len > maxend then shutdown_op ''Command parser error''
                     else
                       bind_op (parsef_loop ptr buf maxend num_params ts' (p' + len))
                         (\<lambda>(q, args). ret (q, of_nat len # ptr p' # args))))
            else shutdown_op ''Command parser error'')"

definition command_parsef ::
  "u8 list \<Rightarrow> nat \<Rightarrow> nat \<Rightarrow> 's command_parser \<Rightarrow> ('a console_scheme, nat \<times> u32 list) op" where
  "command_parsef buf p maxend cp =
     bind_op (get_op command_encode_ptr) (\<lambda>ptr.
       pure_op (parsef_loop ptr buf maxend (unat (cp_num_params cp)) (cp_param_types cp) p))"

text \<open>\<open>va_arg\<close> of an integer parameter; \<open>int\<close> has 16 bits on some boards.\<close>

definition va_word :: "nat \<Rightarrow> ptype \<Rightarrow> u32 \<Rightarrow> u32" where
  "va_word szint t v =
     (if 4 > szint \<and> t \<in> {PT_uint16, PT_int16, PT_byte} then
        (if t = PT_int16 then scast (ucast v :: u16) else ucast (ucast v :: u16))
      else v)"

text \<open>\<open>while ( *s && p<maxend) *p++ = *s++;\<close> The bytes copied, \<open>None\<close> for an unterminated string.\<close>

fun copy_string :: "u8 list \<Rightarrow> nat \<Rightarrow> u8 list option" where
  "copy_string [] room = None"
| "copy_string (c # s) 0 = Some []"
| "copy_string (c # s) (Suc room) = (if c = 0 then Some [] else map_option ((#) c) (copy_string s room))"

text \<open>
  The parameter loop of \<open>command_encodef\<close>: the bytes stored from \<open>p\<close> on.
\<close>

fun encodef_loop :: "nat \<Rightarrow> nat \<Rightarrow> nat \<Rightarrow> ptype list \<Rightarrow> va list \<Rightarrow> nat \<Rightarrow> (unit, u8 list) op" where
  "encodef_loop szint maxend 0 ts args p = ret []"
| "encodef_loop szint maxend (Suc num_params) ts args p =
     (if p > maxend then shutdown_op ''Message encode error''
      else case ts of
          [] \<Rightarrow> undef_op
        | t # ts' \<Rightarrow>
            if pt_int t then
              (case args of
                 Va_int v # args' \<Rightarrow>
                   (let bs = encode_int (va_word szint t v)
                    in bind_op (encodef_loop szint maxend num_params ts' args' (p + length bs))
                         (\<lambda>out. ret (bs @ out)))
               | _ \<Rightarrow> undef_op)
            else if t = PT_string then
              (case args of
                 Va_ptr s # args' \<Rightarrow>
                   (case copy_string s (maxend - (p + 1)) of
                      None \<Rightarrow> undef_op
                    | Some bs \<Rightarrow>
                        bind_op (encodef_loop szint maxend num_params ts' args' (p + 1 + length bs))
                          (\<lambda>out. ret (of_nat (length bs) # bs @ out)))
               | _ \<Rightarrow> undef_op)
            else
              (case args of
                 Va_int v # Va_ptr s # args' \<Rightarrow>
                   (let v = (if unat v > maxend - p then maxend - p else unat v)
                    in if length s < v then undef_op
                       else
                         bind_op (encodef_loop szint maxend num_params ts' args' (p + 1 + v))
                           (\<lambda>out. ret (of_nat v # take v s @ out)))
               | _ \<Rightarrow> undef_op))"

text \<open>The length of the message, and the bytes stored behind the header.\<close>

definition command_encodef :: "command_encoder \<Rightarrow> va list \<Rightarrow> ('a console_scheme, nat \<times> u8 list) op" where
  "command_encodef ce args =
     (let max_size = unat (ce_max_size ce)
      in if max_size \<le> MESSAGE_MIN then ret (max_size, [])
         else
           (let p = MESSAGE_HEADER_SIZE;
                maxend = p + (max_size - MESSAGE_MIN);
                idb = encode_msgid (ce_encoded_msgid ce)
            in bind_op (get_op sizeof_int) (\<lambda>szint.
               bind_op (pure_op (encodef_loop szint maxend (unat (ce_num_params ce)) (ce_param_types ce)
                                   args (p + length idb))) (\<lambda>out.
                 ret (p + length (idb @ out) + MESSAGE_TRAILER_SIZE, idb @ out)))))"

text \<open>\<open>buf\<close> is the memory from the start of the block to the end of the array.\<close>

definition command_add_frame :: "u8 \<Rightarrow> u8 list \<Rightarrow> nat \<Rightarrow> u8 list option" where
  "command_add_frame seq buf msglen =
     (if msglen < MESSAGE_TRAILER_SIZE \<or> length buf < msglen \<or> length buf \<le> MESSAGE_POS_SEQ then None
      else
        (let buf = buf[MESSAGE_POS_LEN := of_nat msglen];
             buf = buf[MESSAGE_POS_SEQ := seq];
             crc = crc16_ccitt (take (msglen - MESSAGE_TRAILER_SIZE) buf);
             buf = buf[msglen - MESSAGE_TRAILER_CRC := ucast (drop_bit 8 crc)];
             buf = buf[msglen - MESSAGE_TRAILER_CRC + 1 := ucast crc]
         in Some (buf[msglen - MESSAGE_TRAILER_SYNC := MESSAGE_SYNC])))"

text \<open>Encoding to \<open>&transmit_buf[b]\<close>.\<close>

definition command_encode_and_frame :: "nat \<Rightarrow> command_encoder \<Rightarrow> va list \<Rightarrow> ('a console_scheme, nat) op" where
  "command_encode_and_frame b ce args =
     bind_op (command_encodef ce args) (\<lambda>(msglen, payload).
     bind_op (get_op transmit_buf) (\<lambda>tb.
     bind_op (option_op (store_bytes (drop b tb) MESSAGE_HEADER_SIZE payload)) (\<lambda>buf.
     bind_op (get_op next_sequence) (\<lambda>seq.
     bind_op (option_op (command_add_frame seq buf msglen)) (\<lambda>buf.
     then_op (set_op (\<lambda>s. s\<lparr>transmit_buf := take b tb @ buf\<rparr>)) (ret msglen))))))"

subsection \<open>The transmitter (serial_irq.c)\<close>

definition serial_get_tx_byte :: "('a console_scheme, u8 option) op" where
  "serial_get_tx_byte =
     bind_op (get_op (\<lambda>s. transmit_pos s \<ge> transmit_max s)) (\<lambda>done.
       if done then ret None
       else
         bind_op (get_op (\<lambda>s. transmit_buf s ! transmit_pos s)) (\<lambda>data.
         then_op (set_op (\<lambda>s. s\<lparr>transmit_pos := transmit_pos s + 1\<rparr>)) (ret (Some data))))"

definition serial_enable_tx_irq :: "('a console_scheme, unit) op" where
  "serial_enable_tx_irq = set_op (\<lambda>s. s\<lparr>tx_enabled := True\<rparr>)"

text \<open>
  The UART interrupt of the board: it sends the next byte, or turns itself off. \<open>tx_window\<close> runs
  as many of them as hit the current window.
\<close>

definition uart_tx_irq :: "('a console_scheme, unit) op" where
  "uart_tx_irq =
     bind_op serial_get_tx_byte (\<lambda>r.
       case r of
         None \<Rightarrow> set_op (\<lambda>s. s\<lparr>tx_enabled := False\<rparr>)
       | Some data \<Rightarrow> set_op (\<lambda>s. s\<lparr>wire := wire s @ [data]\<rparr>))"

definition tx_window :: "('a console_scheme, unit) op" where
  "tx_window =
     bind_op (get_op (\<lambda>s. tx_irqs s (tx_windows s))) (\<lambda>n.
     then_op (set_op (\<lambda>s. s\<lparr>tx_windows := Suc (tx_windows s)\<rparr>))
       (each_op (\<lambda>_. uart_tx_irq) (replicate n ())))"

definition console_sendf :: "command_encoder \<Rightarrow> va list \<Rightarrow> ('a console_scheme, unit) op" where
  "console_sendf ce args =
     bind_op (get_op transmit_pos) (\<lambda>tpos.
     bind_op (get_op transmit_max) (\<lambda>tmax.
     then_op tx_window
     (bind_op
        (if tpos \<ge> tmax then
           then_op (set_op (\<lambda>s. s\<lparr>transmit_max := 0\<rparr>))
           (then_op (set_op (\<lambda>s. s\<lparr>transmit_pos := 0\<rparr>)) (ret (0, 0)))
         else ret (tpos, tmax)) (\<lambda>(tpos, tmax).
      let max_size = unat (ce_max_size ce);
          generate = (\<lambda>tmax.
            bind_op (command_encode_and_frame tmax ce args) (\<lambda>msglen.
            then_op tx_window
            (then_op (set_op (\<lambda>s. s\<lparr>transmit_max := tmax + msglen\<rparr>)) serial_enable_tx_irq)))
      in if tmax + max_size > TX_BUFFER_SIZE then
           (if tmax + max_size - tpos > TX_BUFFER_SIZE then ret ()
            else
              then_op (set_op (\<lambda>s. s\<lparr>transmit_max := 0\<rparr>))
              (bind_op (get_op transmit_pos) (\<lambda>tpos.
               let tmax = tmax - tpos
               in then_op (set_op (\<lambda>s. s\<lparr>transmit_buf :=
                             take tmax (drop tpos (transmit_buf s)) @ drop tmax (transmit_buf s)\<rparr>))
                  (then_op (set_op (\<lambda>s. s\<lparr>transmit_pos := 0\<rparr>))
                  (then_op (set_op (\<lambda>s. s\<lparr>transmit_max := tmax\<rparr>))
                  (then_op serial_enable_tx_irq (generate tmax)))))))
         else generate tmax))))"

definition command_sendf :: "command_encoder \<Rightarrow> va list \<Rightarrow> ('a console_scheme, unit) op" where
  "command_sendf ce args =
     bind_op (get_op in_sendf) (\<lambda>busy.
       if busy \<noteq> 0 then ret ()
       else
         then_op (set_op (\<lambda>s. s\<lparr>in_sendf := 1\<rparr>))
         (then_op (console_sendf ce args) (set_op (\<lambda>s. s\<lparr>in_sendf := 0\<rparr>))))"

definition sendf_shutdown :: "('a console_scheme, unit) op" where
  "sendf_shutdown = set_op (\<lambda>s. s\<lparr>in_sendf := 0\<rparr>)"

subsection \<open>Command routing\<close>

definition command_lookup_parser :: "'s command_parser list \<Rightarrow> u16 \<Rightarrow> ('a console_scheme, 's command_parser) op" where
  "command_lookup_parser index cmdid =
     (if cmdid = 0 \<or> unat cmdid \<ge> length index then shutdown_op ''Invalid command''
      else ret (index ! unat cmdid))"

definition encode_acknak :: command_encoder where
  "encode_acknak =
     \<lparr>ce_encoded_msgid = 0, ce_max_size = of_nat MESSAGE_MIN, ce_num_params = 0, ce_param_types = []\<rparr>"

text \<open>The labels of \<open>command_find_block\<close>; \<open>buf\<close> is the first \<open>buf_len\<close> bytes.\<close>

definition find_nak :: "nat \<Rightarrow> ('a console_scheme, int \<times> nat) op" where
  "find_nak pop_count = then_op (command_sendf encode_acknak []) (ret (- 1, pop_count))"

definition find_need_sync :: "u8 list \<Rightarrow> ('a console_scheme, int \<times> nat) op" where
  "find_need_sync buf =
     bind_op
       (case memchr MESSAGE_SYNC buf of
          Some next_sync \<Rightarrow>
            then_op (set_op (\<lambda>s. s\<lparr>sync_state := sync_state s AND NOT CF_NEED_SYNC\<rparr>)) (ret (next_sync + 1))
        | None \<Rightarrow> ret (length buf)) (\<lambda>pop_count.
     bind_op (get_op sync_state) (\<lambda>st.
       if st AND CF_NEED_VALID \<noteq> 0 then ret (- 1, pop_count)
       else
         then_op (set_op (\<lambda>s. s\<lparr>sync_state := sync_state s OR CF_NEED_VALID\<rparr>)) (find_nak pop_count)))"

definition find_error :: "u8 list \<Rightarrow> ('a console_scheme, int \<times> nat) op" where
  "find_error buf =
     (if buf ! 0 = MESSAGE_SYNC then ret (- 1, 1)
      else
        then_op (set_op (\<lambda>s. s\<lparr>sync_state := sync_state s OR CF_NEED_SYNC\<rparr>)) (find_need_sync buf))"

definition command_find_block :: "u8 list \<Rightarrow> ('a console_scheme, int \<times> nat) op" where
  "command_find_block buf =
     bind_op (get_op sync_state) (\<lambda>st.
       if buf \<noteq> [] \<and> st AND CF_NEED_SYNC \<noteq> 0 then find_need_sync buf
       else if length buf < MESSAGE_MIN then ret (0, 0)
       else
         (let msglen = unat (buf ! MESSAGE_POS_LEN); msgseq = buf ! MESSAGE_POS_SEQ
          in if msglen < MESSAGE_MIN \<or> msglen > MESSAGE_MAX then find_error buf
             else if msgseq AND NOT MESSAGE_SEQ_MASK \<noteq> MESSAGE_DEST then find_error buf
             else if length buf < msglen then ret (0, 0)
             else if buf ! (msglen - MESSAGE_TRAILER_SYNC) \<noteq> MESSAGE_SYNC then find_error buf
             else
               (let msgcrc = push_bit 8 (ucast (buf ! (msglen - MESSAGE_TRAILER_CRC)))
                               OR ucast (buf ! (msglen - MESSAGE_TRAILER_CRC + 1));
                    crc = crc16_ccitt (take (msglen - MESSAGE_TRAILER_SIZE) buf)
                in if crc \<noteq> msgcrc then find_error buf
                   else
                     then_op (set_op (\<lambda>s. s\<lparr>sync_state := sync_state s AND NOT CF_NEED_VALID\<rparr>))
                     (bind_op (get_op next_sequence) (\<lambda>seq.
                        if msgseq \<noteq> seq then find_nak msglen
                        else
                          then_op (set_op (\<lambda>s. s\<lparr>next_sequence :=
                                      ((msgseq + 1) AND MESSAGE_SEQ_MASK) OR MESSAGE_DEST\<rparr>))
                            (ret (1, msglen)))))))"

text \<open>
  One round of the loop of \<open>command_dispatch\<close>, and the loop. Every round consumes at least the
  message id, so \<open>msgend\<close> rounds are enough; \<open>fuel = 0\<close> is not reached.
\<close>

definition dispatch_one ::
  "'a console_scheme console_env \<Rightarrow> u8 list \<Rightarrow> nat \<Rightarrow> nat \<Rightarrow> ('a console_scheme, nat) op" where
  "dispatch_one env buf msgend p =
     bind_op (option_op (command_parse_msgid (drop p buf))) (\<lambda>(cmdid, rest).
     bind_op (command_lookup_parser (command_index env) cmdid) (\<lambda>cp.
     bind_op (command_parsef buf (length buf - length rest) msgend cp) (\<lambda>(p', args).
       if length args > unat (cp_num_args cp) then undef_op
       else
         bind_op (get_op sched_is_shutdown) (\<lambda>down.
           if down \<and> cp_flags cp AND HF_IN_SHUTDOWN = 0 then then_op sched_report_shutdown (ret p')
           else then_op (cmd_irq_poll env) (then_op (cp_func cp args) (ret p'))))))"

fun dispatch_loop ::
  "'a console_scheme console_env \<Rightarrow> nat \<Rightarrow> u8 list \<Rightarrow> nat \<Rightarrow> nat \<Rightarrow> ('a console_scheme, unit) op" where
  "dispatch_loop env 0 buf msgend p = (if p < msgend then undef_op else ret ())"
| "dispatch_loop env (Suc fuel) buf msgend p =
     (if p < msgend then bind_op (dispatch_one env buf msgend p) (dispatch_loop env fuel buf msgend)
      else ret ())"

definition command_dispatch ::
  "'a console_scheme console_env \<Rightarrow> u8 list \<Rightarrow> nat \<Rightarrow> ('a console_scheme, unit) op" where
  "command_dispatch env buf msglen =
     dispatch_loop env msglen buf (msglen - MESSAGE_TRAILER_SIZE) MESSAGE_HEADER_SIZE"

definition command_send_ack :: "('a console_scheme, unit) op" where
  "command_send_ack = command_sendf encode_acknak []"

definition command_find_and_dispatch ::
  "'a console_scheme console_env \<Rightarrow> u8 list \<Rightarrow> ('a console_scheme, int \<times> nat) op" where
  "command_find_and_dispatch env buf =
     bind_op (command_find_block buf) (\<lambda>(r, pop_count).
       if r > 0 then
         then_op (command_dispatch env buf pop_count) (then_op command_send_ack (ret (r, pop_count)))
       else ret (r, pop_count))"

subsection \<open>The receiver (serial_irq.c)\<close>

definition serial_rx_byte :: "u8 \<Rightarrow> ('a console_scheme, unit) op" where
  "serial_rx_byte data =
     then_op (if data = MESSAGE_SYNC then sched_wake_tasks else ret ())
     (bind_op (get_op receive_pos) (\<lambda>pos.
        if pos \<ge> RX_BUFFER_SIZE then ret ()
        else set_op (\<lambda>s. s\<lparr>receive_buf := (receive_buf s)[pos := data], receive_pos := pos + 1\<rparr>)))"

text \<open>
  The loop of \<open>console_pop_input\<close>: \<open>rxs\<close> lists, round by round, the bytes that arrive between the
  copy and the \<open>irq_save()\<close>.
\<close>

fun pop_loop :: "nat \<Rightarrow> nat \<Rightarrow> u8 list list \<Rightarrow> ('a console_scheme, unit) op" where
  "pop_loop len copied rxs =
     bind_op (get_op receive_pos) (\<lambda>rpos.
       if rpos < len then undef_op
       else
         (let needcopy = rpos - len
          in bind_op
               (if needcopy \<noteq> 0 then
                  then_op
                    (set_op (\<lambda>s. s\<lparr>receive_buf :=
                       take copied (receive_buf s)
                         @ take (needcopy - copied) (drop (copied + len) (receive_buf s))
                         @ drop needcopy (receive_buf s)\<rparr>))
                    (then_op sched_wake_tasks (ret needcopy))
                else ret copied) (\<lambda>copied'.
             case rxs of
               [] \<Rightarrow> set_op (\<lambda>s. s\<lparr>receive_pos := needcopy\<rparr>)
             | rx # rxs' \<Rightarrow>
                 then_op (each_op serial_rx_byte rx)
                 (bind_op (get_op receive_pos) (\<lambda>now.
                    if rpos \<noteq> now then pop_loop len copied' rxs'
                    else set_op (\<lambda>s. s\<lparr>receive_pos := needcopy\<rparr>))))))"

declare pop_loop.simps [simp del]

definition console_pop_input :: "nat \<Rightarrow> u8 list list \<Rightarrow> ('a console_scheme, unit) op" where
  "console_pop_input len rxs = pop_loop len 0 rxs"

text \<open>\<open>" \x1c Request Serial Bootloader!! ~"\<close>\<close>

definition bootloader_magic :: "u8 list" where
  "bootloader_magic =
     [0x20, 0x1c, 0x20, 0x52, 0x65, 0x71, 0x75, 0x65, 0x73, 0x74, 0x20, 0x53, 0x65, 0x72, 0x69, 0x61,
      0x6c, 0x20, 0x42, 0x6f, 0x6f, 0x74, 0x6c, 0x6f, 0x61, 0x64, 0x65, 0x72, 0x21, 0x21, 0x20, 0x7e]"

definition console_task :: "'a console_scheme console_env \<Rightarrow> u8 list list \<Rightarrow> ('a console_scheme, unit) op" where
  "console_task env rxs =
     bind_op (get_op receive_pos) (\<lambda>rpos.
     bind_op (get_op receive_buf) (\<lambda>buf.
     bind_op (command_find_block (take rpos buf)) (\<lambda>(r, pop_count).
     then_op (if r > 0 then command_dispatch env (take rpos buf) pop_count else ret ())
       (if r \<noteq> 0 then
          then_op
            (case bootloader_request env of
               None \<Rightarrow> ret ()
             | Some request \<Rightarrow>
                 when_op (r < 0 \<and> pop_count = 32 \<and> take 32 buf = bootloader_magic) request)
          (then_op (console_pop_input pop_count rxs)
             (if r > 0 then command_send_ack else ret ()))
        else ret ()))))"

subsection \<open>The transmit buffer\<close>

text \<open>
  What the host receives: the bytes on the wire followed by those still waiting in the buffer.
\<close>

definition tx_ok :: "'a console_scheme \<Rightarrow> bool" where
  "tx_ok s \<longleftrightarrow> transmit_pos s \<le> transmit_max s \<and> transmit_max s \<le> TX_BUFFER_SIZE \<and>
     length (transmit_buf s) = TX_BUFFER_SIZE"

definition tx_pending :: "'a console_scheme \<Rightarrow> u8 list" where
  "tx_pending s = drop (transmit_pos s) (take (transmit_max s) (transmit_buf s))"

definition tx_stream :: "'a console_scheme \<Rightarrow> u8 list" where
  "tx_stream s = wire s @ tx_pending s"

text \<open>\<open>tx_frame s t\<close>: \<open>t\<close> differs from \<open>s\<close> in the state of the transmitter only.\<close>

definition tx_erase :: "'a console_scheme \<Rightarrow> 'a console_scheme" where
  "tx_erase s = s\<lparr>transmit_buf := [], transmit_pos := 0, transmit_max := 0, tx_windows := 0,
                  wire := [], tx_enabled := False\<rparr>"

definition tx_frame :: "'a console_scheme \<Rightarrow> 'a console_scheme \<Rightarrow> bool" where
  "tx_frame s t \<longleftrightarrow> tx_erase t = tx_erase s"

lemma tx_frame_refl: "tx_frame s s"
  by (simp add: tx_frame_def)

lemma tx_frame_trans: "tx_frame s t \<Longrightarrow> tx_frame t u \<Longrightarrow> tx_frame s u"
  by (simp add: tx_frame_def)

lemma tx_frame_upd:
  "tx_frame s t \<Longrightarrow> tx_frame s (t\<lparr>transmit_buf := tb\<rparr>)" "tx_frame s t \<Longrightarrow> tx_frame s (t\<lparr>transmit_pos := p\<rparr>)"
  "tx_frame s t \<Longrightarrow> tx_frame s (t\<lparr>transmit_max := m\<rparr>)" "tx_frame s t \<Longrightarrow> tx_frame s (t\<lparr>wire := w\<rparr>)"
  "tx_frame s t \<Longrightarrow> tx_frame s (t\<lparr>tx_enabled := e\<rparr>)" "tx_frame s t \<Longrightarrow> tx_frame s (t\<lparr>tx_windows := n\<rparr>)"
  by (simp_all add: tx_frame_def tx_erase_def)

lemma tx_frame_fields:
  assumes "tx_frame s t"
  shows "next_sequence t = next_sequence s" "sync_state t = sync_state s" "in_sendf t = in_sendf s"
    "receive_buf t = receive_buf s" "receive_pos t = receive_pos s" "sizeof_int t = sizeof_int s"
    "rx_base t = rx_base s"
  using assms [unfolded tx_frame_def, THEN arg_cong [where f = next_sequence]]
    assms [unfolded tx_frame_def, THEN arg_cong [where f = sync_state]]
    assms [unfolded tx_frame_def, THEN arg_cong [where f = in_sendf]]
    assms [unfolded tx_frame_def, THEN arg_cong [where f = receive_buf]]
    assms [unfolded tx_frame_def, THEN arg_cong [where f = receive_pos]]
    assms [unfolded tx_frame_def, THEN arg_cong [where f = sizeof_int]]
    assms [unfolded tx_frame_def, THEN arg_cong [where f = rx_base]]
  by (simp_all add: tx_erase_def)

text \<open>Transmit interrupts move bytes from the buffer to the wire, and lose none.\<close>

definition tx_step :: "'a console_scheme \<Rightarrow> 'a console_scheme \<Rightarrow> bool" where
  "tx_step s t \<longleftrightarrow> tx_frame s t \<and> tx_ok t \<and> tx_stream t = tx_stream s \<and>
     transmit_buf t = transmit_buf s \<and> transmit_max t = transmit_max s \<and> transmit_pos s \<le> transmit_pos t"

lemma tx_step_refl: "tx_ok s \<Longrightarrow> tx_step s s"
  by (simp add: tx_step_def tx_frame_refl)

lemma tx_step_trans: "tx_step s t \<Longrightarrow> tx_step t u \<Longrightarrow> tx_step s u"
  by (auto simp: tx_step_def intro: tx_frame_trans)

lemma uart_tx_irq_step:
  assumes "tx_ok s"
  shows "\<exists>t. uart_tx_irq s = Ret () t \<and> tx_step s t"
proof (cases "transmit_pos s \<ge> transmit_max s")
  case True
  then show ?thesis
    using assms
    by (simp add: uart_tx_irq_def serial_get_tx_byte_def op_simps tx_step_def tx_frame_upd tx_frame_refl
        tx_stream_def tx_pending_def tx_ok_def)
next
  case False
  let ?w = "take (transmit_max s) (transmit_buf s)"
  have "transmit_pos s < length ?w" "?w ! transmit_pos s = transmit_buf s ! transmit_pos s"
    using False assms by (auto simp: tx_ok_def)
  then have "drop (transmit_pos s) ?w = transmit_buf s ! transmit_pos s # drop (transmit_pos s + 1) ?w"
    by (metis Cons_nth_drop_Suc Suc_eq_plus1)
  then show ?thesis
    using assms False
    by (simp add: uart_tx_irq_def serial_get_tx_byte_def op_simps tx_step_def tx_frame_upd tx_frame_refl
        tx_stream_def tx_pending_def tx_ok_def)
qed

lemma uart_tx_irqs_step:
  "tx_ok s \<Longrightarrow> \<exists>t. each_op (\<lambda>_. uart_tx_irq) (xs :: unit list) s = Ret () t \<and> tx_step s t"
proof (induction xs arbitrary: s)
  case Nil
  then show ?case by (simp add: op_simps tx_step_refl)
next
  case (Cons x xs)
  obtain t where t: "uart_tx_irq s = Ret () t" "tx_step s t" using uart_tx_irq_step [OF Cons.prems] by blast
  have "tx_ok t" using t by (simp add: tx_step_def)
  then obtain u where "each_op (\<lambda>_. uart_tx_irq) xs t = Ret () u" "tx_step t u" using Cons.IH by blast
  with t show ?case by (auto simp: op_simps intro: tx_step_trans)
qed

lemma tx_window_step:
  assumes "tx_ok s"
  obtains t where "tx_window s = Ret () t" "tx_step s t"
proof -
  let ?s = "s\<lparr>tx_windows := Suc (tx_windows s)\<rparr>"
  have "tx_ok ?s" using assms by (simp add: tx_ok_def)
  then obtain t where t: "each_op (\<lambda>_. uart_tx_irq) (replicate (tx_irqs s (tx_windows s)) ()) ?s = Ret () t"
    "tx_step ?s t"
    using uart_tx_irqs_step by blast
  have "tx_step s ?s"
    using assms by (simp add: tx_step_def tx_frame_upd tx_frame_refl tx_ok_def tx_stream_def tx_pending_def)
  with t that show ?thesis by (simp add: tx_window_def op_simps tx_step_trans)
qed

text \<open>A framed message is a block.\<close>

lemma crc_frame_list:
  assumes "length buf = n" "m + 5 \<le> n"
  shows "buf[m + 2 := a, m + 3 := b, m + 4 := c] = take (m + 2) buf @ [a, b, c] @ drop (m + 5) buf"
  using assms by (intro nth_equalityI) (auto simp: nth_list_update nth_append nth_Cons' not_less)

lemma command_add_frame_block:
  assumes "msglen = length payload + MESSAGE_MIN" "msglen \<le> length buf"
    "store_bytes buf MESSAGE_HEADER_SIZE payload = Some buf'"
  shows "command_add_frame seq buf' msglen = Some (mk_block seq payload @ drop msglen buf)"
proof -
  let ?body = "[of_nat msglen, seq] @ payload"
  have buf': "buf' = take 2 buf @ payload @ drop (2 + length payload) buf"
    using assms by (auto simp: store_bytes_def split: if_splits)
  obtain x y buf2 where b: "buf = x # y # buf2" "length payload + 3 \<le> length buf2"
    using assms by (cases buf; cases "tl buf") auto
  define b1 where "b1 = buf'[0 := of_nat msglen, Suc 0 := seq]"
  have eq: "b1 = ?body @ drop (length payload) buf2"
    unfolding b1_def using buf' b by simp
  have t: "take (length payload + 2) b1 = ?body" unfolding eq by simp
  have five: "length payload + 5 = Suc (Suc (length payload + 3))" by simp
  have d: "drop (length payload + 5) b1 = drop (length payload + 5) buf"
    unfolding eq b five by (simp only: drop_Suc_Cons append_Cons append_Nil drop_append) (simp add: add.commute)
  have upd: "b1[length payload + 2 := u, length payload + 3 := v, length payload + 4 := w]
          = ?body @ [u, v, w] @ drop msglen buf" for u v w
    using crc_frame_list [of b1 "length b1" "length payload" u v w] d t assms(1,2) eq b by simp
  have idx: "msglen - 3 = length payload + 2" "length payload + 2 + 1 = length payload + 3"
    "msglen - 1 = length payload + 4" "\<not> msglen < 3" "\<not> length buf' < msglen" "\<not> length buf' \<le> 1"
    using assms buf' b by simp_all
  have "command_add_frame seq buf' msglen = Some (?body @ crc_bytes ?body @ [MESSAGE_SYNC] @ drop msglen buf)"
    unfolding command_add_frame_def Let_def idx One_nat_def b1_def [symmetric]
    unfolding t crc_bytes_def by (simp only: idx [unfolded One_nat_def] upd if_False simp_thms) simp
  then show ?thesis by (simp add: mk_block_def Let_def assms(1))
qed

lemma command_encodef_pure: "command_encodef ce args s = Ret r t \<Longrightarrow> t = s"
  by (auto simp: command_encodef_def op_simps Let_def split: if_splits outcome.splits)

lemma command_encodef_cong:
  "command_encodef ce args s = Ret r s \<Longrightarrow> sizeof_int t = sizeof_int s \<Longrightarrow> command_encodef ce args t = Ret r t"
  by (auto simp: command_encodef_def op_simps Let_def split: if_splits outcome.splits)

lemma store_bytes_fits: "p + length bs \<le> length a \<Longrightarrow> \<exists>b. store_bytes a p bs = Some b"
  by (simp add: store_bytes_def)

lemma encode_and_frame_block:
  assumes enc: "command_encodef ce args s = Ret (length payload + MESSAGE_MIN, payload) s"
    and fits: "b + length payload + MESSAGE_MIN \<le> length (transmit_buf s)"
  shows "command_encode_and_frame b ce args s =
    Ret (length payload + MESSAGE_MIN)
      (s\<lparr>transmit_buf := take b (transmit_buf s) @ mk_block (next_sequence s) payload
                          @ drop (b + length payload + MESSAGE_MIN) (transmit_buf s)\<rparr>)"
proof -
  let ?buf = "drop b (transmit_buf s)"
  obtain buf' where buf': "store_bytes ?buf MESSAGE_HEADER_SIZE payload = Some buf'"
    using store_bytes_fits [of 2 payload ?buf] fits by fastforce
  have "command_add_frame (next_sequence s) buf' (length payload + MESSAGE_MIN) =
      Some (mk_block (next_sequence s) payload @ drop (length payload + MESSAGE_MIN) ?buf)"
    using fits by (intro command_add_frame_block [OF refl _ buf']) simp
  then show ?thesis
    by (simp add: command_encode_and_frame_def op_simps enc buf' ac_simps)
qed

lemma generate_stream:
  assumes ok: "tx_ok u" and tmax: "transmit_max u = tmax"
    and enc: "command_encodef ce args u = Ret (length payload + MESSAGE_MIN, payload) u"
    and fits: "tmax + length payload + MESSAGE_MIN \<le> TX_BUFFER_SIZE"
  shows "\<exists>t. bind_op (command_encode_and_frame tmax ce args) (\<lambda>msglen.
             then_op tx_window
             (then_op (set_op (\<lambda>s. s\<lparr>transmit_max := tmax + msglen\<rparr>)) serial_enable_tx_irq)) u = Ret () t \<and>
           tx_frame u t \<and> tx_ok t \<and> tx_stream t = tx_stream u @ mk_block (next_sequence u) payload"
proof -
  let ?blk = "mk_block (next_sequence u) payload"
  define v where "v = u\<lparr>transmit_buf := take tmax (transmit_buf u) @ ?blk
                     @ drop (tmax + length payload + MESSAGE_MIN) (transmit_buf u)\<rparr>"
  have len: "length (transmit_buf u) = 96" "tmax \<le> 96" "transmit_pos u \<le> tmax"
    using ok tmax by (simp_all add: tx_ok_def)
  have enc': "command_encode_and_frame tmax ce args u = Ret (length payload + MESSAGE_MIN) v"
    unfolding v_def by (rule encode_and_frame_block [OF enc]) (use fits len in simp)
  have vok: "tx_ok v" and vst: "tx_stream v = tx_stream u"
    using ok fits len tmax by (auto simp: v_def tx_ok_def tx_stream_def tx_pending_def)
  obtain w where w: "tx_window v = Ret () w" "tx_step v w" using tx_window_step [OF vok] by blast
  have wb: "take (tmax + (length payload + MESSAGE_MIN)) (transmit_buf w) = take tmax (transmit_buf w) @ ?blk"
    using w(2) len fits by (simp add: tx_step_def v_def)
  let ?t = "w\<lparr>transmit_max := tmax + (length payload + MESSAGE_MIN), tx_enabled := True\<rparr>"
  have pos: "transmit_pos w \<le> tmax" "transmit_max w = tmax" "length (transmit_buf w) = 96"
    using w(2) tmax by (auto simp: tx_step_def tx_ok_def v_def)
  have "tx_stream ?t = tx_stream w @ ?blk"
    using wb pos len by (simp add: tx_stream_def tx_pending_def)
  moreover have "tx_ok ?t" using pos fits by (simp add: tx_ok_def)
  moreover have "tx_frame u v" unfolding v_def by (rule tx_frame_upd(1) [OF tx_frame_refl])
  then have "tx_frame u w" using w(2) by (auto simp: tx_step_def intro: tx_frame_trans)
  then have "tx_frame u ?t" by (intro tx_frame_upd)
  ultimately show ?thesis
    using w vst by (simp add: op_simps enc' serial_enable_tx_irq_def tx_step_def)
qed

lemma console_sendf_stream:
  assumes ok: "tx_ok s"
    and enc: "command_encodef ce args s = Ret (length payload + MESSAGE_MIN, payload) s"
    and max: "length payload + MESSAGE_MIN \<le> unat (ce_max_size ce)"
  obtains t where "console_sendf ce args s = Ret () t" "tx_frame s t" "tx_ok t"
    "tx_stream t = tx_stream s @
       (if length (tx_pending s) + unat (ce_max_size ce) > TX_BUFFER_SIZE then []
        else mk_block (next_sequence s) payload)"
proof -
  note fini = that
  obtain u where u: "tx_window s = Ret () u" "tx_step s u" using tx_window_step [OF ok] by blast
  have uok: "tx_ok u" and ust: "tx_stream u = tx_stream s" and uf: "tx_frame s u"
    and ubuf: "transmit_buf u = transmit_buf s" "transmit_max u = transmit_max s" "transmit_pos s \<le> transmit_pos u"
    using u(2) by (simp_all add: tx_step_def)
  have pend: "length (tx_pending s) = transmit_max s - transmit_pos s"
    using ok by (simp add: tx_pending_def tx_ok_def)
  have fin: thesis
    if run: "console_sendf ce args s =
             bind_op (command_encode_and_frame tmax ce args) (\<lambda>msglen.
             then_op tx_window
             (then_op (set_op (\<lambda>s. s\<lparr>transmit_max := tmax + msglen\<rparr>)) serial_enable_tx_irq)) v"
      and v: "tx_ok v" "tx_frame s v" "tx_stream v = tx_stream s" "transmit_max v = tmax"
      and room: "tmax + unat (ce_max_size ce) \<le> TX_BUFFER_SIZE"
      and room': "length (tx_pending s) + unat (ce_max_size ce) \<le> TX_BUFFER_SIZE" for v tmax
  proof -
    have fl: "sizeof_int v = sizeof_int s" "next_sequence v = next_sequence s"
      using tx_frame_fields [OF v(2)] by simp_all
    have "tmax + length payload + MESSAGE_MIN \<le> TX_BUFFER_SIZE" using room max by simp
    from generate_stream [OF v(1,4) command_encodef_cong [OF enc fl(1)] this] obtain t where
      t: "console_sendf ce args s = Ret () t" "tx_frame v t" "tx_ok t"
      "tx_stream t = tx_stream v @ mk_block (next_sequence v) payload"
      unfolding run by blast
    show thesis
      by (rule fini [OF t(1) tx_frame_trans [OF v(2) t(2)] t(3)]) (use t(4) v(3) fl(2) room' in simp)
  qed
  consider (empty) "transmit_pos s \<ge> transmit_max s"
    | (room) "transmit_pos s < transmit_max s" "transmit_max s + unat (ce_max_size ce) \<le> 96"
    | (full) "transmit_pos s < transmit_max s" "transmit_max s + unat (ce_max_size ce) - transmit_pos s > 96"
    | (move) "transmit_pos s < transmit_max s" "transmit_max s + unat (ce_max_size ce) > 96"
        "transmit_max s + unat (ce_max_size ce) - transmit_pos s \<le> 96"
    by linarith
  then show thesis
  proof cases
    case room
    show thesis
      by (rule fin [of "transmit_max s" u])
        (use room ok uok ust uf ubuf pend in \<open>simp_all add: console_sendf_def op_simps u(1) Let_def\<close>)
  next
    case full
    then have "96 < transmit_max s + unat (ce_max_size ce)" by linarith
    with full have "console_sendf ce args s = Ret () u"
      by (simp add: console_sendf_def op_simps u(1) Let_def)
    with full pend fini uf uok ust show thesis by simp
  next
    case empty
    have big: "unat (ce_max_size ce) \<le> 96 \<or> unat (ce_max_size ce) > 96" by linarith
    let ?v = "u\<lparr>transmit_max := 0, transmit_pos := 0\<rparr>"
    have sv: "tx_ok ?v" "tx_frame s ?v" "tx_stream ?v = tx_stream s"
      using uok uf ust ubuf empty ok by (auto simp: tx_ok_def tx_stream_def tx_pending_def intro: tx_frame_upd)
    show thesis
    proof (cases "unat (ce_max_size ce) \<le> 96")
      case True
      show thesis
        by (rule fin [of 0 ?v])
          (use True empty sv pend in \<open>simp_all add: console_sendf_def op_simps u(1) Let_def\<close>)
    next
      case False
      then have "console_sendf ce args s = Ret () ?v"
        using empty by (simp add: console_sendf_def op_simps u(1) Let_def)
      with False empty sv fini show thesis by simp
    qed
  next
    case move
    define tm where "tm = transmit_max s - transmit_pos u"
    define v where "v = u\<lparr>transmit_buf :=
          take tm (drop (transmit_pos u) (transmit_buf u)) @ drop tm (transmit_buf u),
        transmit_pos := 0, transmit_max := tm, tx_enabled := True\<rparr>"
    have "transmit_pos u \<le> transmit_max u" "transmit_max u \<le> 96" "length (transmit_buf u) = 96"
      using uok by (simp_all add: tx_ok_def)
    then have sv: "tx_ok v" "tx_frame s v" "tx_stream v = tx_stream s"
      using uf ust ubuf unfolding v_def tm_def
      by (auto simp: tx_ok_def tx_stream_def tx_pending_def min_def drop_take intro!: tx_frame_upd)
    have run: "console_sendf ce args s =
             bind_op (command_encode_and_frame tm ce args) (\<lambda>msglen.
             then_op tx_window
             (then_op (set_op (\<lambda>s. s\<lparr>transmit_max := tm + msglen\<rparr>)) serial_enable_tx_irq)) v"
      using move by (simp add: console_sendf_def op_simps u(1) Let_def serial_enable_tx_irq_def v_def tm_def)
    show thesis
      by (rule fin [OF run sv]) (use move ubuf pend in \<open>simp_all add: v_def tm_def\<close>)
  qed
qed

text \<open>\<open>command_sendf\<close>: a request that is made while another is under way is dropped.\<close>

lemma command_sendf_stream:
  assumes ok: "tx_ok s" and idle: "in_sendf s = 0"
    and enc: "command_encodef ce args s = Ret (length payload + MESSAGE_MIN, payload) s"
    and max: "length payload + MESSAGE_MIN \<le> unat (ce_max_size ce)"
  obtains t where "command_sendf ce args s = Ret () t" "tx_frame s t" "tx_ok t"
    "tx_stream t = tx_stream s @
       (if length (tx_pending s) + unat (ce_max_size ce) > TX_BUFFER_SIZE then []
        else mk_block (next_sequence s) payload)"
proof -
  let ?s = "s\<lparr>in_sendf := 1\<rparr>"
  have "tx_ok ?s" "command_encodef ce args ?s = Ret (length payload + MESSAGE_MIN, payload) ?s"
    using ok command_encodef_cong [OF enc, of ?s] by (simp_all add: tx_ok_def)
  from console_sendf_stream [OF this max] obtain t where
    t: "console_sendf ce args ?s = Ret () t" "tx_frame ?s t" "tx_ok t"
    "tx_stream t = tx_stream ?s @
       (if length (tx_pending ?s) + unat (ce_max_size ce) > TX_BUFFER_SIZE then []
        else mk_block (next_sequence ?s) payload)" .
  let ?t = "t\<lparr>in_sendf := 0\<rparr>"
  have "tx_erase ?t = (tx_erase t)\<lparr>in_sendf := 0\<rparr>" by (simp add: tx_erase_def)
  also have "\<dots> = (tx_erase s)\<lparr>in_sendf := 0\<rparr>" using t(2) by (simp add: tx_frame_def tx_erase_def)
  also have "\<dots> = tx_erase (s\<lparr>in_sendf := in_sendf s\<rparr>)" unfolding idle by (simp add: tx_erase_def)
  finally have "tx_frame s ?t" by (simp add: tx_frame_def)
  moreover have "command_sendf ce args s = Ret () ?t"
    using idle t(1) by (simp add: command_sendf_def op_simps)
  moreover have "tx_ok ?t" using t(3) by (simp add: tx_ok_def)
  moreover have "tx_stream ?t = tx_stream t" "tx_stream ?s = tx_stream s" "tx_pending ?s = tx_pending s"
    by (simp_all add: tx_stream_def tx_pending_def)
  ultimately show thesis using that [of ?t] t(4) by simp
qed

text \<open>Acknowledgements are empty blocks.\<close>

lemma encodef_acknak: "command_encodef encode_acknak args s = Ret (MESSAGE_MIN, []) s"
  by (simp add: command_encodef_def encode_acknak_def op_simps)

lemma send_acknak:
  assumes "tx_ok s" "in_sendf s = 0"
  obtains t where "command_sendf encode_acknak [] s = Ret () t" "tx_frame s t" "tx_ok t"
    "tx_stream t = tx_stream s @
       (if length (tx_pending s) + MESSAGE_MIN > TX_BUFFER_SIZE then [] else mk_block (next_sequence s) [])"
  using command_sendf_stream [OF assms, of encode_acknak "[]" "[]"]
  by (auto simp: encodef_acknak) (auto simp: encode_acknak_def)

text \<open>Messages whose parameters are integers.\<close>

fun va_words :: "nat \<Rightarrow> ptype list \<Rightarrow> u32 list \<Rightarrow> u32 list" where
  "va_words szint (t # ts) (v # vs) = va_word szint t v # va_words szint ts vs"
| "va_words szint ts vs = []"

lemma length_va_words [simp]: "length (va_words szint ts vs) = min (length ts) (length vs)"
  by (induction szint ts vs rule: va_words.induct) auto

lemma encodef_loop_ints:
  assumes "length ts = length vs" "list_all pt_int ts"
    "p + length (concat (map encode_int (va_words szint ts vs))) \<le> maxend"
  shows "encodef_loop szint maxend (length vs) ts (map Va_int vs) p () =
    Ret (concat (map encode_int (va_words szint ts vs))) ()"
  using assms
proof (induction vs arbitrary: ts p)
  case (Cons v vs)
  obtain t ts' where ts: "ts = t # ts'" using Cons.prems by (cases ts) auto
  from Cons.IH [of ts' "p + length (encode_int (va_word szint t v))"] show ?case
    using Cons.prems by (simp add: ts op_simps Let_def)
qed (simp add: op_simps)

text \<open>
  The encoder that the build generates for a message (\<open>scripts/buildcommands.py\<close>, \<open>build_parser\<close>): \<open>max_size\<close> allows
  for the longest encoding of every parameter (\<open>max_length\<close> of its type in \<open>msgproto.py\<close>).
\<close>

fun pt_max_length :: "ptype \<Rightarrow> nat" where
  "pt_max_length PT_uint32 = 5"
| "pt_max_length PT_int32 = 5"
| "pt_max_length PT_uint16 = 3"
| "pt_max_length PT_int16 = 3"
| "pt_max_length PT_byte = 2"
| "pt_max_length _ = 64"

definition message_encoder :: "u16 \<Rightarrow> ptype list \<Rightarrow> command_encoder" where
  "message_encoder encoded_msgid param_types =
     (let msgid_size = (if encoded_msgid \<ge> 0x80 then 2 else 1);
          max_size = min MESSAGE_MAX (MESSAGE_MIN + msgid_size + sum_list (map pt_max_length param_types))
      in \<lparr>ce_encoded_msgid = encoded_msgid, ce_max_size = of_nat max_size,
          ce_num_params = of_nat (length param_types), ce_param_types = param_types\<rparr>)"

text \<open>An argument as the C caller passes it: a value of the parameter's type, widened to 32 bits.\<close>

fun fits_type :: "ptype \<Rightarrow> u32 \<Rightarrow> bool" where
  "fits_type PT_uint16 v \<longleftrightarrow> v < 0x10000"
| "fits_type PT_int16 v \<longleftrightarrow> scast (ucast v :: u16) = v"
| "fits_type PT_byte v \<longleftrightarrow> v < 0x100"
| "fits_type _ v \<longleftrightarrow> True"

lemma ucast_u16_id: "v < 0x10000 \<Longrightarrow> ucast (ucast v :: u16) = (v :: u32)"
  by (intro unsigned_word_eqI [where 'a = int]) (simp add: unsigned_ucast_eq word_less_def unsigned_take_bit_eq take_bit_int_eq_self)

lemma va_word_fits: "fits_type t v \<Longrightarrow> va_word szint t v = v"
  by (cases t) (auto simp: va_word_def ucast_u16_id word_less_def)

lemma sint_small: "uint v < 2 ^ 31 \<Longrightarrow> sint (v :: u32) = uint v"
  by (simp add: sint_uint signed_take_bit_int_eq_self order_trans [OF _ unsigned_greater_eq])

lemma encode_int_type_length:
  assumes "pt_int t" "fits_type t v"
  shows "length (encode_int v) \<le> pt_max_length t"
proof -
  have short: "length (encode_int v) \<le> 3" if "- (2 ^ 15) \<le> sint v" "sint v < 2 ^ 16"
    using that by (auto simp: encode_int_def vlq_fits_def)
  consider (any) "t = PT_uint32 \<or> t = PT_int32" | (u16) "t = PT_uint16" | (i16) "t = PT_int16" | (byte) "t = PT_byte"
    using assms(1) by (auto simp: pt_int_def)
  then show ?thesis
  proof cases
    case any
    then show ?thesis using encode_int_length(2) [of v] by auto
  next
    case u16
    then have "uint v < 2 ^ 16" using assms(2) by (simp add: word_less_def)
    then have "sint v = uint v" by (simp add: sint_small)
    moreover have "- (2 ^ 15) \<le> uint v" by (rule order_trans [of _ 0]) simp_all
    ultimately have "- (2 ^ 15) \<le> sint v" "sint v < 2 ^ 16" using \<open>uint v < 2 ^ 16\<close> by (simp_all only:)
    then show ?thesis using short u16 by simp
  next
    case i16
    then have "scast (ucast v :: u16) = v" using assms(2) by simp
    moreover have "sint (scast (ucast v :: u16) :: u32) = sint (ucast v :: u16)" by (rule sint_up_scast) (simp add: is_up)
    ultimately have "sint v = sint (ucast v :: u16)" by simp
    then show ?thesis using short sint_ge [of "ucast v :: u16"] sint_lt [of "ucast v :: u16"] i16 by simp
  next
    case byte
    then have "uint v < 2 ^ 8" using assms(2) by (simp add: word_less_def)
    then have v: "sint v = uint v" by (simp add: sint_small)
    have "- (2 ^ 12) \<le> uint v" by (rule order_trans [of _ 0]) simp_all
    moreover have "uint v < 3 * 2 ^ 12" using \<open>uint v < 2 ^ 8\<close> by simp
    ultimately have "- (2 ^ 12) \<le> sint v \<and> sint v < 3 * 2 ^ 12" unfolding v by blast
    then have "vlq_fits 12 v" by (simp add: vlq_fits_def)
    then show ?thesis using byte by (simp add: encode_int_def)
  qed
qed

lemma encode_args_length:
  assumes "list_all pt_int ts" "list_all2 fits_type ts vs"
  shows "length (concat (map encode_int vs)) \<le> sum_list (map pt_max_length ts)"
  using assms(2,1)
proof (induction ts vs rule: list_all2_induct)
  case (Cons t ts v vs)
  then show ?case using encode_int_type_length [of t v] by simp
qed simp

lemma va_words_fits: "list_all2 fits_type ts vs \<Longrightarrow> va_words szint ts vs = vs"
  by (induction ts vs rule: list_all2_induct) (simp_all add: va_word_fits)

lemma encodef_message:
  fixes s :: "'a console_scheme" and msgid :: u16
  assumes "list_all pt_int ts" "list_all2 fits_type ts vs"
  defines "payload \<equiv> encode_msgid msgid @ concat (map encode_int vs)"
  assumes "length payload \<le> MESSAGE_PAYLOAD_MAX"
  shows "command_encodef (message_encoder msgid ts) (map Va_int vs) s = Ret (length payload + MESSAGE_MIN, payload) s"
    and "length payload + MESSAGE_MIN \<le> unat (ce_max_size (message_encoder msgid ts))"
proof -
  have len: "length ts = length vs" using assms(2) by (rule list_all2_lengthD)
  have idl: "length (encode_msgid msgid) = (if msgid \<ge> 0x80 then 2 else 1)" by (simp add: encode_msgid_def)
  have each: "length vs \<le> length (concat (map encode_int vs))"
  proof (induction vs)
    case (Cons v vs)
    with encode_int_length(1) [of v] show ?case by simp
  qed simp
  let ?m = "min MESSAGE_MAX (MESSAGE_MIN + length (encode_msgid msgid) + sum_list (map pt_max_length ts))"
  have m: "unat (of_nat ?m :: u8) = ?m" by (intro unat_of_nat_u8) simp
  have n: "unat (of_nat (length ts) :: u8) = length vs"
    using each assms(4) unfolding len payload_def by (intro unat_of_nat_u8) simp
  have ce: "message_encoder msgid ts = \<lparr>ce_encoded_msgid = msgid, ce_max_size = of_nat ?m,
      ce_num_params = of_nat (length ts), ce_param_types = ts\<rparr>"
    unfolding message_encoder_def Let_def idl by (simp only: add.assoc)
  have fit: "length payload + MESSAGE_MIN \<le> ?m"
    using assms(4) encode_args_length [OF assms(1,2)] by (simp add: payload_def)
  then show "length payload + MESSAGE_MIN \<le> unat (ce_max_size (message_encoder msgid ts))"
    unfolding ce by (simp add: m del: of_nat_min)
  have "0 < length payload" using idl by (simp add: payload_def)
  then have big: "\<not> ?m \<le> MESSAGE_MIN" using fit by linarith
  have "MESSAGE_HEADER_SIZE + length (encode_msgid msgid) + length (concat (map encode_int (va_words (sizeof_int s) ts vs)))
      \<le> MESSAGE_HEADER_SIZE + (?m - MESSAGE_MIN)"
    using fit unfolding va_words_fits [OF assms(2)] payload_def by (simp add: min_def split: if_splits)
  from encodef_loop_ints [OF len assms(1) this]
  show "command_encodef (message_encoder msgid ts) (map Va_int vs) s = Ret (length payload + MESSAGE_MIN, payload) s"
    unfolding ce command_encodef_def Let_def command_encoder.simps m n va_words_fits [OF assms(2)]
    using big by (simp add: op_simps payload_def)
qed

subsection \<open>Finding blocks\<close>

lemma find_nak_ret: "find_nak n s = Ret (r, m) t \<Longrightarrow> r = - 1 \<and> m = n"
  by (auto simp: find_nak_def op_simps split: outcome.splits)

lemma find_need_sync_ret: "find_need_sync buf s = Ret (r, m) t \<Longrightarrow> r = - 1"
  by (auto simp: find_need_sync_def op_simps split: outcome.splits option.splits if_splits dest: find_nak_ret)

lemma find_error_ret: "find_error buf s = Ret (r, m) t \<Longrightarrow> r = - 1"
  by (auto simp: find_error_def op_simps split: outcome.splits if_splits dest: find_need_sync_ret)

text \<open>What a call leaves unchanged: everything but the transmitter and \<open>sync_state\<close>.\<close>

definition find_ok :: "'a console_scheme \<Rightarrow> 'a console_scheme \<Rightarrow> bool" where
  "find_ok s t \<longleftrightarrow> tx_ok t \<and> (\<exists>st. tx_frame (s\<lparr>sync_state := st\<rparr>) t)"

lemma find_nak_ok:
  assumes "tx_ok s" "in_sendf s = 0"
  obtains t where "find_nak n s = Ret (- 1, n) t" "find_ok s t"
    "tx_stream t = tx_stream s @
       (if length (tx_pending s) + MESSAGE_MIN > TX_BUFFER_SIZE then [] else mk_block (next_sequence s) [])"
proof -
  obtain t where t: "command_sendf encode_acknak [] s = Ret () t" "tx_frame s t" "tx_ok t"
    "tx_stream t = tx_stream s @
       (if length (tx_pending s) + MESSAGE_MIN > TX_BUFFER_SIZE then [] else mk_block (next_sequence s) [])"
    using send_acknak [OF assms] .
  have "tx_frame (s\<lparr>sync_state := sync_state s\<rparr>) t" using t(2) by simp
  with t(3) have "find_ok s t" unfolding find_ok_def by blast
  with that [of t] t show thesis by (simp add: find_nak_def op_simps)
qed

lemma find_ok_sync: "tx_ok s \<Longrightarrow> find_ok (s\<lparr>sync_state := st\<rparr>) t \<Longrightarrow> find_ok s t"
  by (simp add: find_ok_def)

lemma find_ok_sync0: "tx_ok s \<Longrightarrow> find_ok s (s\<lparr>sync_state := st\<rparr>)"
  unfolding find_ok_def tx_ok_def by (auto intro: exI [of _ st] simp: tx_frame_refl)

lemma memchr_Suc_le: "memchr c xs = Some i \<Longrightarrow> Suc i \<le> length xs"
  using memchr_Some [of c xs i] by simp

lemma find_sync_end:
  assumes "tx_ok s" "in_sendf s = 0"
  obtains t where "bind_op (get_op sync_state) (\<lambda>st.
       if st AND CF_NEED_VALID \<noteq> 0 then ret (- 1, n)
       else
         then_op (set_op (\<lambda>s. s\<lparr>sync_state := sync_state s OR CF_NEED_VALID\<rparr>)) (find_nak n)) s
       = Ret (- 1 :: int, n) t" "find_ok s t"
proof (cases "sync_state s AND CF_NEED_VALID \<noteq> 0")
  case True
  then show thesis
    using that [of s] find_ok_sync0 [OF assms(1), of "sync_state s"] by (simp add: op_simps)
next
  case False
  let ?s = "s\<lparr>sync_state := sync_state s OR CF_NEED_VALID\<rparr>"
  have "tx_ok ?s" "in_sendf ?s = 0" using assms by (simp_all add: tx_ok_def)
  from find_nak_ok [OF this] obtain t where "find_nak n ?s = Ret (- 1, n) t" "find_ok ?s t" by blast
  with that [of t] False find_ok_sync [OF assms(1)] show thesis by (simp add: op_simps)
qed

lemma find_need_sync_ok:
  assumes "tx_ok s" "in_sendf s = 0"
  obtains n t where "find_need_sync buf s = Ret (- 1, n) t" "find_ok s t" "n \<le> length buf" "buf \<noteq> [] \<Longrightarrow> 0 < n"
proof (cases "memchr MESSAGE_SYNC buf")
  case None
  with find_sync_end [OF assms, of "length buf"] that show thesis
    by (simp add: find_need_sync_def op_simps) blast
next
  case (Some i)
  let ?s = "s\<lparr>sync_state := sync_state s AND NOT CF_NEED_SYNC\<rparr>"
  have "tx_ok ?s" "in_sendf ?s = 0" using assms by (simp_all add: tx_ok_def)
  from find_sync_end [OF this, of "Suc i"] obtain t where
    "bind_op (get_op sync_state) (\<lambda>st.
       if st AND CF_NEED_VALID \<noteq> 0 then ret (- 1, Suc i)
       else
         then_op (set_op (\<lambda>s. s\<lparr>sync_state := sync_state s OR CF_NEED_VALID\<rparr>)) (find_nak (Suc i))) ?s
       = Ret (- 1 :: int, Suc i) t" "find_ok ?s t" by blast
  with that [of "Suc i" t] find_ok_sync [OF assms(1)] memchr_Suc_le [OF Some] Some show thesis
    by (simp add: find_need_sync_def op_simps)
qed

lemma find_error_ok:
  assumes "tx_ok s" "in_sendf s = 0" "buf \<noteq> []"
  obtains n t where "find_error buf s = Ret (- 1, n) t" "find_ok s t" "n \<le> length buf" "0 < n"
proof (cases "buf ! 0 = MESSAGE_SYNC")
  case True
  have "find_ok s s" using find_ok_sync0 [OF assms(1), of "sync_state s"] by simp
  with that [of 1 s] True assms(3) show thesis by (cases buf) (simp_all add: find_error_def op_simps)
next
  case False
  let ?s = "s\<lparr>sync_state := sync_state s OR CF_NEED_SYNC\<rparr>"
  have "tx_ok ?s" "in_sendf ?s = 0" using assms by (simp_all add: tx_ok_def)
  from find_need_sync_ok [OF this, of buf] obtain n t where
    "find_need_sync buf ?s = Ret (- 1, n) t" "find_ok ?s t" "n \<le> length buf" "buf \<noteq> [] \<Longrightarrow> 0 < n" by blast
  with that [of n t] False find_ok_sync [OF assms(1)] assms(3) show thesis
    by (simp add: find_error_def op_simps)
qed

definition next_seq :: "u8 \<Rightarrow> u8" where
  "next_seq q = ((q + 1) AND MESSAGE_SEQ_MASK) OR MESSAGE_DEST"

text \<open>The tests of \<open>command_find_block\<close> on a buffer, as one predicate.\<close>

lemma find_block_tests:
  assumes "MESSAGE_MIN \<le> length buf"
  defines "n \<equiv> unat (buf ! 0)"
  shows "(\<exists>blk rest. buf = blk @ rest \<and> valid_block blk) \<longleftrightarrow>
     MESSAGE_MIN \<le> n \<and> n \<le> MESSAGE_MAX \<and> seq_ok (buf ! 1) \<and> n \<le> length buf \<and>
     buf ! (n - 1) = MESSAGE_SYNC \<and>
     crc16_ccitt (take (n - 3) buf) = push_bit 8 (ucast (buf ! (n - 3))) OR ucast (buf ! (n - 3 + 1))"
    (is "?L \<longleftrightarrow> ?R")
proof
  assume ?L
  then obtain blk rest where b: "buf = blk @ rest" "valid_block blk" by blast
  then have n: "n = length blk" "5 \<le> n"
    by (auto simp: valid_block_iff n_def nth_append)
  have "buf ! i = blk ! i" if "i < n" for i using that n b by (simp add: nth_append)
  moreover have "take (n - 3) buf = take (n - 3) blk" using n b by simp
  ultimately show ?R using b n by (simp add: valid_block_iff)
next
  assume r: ?R
  let ?blk = "take n buf"
  have "valid_block ?blk"
    using r unfolding valid_block_iff by (auto simp: n_def min_def take_take nth_append)
  then show ?L by (metis append_take_drop_id)
qed

lemma find_block_valid:
  assumes "valid_block blk" "sync_state s AND CF_NEED_SYNC = 0"
  defines "u \<equiv> s\<lparr>sync_state := sync_state s AND NOT CF_NEED_VALID\<rparr>"
  shows "command_find_block (blk @ rest) s =
    (if blk ! 1 = next_sequence s then Ret (1, length blk) (u\<lparr>next_sequence := next_seq (blk ! 1)\<rparr>)
     else find_nak (length blk) u)"
proof -
  have b: "5 \<le> length blk" "length blk \<le> 64" "unat (blk ! 0) = length blk" "seq_ok (blk ! 1)"
    "blk ! (length blk - 1) = MESSAGE_SYNC"
    "crc16_ccitt (take (length blk - 3) blk) =
       push_bit 8 (ucast (blk ! (length blk - 3))) OR ucast (blk ! (length blk - 3 + 1))"
    using assms(1) by (auto simp: valid_block_iff)
  have nth: "(blk @ rest) ! i = blk ! i" if "i < length blk" for i using that by (simp add: nth_append)
  have len: "0 < length blk" "1 < length blk" "length blk - 1 < length blk" "length blk - 3 < length blk"
    "length blk - 3 + 1 < length blk" "blk \<noteq> []" using b(1) by auto
  show ?thesis
    using b assms(2) unfolding command_find_block_def u_def Let_def
    by (simp add: op_simps nth [OF len(1)] nth [OF len(2), simplified] nth [OF len(3), simplified]
        nth [OF len(4)] nth [OF len(5), simplified] len seq_ok_def next_seq_def)
qed

lemma find_block_invalid:
  assumes "\<not> (\<exists>blk rest. buf = blk @ rest \<and> valid_block blk)" "sync_state s AND CF_NEED_SYNC = 0"
  shows "command_find_block buf s \<in> {Ret (0, 0) s, find_error buf s}"
proof (cases "MESSAGE_MIN \<le> length buf")
  case True
  from find_block_tests [OF this] assms show ?thesis
    unfolding command_find_block_def Let_def by (auto simp: op_simps seq_ok_def)
next
  case False
  with assms(2) show ?thesis by (simp add: command_find_block_def op_simps)
qed

subsection \<open>The receive buffer\<close>

definition rx_ok :: "'a console_scheme \<Rightarrow> bool" where
  "rx_ok s \<longleftrightarrow> receive_pos s \<le> RX_BUFFER_SIZE \<and> length (receive_buf s) = RX_BUFFER_SIZE"

definition rx_data :: "'a console_scheme \<Rightarrow> u8 list" where
  "rx_data s = take (receive_pos s) (receive_buf s)"

text \<open>\<open>rx_frame s t\<close>: \<open>t\<close> differs from \<open>s\<close> in the receiver and the request to run tasks only.\<close>

definition rx_erase :: "'a console_scheme \<Rightarrow> 'a console_scheme" where
  "rx_erase s = s\<lparr>receive_buf := [], receive_pos := 0, tasks_status := 0\<rparr>"

definition rx_frame :: "'a console_scheme \<Rightarrow> 'a console_scheme \<Rightarrow> bool" where
  "rx_frame s t \<longleftrightarrow> rx_erase t = rx_erase s"

lemma rx_frame_upd:
  "rx_frame s t \<Longrightarrow> rx_frame s (t\<lparr>receive_buf := b\<rparr>)" "rx_frame s t \<Longrightarrow> rx_frame s (t\<lparr>receive_pos := p\<rparr>)"
  "rx_frame s t \<Longrightarrow> rx_frame s (t\<lparr>tasks_status := ts\<rparr>)"
  by (simp_all add: rx_frame_def rx_erase_def)

lemma rx_frame_refl: "rx_frame s s"
  by (simp add: rx_frame_def)

lemma rx_frame_trans: "rx_frame s t \<Longrightarrow> rx_frame t u \<Longrightarrow> rx_frame s u"
  by (simp add: rx_frame_def)

lemma serial_rx_byte_ok:
  assumes "rx_ok s"
  obtains t where "serial_rx_byte c s = Ret () t" "rx_ok t" "rx_frame s t"
    "receive_pos t = min RX_BUFFER_SIZE (receive_pos s + 1)"
    "receive_buf t = take (receive_pos s) (receive_buf s) @ take (RX_BUFFER_SIZE - receive_pos s) [c]
                       @ drop (receive_pos s + 1) (receive_buf s)"
proof -
  define u where "u = (if c = MESSAGE_SYNC then s\<lparr>tasks_status := TS_REQUESTED\<rparr> else s)"
  define t where "t = (if receive_pos s \<ge> RX_BUFFER_SIZE then u
      else u\<lparr>receive_buf := (receive_buf s)[receive_pos s := c], receive_pos := receive_pos s + 1\<rparr>)"
  have u: "receive_pos u = receive_pos s" "receive_buf u = receive_buf s" "rx_frame s u"
    by (simp_all add: u_def rx_frame_upd rx_frame_refl)
  have "serial_rx_byte c s = Ret () t"
    using u by (auto simp: serial_rx_byte_def sched_wake_tasks_def op_simps t_def u_def)
  moreover have "receive_buf t = take (receive_pos s) (receive_buf s) @ take (RX_BUFFER_SIZE - receive_pos s) [c]
                       @ drop (receive_pos s + 1) (receive_buf s)"
    using assms u by (auto simp: t_def rx_ok_def upd_conv_take_nth_drop take_Cons')
  moreover have "rx_ok t" "rx_frame s t" "receive_pos t = min RX_BUFFER_SIZE (receive_pos s + 1)"
    using assms u by (auto simp: t_def rx_ok_def intro: rx_frame_upd)
  ultimately show thesis using that by blast
qed

text \<open>Received bytes are appended until the buffer is full; the rest is lost.\<close>

lemma serial_rx_bytes_ok:
  assumes "rx_ok s"
  obtains t where "each_op serial_rx_byte cs s = Ret () t" "rx_ok t" "rx_frame s t"
    "receive_pos t = min RX_BUFFER_SIZE (receive_pos s + length cs)"
    "receive_buf t = take (receive_pos s) (receive_buf s) @ take (RX_BUFFER_SIZE - receive_pos s) cs
                       @ drop (receive_pos s + length cs) (receive_buf s)"
  using assms
proof (induction cs arbitrary: s thesis)
  case Nil
  show ?case
    by (rule Nil.prems(1) [of s]) (use Nil.prems(2) in \<open>simp_all add: op_simps rx_ok_def rx_frame_refl\<close>)
next
  case (Cons c cs)
  obtain u where u: "serial_rx_byte c s = Ret () u" "rx_ok u" "rx_frame s u"
    "receive_pos u = min RX_BUFFER_SIZE (receive_pos s + 1)"
    "receive_buf u = take (receive_pos s) (receive_buf s) @ take (RX_BUFFER_SIZE - receive_pos s) [c]
                       @ drop (receive_pos s + 1) (receive_buf s)"
    using serial_rx_byte_ok [OF Cons.prems(2)] .
  obtain t where t: "each_op serial_rx_byte cs u = Ret () t" "rx_ok t" "rx_frame u t"
    "receive_pos t = min RX_BUFFER_SIZE (receive_pos u + length cs)"
    "receive_buf t = take (receive_pos u) (receive_buf u) @ take (RX_BUFFER_SIZE - receive_pos u) cs
                       @ drop (receive_pos u + length cs) (receive_buf u)"
    using Cons.IH [OF _ u(2)] by blast
  have len: "length (receive_buf s) = 192" "receive_pos s \<le> 192" using Cons.prems(2) by (simp_all add: rx_ok_def)
  have "receive_buf t = take (receive_pos s) (receive_buf s) @ take (RX_BUFFER_SIZE - receive_pos s) (c # cs)
                       @ drop (receive_pos s + length (c # cs)) (receive_buf s)"
  proof (cases "receive_pos s = 192")
    case True
    with t(5) u(4,5) len show ?thesis by simp
  next
    case False
    with len have lt: "receive_pos s < 192" by simp
    then have up: "receive_pos u = Suc (receive_pos s)" "192 - receive_pos s = Suc (192 - receive_pos u)"
      "receive_buf u = take (receive_pos s) (receive_buf s) @ c # drop (Suc (receive_pos s)) (receive_buf s)"
      using u(4,5) by simp_all
    from lt len have "take (receive_pos u) (receive_buf u) = take (receive_pos s) (receive_buf s) @ [c]"
      "drop (receive_pos u + length cs) (receive_buf u) = drop (receive_pos s + length (c # cs)) (receive_buf s)"
      unfolding up by (simp_all add: add.commute)
    with t(5) up(2) show ?thesis by simp
  qed
  moreover have "each_op serial_rx_byte (c # cs) s = Ret () t" by (simp add: op_simps u t)
  moreover have "receive_pos t = min RX_BUFFER_SIZE (receive_pos s + length (c # cs))"
    using t(4) u(4) len by simp
  ultimately show ?case using Cons.prems(1) t(2) rx_frame_trans [OF u(3) t(3)] by blast
qed

lemma serial_rx_data:
  assumes "rx_ok s"
  obtains t where "each_op serial_rx_byte cs s = Ret () t" "rx_ok t" "rx_frame s t"
    "rx_data t = rx_data s @ take (RX_BUFFER_SIZE - receive_pos s) cs"
    "take (receive_pos s) (receive_buf t) = take (receive_pos s) (receive_buf s)"
    "receive_pos t = min RX_BUFFER_SIZE (receive_pos s + length cs)"
proof -
  obtain t where t: "each_op serial_rx_byte cs s = Ret () t" "rx_ok t" "rx_frame s t"
    "receive_pos t = min RX_BUFFER_SIZE (receive_pos s + length cs)"
    "receive_buf t = take (receive_pos s) (receive_buf s) @ take (RX_BUFFER_SIZE - receive_pos s) cs
                       @ drop (receive_pos s + length cs) (receive_buf s)"
    using serial_rx_bytes_ok [OF assms] .
  have len: "length (receive_buf s) = 192" "receive_pos s \<le> 192" using assms by (simp_all add: rx_ok_def)
  have "rx_data t = rx_data s @ take (RX_BUFFER_SIZE - receive_pos s) cs"
    unfolding rx_data_def t(4,5) using len by (simp add: min_def)
  with that [OF t(1-3) _ _ t(4)] t(5) len show thesis by (simp add: min_def)
qed

text \<open>
  The invariant of the pop loop: \<open>D\<close> is what the buffer held before the pop and since; its bytes
  from \<open>len\<close> to \<open>len + copied\<close> are already in place and those behind are where they arrived.
\<close>

definition pop_inv :: "u8 list \<Rightarrow> nat \<Rightarrow> nat \<Rightarrow> 'a console_scheme \<Rightarrow> bool" where
  "pop_inv D len copied s \<longleftrightarrow> rx_ok s \<and> length D = receive_pos s \<and> copied + len \<le> length D \<and>
     take copied (receive_buf s) = take copied (drop len D) \<and>
     take (length D - (copied + len)) (drop (copied + len) (receive_buf s)) = drop (copied + len) D"

lemma pop_move:
  assumes "pop_inv D len copied s"
  defines "need \<equiv> length D - len"
  defines "b \<equiv> take copied (receive_buf s) @ take (need - copied) (drop (copied + len) (receive_buf s))
                 @ drop need (receive_buf s)"
  shows "length b = RX_BUFFER_SIZE" "take need b = drop len D"
proof -
  have a: "length (receive_buf s) = 192" "length D \<le> 192" "copied + len \<le> length D"
    using assms(1) by (auto simp: pop_inv_def rx_ok_def)
  have m: "take copied (receive_buf s) = take copied (drop len D)"
    "take (length D - (copied + len)) (drop (copied + len) (receive_buf s)) = drop (copied + len) D"
    using assms(1) unfolding pop_inv_def by blast+
  have nc: "need - copied = length D - (copied + len)" by (simp add: need_def)
  have "take copied (receive_buf s) @ take (need - copied) (drop (copied + len) (receive_buf s)) =
      take copied (drop len D) @ drop copied (drop len D)"
    unfolding m nc by (simp add: add.commute)
  then have b: "b = drop len D @ drop need (receive_buf s)"
    unfolding b_def append_take_drop_id by (metis append.assoc)
  then show "length b = RX_BUFFER_SIZE" "take need b = drop len D"
    using a by (simp_all add: need_def)
qed

lemma pop_loop_ok:
  assumes "pop_inv D len copied s"
  obtains t k where "pop_loop len copied rxs s = Ret () t" "rx_ok t" "rx_frame s t"
    "rx_data t = drop len (D @ take (RX_BUFFER_SIZE - length D) (concat (take k rxs)))"
  using assms
proof (induction rxs arbitrary: D copied s thesis)
  case (Nil D copied s)
  let ?need = "receive_pos s - len"
  define b where "b = take copied (receive_buf s) @ take (?need - copied) (drop (copied + len) (receive_buf s))
                 @ drop ?need (receive_buf s)"
  have i: "length D = receive_pos s" "len \<le> receive_pos s" "rx_ok s" using Nil(2) by (auto simp: pop_inv_def)
  have b: "length b = RX_BUFFER_SIZE" "take ?need b = drop len D"
    unfolding b_def i(1) [symmetric] by (rule pop_move [OF Nil(2)])+
  define t where "t = (if ?need \<noteq> 0 then s\<lparr>receive_buf := b, tasks_status := TS_REQUESTED, receive_pos := ?need\<rparr>
      else s\<lparr>receive_pos := ?need\<rparr>)"
  have "pop_loop len copied [] s = Ret () t"
    using i by (subst pop_loop.simps) (simp add: op_simps Let_def sched_wake_tasks_def t_def b_def)
  moreover have "rx_ok t" "rx_frame s t" "rx_data t = drop len D"
    using b i
    by (auto simp: t_def rx_ok_def rx_data_def rx_frame_upd rx_frame_refl)
  ultimately show ?case using Nil(1) [of t 0] by simp
next
  case (Cons rx rxs D copied s)
  let ?need = "receive_pos s - len"
  define b where "b = take copied (receive_buf s) @ take (?need - copied) (drop (copied + len) (receive_buf s))
                 @ drop ?need (receive_buf s)"
  have i: "length D = receive_pos s" "len \<le> receive_pos s" "rx_ok s" "copied + len \<le> length D"
    using Cons.prems(2) by (auto simp: pop_inv_def)
  have b: "length b = RX_BUFFER_SIZE" "take ?need b = drop len D"
    unfolding b_def i(1) [symmetric] by (rule pop_move [OF Cons.prems(2)])+
  define u where "u = (if ?need \<noteq> 0 then s\<lparr>receive_buf := b, tasks_status := TS_REQUESTED\<rparr> else s)"
  have u: "rx_ok u" "rx_frame s u" "receive_pos u = receive_pos s" "take ?need (receive_buf u) = drop len D"
    using b i
    by (auto simp: u_def rx_ok_def rx_frame_upd rx_frame_refl)
  obtain v where v: "each_op serial_rx_byte rx u = Ret () v" "rx_ok v" "rx_frame u v"
    "rx_data v = rx_data u @ take (RX_BUFFER_SIZE - receive_pos u) rx"
    "take (receive_pos u) (receive_buf v) = take (receive_pos u) (receive_buf u)"
    "receive_pos v = min RX_BUFFER_SIZE (receive_pos u + length rx)"
    using serial_rx_data [OF u(1)] .
  have run: "pop_loop len copied (rx # rxs) s =
      (if receive_pos s \<noteq> receive_pos v then pop_loop len ?need rxs v
       else Ret () (v\<lparr>receive_pos := ?need\<rparr>))"
  proof (cases "len < receive_pos s")
    case True
    with v(1) show ?thesis
      by (subst pop_loop.simps) (auto simp: op_simps Let_def sched_wake_tasks_def u_def b_def)
  next
    case False
    with i have "copied = 0" "receive_pos s = len" by linarith+
    with v(1) show ?thesis by (subst pop_loop.simps) (auto simp: op_simps Let_def u_def)
  qed
  have vb: "take ?need (receive_buf v) = drop len D"
    using arg_cong [OF v(5), of "take ?need"] u(3,4) i by (simp add: min_def)
  show ?case
  proof (cases "receive_pos s = receive_pos v")
    case True
    then have "take (RX_BUFFER_SIZE - length D) rx = []" using v(6) u(3) i by (auto simp: rx_ok_def min_def split: if_splits)
    moreover have "rx_frame s (v\<lparr>receive_pos := ?need\<rparr>)"
      using rx_frame_trans [OF u(2) v(3)] by (rule rx_frame_upd)
    moreover have "rx_ok (v\<lparr>receive_pos := ?need\<rparr>)" using v(2) i by (auto simp: rx_ok_def)
    moreover have "rx_data (v\<lparr>receive_pos := ?need\<rparr>) = drop len D" using vb by (simp add: rx_data_def)
    ultimately show ?thesis
      by (intro Cons.prems(1) [of "v\<lparr>receive_pos := ?need\<rparr>" 1]) (simp_all only: run True, auto)
  next
    case False
    let ?D = "D @ take (RX_BUFFER_SIZE - length D) rx"
    have inv: "pop_inv ?D len ?need v"
      unfolding pop_inv_def
    proof (intro conjI)
      show "length ?D = receive_pos v" using v(6) u(3) i by (auto simp: rx_ok_def)
      show "take ?need (receive_buf v) = take ?need (drop len ?D)" using vb i by simp
      have eq: "?need + len = receive_pos s" using i by simp
      have "drop (receive_pos s) (rx_data v) = take (RX_BUFFER_SIZE - length D) rx"
        using v(4) u(3) i u(1) by (simp add: rx_data_def rx_ok_def)
      then show "take (length ?D - (?need + len)) (drop (?need + len) (receive_buf v)) = drop (?need + len) ?D"
        unfolding eq using \<open>length ?D = receive_pos v\<close> i
        by (simp add: rx_data_def drop_take)
    qed (use v(2) i in simp_all)
    obtain t k where t: "pop_loop len ?need rxs v = Ret () t" "rx_ok t" "rx_frame v t"
      "rx_data t = drop len (?D @ take (RX_BUFFER_SIZE - length ?D) (concat (take k rxs)))"
      using Cons.IH [OF _ inv] by blast
    have rxt: "rx_data t = drop len (D @ take (RX_BUFFER_SIZE - length D) (concat (take (Suc k) (rx # rxs))))"
      using t(4) by (simp add: min_def not_le split: if_splits)
    have "rx_frame s t" using u(2) v(3) t(3) by (blast intro: rx_frame_trans)
    then show ?thesis
      by (rule Cons.prems(1) [OF _ t(2) _ rxt, rotated]) (use run t(1) False in simp)
  qed
qed

lemma console_pop_input_ok:
  assumes "rx_ok s" "len \<le> receive_pos s"
  obtains t k where "console_pop_input len rxs s = Ret () t" "rx_ok t" "rx_frame s t"
    "rx_data t = drop len (rx_data s @ take (RX_BUFFER_SIZE - receive_pos s) (concat (take k rxs)))"
proof -
  have l: "length (rx_data s) = receive_pos s" using assms(1) by (simp add: rx_data_def rx_ok_def)
  have "pop_inv (rx_data s) len 0 s"
    using assms l by (simp add: pop_inv_def rx_data_def drop_take)
  from pop_loop_ok [OF this] that show thesis unfolding console_pop_input_def l by blast
qed

subsection \<open>Arguments of commands\<close>

text \<open>Arguments as the host lays them out, and as the handler sees them.\<close>

datatype arg = Arg_int u32 | Arg_buf "u8 list"

fun arg_type :: "arg \<Rightarrow> ptype" where
  "arg_type (Arg_int v) = PT_uint32"
| "arg_type (Arg_buf bs) = PT_buffer"

fun arg_bytes :: "arg \<Rightarrow> u8 list" where
  "arg_bytes (Arg_int v) = encode_int v"
| "arg_bytes (Arg_buf bs) = of_nat (length bs) # bs"

fun arg_fits :: "arg \<Rightarrow> bool" where
  "arg_fits (Arg_int v) = True"
| "arg_fits (Arg_buf bs) = (length bs < 256)"

fun read_args :: "(u32 \<Rightarrow> nat) \<Rightarrow> u8 list \<Rightarrow> ptype list \<Rightarrow> u32 list \<Rightarrow> arg list" where
  "read_args dec buf (PT_buffer # ts) (len # a # ws) =
     Arg_buf (take (unat len) (drop (dec a) buf)) # read_args dec buf ts ws"
| "read_args dec buf (t # ts) (w # ws) = Arg_int w # read_args dec buf ts ws"
| "read_args dec buf ts ws = []"

lemma parsef_loop_args:
  assumes "list_all arg_fits as" "buf = pre @ concat (map arg_bytes as) @ post"
    "length pre + length (concat (map arg_bytes as)) \<le> maxend"
    "\<And>p. p \<le> length buf \<Longrightarrow> dec (ptr p) = p"
  shows "\<exists>ws. parsef_loop ptr buf maxend (length as) (map arg_type as) (length pre) () =
           Ret (length pre + length (concat (map arg_bytes as)), ws) () \<and>
         read_args dec buf (map arg_type as) ws = as"
  using assms(1,2,3)
proof (induction as arbitrary: pre)
  case (Cons a as)
  let ?pre = "pre @ arg_bytes a"
  from Cons.IH [of ?pre] Cons.prems obtain ws where
    ws: "parsef_loop ptr buf maxend (length as) (map arg_type as) (length ?pre) () =
           Ret (length ?pre + length (concat (map arg_bytes as)), ws) ()"
    "read_args dec buf (map arg_type as) ws = as"
    by auto
  show ?case
  proof (cases a)
    case (Arg_int v)
    let ?rest = "concat (map arg_bytes as) @ post"
    have "parse_int (drop (length pre) buf) = Some (v, ?rest)"
      using Cons.prems(2) by (simp add: Arg_int parse_encode_int)
    moreover have "length buf - length ?rest = length ?pre" using Cons.prems(2) by simp
    ultimately show ?thesis
      using ws Cons.prems(3)
      by (intro exI [of _ "v # ws"]) (simp add: op_simps pt_int_def Arg_int)
  next
    case (Arg_buf bs)
    have bs: "unat (of_nat (length bs) :: u8) = length bs" "length bs < 256"
      using Cons.prems(1) Arg_buf by (auto simp: unat_of_nat_u8)
    have len: "unat (of_nat (length bs) :: u32) = length bs" using bs(2) by (simp add: unat_of_nat)
    have dec: "dec (ptr (Suc (length pre))) = Suc (length pre)"
      using Cons.prems(2) Arg_buf by (intro assms(4)) simp
    have at: "buf ! length pre = of_nat (length bs)" "length pre < length buf"
      using Cons.prems(2) Arg_buf by (simp_all add: nth_append)
    have "take (length bs) (drop (Suc (length pre)) buf) = bs"
      using Cons.prems(2) Arg_buf by simp
    then show ?thesis
      using ws at bs(1) len dec Cons.prems(3)
      by (intro exI [of _ "of_nat (length bs) # ptr (Suc (length pre)) # ws"])
        (simp add: op_simps pt_int_def Arg_buf Let_def)
  qed
qed (simp add: op_simps)

lemma command_ptr_inverse:
  assumes "p < 2 ^ 32" shows "command_decode_ptr s (command_encode_ptr s p) = p"
  using assms by (simp add: command_decode_ptr_def command_encode_ptr_def unat_of_nat)

subsection \<open>Dispatch\<close>

lemma parse_int_loop_length: "parse_int_loop v c p = Some (w, r) \<Longrightarrow> length r \<le> length p"
proof (induction p arbitrary: v c)
  case Nil
  then show ?case by (subst (asm) parse_int_loop.simps) (simp split: if_splits)
next
  case (Cons d p)
  show ?case
  proof (cases "c AND 0x80 = 0")
    case True
    with Cons.prems show ?thesis by (subst (asm) parse_int_loop.simps) simp
  next
    case False
    with Cons.prems have "parse_int_loop (push_bit 7 v OR ucast (d AND 0x7f)) d p = Some (w, r)"
      by (subst (asm) parse_int_loop.simps) simp
    from Cons.IH [OF this] show ?thesis by simp
  qed
qed

lemma parse_int_length: "parse_int p = Some (w, r) \<Longrightarrow> length r < length p"
  by (cases p) (auto simp: parse_int_def Let_def dest!: parse_int_loop_length)

lemma parse_msgid_length: "command_parse_msgid p = Some (w, r) \<Longrightarrow> length r < length p"
  by (auto simp: command_parse_msgid_def Let_def split: list.splits if_splits)

lemma parsef_loop_forward:
  "parsef_loop ptr buf maxend n ts p s = Ret (q, args) t \<Longrightarrow> p \<le> length buf \<Longrightarrow> maxend \<le> length buf \<Longrightarrow>
   p \<le> q"
proof (induction n arbitrary: ts p q args s t)
  case (Suc n)
  from Suc.prems obtain ty ts' where ts: "ts = ty # ts'" and p: "p \<le> maxend"
    by (cases ts) (auto simp: op_simps split: if_splits)
  have rec: "p' \<le> q" if "bind_op (parsef_loop ptr buf maxend n ts' p') (\<lambda>(q, args). ret (q, f args)) s = Ret (q, args) t"
    "p' \<le> length buf" for p' f
    using that Suc.IH [of ts' p' s _ _ t] Suc.prems(3) by (auto simp: bind_op_Ret_iff ret_app)
  consider (int) v rest where "pt_int ty" "parse_int (drop p buf) = Some (v, rest)"
    | (buf) "\<not> pt_int ty" "ty = PT_buffer" "p < length buf" "p + 1 + unat (buf ! p) \<le> maxend"
    using Suc.prems ts p by (fastforce simp: op_simps Let_def split: if_splits option.splits)
  then show ?case
  proof cases
    case int
    from parse_int_length [OF int(2)] have "p \<le> length buf - length rest" by simp
    also have "length buf - length rest \<le> q"
      using Suc.prems(1) ts p int by (intro rec) auto
    finally show ?thesis .
  next
    case buf
    have "p + 1 + unat (buf ! p) \<le> q"
      using Suc.prems ts p buf by (intro rec [of _ "\<lambda>args. _ # _ # args"]) (auto simp: Let_def not_less)
    then show ?thesis by simp
  qed
qed (simp add: op_simps)

lemma dispatch_one_forward:
  assumes "dispatch_one env buf msgend p s = Ret q t" "p < msgend" "msgend \<le> length buf"
  shows "p < q"
proof -
  obtain cmdid rest where r: "command_parse_msgid (drop p buf) = Some (cmdid, rest)"
    using assms(1) by (cases "command_parse_msgid (drop p buf)") (auto simp: dispatch_one_def op_simps)
  have lt: "p < length buf - length rest" using parse_msgid_length [OF r] by simp
  obtain n ts args where
    "parsef_loop (command_encode_ptr s) buf msgend n ts (length buf - length rest) () = Ret (q, args) ()"
    using assms(1) r
    by (auto simp: dispatch_one_def op_simps command_lookup_parser_def command_parsef_def
        split: if_splits outcome.splits)
  then have "length buf - length rest \<le> q"
    using parsef_loop_forward [OF _ _ assms(3)] by simp
  with lt show ?thesis by simp
qed

lemma safe_lookup: "safe_op Q (command_lookup_parser index cmdid)"
  by (simp add: command_lookup_parser_def safe_ret safe_shutdown)

lemma safe_parsef: "safe_op Q (command_parsef buf p maxend cp)"
  by (auto simp: command_parsef_def intro!: safe_bind safe_get safe_pure)

text \<open>
  The same table with a trap in front of every handler that is not flagged \<open>HF_IN_SHUTDOWN\<close>: calling it
  while the machine is shut down has no outcome. \<open>keeps_running\<close>: the board's \<open>irq_poll\<close>, where it enters a
  shutdown, does not return (the shutdown leaves through \<open>longjmp\<close>).
\<close>

definition trap_handler :: "'a console_scheme command_parser \<Rightarrow> 'a console_scheme command_parser" where
  "trap_handler cp = cp\<lparr>cp_func := (\<lambda>args.
     bind_op (get_op sched_is_shutdown) (\<lambda>down.
       if down \<and> cp_flags cp AND HF_IN_SHUTDOWN = 0 then undef_op else cp_func cp args))\<rparr>"

definition trap_env :: "'a console_scheme console_env \<Rightarrow> 'a console_scheme console_env" where
  "trap_env env = env\<lparr>command_index := map trap_handler (command_index env)\<rparr>"

definition keeps_running :: "'a console_scheme console_env \<Rightarrow> bool" where
  "keeps_running env \<longleftrightarrow>
     (\<forall>s u t. cmd_irq_poll env s = Ret u t \<longrightarrow> \<not> sched_is_shutdown s \<longrightarrow> \<not> sched_is_shutdown t)"

lemma command_parsef_trap: "command_parsef buf p maxend (trap_handler cp) = command_parsef buf p maxend cp"
  by (simp add: command_parsef_def trap_handler_def)

lemma lookup_trap:
  "command_lookup_parser (map trap_handler index) cmdid s =
     (case command_lookup_parser index cmdid s of Ret cp t \<Rightarrow> Ret (trap_handler cp) t | Shutdown e t \<Rightarrow> Shutdown e t | Undef \<Rightarrow> Undef)"
  by (simp add: command_lookup_parser_def op_simps)

lemma trapped_call:
  assumes "keeps_running env" "\<not> (sched_is_shutdown s \<and> cp_flags cp AND HF_IN_SHUTDOWN = 0)"
  shows "then_op (cmd_irq_poll env) (then_op (cp_func (trap_handler cp) args) (ret p)) s =
         then_op (cmd_irq_poll env) (then_op (cp_func cp args) (ret p)) s"
  using assms by (cases "cmd_irq_poll env s") (auto simp: op_simps keeps_running_def trap_handler_def)

lemma bind_op_eq: "(\<And>x t. m s = Ret x t \<Longrightarrow> f x t = g x t) \<Longrightarrow> bind_op m f s = bind_op m g s"
  by (simp add: bind_op_app split: outcome.split)

lemma dispatch_one_trap:
  assumes "keeps_running env"
  shows "dispatch_one (trap_env env) buf msgend p s = dispatch_one env buf msgend p s"
proof -
  have step: "(if length args > unat (cp_num_args (trap_handler cp)) then undef_op
       else bind_op (get_op sched_is_shutdown) (\<lambda>down.
           if down \<and> cp_flags (trap_handler cp) AND HF_IN_SHUTDOWN = 0 then then_op sched_report_shutdown (ret p')
           else then_op (cmd_irq_poll (trap_env env)) (then_op (cp_func (trap_handler cp) args) (ret p')))) u =
     (if length args > unat (cp_num_args cp) then undef_op
       else bind_op (get_op sched_is_shutdown) (\<lambda>down.
           if down \<and> cp_flags cp AND HF_IN_SHUTDOWN = 0 then then_op sched_report_shutdown (ret p')
           else then_op (cmd_irq_poll env) (then_op (cp_func cp args) (ret p')))) u"
    for cp args p' and u :: "'a console_scheme"
  proof -
    have "cp_flags (trap_handler cp) = cp_flags cp" "cp_num_args (trap_handler cp) = cp_num_args cp"
      "cmd_irq_poll (trap_env env) = cmd_irq_poll env"
      by (simp_all add: trap_handler_def trap_env_def)
    with trapped_call [OF assms, of u cp args p'] show ?thesis by (auto simp: get_op_app bind_op_app)
  qed
  have trap: "trap_env env = env\<lparr>command_index := map trap_handler (command_index env)\<rparr>" by (simp add: trap_env_def)
  have parsed: "bind_op (command_parsef buf q msgend (trap_handler cp)) (\<lambda>(p', args).
       if length args > unat (cp_num_args (trap_handler cp)) then undef_op
       else bind_op (get_op sched_is_shutdown) (\<lambda>down.
           if down \<and> cp_flags (trap_handler cp) AND HF_IN_SHUTDOWN = 0 then then_op sched_report_shutdown (ret p')
           else then_op (cmd_irq_poll (trap_env env)) (then_op (cp_func (trap_handler cp) args) (ret p')))) u =
     bind_op (command_parsef buf q msgend cp) (\<lambda>(p', args).
       if length args > unat (cp_num_args cp) then undef_op
       else bind_op (get_op sched_is_shutdown) (\<lambda>down.
           if down \<and> cp_flags cp AND HF_IN_SHUTDOWN = 0 then then_op sched_report_shutdown (ret p')
           else then_op (cmd_irq_poll env) (then_op (cp_func cp args) (ret p')))) u"
    for cp q and u :: "'a console_scheme"
    unfolding command_parsef_trap by (rule bind_op_eq) (auto simp only: step prod.case split: prod.split)
  have index: "command_index (trap_env env) = map trap_handler (command_index env)" by (simp add: trap_env_def)
  show ?thesis
    unfolding dispatch_one_def index
    by (rule bind_op_eq) (clarsimp simp: bind_op_app [of "command_lookup_parser _ _"] lookup_trap parsed split: outcome.split)
qed

lemma dispatch_loop_trap:
  "keeps_running env \<Longrightarrow> dispatch_loop (trap_env env) fuel buf msgend p s = dispatch_loop env fuel buf msgend p s"
  by (induction fuel arbitrary: p s) (auto simp: bind_op_app dispatch_one_trap split: outcome.split)

text \<open>Reports only: a dispatch in shutdown over a table without flagged commands.\<close>

definition reports_only :: "'a console_scheme \<Rightarrow> 'a console_scheme \<Rightarrow> bool" where
  "reports_only s t \<longleftrightarrow> (\<exists>x. t = s\<lparr>sent := x\<rparr>)"

lemma dispatch_one_reports:
  assumes "\<forall>cp\<in>set (command_index env). cp_flags cp AND HF_IN_SHUTDOWN = 0" "sched_is_shutdown s"
  shows "safe_op (\<lambda>t. reports_only s t) (dispatch_one env buf msgend p)"
proof -
  have down: "sched_is_shutdown t" if "reports_only s t" for t
    using that assms(2) by (auto simp: reports_only_def sched_is_shutdown_def)
  have report: "safe_op (\<lambda>t. reports_only s t) sched_report_shutdown"
    by (auto simp: sched_report_shutdown_def sendf_def reports_only_def intro!: safe_bind safe_get safe_set)
  have mem: "cp_flags cp AND HF_IN_SHUTDOWN = 0"
    if "command_lookup_parser (command_index env) cmdid u = Ret cp t" for cmdid cp and u t :: "'a console_scheme"
    using that assms(1) by (auto simp: command_lookup_parser_def op_simps split: if_splits)
  have run: "safe_op (\<lambda>t. reports_only s t) (bind_op (get_op sched_is_shutdown) (\<lambda>down.
           if down \<and> cp_flags cp AND HF_IN_SHUTDOWN = 0 then then_op sched_report_shutdown (ret p')
           else then_op (cmd_irq_poll env) (then_op (cp_func cp args) (ret p'))))"
    if "cp_flags cp AND HF_IN_SHUTDOWN = 0" for cp args p'
    using that by (intro safe_bind safe_get) (auto simp: get_op_app down intro!: safe_then safe_ret report)
  show ?thesis
    unfolding dispatch_one_def
    by (auto intro!: safe_bind safe_option safe_lookup safe_parsef safe_undef run mem split: prod.split)
qed

subsection \<open>Properties\<close>

text \<open>A console over the example machine: empty buffers, with two transmit interrupts per window.\<close>

definition example_console :: console where
  "example_console = sched.extend example_timers
     (console.fields 0x10 0 0 (replicate RX_BUFFER_SIZE 0) 0 (replicate TX_BUFFER_SIZE 0) 0 0 4 0
        (\<lambda>_. 2) 0 [] False)"

lemmas example_console_defs = example_console_def sched.defs console.defs

lemma example_console_ok: "tx_ok example_console" "rx_ok example_console" "in_sendf example_console = 0"
  "next_sequence example_console = 0x10" "tx_pending example_console = []" "tx_stream example_console = []"
  "sync_state example_console = 0" "sizeof_int example_console = 4"
  by (simp_all add: tx_ok_def rx_ok_def tx_pending_def tx_stream_def example_console_defs)

text \<open>
  C21: A response with integer parameters reaches the host. For the encoder that the build generates for a message,
  with arguments that fit the types of its parameters: when the transmit buffer has room for \<open>max_size\<close> bytes, the call
  appends exactly one block to the stream of bytes on the wire, whatever transmit interrupts hit it and whether or
  not the buffer is moved meanwhile; the host's check accepts that block, and the host's parser reads exactly the
  arguments back from it. No such message runs into the encoder's error exit, though \<open>max_size\<close> leaves a byte parameter
  two bytes only and a 16 bit parameter three.
\<close>

theorem response_reaches_host:
  assumes "tx_ok s" "in_sendf s = 0" "seq_ok (next_sequence s)"
    and "list_all pt_int ts" "list_all2 fits_type ts vs"
    and "length (encode_msgid msgid @ concat (map encode_int vs)) \<le> MESSAGE_PAYLOAD_MAX"
    and "length (tx_pending s) + unat (ce_max_size (message_encoder msgid ts)) \<le> TX_BUFFER_SIZE"
  shows "\<exists>t blk. command_sendf (message_encoder msgid ts) (map Va_int vs) s = Ret () t \<and>
     tx_frame s t \<and> tx_ok t \<and> tx_stream t = tx_stream s @ blk \<and>
     msgblock_check 0 (blk @ rest) = (int (length blk), 0) \<and>
     parse_many host_parse_int (length vs) (drop (MESSAGE_HEADER_SIZE + length (encode_msgid msgid)) blk) =
       Some (vs, drop (length blk - MESSAGE_TRAILER_SIZE) blk)"
proof -
  let ?args = "concat (map encode_int vs)"
  let ?payload = "encode_msgid msgid @ ?args"
  let ?blk = "mk_block (next_sequence s) ?payload"
  note enc = encodef_message(1) [OF assms(4-6), of s] encodef_message(2) [OF assms(4-6)]
  obtain t where t: "command_sendf (message_encoder msgid ts) (map Va_int vs) s = Ret () t" "tx_frame s t" "tx_ok t"
    "tx_stream t = tx_stream s @ ?blk"
    using command_sendf_stream [OF assms(1,2) enc] assms(7) by auto
  have v: "valid_block ?blk" using assms(3,6) by (intro valid_mk_block)
  obtain a b q where blk: "?blk = [a, b] @ encode_msgid msgid @ ?args @ q" "length q = 3"
    by (simp add: mk_block_def Let_def crc_bytes_def)
  have "parse_many host_parse_int (length vs) (?args @ q) = Some (vs, q)"
    using host_int.parse_many_enc [of vs q] by (simp add: host_encode_int_eq [abs_def])
  moreover have "drop (length ?blk - 3) ?blk = q" "drop (2 + length (encode_msgid msgid)) ?blk = ?args @ q"
    unfolding blk(1) using blk(2) by simp_all
  ultimately show ?thesis
    using t msgblock_check_valid [OF v, of rest] by (intro exI [of _ t] exI [of _ ?blk]) simp
qed

theorem response_reaches_host_witness:
  "\<exists>t blk. command_sendf (message_encoder 5 [PT_uint32, PT_uint16, PT_byte]) (map Va_int [70000, 60000, 200]) example_console = Ret () t \<and>
     tx_stream t = blk \<and> msgblock_check 0 (blk @ [1]) = (int (length blk), 0) \<and>
     parse_many host_parse_int 3 (drop 3 blk) = Some ([70000, 60000, 200], drop (length blk - 3) blk)"
proof -
  have len: "length (encode_msgid 5 @ concat (map encode_int [70000, 60000, 200])) \<le> MESSAGE_PAYLOAD_MAX"
    using encode_int_length(2) [of 70000] encode_int_length(2) [of 60000] encode_int_length(2) [of 200]
    by (simp add: encode_msgid_def)
  have one: "length (encode_msgid 5) = 1" by (simp add: encode_msgid_def)
  show ?thesis
    using response_reaches_host [of example_console "[PT_uint32, PT_uint16, PT_byte]" "[70000, 60000, 200]" 5 "[1]", OF _ _ _ _ _ len]
    by (auto simp: example_console_ok seq_ok_def pt_int_def message_encoder_def one numeral_3_eq_3)
qed

lemma valid_block_length: "valid_block blk \<Longrightarrow> length blk = unat ((blk @ rest) ! 0)"
  by (auto simp: valid_block_iff nth_append)

lemma valid_block_unique:
  assumes "valid_block a" "valid_block b" "a @ x = b @ y"
  shows "a = b"
proof -
  have "length a = length b" using valid_block_length [OF assms(1), of x] valid_block_length [OF assms(2), of y] assms(3) by simp
  with assms(3) show ?thesis by simp
qed

lemma command_find_block_spec:
  assumes "tx_ok s" "in_sendf s = 0"
  shows "\<exists>r n t. command_find_block buf s = Ret (r, n) t \<and> tx_ok t \<and> in_sendf t = 0 \<and> n \<le> length buf \<and>
     (r \<noteq> 0 \<and> buf \<noteq> [] \<longrightarrow> 0 < n) \<and>
     (r = 1 \<longleftrightarrow> sync_state s AND CF_NEED_SYNC = 0 \<and>
        (\<exists>blk rest. buf = blk @ rest \<and> valid_block blk \<and> blk ! 1 = next_sequence s)) \<and>
     (r = 1 \<longrightarrow> valid_block (take n buf)) \<and>
     next_sequence t = (if r = 1 then next_seq (next_sequence s) else next_sequence s)"
proof -
  have fields: "next_sequence t = next_sequence s \<and> tx_ok t \<and> in_sendf t = 0" if "find_ok s t" for t
    using that assms(2) tx_frame_fields(1,3) by (fastforce simp: find_ok_def)
  consider (sync) "buf \<noteq> []" "sync_state s AND CF_NEED_SYNC \<noteq> 0"
    | (none) "buf = []" "sync_state s AND CF_NEED_SYNC \<noteq> 0"
    | (block) blk rest where "buf = blk @ rest" "valid_block blk" "sync_state s AND CF_NEED_SYNC = 0"
    | (bad) "\<not> (\<exists>blk rest. buf = blk @ rest \<and> valid_block blk)" "sync_state s AND CF_NEED_SYNC = 0"
    by blast
  then show ?thesis
  proof cases
    case sync
    obtain n t where "find_need_sync buf s = Ret (- 1, n) t" "find_ok s t" "n \<le> length buf" "buf \<noteq> [] \<Longrightarrow> 0 < n"
      using find_need_sync_ok [OF assms] by metis
    with sync fields [of t] show ?thesis
      by (intro exI [of _ "- 1"] exI [of _ n] exI [of _ t]) (simp add: command_find_block_def op_simps)
  next
    case none
    then show ?thesis
      using assms by (intro exI [of _ 0] exI [of _ s]) (simp add: command_find_block_def op_simps)
  next
    case block
    have uniq: "blk' = blk" if "buf = blk' @ rest'" "valid_block blk'" for blk' rest'
      using valid_block_unique [OF that(2) block(2)] that(1) block(1) by blast
    let ?u = "s\<lparr>sync_state := sync_state s AND NOT CF_NEED_VALID\<rparr>"
    have u: "tx_ok ?u" "in_sendf ?u = 0" using assms by (simp_all add: tx_ok_def)
    have len: "0 < length blk" using block by (auto simp: valid_block_iff)
    show ?thesis
    proof (cases "blk ! 1 = next_sequence s")
      case True
      with block have "command_find_block buf s = Ret (1, length blk) (?u\<lparr>next_sequence := next_seq (blk ! 1)\<rparr>)"
        by (simp only: find_block_valid if_True refl)
      with True block len u(1) show ?thesis
        by (intro exI [of _ 1] exI [of _ "length blk"]
            exI [of _ "?u\<lparr>next_sequence := next_seq (blk ! 1)\<rparr>"]) (use u(2) in \<open>auto simp: tx_ok_def\<close>)
    next
      case False
      obtain t where t: "find_nak (length blk) ?u = Ret (- 1, length blk) t" "find_ok ?u t"
        using find_nak_ok [OF u] by metis
      have "command_find_block buf s = Ret (- 1, length blk) t"
        unfolding block(1) find_block_valid [OF block(2,3)] using False t(1) by simp
      moreover have "\<not> (\<exists>blk rest. buf = blk @ rest \<and> valid_block blk \<and> blk ! 1 = next_sequence s)"
        using uniq False by metis
      moreover have "length blk \<le> length buf" using block(1) by simp
      ultimately show ?thesis
        using len fields [OF find_ok_sync [OF assms(1) t(2)]]
        by (intro exI [of _ "- 1"] exI [of _ "length blk"] exI [of _ t]) simp
    qed
  next
    case bad
    show ?thesis
    proof (cases "command_find_block buf s = Ret (0, 0) s")
      case True
      with assms bad show ?thesis by (intro exI [of _ 0] exI [of _ s]) auto
    next
      case False
      with find_block_invalid [OF bad] have eq: "command_find_block buf s = find_error buf s" by simp
      have "buf \<noteq> []" using False bad(2) by (auto simp: command_find_block_def op_simps)
      from find_error_ok [OF assms this] obtain n t where
        "find_error buf s = Ret (- 1, n) t" "find_ok s t" "n \<le> length buf" "0 < n" by metis
      with eq bad fields [of t] show ?thesis
        by (intro exI [of _ "- 1"] exI [of _ n] exI [of _ t]) auto
    qed
  qed
qed

text \<open>
  C22: The receiver. A call that returns 1 has found, at the front of the buffer, a well formed block
  with the expected sequence number, and every such block is found; then the expected number moves on by
  one modulo 16. In every other case the expected number stays as it is. The call always
  returns, never claims more bytes than there are, and a buffer that is not refused with 0
  loses at least one byte.
\<close>

theorem command_find_block_correct:
  assumes "tx_ok s" "in_sendf s = 0"
  shows "\<exists>r n t. command_find_block buf s = Ret (r, n) t \<and> tx_ok t \<and> n \<le> length buf \<and>
     (r \<noteq> 0 \<and> buf \<noteq> [] \<longrightarrow> 0 < n) \<and>
     (r = 1 \<longleftrightarrow> sync_state s AND CF_NEED_SYNC = 0 \<and>
        (\<exists>blk rest. buf = blk @ rest \<and> valid_block blk \<and> blk ! 1 = next_sequence s)) \<and>
     (r = 1 \<longrightarrow> valid_block (take n buf)) \<and>
     next_sequence t = (if r = 1 then next_seq (next_sequence s) else next_sequence s)"
  using command_find_block_spec [OF assms, of buf] by blast

theorem command_find_block_correct_witness:
  "\<exists>t. command_find_block ([7, 0x10, 1, 2, 0xEB, 0x5F, 0x7E] @ [9, 9]) example_console = Ret (1, 7) t \<and>
     next_sequence t = 0x11"
proof -
  have v: "valid_block [7, 0x10, 1, 2, 0xEB, 0x5F, 0x7E]" by code_simp
  have 1: "command_find_block ([7, 0x10, 1, 2, 0xEB, 0x5F, 0x7E] @ [9, 9]) example_console =
      Ret (1, 7) (example_console\<lparr>sync_state := 0, next_sequence := next_seq 0x10\<rparr>)"
    using find_block_valid [OF v, of example_console "[9, 9]"] by (simp add: example_console_ok)
  from command_find_block_correct [OF example_console_ok(1,3), of "[7, 0x10, 1, 2, 0xEB, 0x5F, 0x7E] @ [9, 9]"]
  obtain t where "command_find_block ([7, 0x10, 1, 2, 0xEB, 0x5F, 0x7E] @ [9, 9]) example_console = Ret (1, 7) t"
    "next_sequence t = next_seq (next_sequence example_console)"
    unfolding 1 by auto
  then show ?thesis by (simp add: example_console_ok next_seq_def)
qed

text \<open>
  Removing consumed input is safe against the receive interrupt: however many bytes arrive between
  the copy and the interrupt lock, in every round of the loop, the call ends with exactly the
  unconsumed bytes followed by those that arrived, in order; only bytes beyond the size of the
  buffer are dropped.
\<close>

theorem console_pop_input_keeps_bytes:
  assumes "rx_ok s" "len \<le> receive_pos s"
  shows "\<exists>t k. console_pop_input len rxs s = Ret () t \<and> rx_ok t \<and> rx_frame s t \<and>
     rx_data t = drop len (rx_data s @ take (RX_BUFFER_SIZE - receive_pos s) (concat (take k rxs)))"
  using console_pop_input_ok [OF assms] by metis

theorem console_pop_input_keeps_bytes_witness:
  "\<exists>t k. console_pop_input 2 [[5, 6], []] (example_console\<lparr>receive_pos := 3\<rparr>) = Ret () t \<and>
     rx_data t = drop 2 ([0, 0, 0] @ take 189 (concat (take k [[5, 6], []])))"
  using console_pop_input_keeps_bytes [of "example_console\<lparr>receive_pos := 3\<rparr>" 2 "[[5, 6], []]"]
  by (auto simp: rx_ok_def rx_data_def example_console_defs numeral_eq_Suc)

text \<open>
  C23: The argument parser inverts the host's argument layout: from any position of a buffer it reads
  back every integer and every byte array, stops right behind them, and the pointers it hands
  out lead \<open>command_decode_ptr\<close> to the bytes of the arrays.
\<close>

theorem command_parsef_roundtrip:
  assumes "list_all arg_fits as" "length as < 256" "cp_num_params cp = of_nat (length as)"
    and "cp_param_types cp = map arg_type as"
    and "buf = pre @ concat (map arg_bytes as) @ post" "length buf < 2 ^ 32"
    and "length pre + length (concat (map arg_bytes as)) \<le> maxend"
  shows "\<exists>ws. command_parsef buf (length pre) maxend cp s =
           Ret (length pre + length (concat (map arg_bytes as)), ws) s \<and>
         read_args (command_decode_ptr s) buf (map arg_type as) ws = as"
proof -
  have n: "unat (cp_num_params cp) = length as" using assms(2,3) by (simp add: unat_of_nat_u8)
  have ptr: "command_decode_ptr s (command_encode_ptr s p) = p" if "p \<le> length buf" for p
    using that assms(6) by (intro command_ptr_inverse) simp
  from parsef_loop_args [OF assms(1,5,7) ptr] obtain ws where
    "parsef_loop (command_encode_ptr s) buf maxend (length as) (map arg_type as) (length pre) () =
       Ret (length pre + length (concat (map arg_bytes as)), ws) ()"
    "read_args (command_decode_ptr s) buf (map arg_type as) ws = as" by blast
  then show ?thesis by (simp add: command_parsef_def op_simps n assms(4))
qed

theorem command_parsef_roundtrip_witness:
  "\<exists>ws. command_parsef ([8, 8] @ concat (map arg_bytes [Arg_int 300, Arg_buf [1, 2]]) @ [9]) 2 10
      \<lparr>cp_num_args = 3, cp_flags = 0, cp_num_params = 2, cp_param_types = [PT_uint32, PT_buffer],
       cp_func = (\<lambda>_. ret ())\<rparr> example_console
      = Ret (2 + length (concat (map arg_bytes [Arg_int 300, Arg_buf [1, 2]])), ws) example_console"
proof -
  have l: "length (encode_int 300) \<le> 5" by (rule encode_int_length)
  have "length ([8, 8] @ concat (map arg_bytes [Arg_int 300, Arg_buf [1, 2]]) @ [9]) < (2 :: nat) ^ 32"
    "length [8, 8 :: u8] + length (concat (map arg_bytes [Arg_int 300, Arg_buf [1, 2]])) \<le> 10"
    using l by simp_all
  from command_parsef_roundtrip [OF _ _ _ _ refl this, where s = example_console and
      cp = "\<lparr>cp_num_args = 3, cp_flags = 0, cp_num_params = 2, cp_param_types = [PT_uint32, PT_buffer],
       cp_func = (\<lambda>_. ret ())\<rparr>"]
  show ?thesis by (auto simp: numeral_2_eq_2)
qed

text \<open>
  A table of a clear_shutdown like command, which is flagged, and of a command that switches a pin on, which is not.
\<close>

definition example_shutdown_env :: "console console_env" where
  "example_shutdown_env =
     \<lparr>command_index =
        [\<lparr>cp_num_args = 0, cp_flags = 0, cp_num_params = 0, cp_param_types = [], cp_func = (\<lambda>_. ret ())\<rparr>,
         \<lparr>cp_num_args = 0, cp_flags = HF_IN_SHUTDOWN, cp_num_params = 0, cp_param_types = [],
          cp_func = (\<lambda>_. set_op (\<lambda>s. s\<lparr>shutdown_status := 0\<rparr>))\<rparr>,
         \<lparr>cp_num_args = 0, cp_flags = 0, cp_num_params = 0, cp_param_types = [],
          cp_func = (\<lambda>_. gpio_out_write 3 True)\<rparr>],
      cmd_irq_poll = ret (), bootloader_request = None\<rparr>"

text \<open>
  C24: Safety in shutdown. No handler that is not flagged \<open>HF_IN_SHUTDOWN\<close> is ever called while the machine is shut
  down: with a trap in front of every such handler the dispatch of any block, from any state, does the same,
  through whatever changes of the shutdown state on the way (a flagged command, such as \<open>clear_shutdown\<close>, may end it and
  commands after it run again). And a dispatch in shutdown over commands that are all unflagged changes nothing but the
  reports it sends.
\<close>

theorem dispatch_in_shutdown_safe:
  assumes "keeps_running env"
  shows "command_dispatch (trap_env env) buf msglen s = command_dispatch env buf msglen s \<and>
     (sched_is_shutdown s \<and> (\<forall>cp\<in>set (command_index env). cp_flags cp AND HF_IN_SHUTDOWN = 0) \<and>
        out_state (command_dispatch env buf msglen s) = Some t \<longrightarrow> reports_only s t)"
proof -
  have "reports_only s t"
    if "sched_is_shutdown s" "\<forall>cp\<in>set (command_index env). cp_flags cp AND HF_IN_SHUTDOWN = 0"
      "out_state (command_dispatch env buf msglen s) = Some t"
  proof -
    have loop: "safe_op (\<lambda>t. reports_only s t) (dispatch_loop env fuel buf msgend p)" for fuel msgend p
      by (induction fuel arbitrary: p) (auto intro!: safe_undef safe_ret safe_bind dispatch_one_reports [OF that(2,1)])
    have "s = s\<lparr>sent := sent s\<rparr>" by simp
    then have "reports_only s s" unfolding reports_only_def ..
    from safe_opD [OF loop this that(3) [unfolded command_dispatch_def]] show ?thesis .
  qed
  then show ?thesis by (simp add: command_dispatch_def dispatch_loop_trap [OF assms])
qed

theorem dispatch_in_shutdown_safe_witness:
  "command_dispatch (trap_env example_shutdown_env) [7, 0x10, 2, 1, 0, 0, 0x7E] 7 (example_console\<lparr>shutdown_status := 1\<rparr>) =
   command_dispatch example_shutdown_env [7, 0x10, 2, 1, 0, 0, 0x7E] 7 (example_console\<lparr>shutdown_status := 1\<rparr>) \<and>
   (\<exists>t. command_dispatch example_shutdown_env [7, 0x10, 2, 1, 0, 0, 0x7E] 7 (example_console\<lparr>shutdown_status := 1\<rparr>) = Ret () t \<and>
     \<not> pin_out t 3 \<and> shutdown_status t = 0)"
proof -
  have "keeps_running example_shutdown_env" by (simp add: keeps_running_def example_shutdown_env_def ret_app)
  moreover have "\<exists>x. command_dispatch example_shutdown_env [7, 0x10, 2, 1, 0, 0, 0x7E] 7 s = Ret () (s\<lparr>sent := x, shutdown_status := 0\<rparr>)"
    if down: "shutdown_status s = 1" for s :: console
  proof -
    let ?buf = "[7, 0x10, 2, 1, 0, 0, 0x7E] :: u8 list"
    have seven: "(7 :: nat) = Suc (Suc 5)" by simp
    have "command_parse_msgid (drop 2 ?buf) = Some (2, [1, 0, 0, 0x7E])" "command_parse_msgid (drop 3 ?buf) = Some (1, [0, 0, 0x7E])"
      by (simp_all add: command_parse_msgid_def Let_def)
    moreover have "unat (2 :: u16) = 2" "unat (1 :: u16) = 1" by simp_all
    ultimately have "dispatch_one example_shutdown_env ?buf 4 2 s = then_op sched_report_shutdown (ret 3) s"
      "dispatch_one example_shutdown_env ?buf 4 3 u = Ret 4 (u\<lparr>shutdown_status := 0\<rparr>)" for u
      using down by (simp_all add: dispatch_one_def op_simps command_lookup_parser_def command_parsef_def
          sched_is_shutdown_def example_shutdown_env_def numeral_3_eq_3)
    moreover obtain x where report: "sched_report_shutdown s = Ret () (s\<lparr>sent := x\<rparr>)"
      by (simp add: sched_report_shutdown_def sendf_def op_simps)
    have step: "dispatch_loop example_shutdown_env (Suc n) ?buf 4 p u =
        bind_op (dispatch_one example_shutdown_env ?buf 4 p) (dispatch_loop example_shutdown_env n ?buf 4) u" if "p < 4" for n p u
      using that by simp
    moreover have "dispatch_loop example_shutdown_env 7 ?buf 4 2 s =
        bind_op (dispatch_one example_shutdown_env ?buf 4 2) (dispatch_loop example_shutdown_env (Suc 5) ?buf 4) s"
      by (subst seven) (rule step, simp)
    moreover have "dispatch_loop example_shutdown_env n ?buf 4 4 u = Ret () u" for n u
      by (cases n) (simp_all add: ret_app)
    ultimately show ?thesis using step [of 3 5] report by (intro exI [of _ x]) (simp add: command_dispatch_def op_simps del: dispatch_loop.simps)
  qed
  from this [of "example_console\<lparr>shutdown_status := 1\<rparr>"]
  have "\<exists>t. command_dispatch example_shutdown_env [7, 0x10, 2, 1, 0, 0, 0x7E] 7 (example_console\<lparr>shutdown_status := 1\<rparr>) = Ret () t \<and>
     \<not> pin_out t 3 \<and> shutdown_status t = 0"
    by (auto simp: example_console_defs example_timers_def example_board_def set_wake_def sched_init_def)
  ultimately show ?thesis using dispatch_in_shutdown_safe by blast
qed

text \<open>The position and the state after \<open>k\<close> rounds of the dispatch loop.\<close>

fun dispatch_rounds ::
  "'a console_scheme console_env \<Rightarrow> u8 list \<Rightarrow> nat \<Rightarrow> nat \<Rightarrow> nat \<Rightarrow> ('a console_scheme, nat) op" where
  "dispatch_rounds env buf msgend 0 p = ret p"
| "dispatch_rounds env buf msgend (Suc k) p =
     (if p < msgend then bind_op (dispatch_one env buf msgend p) (dispatch_rounds env buf msgend k) else undef_op)"

definition is_ret :: "('s, 'a) outcome \<Rightarrow> bool" where
  "is_ret r = (case r of Ret x t \<Rightarrow> True | _ \<Rightarrow> False)"

lemma dispatch_rounds_end:
  assumes "msgend \<le> length buf" "msgend \<le> fuel + p"
  shows "\<exists>k\<le>fuel. \<exists>q t. dispatch_rounds env buf msgend k p s = Ret q t \<and>
     (if q < msgend then \<not> is_ret (dispatch_one env buf msgend q t) \<and>
         dispatch_loop env fuel buf msgend p s = then_op (dispatch_one env buf msgend q) (ret ()) t
      else dispatch_loop env fuel buf msgend p s = Ret () t)"
  using assms(2)
proof (induction fuel arbitrary: p s)
  case 0
  then show ?case by (simp add: ret_app)
next
  case (Suc fuel)
  show ?case
  proof (cases "p < msgend \<and> is_ret (dispatch_one env buf msgend p s)")
    case True
    then obtain p' s' where r: "dispatch_one env buf msgend p s = Ret p' s'"
      by (auto simp: is_ret_def split: outcome.splits)
    have "p < p'" using dispatch_one_forward [OF r _ assms(1)] True by simp
    with Suc.prems have "msgend \<le> fuel + p'" by linarith
    from Suc.IH [OF this, of s'] obtain k q t where k: "k \<le> fuel" "dispatch_rounds env buf msgend k p' s' = Ret q t"
      "if q < msgend then \<not> is_ret (dispatch_one env buf msgend q t) \<and>
         dispatch_loop env fuel buf msgend p' s' = then_op (dispatch_one env buf msgend q) (ret ()) t
       else dispatch_loop env fuel buf msgend p' s' = Ret () t" by blast
    then show ?thesis
      using True r by (intro exI [of _ "Suc k"] exI [of _ q] exI [of _ t] conjI) (simp_all add: bind_op_app)
  next
    case False
    have "dispatch_loop env (Suc fuel) buf msgend p s = then_op (dispatch_one env buf msgend p) (ret ()) s" if "p < msgend"
      using False that by (cases "dispatch_one env buf msgend p s") (auto simp: op_simps is_ret_def)
    moreover have "dispatch_loop env (Suc fuel) buf msgend p s = Ret () s" if "\<not> p < msgend" using that by (simp add: ret_app)
    ultimately have "dispatch_rounds env buf msgend 0 p s = Ret p s \<and>
       (if p < msgend then \<not> is_ret (dispatch_one env buf msgend p s) \<and>
          dispatch_loop env (Suc fuel) buf msgend p s = then_op (dispatch_one env buf msgend p) (ret ()) s
        else dispatch_loop env (Suc fuel) buf msgend p s = Ret () s)"
      using False by (simp add: ret_app)
    then show ?thesis by blast
  qed
qed

text \<open>
  C25: The dispatch loop ends, after at most as many rounds as the block has bytes. Either the rounds reach the end of
  the block and the dispatch returns the state they leave, or some round does not return, because a
  handler, the parser or the table shuts down or does something undefined, and this is how the dispatch ends.
\<close>

theorem command_dispatch_terminates:
  assumes "msglen \<le> length buf"
  defines "msgend \<equiv> msglen - MESSAGE_TRAILER_SIZE"
  shows "\<exists>k\<le>msglen. \<exists>q t. dispatch_rounds env buf msgend k MESSAGE_HEADER_SIZE s = Ret q t \<and>
     (if q < msgend then \<not> is_ret (dispatch_one env buf msgend q t) \<and>
         command_dispatch env buf msglen s = then_op (dispatch_one env buf msgend q) (ret ()) t
      else command_dispatch env buf msglen s = Ret () t)"
  unfolding command_dispatch_def msgend_def by (rule dispatch_rounds_end) (use assms(1) in simp_all)

theorem command_dispatch_terminates_witness:
  "\<exists>k\<le>7. \<exists>q t. dispatch_rounds example_shutdown_env [7, 0x10, 2, 1, 0, 0, 0x7E] 4 k 2 example_console = Ret q t \<and>
     (if q < 4 then \<not> is_ret (dispatch_one example_shutdown_env [7, 0x10, 2, 1, 0, 0, 0x7E] 4 q t) \<and>
         command_dispatch example_shutdown_env [7, 0x10, 2, 1, 0, 0, 0x7E] 7 example_console =
           then_op (dispatch_one example_shutdown_env [7, 0x10, 2, 1, 0, 0, 0x7E] 4 q) (ret ()) t
      else command_dispatch example_shutdown_env [7, 0x10, 2, 1, 0, 0, 0x7E] 7 example_console = Ret () t)"
proof -
  have "(7 :: nat) \<le> length [7, 0x10, 2, 1, 0, 0, 0x7E :: u8]" "(4 :: nat) = 7 - MESSAGE_TRAILER_SIZE" by simp_all
  from command_dispatch_terminates [OF this(1), of example_shutdown_env example_console, folded this(2)] show ?thesis .
qed

text \<open>
  C36: A byte array that does not fit is clipped to one byte too many: \<open>command_encodef\<close> compares the length
  with the room left at the length byte itself, so the encoded message is one byte
  longer than the \<open>max_size\<close> that \<open>console_sendf\<close> has made room for, whenever the last parameter
  is an array of at least that size.
\<close>

theorem command_encodef_overruns:
  assumes "MESSAGE_MIN + length (encode_msgid msgid) \<le> unat maxs"
    and "unat v > unat maxs - MESSAGE_MIN - length (encode_msgid msgid)"
    and "length bs \<ge> unat maxs - MESSAGE_MIN - length (encode_msgid msgid)"
  shows "\<exists>payload. command_encodef
      \<lparr>ce_encoded_msgid = msgid, ce_max_size = maxs, ce_num_params = 1, ce_param_types = [PT_buffer]\<rparr>
      [Va_int v, Va_ptr bs] s = Ret (unat maxs + 1, payload) s"
proof -
  let ?id = "encode_msgid msgid"
  let ?room = "unat maxs - MESSAGE_MIN - length ?id"
  have "0 < length ?id" by (simp add: encode_msgid_def)
  then have big: "\<not> unat maxs \<le> 5" using assms(1) by linarith
  have sub: "unat maxs - 3 - Suc (Suc (length ?id)) = ?room" using big by simp
  have le: "\<not> Suc (Suc (length ?id)) > unat maxs - 3" using assms(1) by linarith
  have run: "encodef_loop (sizeof_int s) (unat maxs - 3) 1 [PT_buffer] [Va_int v, Va_ptr bs] (Suc (Suc (length ?id))) ()
      = Ret (of_nat ?room # take ?room bs) ()"
    using le assms(2,3) unfolding One_nat_def encodef_loop.simps sub
    by (simp add: op_simps pt_int_def Let_def)
  have max: "Suc (Suc (unat maxs - 5)) = unat maxs - 3" using big by simp
  show ?thesis
    using big assms(1,3) by (simp add: command_encodef_def op_simps Let_def run max del: One_nat_def)
qed

theorem command_encodef_overruns_witness:
  "\<exists>payload. command_encodef
      \<lparr>ce_encoded_msgid = 5, ce_max_size = 64, ce_num_params = 1, ce_param_types = [PT_buffer]\<rparr>
      [Va_int 60, Va_ptr (replicate 60 0)] example_console = Ret (65, payload) example_console"
  using command_encodef_overruns [of 5 64 60 "replicate 60 0" example_console] by (simp add: encode_msgid_def)

end
