(* ===== verification/Stepcompress.thy ===== *)
theory Stepcompress
  imports Msgblock "HOL-Library.Monad_Syntax" "HOL-Library.Signed_Division" "HOL-Library.Multiset"
begin

text \<open>
  The step compression of the host, \<open>klippy/chelper/stepcompress.c\<close>: a list of step times is turned into
  \<open>queue_step\<close> commands, and the commands of all steppers are released to the micro-controller in order
  and no faster than its move queue has room.

  The queue of step times is one array \<open>queue\<close> with offsets for the pointers into it. A value of type
  \<open>int32_t\<close> is an \<open>int\<close> and every arithmetic operation on it goes through \<open>i32\<close>, which is \<open>None\<close> on
  signed overflow, where C leaves the behaviour undefined; \<open>uint32_t\<close> and \<open>uint64_t\<close> are words and wrap.
  Times of type \<open>double\<close> are exact reals. An operation on a \<open>struct stepcompress\<close> is an operation in the
  outcome monad that returns the C return code; \<open>Undef\<close> is an overflow or an access outside the array.
  Freeing of memory is not modelled.
\<close>
abbreviation (input) QUEUE_START_SIZE :: nat where "QUEUE_START_SIZE \<equiv> 1024"
abbreviation (input) QUADRATIC_DEV :: u32 where "QUADRATIC_DEV \<equiv> 11"
abbreviation (input) CLOCK_DIFF_MAX :: u64 where "CLOCK_DIFF_MAX \<equiv> 805306368"
abbreviation (input) ERROR_RET :: int where "ERROR_RET \<equiv> - 989898989"
abbreviation (input) UINT64_MAX :: u64 where "UINT64_MAX \<equiv> - 1"
abbreviation (input) MAX_CLOCK :: u64 where "MAX_CLOCK \<equiv> 0x7fffffffffffffff"
abbreviation (input) SDS_FILTER_TIME :: real where "SDS_FILTER_TIME \<equiv> 75 / 100000"

subsection \<open>State\<close>

record history_steps =
  hs_first_clock :: u64
  hs_last_clock :: u64
  hs_start_position :: int
  hs_step_count :: int
  hs_interval :: int
  hs_add :: int

record stepcompress =
  queue :: "u32 list"
  queue_pos :: nat
  queue_next :: nat
  max_error :: u32
  mcu_time_offset :: real
  mcu_freq :: real
  last_step_print_time :: real
  last_step_clock :: u64
  msg_queue :: "queue_message list"
  sc_oid :: u32
  queue_step_msgtag :: u32
  set_next_step_dir_msgtag :: u32
  sdir :: int
  invert_sdir :: int
  next_step_clock :: u64
  next_step_dir :: int
  last_position :: int
  history_list :: "history_steps list"

record step_move =
  mv_interval :: u32
  mv_count :: u16
  mv_add :: u16

type_synonym 'a sc_op = "(stepcompress, 'a) op"

subsection \<open>Arithmetic on int32\_t\<close>

definition i32 :: "int \<Rightarrow> int option" where
  "i32 x = (if - (2 ^ 31) \<le> x \<and> x < 2 ^ 31 then Some x else None)"

definition idiv_up :: "int \<Rightarrow> int \<Rightarrow> int option" where
  "idiv_up n d =
     (if n \<ge> 0 then do { m \<leftarrow> i32 (n + d); m \<leftarrow> i32 (m - 1); Some (m sdiv d) }
      else Some (n sdiv d))"

definition idiv_down :: "int \<Rightarrow> int \<Rightarrow> int option" where
  "idiv_down n d =
     (if n \<ge> 0 then Some (n sdiv d)
      else do { m \<leftarrow> i32 (n - d); m \<leftarrow> i32 (m + 1); Some (m sdiv d) })"

text \<open>\<open>n*(n-1)/2\<close>\<close>

definition addfactor :: "int \<Rightarrow> int option" where
  "addfactor n = do { m \<leftarrow> i32 (n * (n - 1)); Some (m sdiv 2) }"

subsection \<open>Step compression\<close>

definition queue_at :: "stepcompress \<Rightarrow> nat \<Rightarrow> u32 option" where
  "queue_at sc i = (if i < length (queue sc) then Some (queue sc ! i) else None)"

text \<open>
  The points are \<open>int32_t\<close> in the code; here they are the same 32 bits, read by \<open>sint\<close> where the code
  uses them as signed numbers.
\<close>

definition minmax_point :: "stepcompress \<Rightarrow> nat \<Rightarrow> (u32 \<times> u32) option" where
  "minmax_point sc pos =
     do {
       cur \<leftarrow> queue_at sc pos;
       let lsc = ucast (last_step_clock sc);
       prevpoint \<leftarrow> (if pos > queue_pos sc then do { v \<leftarrow> queue_at sc (pos - 1); Some (v - lsc) } else Some 0);
       let point = cur - lsc;
           err = (point - prevpoint) div 2;
           err = (if err > max_error sc then max_error sc else err)
       in Some (point - err, point)
     }"

text \<open>\<open>(struct step_move){ interval, count, add }\<close>\<close>

definition mk_move :: "int \<Rightarrow> int \<Rightarrow> int \<Rightarrow> step_move" where
  "mk_move interval cnt add =
     \<lparr>mv_interval = word_of_int interval, mv_count = word_of_int cnt, mv_add = word_of_int add\<rparr>"

text \<open>
  The inner loop: it returns a move that covers the whole queue, or breaks with its local variables
  \<open>nextmininterval\<close>, \<open>nextmaxinterval\<close>, \<open>interval\<close>, \<open>nextcount\<close> and \<open>nextpoint\<close>.
\<close>

datatype inner = Whole step_move | Broke int int int nat "u32 \<times> u32"

function bisect_inner :: "stepcompress \<Rightarrow> nat \<Rightarrow> int \<Rightarrow> int \<Rightarrow> int \<Rightarrow> int \<Rightarrow> nat \<Rightarrow> inner option" where
  "bisect_inner sc qlast add nextmin nextmax interval cnt =
     (let nextcount = cnt + 1; nc = int nextcount
      in if queue_pos sc + cnt \<ge> qlast then Some (Whole (mk_move interval (int cnt) add))
         else do {
           np \<leftarrow> minmax_point sc (queue_pos sc + cnt);
           naf \<leftarrow> addfactor nc;
           c \<leftarrow> i32 (add * naf);
           lo \<leftarrow> i32 (sint (fst np) - c);
           reach \<leftarrow> i32 (nextmin * nc);
           nextmin \<leftarrow> (if reach < lo then idiv_up lo nc else Some nextmin);
           hi \<leftarrow> i32 (sint (snd np) - c);
           reach \<leftarrow> i32 (nextmax * nc);
           nextmax \<leftarrow> (if reach > hi then idiv_down hi nc else Some nextmax);
           if nextmin > nextmax then Some (Broke nextmin nextmax interval nextcount np)
           else bisect_inner sc qlast add nextmin nextmax nextmax nextcount
         })"
  by pat_completeness auto
termination
  by (relation "measure (\<lambda>(sc, qlast, add, nextmin, nextmax, interval, cnt). qlast - (queue_pos sc + cnt))")
    auto

declare bisect_inner.simps [simp del]

text \<open>The variables that live across rounds of the outer loop.\<close>

record bisect =
  b_add :: int
  minadd :: int
  maxadd :: int
  outer_min :: int
  outer_max :: int
  bestinterval :: int
  bestcount :: int
  bestadd :: int
  bestreach :: int
  zerointerval :: int
  zerocount :: int

datatype round = Return step_move | Stop bisect | Again bisect

text \<open>From "check if this is the best sequence found so far": the new best and zero, and the early exit.\<close>

definition bisect_best :: "bisect \<Rightarrow> int \<Rightarrow> int \<Rightarrow> int \<Rightarrow> bisect \<times> bool" where
  "bisect_best b interval cnt reach =
     (if reach > bestreach b \<or> (reach = bestreach b \<and> interval > bestinterval b) then
        (let b = b\<lparr>bestinterval := interval, bestcount := cnt, bestadd := b_add b, bestreach := reach\<rparr>;
             b = (if b_add b = 0 then b\<lparr>zerointerval := interval, zerocount := cnt\<rparr> else b)
         in (b, cnt > 0x200))
      else (b, False))"

text \<open>"Check if a greater or lesser add could extend the sequence".\<close>

definition narrow_side :: "bisect \<Rightarrow> int \<Rightarrow> int \<Rightarrow> int \<Rightarrow> u32 \<times> u32 \<Rightarrow> bisect option" where
  "narrow_side b nextmin nextmax nextreach np =
     (if nextreach < sint (fst np)
      then do { m \<leftarrow> i32 (b_add b + 1); Some (b\<lparr>minadd := m, outer_max := nextmax\<rparr>) }
      else do { m \<leftarrow> i32 (b_add b - 1); Some (b\<lparr>maxadd := m, outer_min := nextmin\<rparr>) })"

text \<open>"The maximum valid deviation between two quadratic sequences".\<close>

definition narrow_err :: "u32 \<Rightarrow> bisect \<Rightarrow> int \<Rightarrow> bisect option" where
  "narrow_err err b cnt =
     (if cnt > 1 then do {
        sq \<leftarrow> i32 (cnt * cnt);
        let errdelta = sint (err * QUADRATIC_DEV div word_of_int sq);
        lo \<leftarrow> i32 (b_add b - errdelta);
        hi \<leftarrow> i32 (b_add b + errdelta);
        let b = (if minadd b < lo then b\<lparr>minadd := lo\<rparr> else b);
        Some (if maxadd b > hi then b\<lparr>maxadd := hi\<rparr> else b)
      } else Some b)"

text \<open>"See if next point would further limit the add range".\<close>

definition narrow_next :: "bisect \<Rightarrow> int \<Rightarrow> int \<Rightarrow> u32 \<times> u32 \<Rightarrow> bisect option" where
  "narrow_next b nc naf np =
     do {
       c \<leftarrow> i32 (outer_max b * nc);
       d \<leftarrow> i32 (sint (fst np) - c);
       m \<leftarrow> i32 (minadd b * naf);
       b \<leftarrow> (if m < d then do { m \<leftarrow> idiv_up d naf; Some (b\<lparr>minadd := m\<rparr>) } else Some b);
       c \<leftarrow> i32 (outer_min b * nc);
       d \<leftarrow> i32 (sint (snd np) - c);
       m \<leftarrow> i32 (maxadd b * naf);
       if m > d then do { m \<leftarrow> idiv_down d naf; Some (b\<lparr>maxadd := m\<rparr>) } else Some b
     }"

definition bisect_narrow ::
  "u32 \<Rightarrow> bisect \<Rightarrow> int \<Rightarrow> int \<Rightarrow> int \<Rightarrow> nat \<Rightarrow> u32 \<times> u32 \<Rightarrow> bisect option" where
  "bisect_narrow err b nextmin nextmax interval nextcount np =
     do {
       naf \<leftarrow> addfactor (int nextcount);
       r1 \<leftarrow> i32 (b_add b * naf);
       r2 \<leftarrow> i32 (interval * int nextcount);
       nextreach \<leftarrow> i32 (r1 + r2);
       b \<leftarrow> narrow_side b nextmin nextmax nextreach np;
       b \<leftarrow> narrow_err err b (int nextcount - 1);
       narrow_next b (int nextcount) naf np
     }"

definition bisect_round :: "stepcompress \<Rightarrow> nat \<Rightarrow> bisect \<Rightarrow> round option" where
  "bisect_round sc qlast b =
     do {
       r \<leftarrow> bisect_inner sc qlast (b_add b) (outer_min b) (outer_max b) (outer_max b) 1;
       case r of
         Whole move \<Rightarrow> Some (Return move)
       | Broke nextmin nextmax interval nextcount np \<Rightarrow>
           do {
             let cnt = int nextcount - 1;
             af \<leftarrow> addfactor cnt;
             r1 \<leftarrow> i32 (b_add b * af);
             r2 \<leftarrow> i32 (interval * cnt);
             reach \<leftarrow> i32 (r1 + r2);
             let (b, stop) = bisect_best b interval cnt reach;
             if stop then Some (Stop b)
             else do {
               b \<leftarrow> bisect_narrow (max_error sc) b nextmin nextmax interval nextcount np;
               if minadd b > maxadd b then Some (Stop b)
               else do {
                 w \<leftarrow> i32 (maxadd b - minadd b);
                 a \<leftarrow> i32 (maxadd b - w sdiv 4);
                 Some (Again (b\<lparr>b_add := a\<rparr>))
               }
             }
           }
     }"

text \<open>
  The outer loop, for at most \<open>fuel\<close> rounds; every round narrows the range of \<open>add\<close>, so \<open>0x10000\<close>
  rounds are enough.
\<close>

fun bisect_outer :: "nat \<Rightarrow> stepcompress \<Rightarrow> nat \<Rightarrow> bisect \<Rightarrow> step_move option" where
  "bisect_outer 0 sc qlast b = None"
| "bisect_outer (Suc fuel) sc qlast b =
     (case bisect_round sc qlast b of
        None \<Rightarrow> None
      | Some (Return move) \<Rightarrow> Some move
      | Some (Stop b) \<Rightarrow>
          do {
            z \<leftarrow> i32 (zerocount b + zerocount b sdiv 16);
            Some (if z \<ge> bestcount b then mk_move (zerointerval b) (zerocount b) 0
                  else mk_move (bestinterval b) (bestcount b) (bestadd b))
          }
      | Some (Again b) \<Rightarrow> bisect_outer fuel sc qlast b)"

definition bisect_init :: "u32 \<times> u32 \<Rightarrow> bisect" where
  "bisect_init point =
     \<lparr>b_add = 0, minadd = - 0x8000, maxadd = 0x7fff, outer_min = sint (fst point), outer_max = sint (snd point),
      bestinterval = 0, bestcount = 1, bestadd = 1, bestreach = - (2 ^ 31), zerointerval = 0, zerocount = 0\<rparr>"

definition compress_qlast :: "stepcompress \<Rightarrow> nat" where
  "compress_qlast sc = min (queue_next sc) (queue_pos sc + 65535)"

definition compress_bisect_add :: "stepcompress \<Rightarrow> step_move option" where
  "compress_bisect_add sc =
     do {
       point \<leftarrow> minmax_point sc (queue_pos sc);
       bisect_outer 0x10001 sc (compress_qlast sc) (bisect_init point)
     }"

subsection \<open>Step compress checking\<close>

text \<open>The loop of \<open>check_line\<close> from index \<open>i\<close> on, with \<open>n\<close> rounds to go.\<close>

fun check_loop :: "stepcompress \<Rightarrow> u16 \<Rightarrow> nat \<Rightarrow> nat \<Rightarrow> u32 \<Rightarrow> u32 \<Rightarrow> int option" where
  "check_loop sc add 0 i interval p = Some 0"
| "check_loop sc add (Suc n) i interval p =
     do {
       point \<leftarrow> minmax_point sc (queue_pos sc + i);
       let p = p + interval;
       if p < fst point \<or> p > snd point then Some ERROR_RET
       else if interval \<ge> 0x80000000 then Some ERROR_RET
       else check_loop sc add n (Suc i) (interval + scast add) p
     }"

definition check_line :: "stepcompress \<Rightarrow> step_move \<Rightarrow> int option" where
  "check_line sc move =
     (if mv_count move = 0 \<or> (mv_interval move = 0 \<and> mv_add move = 0 \<and> mv_count move > 1)
         \<or> mv_interval move \<ge> 0x80000000 then Some ERROR_RET
      else check_loop sc (mv_add move) (unat (mv_count move)) 0 (mv_interval move) 0)"

subsection \<open>Step compress interface\<close>

definition stepcompress_alloc :: "u32 \<Rightarrow> stepcompress" where
  "stepcompress_alloc oid =
     \<lparr>queue = [], queue_pos = 0, queue_next = 0, max_error = 0, mcu_time_offset = 0, mcu_freq = 0,
      last_step_print_time = 0, last_step_clock = 0, msg_queue = [], sc_oid = oid, queue_step_msgtag = 0,
      set_next_step_dir_msgtag = 0, sdir = - 1, invert_sdir = 0, next_step_clock = 0, next_step_dir = 0,
      last_position = 0, history_list = []\<rparr>"

definition stepcompress_fill :: "u32 \<Rightarrow> u32 \<Rightarrow> u32 \<Rightarrow> stepcompress \<Rightarrow> stepcompress" where
  "stepcompress_fill err qtag dtag sc =
     sc\<lparr>max_error := err, queue_step_msgtag := qtag, set_next_step_dir_msgtag := dtag\<rparr>"

definition stepcompress_set_invert_sdir :: "u32 \<Rightarrow> stepcompress \<Rightarrow> stepcompress" where
  "stepcompress_set_invert_sdir flag sc =
     (let flag = (if flag = 0 then 0 else 1 :: int)
      in if flag \<noteq> invert_sdir sc then
           (let sc = sc\<lparr>invert_sdir := flag\<rparr>
            in if sdir sc \<ge> 0 then sc\<lparr>sdir := sdir sc XOR 1\<rparr> else sc)
         else sc)"

text \<open>The loop of \<open>free_history\<close> takes entries from the end of the list while they are old enough.\<close>

definition free_history :: "u64 \<Rightarrow> stepcompress \<Rightarrow> stepcompress" where
  "free_history end_clock sc =
     sc\<lparr>history_list := rev (dropWhile (\<lambda>hs. \<not> hs_last_clock hs > end_clock) (rev (history_list sc)))\<rparr>"

definition stepcompress_history_expire :: "u64 \<Rightarrow> stepcompress \<Rightarrow> stepcompress" where
  "stepcompress_history_expire end_clock sc = free_history end_clock sc"

definition stepcompress_get_oid :: "stepcompress \<Rightarrow> u32" where
  "stepcompress_get_oid sc = sc_oid sc"

definition stepcompress_get_step_dir :: "stepcompress \<Rightarrow> int" where
  "stepcompress_get_step_dir sc = next_step_dir sc"

definition calc_last_step_print_time :: "stepcompress \<Rightarrow> stepcompress" where
  "calc_last_step_print_time sc =
     (let lsc = real (unat (last_step_clock sc))
      in sc\<lparr>last_step_print_time := mcu_time_offset sc + (lsc - 1 / 2) / mcu_freq sc\<rparr>)"

definition stepcompress_set_time :: "real \<Rightarrow> real \<Rightarrow> stepcompress \<Rightarrow> stepcompress" where
  "stepcompress_set_time time_offset freq sc =
     calc_last_step_print_time (sc\<lparr>mcu_time_offset := time_offset, mcu_freq := freq\<rparr>)"

definition move_ticks :: "step_move \<Rightarrow> u32 option" where
  "move_ticks move =
     do {
       af \<leftarrow> addfactor (uint (mv_count move));
       m \<leftarrow> i32 (sint (mv_add move) * af);
       Some (word_of_int m + mv_interval move * (ucast (mv_count move) - 1))
     }"

definition add_move :: "u64 \<Rightarrow> step_move \<Rightarrow> unit sc_op" where
  "add_move first_clock move =
     bind_op (option_op (move_ticks move)) (\<lambda>ticks.
     let last = first_clock + ucast ticks
     in bind_op (get_op (\<lambda>sc. message_alloc_and_encode
                   [queue_step_msgtag sc, sc_oid sc, mv_interval move, ucast (mv_count move), scast (mv_add move)]))
          (\<lambda>enc.
        bind_op (option_op enc) (\<lambda>qm.
        then_op
          (set_op (\<lambda>sc.
             let lsc = last_step_clock sc;
                 qm = qm\<lparr>min_clock := lsc, req_clock := lsc\<rparr>;
                 qm = (if mv_count move = 1 \<and> first_clock \<ge> lsc + CLOCK_DIFF_MAX
                       then qm\<lparr>req_clock := first_clock\<rparr> else qm)
             in sc\<lparr>msg_queue := msg_queue sc @ [qm], last_step_clock := last\<rparr>))
          (set_op (\<lambda>sc.
             let n = (if sdir sc \<noteq> 0 then uint (mv_count move) else - uint (mv_count move));
                 hs = \<lparr>hs_first_clock = first_clock, hs_last_clock = last, hs_start_position = last_position sc,
                       hs_step_count = n, hs_interval = sint (mv_interval move), hs_add = sint (mv_add move)\<rparr>
             in sc\<lparr>last_position := last_position sc + n, history_list := hs # history_list sc\<rparr>)))))"

text \<open>
  The loop of \<open>queue_flush\<close>. It ends because a checked move has at least one step, so that every round
  consumes part of the queue.
\<close>

lemma check_line_count: "check_line sc move = Some 0 \<Longrightarrow> mv_count move \<noteq> 0"
  by (auto simp: check_line_def)

lemma add_move_queue:
  "add_move first_clock move sc = Ret u sc' \<Longrightarrow>
   queue sc' = queue sc \<and> queue_pos sc' = queue_pos sc \<and> queue_next sc' = queue_next sc \<and>
   max_error sc' = max_error sc"
  by (auto simp: add_move_def op_simps Let_def split: option.splits)

function flush_loop :: "u64 \<Rightarrow> int sc_op" where
  "flush_loop move_clock sc =
     (if last_step_clock sc < move_clock then
        (case compress_bisect_add sc of
           None \<Rightarrow> Undef
         | Some move \<Rightarrow>
             (case check_line sc move of
                None \<Rightarrow> Undef
              | Some r \<Rightarrow>
                  if r \<noteq> 0 then Ret r sc
                  else
                    (case add_move (last_step_clock sc + ucast (mv_interval move)) move sc of
                       Ret u sc' \<Rightarrow>
                         if queue_pos sc' + unat (mv_count move) \<ge> queue_next sc'
                         then Ret 0 (calc_last_step_print_time (sc'\<lparr>queue_pos := 0, queue_next := 0\<rparr>))
                         else flush_loop move_clock (sc'\<lparr>queue_pos := queue_pos sc' + unat (mv_count move)\<rparr>)
                     | Shutdown e sc' \<Rightarrow> Shutdown e sc'
                     | Undef \<Rightarrow> Undef)))
      else Ret 0 (calc_last_step_print_time sc))"
  by pat_completeness auto
termination
proof (relation "measure (\<lambda>(move_clock, sc). queue_next sc - queue_pos sc)")
  fix move_clock sc move r u sc'
  assume "check_line sc move = Some r" "\<not> r \<noteq> 0"
    and add: "add_move (last_step_clock sc + ucast (mv_interval move)) move sc = Ret u sc'"
    and left: "\<not> queue_next sc' \<le> queue_pos sc' + unat (mv_count move)"
  then have "0 < unat (mv_count move)" using check_line_count by (simp add: unat_gt_0)
  with left add_move_queue [OF add]
  show "((move_clock, sc'\<lparr>queue_pos := queue_pos sc' + unat (mv_count move)\<rparr>), move_clock, sc)
      \<in> measure (\<lambda>(move_clock, sc). queue_next sc - queue_pos sc)"
    by simp
qed simp

declare flush_loop.simps [simp del]

definition queue_flush :: "u64 \<Rightarrow> int sc_op" where
  "queue_flush move_clock =
     bind_op (get_op (\<lambda>sc. queue_pos sc \<ge> queue_next sc)) (\<lambda>empty.
       if empty then ret 0 else flush_loop move_clock)"

text \<open>\<open>int ret = m(); if (ret) return ret;\<close>\<close>

definition try_op :: "(stepcompress, int) op \<Rightarrow> int sc_op \<Rightarrow> int sc_op" where
  "try_op m n = bind_op m (\<lambda>r. if r \<noteq> 0 then ret r else n)"

definition stepcompress_flush_far :: "u64 \<Rightarrow> int sc_op" where
  "stepcompress_flush_far abs_step_clock =
     bind_op (get_op (\<lambda>sc. \<lparr>mv_interval = ucast (abs_step_clock - last_step_clock sc), mv_count = 1, mv_add = 0\<rparr>)) (\<lambda>move.
     then_op (add_move abs_step_clock move)
     (then_op (set_op calc_last_step_print_time) (ret 0)))"

definition queue_msg :: "u32 list \<Rightarrow> (stepcompress \<Rightarrow> queue_message \<Rightarrow> queue_message) \<Rightarrow> int sc_op" where
  "queue_msg msg f =
     bind_op (option_op (message_alloc_and_encode msg)) (\<lambda>qm.
     then_op (set_op (\<lambda>sc. sc\<lparr>msg_queue := msg_queue sc @ [f sc qm]\<rparr>)) (ret 0))"

definition set_next_step_dir :: "int \<Rightarrow> int sc_op" where
  "set_next_step_dir dir =
     bind_op (get_op sdir) (\<lambda>cur.
       if cur = dir then ret 0
       else
         try_op (queue_flush UINT64_MAX)
           (then_op (set_op (\<lambda>sc. sc\<lparr>sdir := dir\<rparr>))
           (bind_op (get_op (\<lambda>sc. [set_next_step_dir_msgtag sc, sc_oid sc, word_of_int (dir XOR invert_sdir sc)])) (\<lambda>msg.
              queue_msg msg (\<lambda>sc qm. qm\<lparr>req_clock := last_step_clock sc\<rparr>)))))"

text \<open>\<open>*sc->queue_next++ = v\<close>\<close>

definition queue_store :: "u32 \<Rightarrow> unit sc_op" where
  "queue_store v =
     bind_op (get_op (\<lambda>sc. queue_next sc < length (queue sc))) (\<lambda>room.
       if room then set_op (\<lambda>sc. sc\<lparr>queue := (queue sc)[queue_next sc := v], queue_next := queue_next sc + 1\<rparr>)
       else undef_op)"

definition queue_append_far :: "int sc_op" where
  "queue_append_far =
     bind_op (get_op next_step_clock) (\<lambda>clk.
     then_op (set_op (\<lambda>sc. sc\<lparr>next_step_clock := 0\<rparr>))
       (try_op (queue_flush (clk - CLOCK_DIFF_MAX + 1))
         (bind_op (get_op last_step_clock) (\<lambda>lsc.
            if clk \<ge> lsc + CLOCK_DIFF_MAX then stepcompress_flush_far clk
            else then_op (queue_store (ucast clk)) (ret 0)))))"

text \<open>\<open>while (in_use >= alloc) alloc *= 2;\<close>\<close>

function grow_alloc :: "nat \<Rightarrow> nat \<Rightarrow> nat" where
  "grow_alloc in_use alloc = (if 0 < alloc \<and> in_use \<ge> alloc then grow_alloc in_use (alloc * 2) else alloc)"
  by pat_completeness auto
termination by (relation "measure (\<lambda>(in_use, alloc). in_use + 1 - alloc)") auto

declare grow_alloc.simps [simp del]

text \<open>Making room: the live part of the queue moves to the front, or the array is reallocated.\<close>

definition queue_make_room :: "stepcompress \<Rightarrow> stepcompress" where
  "queue_make_room sc =
     (let in_use = queue_next sc - queue_pos sc;
          live = take in_use (drop (queue_pos sc) (queue sc));
          sc = (if queue_pos sc > 0 then sc\<lparr>queue := live @ drop in_use (queue sc)\<rparr>
                else
                  (let alloc = length (queue sc);
                       alloc = (if alloc = 0 then QUEUE_START_SIZE else alloc);
                       alloc = grow_alloc in_use alloc
                   in sc\<lparr>queue := queue sc @ replicate (alloc - length (queue sc)) 0\<rparr>))
      in sc\<lparr>queue_pos := 0, queue_next := in_use\<rparr>)"

definition queue_append_extend :: "int sc_op" where
  "queue_append_extend =
     try_op
       (bind_op (get_op (\<lambda>sc. queue_next sc - queue_pos sc > 65535 + 2000)) (\<lambda>large.
          if large then
            bind_op (get_op (\<lambda>sc. queue_at sc (queue_next sc - 65535))) (\<lambda>v.
            bind_op (option_op v) (\<lambda>v.
            bind_op (get_op last_step_clock) (\<lambda>lsc.
              queue_flush (lsc + ucast (v - ucast lsc)))))
          else ret 0))
       (then_op (set_op (\<lambda>sc. if queue_next sc \<ge> length (queue sc) then queue_make_room sc else sc))
       (bind_op (get_op next_step_clock) (\<lambda>clk.
        then_op (queue_store (ucast clk))
        (then_op (set_op (\<lambda>sc. sc\<lparr>next_step_clock := 0\<rparr>)) (ret 0)))))"

definition queue_append :: "int sc_op" where
  "queue_append =
     try_op
       (bind_op (get_op (\<lambda>sc. next_step_dir sc \<noteq> sdir sc)) (\<lambda>turn.
        bind_op (get_op next_step_dir) (\<lambda>dir.
          if turn then set_next_step_dir dir else ret 0)))
       (bind_op (get_op (\<lambda>sc. next_step_clock sc \<ge> last_step_clock sc + CLOCK_DIFF_MAX)) (\<lambda>far.
        bind_op (get_op (\<lambda>sc. queue_next sc \<ge> length (queue sc))) (\<lambda>full.
          if far then queue_append_far
          else if full then queue_append_extend
          else
            bind_op (get_op next_step_clock) (\<lambda>clk.
            then_op (queue_store (ucast clk))
            (then_op (set_op (\<lambda>sc. sc\<lparr>next_step_clock := 0\<rparr>)) (ret 0))))))"

definition stepcompress_append :: "int \<Rightarrow> real \<Rightarrow> real \<Rightarrow> int sc_op" where
  "stepcompress_append dir print_time step_time =
     bind_op (get_op (\<lambda>sc. u64_of_double ((step_time + (print_time - last_step_print_time sc)) * mcu_freq sc))) (\<lambda>rel.
     bind_op (option_op rel) (\<lambda>rel_sc.
     bind_op (get_op (\<lambda>sc. last_step_clock sc + rel_sc)) (\<lambda>clk.
     let store = then_op (set_op (\<lambda>sc. sc\<lparr>next_step_clock := clk, next_step_dir := dir\<rparr>)) (ret 0)
     in bind_op (get_op next_step_clock) (\<lambda>pend.
          if pend \<noteq> 0 then
            bind_op (get_op (\<lambda>sc. dir \<noteq> next_step_dir sc \<and>
                real_of_int (sint (clk - pend)) < SDS_FILTER_TIME * mcu_freq sc)) (\<lambda>rollback.
              if rollback then
                then_op (set_op (\<lambda>sc. sc\<lparr>next_step_clock := 0, next_step_dir := dir\<rparr>)) (ret 0)
              else try_op queue_append store)
          else store))))"

definition stepcompress_commit :: "int sc_op" where
  "stepcompress_commit =
     bind_op (get_op next_step_clock) (\<lambda>pend. if pend \<noteq> 0 then queue_append else ret 0)"

definition stepcompress_flush :: "u64 \<Rightarrow> int sc_op" where
  "stepcompress_flush move_clock =
     try_op
       (bind_op (get_op next_step_clock) (\<lambda>pend.
          if pend \<noteq> 0 \<and> move_clock \<ge> pend then queue_append else ret 0))
       (queue_flush move_clock)"

definition stepcompress_reset :: "u64 \<Rightarrow> int sc_op" where
  "stepcompress_reset clk =
     try_op (stepcompress_flush UINT64_MAX)
       (then_op (set_op (\<lambda>sc. calc_last_step_print_time (sc\<lparr>last_step_clock := clk, sdir := - 1\<rparr>))) (ret 0))"

definition stepcompress_set_last_position :: "u64 \<Rightarrow> int \<Rightarrow> int sc_op" where
  "stepcompress_set_last_position clk pos =
     try_op (stepcompress_flush UINT64_MAX)
       (then_op (set_op (\<lambda>sc. sc\<lparr>last_position := pos, history_list :=
            \<lparr>hs_first_clock = clk, hs_last_clock = clk, hs_start_position = pos, hs_step_count = 0,
             hs_interval = 0, hs_add = 0\<rparr> # history_list sc\<rparr>)) (ret 0))"

text \<open>
  The position within a move at a clock between its first and last step. \<open>None\<close>: signed overflow,
  division by zero, or the root of a negative number.
\<close>

definition past_offset :: "history_steps \<Rightarrow> u64 \<Rightarrow> int option" where
  "past_offset hs clk =
     do {
       ticks \<leftarrow> i32 (sint (ucast (clk - hs_first_clock hs) :: u32) + hs_interval hs);
       if hs_add hs = 0 then
         (if hs_interval hs = 0 then None else Some (ticks sdiv hs_interval hs))
       else
         (let a = real_of_int (hs_add hs) / 2;
              b = real_of_int (hs_interval hs) - real_of_int (hs_add hs) / 2;
              c = - real_of_int ticks
          in if b * b - 4 * a * c < 0 then None
             else Some (c_trunc ((sqrt (b * b - 4 * a * c) - b) / (2 * a))))
     }"

fun find_past :: "history_steps list \<Rightarrow> u64 \<Rightarrow> int \<Rightarrow> int option" where
  "find_past [] clk pos = Some pos"
| "find_past (hs # hist) clk pos =
     (if clk < hs_first_clock hs then find_past hist clk (hs_start_position hs)
      else if clk \<ge> hs_last_clock hs then Some (hs_start_position hs + hs_step_count hs)
      else
        do {
          offset \<leftarrow> past_offset hs clk;
          Some (if hs_step_count hs < 0 then hs_start_position hs - offset else hs_start_position hs + offset)
        })"

definition stepcompress_find_past_position :: "stepcompress \<Rightarrow> u64 \<Rightarrow> int option" where
  "stepcompress_find_past_position sc clk = find_past (history_list sc) clk (last_position sc)"

definition stepcompress_queue_msg :: "u32 list \<Rightarrow> int sc_op" where
  "stepcompress_queue_msg data =
     try_op (stepcompress_flush UINT64_MAX)
       (queue_msg data (\<lambda>sc qm. qm\<lparr>req_clock := last_step_clock sc\<rparr>))"

definition stepcompress_queue_mq_msg :: "u64 \<Rightarrow> u32 list \<Rightarrow> int sc_op" where
  "stepcompress_queue_mq_msg req data =
     try_op (stepcompress_flush UINT64_MAX)
       (queue_msg data (\<lambda>sc qm. qm\<lparr>min_clock := req, req_clock := req\<rparr>))"

text \<open>The entries written to \<open>p\<close>; their number is the result.\<close>

fun extract_old :: "history_steps list \<Rightarrow> nat \<Rightarrow> u64 \<Rightarrow> u64 \<Rightarrow> history_steps list" where
  "extract_old [] mx start_clock end_clock = []"
| "extract_old (hs # hist) mx start_clock end_clock =
     (if start_clock \<ge> hs_last_clock hs \<or> mx = 0 then []
      else if end_clock \<le> hs_first_clock hs then extract_old hist mx start_clock end_clock
      else hs # extract_old hist (mx - 1) start_clock end_clock)"

definition stepcompress_extract_old :: "stepcompress \<Rightarrow> nat \<Rightarrow> u64 \<Rightarrow> u64 \<Rightarrow> history_steps list" where
  "stepcompress_extract_old sc mx start_clock end_clock = extract_old (history_list sc) mx start_clock end_clock"

subsection \<open>Step compress synchronization\<close>

text \<open>The batches handed to \<open>serialqueue_send_batch\<close> are collected in \<open>batches\<close>.\<close>

record steppersync =
  sc_list :: "stepcompress list"
  move_clocks :: "u64 list"
  batches :: "queue_message list list"

definition steppersync_alloc :: "stepcompress list \<Rightarrow> nat \<Rightarrow> steppersync" where
  "steppersync_alloc scs move_num =
     \<lparr>sc_list = scs, move_clocks = replicate move_num 0, batches = []\<rparr>"

definition steppersync_set_time :: "real \<Rightarrow> real \<Rightarrow> steppersync \<Rightarrow> steppersync" where
  "steppersync_set_time time_offset freq ss =
     ss\<lparr>sc_list := map (stepcompress_set_time time_offset freq) (sc_list ss)\<rparr>"

definition steppersync_history_expire :: "u64 \<Rightarrow> steppersync \<Rightarrow> steppersync" where
  "steppersync_history_expire end_clock ss =
     ss\<lparr>sc_list := map (stepcompress_history_expire end_clock) (sc_list ss)\<rparr>"

definition heap_at :: "u64 list \<Rightarrow> nat \<Rightarrow> u64" where
  "heap_at mc i = (if i < length mc then mc ! i else UINT64_MAX)"

text \<open>The loop of \<open>heap_replace\<close>; a store outside the array is \<open>None\<close>.\<close>

function heap_replace_loop :: "u64 list \<Rightarrow> u64 \<Rightarrow> nat \<Rightarrow> u64 list option" where
  "heap_replace_loop mc req pos =
     (if pos \<ge> length mc then None
      else
        (let child1 = 2 * pos + 1; child2 = 2 * pos + 2;
             clock1 = heap_at mc child1; clock2 = heap_at mc child2
         in if req \<le> clock1 \<and> req \<le> clock2 then Some (mc[pos := req])
            else if clock1 < clock2 then heap_replace_loop (mc[pos := clock1]) req child1
            else heap_replace_loop (mc[pos := clock2]) req child2))"
  by pat_completeness auto
termination by (relation "measure (\<lambda>(mc, req, pos). length mc - pos)") auto

declare heap_replace_loop.simps [simp del]

definition heap_replace :: "u64 list \<Rightarrow> u64 \<Rightarrow> u64 list option" where
  "heap_replace mc req = heap_replace_loop mc req 0"

fun flush_each :: "u64 \<Rightarrow> stepcompress list \<Rightarrow> (stepcompress list, int) outcome" where
  "flush_each move_clock [] = Ret 0 []"
| "flush_each move_clock (sc # scs) =
     (case stepcompress_flush move_clock sc of
        Ret r sc' \<Rightarrow>
          if r \<noteq> 0 then Ret r (sc' # scs)
          else
            (case flush_each move_clock scs of
               Ret r scs' \<Rightarrow> Ret r (sc' # scs')
             | Shutdown e scs' \<Rightarrow> Shutdown e (sc' # scs')
             | Undef \<Rightarrow> Undef)
      | Shutdown e sc' \<Rightarrow> Shutdown e (sc' # scs)
      | Undef \<Rightarrow> Undef)"

text \<open>The stepper whose first message has the lowest \<open>req_clock\<close>, the first one on a tie.\<close>

fun lowest :: "queue_message list list \<Rightarrow> nat \<Rightarrow> u64 \<Rightarrow> (nat \<times> queue_message) option \<Rightarrow> (nat \<times> queue_message) option" where
  "lowest [] i req best = best"
| "lowest ([] # qs) i req best = lowest qs (Suc i) req best"
| "lowest ((m # ms) # qs) i req best =
     (if req_clock m < req then lowest qs (Suc i) (req_clock m) (Some (i, m))
      else lowest qs (Suc i) req best)"

text \<open>
  The batching loop: the rest of the message queues, the heap and the batch. Each round removes one
  message, and \<open>fuel\<close> is the number of messages there are.
\<close>

fun batch_loop ::
  "nat \<Rightarrow> u64 \<Rightarrow> queue_message list list \<Rightarrow> u64 list \<Rightarrow> queue_message list \<Rightarrow>
   (queue_message list list \<times> u64 list \<times> queue_message list) option" where
  "batch_loop fuel move_clock qs mc msgs =
     (case lowest qs 0 MAX_CLOCK None of
        None \<Rightarrow> Some (qs, mc, msgs)
      | Some (i, qm) \<Rightarrow>
          if min_clock qm \<noteq> 0 \<and> req_clock qm > move_clock then Some (qs, mc, msgs)
          else if mc = [] then None
          else
            (case fuel of
               0 \<Rightarrow> None
             | Suc fuel' \<Rightarrow>
                 (let next_avail = mc ! 0
                  in case (if min_clock qm \<noteq> 0 then heap_replace mc (min_clock qm) else Some mc) of
                       None \<Rightarrow> None
                     | Some mc' \<Rightarrow>
                         batch_loop fuel' move_clock (qs[i := tl (qs ! i)]) mc'
                           (msgs @ [qm\<lparr>min_clock := next_avail\<rparr>]))))"

definition steppersync_flush :: "u64 \<Rightarrow> u64 \<Rightarrow> (steppersync, int) op" where
  "steppersync_flush move_clock clear_history_clock ss =
     (case flush_each move_clock (sc_list ss) of
        Ret r scs \<Rightarrow>
          if r \<noteq> 0 then Ret r (ss\<lparr>sc_list := scs\<rparr>)
          else
            (case batch_loop (sum_list (map (length \<circ> msg_queue) scs)) move_clock (map msg_queue scs)
                    (move_clocks ss) [] of
               None \<Rightarrow> Undef
             | Some (qs, mc, msgs) \<Rightarrow>
                 Ret 0 (steppersync_history_expire clear_history_clock
                   (ss\<lparr>sc_list := map2 (\<lambda>sc q. sc\<lparr>msg_queue := q\<rparr>) scs qs, move_clocks := mc,
                       batches := (if msgs = [] then batches ss else batches ss @ [msgs])\<rparr>)))
      | Shutdown e scs \<Rightarrow> Shutdown e (ss\<lparr>sc_list := scs\<rparr>)
      | Undef \<Rightarrow> Undef)"

subsection \<open>Checked arithmetic\<close>

lemma i32_Some [simp]: "i32 x = Some y \<longleftrightarrow> y = x \<and> - (2 ^ 31) \<le> x \<and> x < 2 ^ 31"
  by (auto simp: i32_def)

lemma sdiv_pos: "0 \<le> n \<Longrightarrow> 0 < d \<Longrightarrow> n sdiv d = n div (d :: int)"
  by (cases "n = 0") (simp_all add: signed_divide_int_def)

lemma sdiv_neg: "n < 0 \<Longrightarrow> 0 < d \<Longrightarrow> n sdiv d = - ((- n) div (d :: int))"
  by (simp add: signed_divide_int_def)

lemma div_bounds: "0 < (d :: int) \<Longrightarrow> n div d * d \<le> n \<and> n < (n div d + 1) * d"
  by (metis add.commute add_diff_cancel_left' distrib_right le_add_same_cancel1 less_add_same_cancel1
      minus_mod_eq_div_mult mult_1 pos_mod_bound pos_mod_sign diff_add_cancel add_less_cancel_left)

lemma idiv_up_ceil:
  assumes "idiv_up n d = Some m" "0 < d"
  shows "(m - 1) * d < n \<and> n \<le> m * d"
proof (cases "n \<ge> 0")
  case True
  with assms have "m = (n + d - 1) div d"
    by (auto simp: idiv_up_def sdiv_pos bind_eq_Some_conv)
  with div_bounds [OF assms(2), of "n + d - 1"] show ?thesis by (simp add: algebra_simps)
next
  case False
  with assms have "m = - ((- n) div d)" by (simp add: idiv_up_def sdiv_neg)
  with div_bounds [OF assms(2), of "- n"] show ?thesis by (simp add: algebra_simps)
qed

lemma idiv_down_floor:
  assumes "idiv_down n d = Some m" "0 < d"
  shows "m * d \<le> n \<and> n < (m + 1) * d"
proof (cases "n \<ge> 0")
  case True
  with assms have "m = n div d" by (simp add: idiv_down_def sdiv_pos)
  with div_bounds [OF assms(2), of n] show ?thesis by simp
next
  case False
  with assms have "m = - ((- (n - d + 1)) div d)"
    by (auto simp: idiv_down_def bind_eq_Some_conv sdiv_neg)
  with div_bounds [OF assms(2), of "- (n - d + 1)"] show ?thesis by (simp add: algebra_simps)
qed

lemma addfactor_Some: "addfactor n = Some f \<longleftrightarrow> f = n * (n - 1) div 2 \<and> - (2 ^ 31) \<le> n * (n - 1) \<and> n * (n - 1) < 2 ^ 31"
  if "0 \<le> n"
proof -
  have "0 \<le> n * (n - 1)" using that by (cases "n = 0") (auto simp: zero_le_mult_iff)
  then show ?thesis by (auto simp: addfactor_def bind_eq_Some_conv sdiv_pos)
qed

lemma addfactor_pos: "addfactor (int n) = Some f \<Longrightarrow> 2 \<le> n \<Longrightarrow> 0 < f"
proof -
  assume "addfactor (int n) = Some f" "2 \<le> n"
  then have f: "f = int n * (int n - 1) div 2" by (simp add: addfactor_Some)
  have "2 * 1 \<le> int n * (int n - 1)" using \<open>2 \<le> n\<close> by (intro mult_mono) auto
  then show ?thesis unfolding f by simp
qed

subsection \<open>A checked move keeps every step within the allowed error\<close>

lemma minmax_point_bounds:
  assumes "minmax_point sc pos = Some (lo, hi)"
  shows "pos < length (queue sc)" "hi = queue sc ! pos - ucast (last_step_clock sc)" "hi - lo \<le> max_error sc"
  using assms by (auto simp: minmax_point_def queue_at_def Let_def bind_eq_Some_conv split: if_splits)

lemma word_within: "lo \<le> q \<Longrightarrow> q \<le> hi \<Longrightarrow> hi - q \<le> hi - (lo :: u32)"
  by (simp add: word_le_nat_alt unat_sub [unfolded word_le_nat_alt])

lemma check_loop_steps:
  assumes "check_loop sc a n i (i0 + of_nat i * scast a) (step_clock 0 i0 a i) = Some 0" "k < n"
  shows "queue_pos sc + i + k < length (queue sc) \<and>
    queue sc ! (queue_pos sc + i + k) - step_clock (ucast (last_step_clock sc)) i0 a (Suc (i + k)) \<le> max_error sc"
  using assms
proof (induction n arbitrary: i k)
  case (Suc n)
  let ?p = "step_clock 0 i0 a (Suc i)"
  have p: "step_clock 0 i0 a i + (i0 + of_nat i * scast a) = ?p" by (simp add: step_clock_Suc)
  have iv: "i0 + of_nat i * scast a + scast a = i0 + of_nat (Suc i) * scast a" by (simp add: algebra_simps)
  from Suc.prems(1) obtain lo hi where pt: "minmax_point sc (queue_pos sc + i) = Some (lo, hi)"
    "lo \<le> ?p" "?p \<le> hi" and rest: "check_loop sc a n (Suc i) (i0 + of_nat (Suc i) * scast a) ?p = Some 0"
    unfolding check_loop.simps Let_def p iv by (auto simp: bind_eq_Some_conv split: if_splits)
  show ?case
  proof (cases k)
    case 0
    have "hi - ?p \<le> max_error sc" using word_within [OF pt(2,3)] minmax_point_bounds(3) [OF pt(1)] by simp
    moreover have "queue sc ! (queue_pos sc + i) - step_clock (ucast (last_step_clock sc)) i0 a (Suc i) = hi - ?p"
      unfolding minmax_point_bounds(2) [OF pt(1)] step_clock_shift [of "ucast (last_step_clock sc)"] by simp
    ultimately show ?thesis using 0 minmax_point_bounds(1) [OF pt(1)] by simp
  next
    case (Suc k')
    with Suc.IH [OF rest, of k'] Suc.prems(2) show ?thesis by simp
  qed
qed simp

lemma check_line_steps:
  assumes "check_line sc move = Some 0" "k < unat (mv_count move)"
  shows "queue_pos sc + k < length (queue sc) \<and>
    queue sc ! (queue_pos sc + k) - step_clock (ucast (last_step_clock sc)) (mv_interval move) (mv_add move) (Suc k)
      \<le> max_error sc"
  using assms check_loop_steps [of sc "mv_add move" "unat (mv_count move)" 0 "mv_interval move" k]
  by (simp add: check_line_def split: if_splits)

subsection \<open>The clock at the end of a move\<close>

lemma move_ticks_clock:
  assumes "move_ticks move = Some ticks" "mv_count move \<noteq> 0"
  shows "step_clock w (mv_interval move) (mv_add move) (unat (mv_count move)) = w + mv_interval move + ticks"
proof -
  let ?c = "uint (mv_count move)"
  have c: "0 < ?c" using assms(2) by (simp add: word_neq_0_conv word_less_def)
  from assms(1) have t: "ticks = word_of_int (sint (mv_add move) * (?c * (?c - 1) div 2))
      + mv_interval move * (ucast (mv_count move) - 1)"
    by (auto simp: move_ticks_def bind_eq_Some_conv addfactor_Some)
  have u: "int (unat (mv_count move)) = ?c" by simp
  then have "int (unat (mv_count move) - 1) = ?c - 1"
    using c by (metis One_nat_def Suc_leI of_nat_1 of_nat_0_less_iff of_nat_diff)
  with u have "int (unat (mv_count move) * (unat (mv_count move) - 1) div 2) = ?c * (?c - 1) div 2"
    by (simp only: zdiv_int of_nat_mult of_nat_numeral)
  then have "(of_nat (unat (mv_count move) * (unat (mv_count move) - 1) div 2) :: u32) = word_of_int (?c * (?c - 1) div 2)"
    by (metis of_int_of_nat_eq)
  moreover have "(of_nat (unat (mv_count move)) :: u32) = ucast (mv_count move)" by (simp add: unsigned_ucast_eq)
  moreover have "(scast (mv_add move) :: u32) = word_of_int (sint (mv_add move))" by (rule scast_eq)
  ultimately show ?thesis
    unfolding step_clock_def t by (simp add: algebra_simps)
qed

subsection \<open>The bisection: its result is bounded, and it ends\<close>

lemma bisect_inner_step:
  assumes "bisect_inner sc qlast add lo hi iv n = Some x"
  shows "qlast \<le> queue_pos sc + n \<and> x = Whole (mk_move iv (int n) add) \<or>
    queue_pos sc + n < qlast \<and>
    (\<exists>lo' hi' np. x = Broke lo' hi' iv (Suc n) np \<or> bisect_inner sc qlast add lo' hi' hi' (Suc n) = Some x)"
  using assms
  by (subst (asm) bisect_inner.simps) (auto simp: Let_def bind_eq_Some_conv not_le split: if_splits)

lemma bisect_inner_Whole:
  "bisect_inner sc qlast add lo hi iv n = Some (Whole move) \<Longrightarrow> queue_pos sc + n \<le> qlast \<Longrightarrow>
   \<exists>i. move = mk_move i (int (qlast - queue_pos sc)) add"
proof (induction "qlast - (queue_pos sc + n)" arbitrary: lo hi iv n)
  case 0
  from bisect_inner_step [OF 0(2)] 0 have "move = mk_move iv (int n) add" "n = qlast - queue_pos sc" by auto
  then show ?case by blast
next
  case (Suc d)
  from bisect_inner_step [OF Suc.prems(1)] Suc.hyps(2) obtain lo' hi' where
    "bisect_inner sc qlast add lo' hi' hi' (Suc n) = Some (Whole move)" by auto
  with Suc.hyps(1) [of "Suc n"] Suc.hyps(2) show ?case by simp
qed

lemma bisect_inner_Broke:
  "bisect_inner sc qlast add lo hi iv n = Some (Broke lo' hi' iv' n' np) \<Longrightarrow> queue_pos sc + n' \<le> qlast \<and> n < n'"
proof (induction "qlast - (queue_pos sc + n)" arbitrary: lo hi iv n)
  case 0
  from bisect_inner_step [OF 0(2)] 0(1) show ?case by auto
next
  case (Suc d)
  from bisect_inner_step [OF Suc.prems] Suc.hyps(2) consider
    "n' = Suc n" "queue_pos sc + n < qlast"
    | lo'' hi'' where "bisect_inner sc qlast add lo'' hi'' hi'' (Suc n) = Some (Broke lo' hi' iv' n' np)" by auto
  then show ?case
  proof cases
    case 2
    with Suc.hyps(1) [of "Suc n"] Suc.hyps(2) show ?thesis by fastforce
  qed simp
qed

text \<open>The counts that the search remembers are numbers of queued steps.\<close>

definition counts_ok :: "int \<Rightarrow> bisect \<Rightarrow> bool" where
  "counts_ok N b \<longleftrightarrow> 0 \<le> bestcount b \<and> bestcount b \<le> N \<and> 0 \<le> zerocount b \<and> zerocount b \<le> N"

lemma bisect_best_counts:
  "bisect_best b iv n reach = (b', stop) \<Longrightarrow> counts_ok N b \<Longrightarrow> 0 \<le> n \<Longrightarrow> n \<le> N \<Longrightarrow>
   counts_ok N b' \<and> b_add b' = b_add b \<and> minadd b' = minadd b \<and> maxadd b' = maxadd b"
  by (auto simp: bisect_best_def counts_ok_def Let_def split: if_splits)

text \<open>One narrowing keeps the search range inside the old one and takes \<open>add\<close> out of it.\<close>

lemma narrow_side_range:
  assumes "narrow_side b lo hi reach np = Some b'"
  shows "b' = b\<lparr>minadd := b_add b + 1, outer_max := hi\<rparr> \<or> b' = b\<lparr>maxadd := b_add b - 1, outer_min := lo\<rparr>"
  using assms by (auto simp: narrow_side_def bind_eq_Some_conv split: if_splits)

definition narrower :: "bisect \<Rightarrow> bisect \<Rightarrow> bool" where
  "narrower b b' \<longleftrightarrow> bestcount b' = bestcount b \<and> zerocount b' = zerocount b \<and>
     minadd b \<le> minadd b' \<and> maxadd b' \<le> maxadd b"

lemma narrow_err_range: "narrow_err err b n = Some b' \<Longrightarrow> narrower b b'"
  by (auto simp: narrow_err_def narrower_def bind_eq_Some_conv Let_def split: if_splits)

lemma narrow_next_range:
  assumes "narrow_next b nc naf np = Some b'" "0 < naf"
  shows "narrower b b'"
proof -
  have up: "a < m" if "idiv_up d naf = Some m" "a * naf < d" for a d m
  proof -
    have "a * naf < m * naf" using idiv_up_ceil [OF that(1) assms(2)] that(2) by linarith
    then show ?thesis using assms(2) by simp
  qed
  have down: "m < a" if "idiv_down d naf = Some m" "d < a * naf" for a d m
  proof -
    have "m * naf < a * naf" using idiv_down_floor [OF that(1) assms(2)] that(2) by linarith
    then show ?thesis using assms(2) by simp
  qed
  show ?thesis
    using assms(1)
    by (auto simp: narrow_next_def narrower_def bind_eq_Some_conv split: if_splits dest!: up down)
qed

lemma bisect_narrow_range:
  assumes "bisect_narrow err b lo hi iv n np = Some b'" "2 \<le> n"
    and "minadd b \<le> b_add b" "b_add b \<le> maxadd b"
  shows "narrower b b'" "b_add b < minadd b' \<or> maxadd b' < b_add b"
proof -
  obtain naf reach b1 b2 where naf: "addfactor (int n) = Some naf"
    and b1: "narrow_side b lo hi reach np = Some b1" and b2: "narrow_err err b1 (int n - 1) = Some b2"
    and b3: "narrow_next b2 (int n) naf np = Some b'"
    using assms(1) by (auto simp: bisect_narrow_def bind_eq_Some_conv)
  note r = narrow_side_range [OF b1] narrow_err_range [OF b2] narrow_next_range [OF b3 addfactor_pos [OF naf assms(2)]]
  then show "narrower b b'" "b_add b < minadd b' \<or> maxadd b' < b_add b"
    using assms(3,4) by (auto simp: narrower_def)
qed

definition range_ok :: "bisect \<Rightarrow> bool" where
  "range_ok b \<longleftrightarrow> minadd b \<le> b_add b \<and> b_add b \<le> maxadd b"

lemma quarter: "a \<le> c \<Longrightarrow> (w :: int) = c - a \<Longrightarrow> a \<le> c - w sdiv 4 \<and> c - w sdiv 4 \<le> c"
  by (simp add: sdiv_pos) linarith

lemma bisect_round_cases:
  assumes "bisect_round sc qlast b = Some r" "range_ok b" "counts_ok (int (qlast - queue_pos sc)) b"
    and "queue_pos sc < qlast"
  shows "(\<exists>i. r = Return (mk_move i (int (qlast - queue_pos sc)) (b_add b))) \<or>
    (\<exists>b'. r = Stop b' \<and> counts_ok (int (qlast - queue_pos sc)) b') \<or>
    (\<exists>b'. r = Again b' \<and> counts_ok (int (qlast - queue_pos sc)) b' \<and> range_ok b' \<and>
       maxadd b' - minadd b' < maxadd b - minadd b)"
proof -
  let ?N = "int (qlast - queue_pos sc)"
  obtain x where x: "bisect_inner sc qlast (b_add b) (outer_min b) (outer_max b) (outer_max b) 1 = Some x"
    using assms(1) by (auto simp: bisect_round_def bind_eq_Some_conv)
  show ?thesis
  proof (cases x)
    case (Whole move)
    then show ?thesis
      using bisect_inner_Whole [OF x [unfolded Whole]] assms(1,4) x by (auto simp: bisect_round_def)
  next
    case (Broke lo hi iv n np)
    have n: "queue_pos sc + n \<le> qlast" "1 < n" using bisect_inner_Broke [OF x [unfolded Broke]] by auto
    obtain reach where reach: "(case bisect_best b iv (int n - 1) reach of (b, stop) \<Rightarrow>
        if stop then Some (Stop b) else do {
               b \<leftarrow> bisect_narrow (max_error sc) b lo hi iv n np;
               if minadd b > maxadd b then Some (Stop b)
               else do {
                 w \<leftarrow> i32 (maxadd b - minadd b);
                 a \<leftarrow> i32 (maxadd b - w sdiv 4);
                 Some (Again (b\<lparr>b_add := a\<rparr>))
               }
             }) = Some r"
      using assms(1) x Broke by (auto simp: bisect_round_def bind_eq_Some_conv Let_def)
    obtain b1 stop where best: "bisect_best b iv (int n - 1) reach = (b1, stop)" by fastforce
    have r: "(if stop then Some (Stop b1) else do {
               b \<leftarrow> bisect_narrow (max_error sc) b1 lo hi iv n np;
               if minadd b > maxadd b then Some (Stop b)
               else do {
                 w \<leftarrow> i32 (maxadd b - minadd b);
                 a \<leftarrow> i32 (maxadd b - w sdiv 4);
                 Some (Again (b\<lparr>b_add := a\<rparr>))
               }
             }) = Some r"
      using reach unfolding best by simp
    have b1: "counts_ok ?N b1" "b_add b1 = b_add b" "minadd b1 = minadd b" "maxadd b1 = maxadd b"
      using bisect_best_counts [OF best assms(3)] n by auto
    show ?thesis
    proof (cases stop)
      case True
      with r b1 show ?thesis by auto
    next
      case False
      with r obtain b2 where b2: "bisect_narrow (max_error sc) b1 lo hi iv n np = Some b2"
        by (auto simp: bind_eq_Some_conv)
      from bisect_narrow_range [OF this] n(2) assms(2) b1 have
        n2: "bestcount b2 = bestcount b1" "zerocount b2 = zerocount b1"
        "minadd b \<le> minadd b2" "maxadd b2 \<le> maxadd b" "b_add b < minadd b2 \<or> maxadd b2 < b_add b"
        by (auto simp: range_ok_def narrower_def)
      have c2: "counts_ok ?N b2" using b1(1) n2(1,2) by (simp add: counts_ok_def)
      show ?thesis
      proof (cases "minadd b2 > maxadd b2")
        case True
        with r b2 False c2 show ?thesis by auto
      next
        case le: False
        with r b2 False have "r = Again (b2\<lparr>b_add := maxadd b2 - (maxadd b2 - minadd b2) sdiv 4\<rparr>)"
          by (auto simp: bind_eq_Some_conv)
        moreover have "range_ok (b2\<lparr>b_add := maxadd b2 - (maxadd b2 - minadd b2) sdiv 4\<rparr>)"
          using quarter [OF _ refl, of "minadd b2" "maxadd b2"] le by (simp add: range_ok_def)
        ultimately show ?thesis using c2 n2 assms(2) le by (auto simp: counts_ok_def range_ok_def)
      qed
    qed
  qed
qed

lemma bisect_outer_count:
  "bisect_outer fuel sc qlast b = Some move \<Longrightarrow> range_ok b \<Longrightarrow> counts_ok (int (qlast - queue_pos sc)) b \<Longrightarrow>
   queue_pos sc < qlast \<Longrightarrow> \<exists>i n a. move = mk_move i n a \<and> 0 \<le> n \<and> n \<le> int (qlast - queue_pos sc)"
proof (induction fuel arbitrary: b)
  case (Suc fuel)
  then obtain r where r: "bisect_round sc qlast b = Some r" by (auto split: option.splits)
  from bisect_round_cases [OF r Suc.prems(2-4)] consider
    (ret) i where "r = Return (mk_move i (int (qlast - queue_pos sc)) (b_add b))"
    | (stop) b' where "r = Stop b'" "counts_ok (int (qlast - queue_pos sc)) b'"
    | (again) b' where "r = Again b'" "counts_ok (int (qlast - queue_pos sc)) b'" "range_ok b'"
    by blast
  then show ?case
  proof cases
    case ret
    then show ?thesis using Suc.prems(1) r by fastforce
  next
    case stop
    then show ?thesis using Suc.prems(1) r by (fastforce simp: bind_eq_Some_conv counts_ok_def)
  next
    case again
    with Suc.IH [of b'] Suc.prems(1,4) r show ?thesis by simp
  qed
qed simp

lemma bisect_init_ok: "range_ok (bisect_init point)" "1 \<le> N \<Longrightarrow> counts_ok N (bisect_init point)"
  "maxadd (bisect_init point) - minadd (bisect_init point) = 0xffff"
  by (simp_all add: bisect_init_def range_ok_def counts_ok_def)

lemma compress_count:
  assumes "compress_bisect_add sc = Some move" "queue_pos sc < queue_next sc"
  shows "unat (mv_count move) \<le> queue_next sc - queue_pos sc"
proof -
  let ?N = "compress_qlast sc - queue_pos sc"
  have N: "queue_pos sc < compress_qlast sc" "?N \<le> queue_next sc - queue_pos sc" "?N \<le> 65535" "1 \<le> int ?N"
    using assms(2) by (auto simp: compress_qlast_def)
  obtain point where "bisect_outer 0x10001 sc (compress_qlast sc) (bisect_init point) = Some move"
    using assms(1) by (auto simp: compress_bisect_add_def bind_eq_Some_conv)
  from bisect_outer_count [OF this bisect_init_ok(1) bisect_init_ok(2) [OF N(4)] N(1)] obtain i n a where
    move: "move = mk_move i n a" "0 \<le> n" "n \<le> int ?N" by blast
  have "uint (mv_count move) = n"
    using move N(3) by (simp add: mk_move_def uint_word_of_int)
  then have "int (unat (mv_count move)) \<le> int ?N" using move(3) by simp
  with N(2) show ?thesis by linarith
qed

subsection \<open>What a flush sends\<close>

text \<open>
  The steps a micro-controller takes when it runs a list of moves from clock \<open>w\<close> on, and the clock at
  the end.
\<close>

definition move_end :: "u32 \<Rightarrow> step_move \<Rightarrow> u32" where
  "move_end w m = step_clock w (mv_interval m) (mv_add m) (unat (mv_count m))"

definition move_steps :: "u32 \<Rightarrow> step_move \<Rightarrow> u32 list" where
  "move_steps w m = map (step_clock w (mv_interval m) (mv_add m)) [1..<Suc (unat (mv_count m))]"

fun mcu_steps :: "u32 \<Rightarrow> step_move list \<Rightarrow> u32 list" where
  "mcu_steps w [] = []"
| "mcu_steps w (m # ms) = move_steps w m @ mcu_steps (move_end w m) ms"

text \<open>The step times that are still to be sent.\<close>

definition sc_steps :: "stepcompress \<Rightarrow> u32 list" where
  "sc_steps sc = take (queue_next sc - queue_pos sc) (drop (queue_pos sc) (queue sc))"

definition sc_wf :: "stepcompress \<Rightarrow> bool" where
  "sc_wf sc \<longleftrightarrow> queue_pos sc \<le> queue_next sc \<and> queue_next sc \<le> length (queue sc)"

definition on_time :: "u32 \<Rightarrow> u32 \<Rightarrow> u32 \<Rightarrow> bool" where
  "on_time err requested actual \<longleftrightarrow> requested - actual \<le> err"

definition step_msg :: "stepcompress \<Rightarrow> queue_message \<Rightarrow> step_move \<Rightarrow> bool" where
  "step_msg sc qm m \<longleftrightarrow>
     (\<exists>e. message_alloc_and_encode
            [queue_step_msgtag sc, sc_oid sc, mv_interval m, ucast (mv_count m), scast (mv_add m)] = Some e \<and>
          qm_msg qm = qm_msg e \<and> qm_len qm = qm_len e)"

text \<open>The settings of a compressor, which no flush changes.\<close>

definition same_config :: "stepcompress \<Rightarrow> stepcompress \<Rightarrow> bool" where
  "same_config sc sc' \<longleftrightarrow> max_error sc' = max_error sc \<and> sc_oid sc' = sc_oid sc \<and>
     queue_step_msgtag sc' = queue_step_msgtag sc \<and> set_next_step_dir_msgtag sc' = set_next_step_dir_msgtag sc \<and>
     sdir sc' = sdir sc \<and> invert_sdir sc' = invert_sdir sc \<and> next_step_clock sc' = next_step_clock sc \<and>
     next_step_dir sc' = next_step_dir sc \<and> mcu_freq sc' = mcu_freq sc \<and> mcu_time_offset sc' = mcu_time_offset sc"

lemma same_config_trans: "same_config a b \<Longrightarrow> same_config b c \<Longrightarrow> same_config a c"
  by (simp add: same_config_def)

lemma add_move_spec:
  assumes "add_move first move sc = Ret u sc'"
  obtains ticks qm where "move_ticks move = Some ticks" "step_msg sc qm move" "msg_queue sc' = msg_queue sc @ [qm]"
    "last_step_clock sc' = first + ucast ticks" "same_config sc sc'"
    "queue sc' = queue sc" "queue_pos sc' = queue_pos sc" "queue_next sc' = queue_next sc"
    "last_position sc' = last_position sc + (if sdir sc \<noteq> 0 then uint (mv_count move) else - uint (mv_count move))"
proof -
  obtain ticks e where t: "move_ticks move = Some ticks"
    and e: "message_alloc_and_encode
            [queue_step_msgtag sc, sc_oid sc, mv_interval move, ucast (mv_count move), scast (mv_add move)] = Some e"
    using assms by (auto simp: add_move_def op_simps Let_def split: option.splits)
  show thesis
    using assms t e
    by (intro that [of ticks "let qm = e\<lparr>min_clock := last_step_clock sc, req_clock := last_step_clock sc\<rparr>
          in if mv_count move = 1 \<and> first \<ge> last_step_clock sc + CLOCK_DIFF_MAX then qm\<lparr>req_clock := first\<rparr> else qm"])
      (auto simp: add_move_def op_simps Let_def same_config_def step_msg_def)
qed

lemma length_move_steps [simp]: "length (move_steps w m) = unat (mv_count m)"
  by (simp add: move_steps_def)

lemma ucast_add_u32: "(ucast (c + ucast (t :: u32) :: u64) :: u32) = ucast c + t"
  by (simp add: ucast_u32_add)

lemma take_take_drop: "take n (drop p xs) @ take m (drop (p + n) xs) = take (n + m) (drop p xs)"
  by (metis add.commute drop_drop take_add)

text \<open>One round of the loop: a checked move is sent and its steps leave the queue.\<close>

lemma flush_round:
  assumes wf: "sc_wf sc" "queue_pos sc < queue_next sc"
    and move: "compress_bisect_add sc = Some move" "check_line sc move = Some 0"
    and add: "add_move (last_step_clock sc + ucast (mv_interval move)) move sc = Ret u sc'"
  defines "n \<equiv> unat (mv_count move)"
  defines "t \<equiv> (if queue_pos sc' + n \<ge> queue_next sc' then sc'\<lparr>queue_pos := 0, queue_next := 0\<rparr>
                else sc'\<lparr>queue_pos := queue_pos sc' + n\<rparr>)"
  shows "same_config sc t" "sc_wf t" "queue_pos sc' + n < queue_next sc' \<Longrightarrow> queue_pos t < queue_next t"
    and "ucast (last_step_clock t) = move_end (ucast (last_step_clock sc)) move"
    and "sc_steps sc = take n (sc_steps sc) @ sc_steps t"
    and "list_all2 (on_time (max_error sc)) (take n (sc_steps sc)) (move_steps (ucast (last_step_clock sc)) move)"
    and "\<exists>qm. msg_queue t = msg_queue sc @ [qm] \<and> step_msg sc qm move"
proof -
  obtain ticks qm where a: "move_ticks move = Some ticks" "step_msg sc qm move" "msg_queue sc' = msg_queue sc @ [qm]"
    "last_step_clock sc' = last_step_clock sc + ucast (mv_interval move) + ucast ticks" "same_config sc sc'"
    "queue sc' = queue sc" "queue_pos sc' = queue_pos sc" "queue_next sc' = queue_next sc"
    using add_move_spec [OF add] by metis
  have n: "n \<le> queue_next sc - queue_pos sc" "mv_count move \<noteq> 0"
    using compress_count [OF move(1) wf(2)] check_line_count [OF move(2)] by (simp_all add: n_def)
  show "same_config sc t" using a(5) by (simp add: t_def same_config_def)
  show "sc_wf t" "queue_pos sc' + n < queue_next sc' \<Longrightarrow> queue_pos t < queue_next t"
    using wf a n by (auto simp: t_def sc_wf_def)
  have "last_step_clock t = last_step_clock sc'" by (simp add: t_def)
  then show "ucast (last_step_clock t) = move_end (ucast (last_step_clock sc)) move"
    unfolding move_end_def move_ticks_clock [OF a(1) n(2)] by (simp add: a(4) ucast_add_u32)
  have len: "length (sc_steps sc) = queue_next sc - queue_pos sc" using wf by (simp add: sc_steps_def sc_wf_def)
  have tk: "take n (sc_steps sc) = take n (drop (queue_pos sc) (queue sc))" using n(1) by (simp add: sc_steps_def)
  show "sc_steps sc = take n (sc_steps sc) @ sc_steps t"
  proof (cases "queue_pos sc' + n \<ge> queue_next sc'")
    case True
    then have "sc_steps t = []" "n = queue_next sc - queue_pos sc" using a n by (simp_all add: t_def sc_steps_def)
    with len show ?thesis by simp
  next
    case False
    then have "sc_steps t = take (queue_next sc - (queue_pos sc + n)) (drop (queue_pos sc + n) (queue sc))"
      using a by (simp add: t_def sc_steps_def)
    moreover have "n + (queue_next sc - (queue_pos sc + n)) = queue_next sc - queue_pos sc" using n(1) by simp
    ultimately show ?thesis
      using take_take_drop [of n "queue_pos sc" "queue sc" "queue_next sc - (queue_pos sc + n)"]
      unfolding tk by (simp add: sc_steps_def [of sc])
  qed
  show "list_all2 (on_time (max_error sc)) (take n (sc_steps sc)) (move_steps (ucast (last_step_clock sc)) move)"
    unfolding list_all2_conv_all_nth
  proof (intro conjI allI impI)
    show "length (take n (sc_steps sc)) = length (move_steps (ucast (last_step_clock sc)) move)"
      using len n(1) by (simp add: n_def)
    fix k
    assume "k < length (take n (sc_steps sc))"
    then have k: "k < unat (mv_count move)" by (simp add: n_def)
    show "on_time (max_error sc) (take n (sc_steps sc) ! k) (move_steps (ucast (last_step_clock sc)) move ! k)"
      using check_line_steps [OF move(2) k] k wf unfolding tk
      by (simp add: move_steps_def on_time_def n_def sc_wf_def del: upt_Suc)
  qed
  show "\<exists>qm. msg_queue t = msg_queue sc @ [qm] \<and> step_msg sc qm move" using a(2,3) by (auto simp: t_def)
qed

text \<open>
  \<open>flushed sc sc' moves\<close>: the moves were sent, they cover a prefix of the steps of \<open>sc\<close> within the error,
  and \<open>sc'\<close> holds the other steps and continues at the clock where the moves end.
\<close>

definition flushed :: "stepcompress \<Rightarrow> stepcompress \<Rightarrow> step_move list \<Rightarrow> bool" where
  "flushed sc sc' moves \<longleftrightarrow>
     same_config sc sc' \<and> sc_wf sc' \<and>
     (\<exists>msgs. msg_queue sc' = msg_queue sc @ msgs \<and> list_all2 (step_msg sc) msgs moves) \<and>
     (\<exists>sent. sc_steps sc = sent @ sc_steps sc' \<and>
        list_all2 (on_time (max_error sc)) sent (mcu_steps (ucast (last_step_clock sc)) moves)) \<and>
     ucast (last_step_clock sc') = fold (\<lambda>m w. move_end w m) moves (ucast (last_step_clock sc))"

lemma flushed_Nil: "sc_wf sc \<Longrightarrow> flushed sc sc []"
  by (simp add: flushed_def same_config_def)

lemma flushed_print_time: "flushed sc sc' ms \<Longrightarrow> flushed sc (calc_last_step_print_time sc') ms"
  by (simp add: flushed_def calc_last_step_print_time_def Let_def same_config_def sc_wf_def sc_steps_def)

lemma step_msg_cong: "same_config sc t \<Longrightarrow> step_msg t = step_msg sc"
  by (simp add: fun_eq_iff step_msg_def same_config_def)

lemma flushed_Cons:
  assumes "same_config sc t" "ucast (last_step_clock t) = move_end (ucast (last_step_clock sc)) m"
    and "sc_steps sc = sent @ sc_steps t"
    and "list_all2 (on_time (max_error sc)) sent (move_steps (ucast (last_step_clock sc)) m)"
    and "\<exists>qm. msg_queue t = msg_queue sc @ [qm] \<and> step_msg sc qm m"
    and "flushed t sc' ms"
  shows "flushed sc sc' (m # ms)"
proof -
  obtain msgs sent2 where f: "same_config t sc'" "sc_wf sc'" "msg_queue sc' = msg_queue t @ msgs" "list_all2 (step_msg sc) msgs ms"
    "sc_steps t = sent2 @ sc_steps sc'"
    "list_all2 (on_time (max_error sc)) sent2 (mcu_steps (move_end (ucast (last_step_clock sc)) m) ms)"
    "ucast (last_step_clock sc') = fold (\<lambda>m w. move_end w m) ms (move_end (ucast (last_step_clock sc)) m)"
    using assms(6) unfolding flushed_def assms(2) step_msg_cong [OF assms(1)]
    using assms(1) by (auto simp: same_config_def)
  obtain qm where qm: "msg_queue t = msg_queue sc @ [qm]" "step_msg sc qm m" using assms(5) by blast
  show ?thesis
    unfolding flushed_def
  proof (intro conjI)
    show "\<exists>msgs. msg_queue sc' = msg_queue sc @ msgs \<and> list_all2 (step_msg sc) msgs (m # ms)"
      using f(3,4) qm by (intro exI [of _ "qm # msgs"]) simp
    show "\<exists>sent. sc_steps sc = sent @ sc_steps sc' \<and>
        list_all2 (on_time (max_error sc)) sent (mcu_steps (ucast (last_step_clock sc)) (m # ms))"
      using f(5,6) assms(3,4) by (intro exI [of _ "sent @ sent2"]) (simp add: list_all2_appendI)
  qed (use f assms(1) same_config_trans in auto)
qed

lemma flush_loop_spec:
  "flush_loop move_clock sc = Ret r sc' \<Longrightarrow> sc_wf sc \<Longrightarrow> queue_pos sc < queue_next sc \<Longrightarrow>
   (\<exists>moves. flushed sc sc' moves) \<and> (r = 0 \<longrightarrow> sc_steps sc' = [] \<or> move_clock \<le> last_step_clock sc')"
proof (induction move_clock sc rule: flush_loop.induct)
  case (1 move_clock sc)
  show ?case
  proof (cases "last_step_clock sc < move_clock")
    case False
    with 1(2) have "r = 0" "sc' = calc_last_step_print_time sc" by (simp_all add: flush_loop.simps)
    with False flushed_print_time [OF flushed_Nil [OF 1(3)]] show ?thesis
      by (auto simp: calc_last_step_print_time_def Let_def)
  next
    case True
    obtain move c where move: "compress_bisect_add sc = Some move" "check_line sc move = Some c"
      using 1(2) True by (auto simp: flush_loop.simps split: option.splits)
    show ?thesis
    proof (cases "c = 0")
      case False
      with 1(2) True move have "r = c" "sc' = sc" by (simp_all add: flush_loop.simps)
      with False flushed_Nil [OF 1(3)] show ?thesis by auto
    next
      case zero: True
      obtain u s1 where s1: "add_move (last_step_clock sc + ucast (mv_interval move)) move sc = Ret u s1"
        using 1(2) True move zero by (auto simp: flush_loop.simps split: outcome.splits)
      note rd = flush_round [OF 1(3,4) move(1) move(2) [unfolded zero] s1]
      show ?thesis
      proof (cases "queue_pos s1 + unat (mv_count move) \<ge> queue_next s1")
        case empty: True
        let ?t = "s1\<lparr>queue_pos := 0, queue_next := 0\<rparr>"
        have "r = 0" "sc' = calc_last_step_print_time ?t"
          using 1(2) True move zero s1 empty by (simp_all add: flush_loop.simps)
        moreover have "flushed sc ?t [move]"
          using rd(1,2,4-7) empty by (intro flushed_Cons [OF _ _ _ _ _ flushed_Nil]) auto
        then have "flushed sc (calc_last_step_print_time ?t) [move]" by (rule flushed_print_time)
        moreover have "sc_steps (calc_last_step_print_time ?t) = []"
          by (simp add: calc_last_step_print_time_def sc_steps_def Let_def)
        ultimately show ?thesis by blast
      next
        case more: False
        let ?t = "s1\<lparr>queue_pos := queue_pos s1 + unat (mv_count move)\<rparr>"
        have "flush_loop move_clock ?t = Ret r sc'"
          using 1(2) True move zero s1 more by (simp add: flush_loop.simps [of move_clock sc])
        from 1(1) [OF True move(1,2) _ s1 more this] zero rd(2,3) more obtain moves where
          "flushed ?t sc' moves" "r = 0 \<longrightarrow> sc_steps sc' = [] \<or> move_clock \<le> last_step_clock sc'"
          by auto
        moreover from this(1) have "flushed sc sc' (move # moves)"
          using rd(1,4-7) more by (intro flushed_Cons [of sc ?t]) auto
        ultimately show ?thesis by blast
      qed
    qed
  qed
qed

lemma queue_flush_spec:
  assumes "queue_flush move_clock sc = Ret r sc'" "sc_wf sc"
  shows "(\<exists>moves. flushed sc sc' moves) \<and> (r = 0 \<longrightarrow> sc_steps sc' = [] \<or> move_clock \<le> last_step_clock sc')"
proof (cases "queue_pos sc \<ge> queue_next sc")
  case True
  with assms have "r = 0" "sc' = sc" by (simp_all add: queue_flush_def op_simps)
  with flushed_Nil [OF assms(2)] True show ?thesis by (auto simp: sc_steps_def)
next
  case False
  with assms flush_loop_spec show ?thesis by (simp add: queue_flush_def op_simps)
qed

subsection \<open>The heap of move clocks\<close>

definition heap :: "u64 list \<Rightarrow> bool" where
  "heap mc \<longleftrightarrow> (\<forall>i. 0 < i \<longrightarrow> i < length mc \<longrightarrow> mc ! ((i - 1) div 2) \<le> mc ! i)"

lemma heap_root_le: "heap mc \<Longrightarrow> i < length mc \<Longrightarrow> mc ! 0 \<le> mc ! i"
proof (induction i rule: less_induct)
  case (less i)
  show ?case
  proof (cases "i = 0")
    case False
    then have "(i - 1) div 2 < i" by linarith
    with less False have "mc ! 0 \<le> mc ! ((i - 1) div 2)" "mc ! ((i - 1) div 2) \<le> mc ! i"
      by (auto simp: heap_def)
    then show ?thesis by simp
  qed simp
qed

lemma heap_Min: "heap mc \<Longrightarrow> mc \<noteq> [] \<Longrightarrow> Min_mset (mset mc) = mc ! 0"
proof -
  assume h: "heap mc" "mc \<noteq> []"
  show ?thesis
  proof (rule Min_eqI)
    fix y
    assume "y \<in> set_mset (mset mc)"
    with h show "mc ! 0 \<le> y" by (auto simp: in_set_conv_nth heap_root_le)
  qed (use h in auto)
qed

text \<open>
  The loop invariant of the sift-down: the heap order holds between all entries but the hole at \<open>pos\<close>,
  whose parent is below \<open>req\<close> and below the children of the hole.
\<close>

definition hole :: "u64 list \<Rightarrow> u64 \<Rightarrow> nat \<Rightarrow> bool" where
  "hole mc req pos \<longleftrightarrow>
     (\<forall>i. 0 < i \<longrightarrow> i < length mc \<longrightarrow> i \<noteq> pos \<longrightarrow> (i - 1) div 2 \<noteq> pos \<longrightarrow> mc ! ((i - 1) div 2) \<le> mc ! i) \<and>
     (0 < pos \<longrightarrow> mc ! ((pos - 1) div 2) \<le> req \<and>
        (\<forall>i. 0 < i \<longrightarrow> i < length mc \<longrightarrow> (i - 1) div 2 = pos \<longrightarrow> mc ! ((pos - 1) div 2) \<le> mc ! i))"

lemma child_iff: "0 < i \<Longrightarrow> (i - 1) div 2 = pos \<longleftrightarrow> i = 2 * pos + 1 \<or> i = 2 * pos + (2 :: nat)"
  by presburger

lemma hole_fill:
  assumes "hole mc req pos" "pos < length mc"
    and "\<And>i. 0 < i \<Longrightarrow> i < length mc \<Longrightarrow> (i - 1) div 2 = pos \<Longrightarrow> req \<le> mc ! i"
  shows "heap (mc[pos := req])"
  unfolding heap_def
proof (intro allI impI)
  fix i
  assume i: "0 < i" "i < length (mc[pos := req])"
  then have "(i - 1) div 2 \<noteq> i" by linarith
  with assms i show "mc[pos := req] ! ((i - 1) div 2) \<le> mc[pos := req] ! i"
    by (cases "i = pos"; cases "(i - 1) div 2 = pos") (auto simp: hole_def nth_list_update)
qed

lemma hole_move:
  assumes h: "hole mc req pos" and c: "0 < c" "c < length mc" "(c - 1) div 2 = pos" "mc ! c < req"
    and other: "\<And>i. 0 < i \<Longrightarrow> i < length mc \<Longrightarrow> (i - 1) div 2 = pos \<Longrightarrow> mc ! c \<le> mc ! i"
  shows "hole (mc[pos := mc ! c]) req c"
proof -
  have pos: "pos < length mc" "pos \<noteq> c" using c by linarith+
  have "mc[pos := mc ! c] ! ((i - 1) div 2) \<le> mc[pos := mc ! c] ! i"
    if i: "0 < i" "i < length mc" "i \<noteq> c" "(i - 1) div 2 \<noteq> c" for i
  proof (cases "i = pos")
    case True
    then have "(i - 1) div 2 \<noteq> pos" using i by linarith
    with True h c i pos show ?thesis by (auto simp: hole_def)
  next
    case False
    show ?thesis
    proof (cases "(i - 1) div 2 = pos")
      case True
      with other [OF i(1,2)] pos False show ?thesis by simp
    next
      case False
      with h i \<open>i \<noteq> pos\<close> show ?thesis by (simp add: hole_def)
    qed
  qed
  moreover have "mc[pos := mc ! c] ! ((c - 1) div 2) \<le> req" using c pos by simp
  moreover have "mc[pos := mc ! c] ! ((c - 1) div 2) \<le> mc[pos := mc ! c] ! i"
    if i: "0 < i" "i < length mc" "(i - 1) div 2 = c" for i
  proof -
    have "i \<noteq> pos" using i c by linarith
    moreover have "mc ! c \<le> mc ! i"
      using h i calculation pos unfolding hole_def by metis
    ultimately show ?thesis using c pos by simp
  qed
  ultimately show ?thesis by (simp add: hole_def)
qed

lemma mset_sift: "pos < length mc \<Longrightarrow> c < length mc \<Longrightarrow> pos \<noteq> c \<Longrightarrow>
  mset (mc[pos := mc ! c, c := req]) = mset (mc[pos := req])"
  by (simp add: mset_update)

lemma heap_replace_loop_ok:
  "hole mc req pos \<Longrightarrow> pos < length mc \<Longrightarrow>
   \<exists>mc'. heap_replace_loop mc req pos = Some mc' \<and> heap mc' \<and> mset mc' = mset (mc[pos := req]) \<and> length mc' = length mc"
proof (induction mc req pos rule: heap_replace_loop.induct)
  case (1 mc req pos)
  let ?c1 = "2 * pos + 1" and ?c2 = "2 * pos + 2"
  have le_max: "x \<le> heap_at mc i" if "i < length mc \<Longrightarrow> x \<le> mc ! i" for x i
    using that by (simp add: heap_at_def)
  have at: "heap_at mc i < x \<Longrightarrow> i < length mc \<and> heap_at mc i = mc ! i" for i x
    by (auto simp: heap_at_def split: if_splits)
  have kids: "P (mc ! i)" if "0 < i" "i < length mc" "(i - 1) div 2 = pos"
    "P (heap_at mc ?c1)" "P (heap_at mc ?c2)" for P i
  proof -
    have "i = ?c1 \<or> i = ?c2" using that(1,3) by (simp only: child_iff)
    with that(2,4,5) show ?thesis by (auto simp: heap_at_def)
  qed
  show ?case
  proof (cases "req \<le> heap_at mc ?c1 \<and> req \<le> heap_at mc ?c2")
    case True
    with 1(4) have "heap_replace_loop mc req pos = Some (mc[pos := req])"
      by (simp add: heap_replace_loop.simps Let_def)
    moreover have "heap (mc[pos := req])"
      by (rule hole_fill [OF 1(3,4)]) (use True kids [where P = "\<lambda>x. req \<le> x"] in blast)
    ultimately show ?thesis by simp
  next
    case False
    define c where "c = (if heap_at mc ?c1 < heap_at mc ?c2 then ?c1 else ?c2)"
    have less: "heap_at mc c < req" using False unfolding c_def by auto
    then have c: "0 < c" "c < length mc" "(c - 1) div 2 = pos" "mc ! c < req" "pos \<noteq> c" "heap_at mc c = mc ! c"
      using at [OF less] by (auto simp: c_def)
    have le: "mc ! c \<le> heap_at mc ?c1" "mc ! c \<le> heap_at mc ?c2"
      unfolding c(6) [symmetric] by (auto simp: c_def)
    have h: "hole (mc[pos := mc ! c]) req c"
      by (rule hole_move [OF 1(3) c(1-4)]) (use le kids [where P = "\<lambda>x. mc ! c \<le> x"] in blast)
    have run: "heap_replace_loop mc req pos = heap_replace_loop (mc[pos := mc ! c]) req c"
      using False 1(4) c(6) by (subst heap_replace_loop.simps) (auto simp: Let_def c_def)
    have "\<exists>mc'. heap_replace_loop (mc[pos := mc ! c]) req c = Some mc' \<and> heap mc' \<and>
        mset mc' = mset (mc[pos := mc ! c, c := req]) \<and> length mc' = length (mc[pos := mc ! c])"
    proof (cases "heap_at mc ?c1 < heap_at mc ?c2")
      case True
      with 1(1) [OF _ refl refl refl refl False True] 1(4) h c show ?thesis by (simp add: c_def)
    next
      case False2: False
      with 1(2) [OF _ refl refl refl refl False False2] 1(4) h c show ?thesis by (simp add: c_def)
    qed
    then show ?thesis using run mset_sift [OF 1(4) c(2,5)] by simp
  qed
qed

lemma heap_replace_ok:
  assumes "heap mc" "mc \<noteq> []"
  obtains mc' where "heap_replace mc req = Some mc'" "heap mc'" "length mc' = length mc"
    "mset mc' = mset mc - {#Min_mset (mset mc)#} + {#req#}"
proof -
  have "hole mc req 0" using assms(1) by (simp add: heap_def hole_def)
  from heap_replace_loop_ok [OF this] assms(2) obtain mc' where
    "heap_replace mc req = Some mc'" "heap mc'" "mset mc' = mset (mc[0 := req])" "length mc' = length mc"
    by (auto simp: heap_replace_def)
  moreover have "mset (mc[0 := req]) = mset mc - {#mc ! 0#} + {#req#}" using assms(2) by (simp add: mset_update)
  ultimately show thesis using that unfolding heap_Min [OF assms] by metis
qed

subsection \<open>Release of the commands\<close>

text \<open>
  The abstract schedule: every message gets the earliest clock at which a slot of the move queue is
  free, and one that uses a slot holds it until its own clock.
\<close>

fun slots :: "u64 multiset \<Rightarrow> queue_message list \<Rightarrow> queue_message list \<times> u64 multiset" where
  "slots H [] = ([], H)"
| "slots H (m # ms) =
     (let a = Min_mset H;
          (out, H') = slots (if min_clock m \<noteq> 0 then H - {#a#} + {#min_clock m#} else H) ms
      in (m\<lparr>min_clock := a\<rparr> # out, H'))"

text \<open>\<open>merged qs ms qs'\<close>: taking \<open>ms\<close> from the queues one by one, always a head with the lowest \<open>req_clock\<close>.\<close>
inductive merged :: "queue_message list list \<Rightarrow> queue_message list \<Rightarrow> queue_message list list \<Rightarrow> bool" where
  merged_Nil: "merged qs [] qs"
| merged_Cons: "i < length qs \<Longrightarrow> qs ! i = m # r \<Longrightarrow> (\<And>q. q \<in> set qs \<Longrightarrow> q \<noteq> [] \<Longrightarrow> req_clock m \<le> req_clock (hd q)) \<Longrightarrow>
    merged (qs[i := r]) ms qs' \<Longrightarrow> merged qs (m # ms) qs'"

inductive_cases merged_ConsE: "merged qs (m # ms) qs'"

lemma lowest_spec:
  "lowest qs i req best = Some (j, m) \<Longrightarrow>
   (best = Some (j, m) \<and> (\<forall>q \<in> set qs. q \<noteq> [] \<longrightarrow> req \<le> req_clock (hd q))) \<or>
   (i \<le> j \<and> j < i + length qs \<and> (\<exists>r. qs ! (j - i) = m # r) \<and> req_clock m < req \<and>
    (\<forall>q \<in> set qs. q \<noteq> [] \<longrightarrow> req_clock m \<le> req_clock (hd q)))"
proof (induction qs i req best rule: lowest.induct)
  case (2 qs i req best)
  then show ?case by (fastforce simp: nth_Cons')
next
  case (3 x xs qs i req best)
  show ?case
  proof (cases "req_clock x < req")
    case True
    with 3(1) 3(3) show ?thesis by (fastforce simp: nth_Cons')
  next
    case False
    with 3(2) 3(3) show ?thesis by (fastforce simp: nth_Cons')
  qed
qed simp

lemma lowest_head:
  assumes "lowest qs 0 mx None = Some (i, m)"
  obtains r where "i < length qs" "qs ! i = m # r" "\<And>q. q \<in> set qs \<Longrightarrow> q \<noteq> [] \<Longrightarrow> req_clock m \<le> req_clock (hd q)"
  using lowest_spec [OF assms] by auto

lemma sum_length_update:
  "i < length qs \<Longrightarrow> qs ! i = m # r \<Longrightarrow> sum_list (map length qs) = Suc (sum_list (map length (qs[i := r])))"
proof (induction qs arbitrary: i)
  case (Cons q qs)
  then show ?case by (cases i) auto
qed simp

lemma batch_loop_ok:
  assumes "heap mc" "mc \<noteq> []" "sum_list (map length qs) \<le> fuel"
  shows "\<exists>ms qs' mc' out. batch_loop fuel mv qs mc acc = Some (qs', mc', acc @ out) \<and> merged qs ms qs' \<and>
    slots (mset mc) ms = (out, mset mc') \<and> heap mc' \<and> length mc' = length mc \<and>
    (\<forall>m \<in> set ms. min_clock m = 0 \<or> req_clock m \<le> mv) \<and>
    (case lowest qs' 0 MAX_CLOCK None of None \<Rightarrow> True | Some (i, m) \<Rightarrow> min_clock m \<noteq> 0 \<and> mv < req_clock m)"
  using assms
proof (induction fuel arbitrary: qs mc acc)
  case 0
  then have "lowest qs 0 MAX_CLOCK None = None"
  proof (cases "lowest qs 0 MAX_CLOCK None")
    case (Some p)
    obtain i m where p: "p = (i, m)" by fastforce
    from lowest_head [OF Some [unfolded p]] obtain r where "i < length qs" "qs ! i = m # r" by metis
    with sum_length_update [of i qs m r] 0(3) show ?thesis by simp
  qed
  with 0(1,2) show ?case
    by (intro exI [of _ "[]"] exI [of _ qs] exI [of _ mc]) (simp add: merged_Nil)
next
  case (Suc fuel)
  show ?case
  proof (cases "lowest qs 0 MAX_CLOCK None")
    case None
    with Suc.prems show ?thesis
      by (intro exI [of _ "[]"] exI [of _ qs] exI [of _ mc]) (simp add: merged_Nil)
  next
    case (Some p)
    obtain i m where p: "p = (i, m)" by fastforce
    show ?thesis
    proof (cases "min_clock m \<noteq> 0 \<and> mv < req_clock m")
      case True
      with Some p Suc.prems show ?thesis
        by (intro exI [of _ "[]"] exI [of _ qs] exI [of _ mc]) (simp add: merged_Nil)
    next
      case False
      obtain r where r: "i < length qs" "qs ! i = m # r" "\<And>q. q \<in> set qs \<Longrightarrow> q \<noteq> [] \<Longrightarrow> req_clock m \<le> req_clock (hd q)"
        using lowest_head [OF Some [unfolded p]] by metis
      obtain mc1 where mc1: "(if min_clock m \<noteq> 0 then heap_replace mc (min_clock m) else Some mc) = Some mc1"
        "heap mc1" "length mc1 = length mc"
        "mset mc1 = (if min_clock m \<noteq> 0 then mset mc - {#mc ! 0#} + {#min_clock m#} else mset mc)"
      proof (cases "min_clock m = 0")
        case True
        with that [of mc] Suc.prems(1) show ?thesis by simp
      next
        case False
        with that heap_replace_ok [OF Suc.prems(1,2), of "min_clock m"] show ?thesis
          unfolding heap_Min [OF Suc.prems(1,2)] by auto
      qed
      have "sum_list (map length (qs[i := r])) \<le> fuel" "mc1 \<noteq> []"
        using sum_length_update [OF r(1,2)] Suc.prems(2,3) mc1(3) by auto
      from Suc.IH [OF mc1(2) this(2,1), of "acc @ [m\<lparr>min_clock := mc ! 0\<rparr>]"] obtain ms qs' mc' out where
        run: "batch_loop fuel mv (qs[i := r]) mc1 (acc @ [m\<lparr>min_clock := mc ! 0\<rparr>])
          = Some (qs', mc', (acc @ [m\<lparr>min_clock := mc ! 0\<rparr>]) @ out)"
        and rest: "merged (qs[i := r]) ms qs'" "slots (mset mc1) ms = (out, mset mc')" "heap mc'" "length mc' = length mc1"
        "\<forall>m \<in> set ms. min_clock m = 0 \<or> req_clock m \<le> mv"
        "case lowest qs' 0 MAX_CLOCK None of None \<Rightarrow> True | Some (i, m) \<Rightarrow> min_clock m \<noteq> 0 \<and> mv < req_clock m"
        by blast
      have "batch_loop (Suc fuel) mv qs mc acc = Some (qs', mc', acc @ m\<lparr>min_clock := mc ! 0\<rparr> # out)"
        using Some p False Suc.prems(2) mc1(1) r(2) run
        by (subst batch_loop.simps) (simp add: Let_def split: if_splits)
      moreover have "slots (mset mc) (m # ms) = (m\<lparr>min_clock := mc ! 0\<rparr> # out, mset mc')"
        using rest(2) mc1(4) heap_Min [OF Suc.prems(1,2)] by (auto simp: Let_def)
      moreover have "merged qs (m # ms) qs'" using r rest(1) by (rule merged_Cons)
      ultimately show ?thesis
        using rest(3-6) mc1(3) False
        by (intro exI [of _ "m # ms"] exI [of _ qs'] exI [of _ mc'] exI [of _ "m\<lparr>min_clock := mc ! 0\<rparr> # out"])
          (auto simp del: slots.simps batch_loop.simps)
    qed
  qed
qed

text \<open>
  The slots that are taken at clock \<open>t\<close>: those of messages that may have been transmitted by \<open>t\<close> and that
  the micro-controller has not loaded before \<open>t\<close>.
\<close>

definition taken :: "u64 \<Rightarrow> queue_message list \<Rightarrow> queue_message list \<Rightarrow> nat" where
  "taken t ms out = length (filter (\<lambda>(m, q). min_clock m \<noteq> 0 \<and> min_clock q \<le> t \<and> t < min_clock m) (zip ms out))"

text \<open>Every command can be transmitted before the micro-controller has to load it.\<close>

definition in_time :: "queue_message list \<Rightarrow> queue_message list \<Rightarrow> bool" where
  "in_time ms out \<longleftrightarrow> list_all2 (\<lambda>m q. min_clock m \<noteq> 0 \<longrightarrow> min_clock q \<le> min_clock m) ms out"

lemma size_filter_le: "size {#x \<in># H. P x#} \<le> size H"
  by (rule size_filter_mset_lesseq)

lemma slots_taken:
  "slots H ms = (out, H') \<Longrightarrow> H \<noteq> {#} \<Longrightarrow> in_time ms out \<Longrightarrow>
   taken t ms out + size {#x \<in># H'. x \<le> t#} = size {#x \<in># H. x \<le> t#} \<and> size H' = size H"
proof (induction ms arbitrary: H out)
  case Nil
  then show ?case by (simp add: taken_def)
next
  case (Cons m ms)
  define a where "a = Min_mset H"
  have "a \<in># H" using Cons.prems(2) by (simp add: a_def)
  then obtain G where G: "H = add_mset a G" by (auto dest: multi_member_split)
  define H1 where "H1 = (if min_clock m \<noteq> 0 then add_mset (min_clock m) G else H)"
  have "(if min_clock m \<noteq> 0 then H - {#a#} + {#min_clock m#} else H) = H1" by (simp add: H1_def G)
  then obtain out1 where s: "slots H1 ms = (out1, H')" "out = m\<lparr>min_clock := a\<rparr> # out1"
    using Cons.prems(1) unfolding slots.simps a_def [symmetric] Let_def by (auto split: prod.splits)
  have tm: "in_time ms out1" "min_clock m \<noteq> 0 \<Longrightarrow> a \<le> min_clock m"
    using Cons.prems(3) s(2) by (simp_all add: in_time_def)
  have "H1 \<noteq> {#}" "size H1 = size H" by (simp_all add: H1_def G)
  with Cons.IH [OF s(1) _ tm(1)] have IH: "taken t ms out1 + size {#x \<in># H'. x \<le> t#} = size {#x \<in># H1. x \<le> t#}"
    "size H' = size H" by auto
  have "taken t (m # ms) out =
      (if min_clock m \<noteq> 0 \<and> a \<le> t \<and> t < min_clock m then 1 else 0) + taken t ms out1"
    by (simp add: taken_def s(2))
  moreover have "size {#x \<in># H. x \<le> t#} =
      (if min_clock m \<noteq> 0 \<and> a \<le> t \<and> t < min_clock m then 1 else 0) + size {#x \<in># H1. x \<le> t#}"
    using tm(2) by (auto simp: H1_def G)
  ultimately show ?case using IH by simp
qed

subsection \<open>Steps at a constant rate\<close>

text \<open>\<open>n\<close> steps, \<open>d\<close> ticks apart, from the last step on.\<close>

definition constant_rate :: "stepcompress \<Rightarrow> nat \<Rightarrow> nat \<Rightarrow> bool" where
  "constant_rate sc d n \<longleftrightarrow> queue_next sc = queue_pos sc + n \<and> queue_next sc \<le> length (queue sc) \<and>
     (\<forall>k < n. queue sc ! (queue_pos sc + k) = ucast (last_step_clock sc) + of_nat (Suc k * d))"

lemma constant_rate_point:
  assumes "constant_rate sc d n" "k < n" "Suc k * d < 2 ^ 31"
  shows "\<exists>err. minmax_point sc (queue_pos sc + k) = Some (of_nat (Suc k * d - err), of_nat (Suc k * d)) \<and> err \<le> d div 2"
proof -
  let ?l = "ucast (last_step_clock sc) :: u32"
  have q: "queue sc ! (queue_pos sc + k) = ?l + of_nat (Suc k * d)" "queue_pos sc + k < length (queue sc)"
    using assms(1,2) by (simp_all add: constant_rate_def)
  have prev: "(if queue_pos sc + k > queue_pos sc
      then queue_at sc (queue_pos sc + k - 1) \<bind> (\<lambda>v. Some (v - ?l)) else Some 0) = Some (of_nat (k * d))"
  proof (cases k)
    case (Suc j)
    have "queue sc ! (queue_pos sc + j) = ?l + of_nat (Suc j * d)" "queue_pos sc + j < length (queue sc)"
      using assms(1,2) Suc by (simp_all add: constant_rate_def)
    then show ?thesis by (simp add: Suc queue_at_def)
  qed simp
  define e where "e = (of_nat d :: u32) div 2"
  define err where "err = unat (if e > max_error sc then max_error sc else e)"
  have "d < 2 ^ 32" using assms(3) by simp
  then have "unat (of_nat d :: u32) = d" by (simp add: unat_of_nat)
  then have "unat e = d div 2" by (simp add: e_def unat_div_distrib)
  then have err: "err \<le> d div 2" by (auto simp: err_def word_less_nat_alt)
  have "err \<le> Suc k * d" using err by simp
  then have sub: "of_nat (Suc k * d) - of_nat err = (of_nat (Suc k * d - err) :: u32)" by (simp only: of_nat_diff)
  have step: "of_nat (Suc k * d) - of_nat (k * d) = (of_nat d :: u32)" by simp
  have word_err: "(if e > max_error sc then max_error sc else e) = of_nat err" by (simp add: err_def)
  have point: "?l + of_nat (Suc k * d) - ?l = of_nat (Suc k * d)" by (simp only: add_diff_cancel_left')
  have "minmax_point sc (queue_pos sc + k) = Some (of_nat (Suc k * d - err), of_nat (Suc k * d))"
    unfolding minmax_point_def queue_at_def [of sc "queue_pos sc + k"] Let_def prev
    using q(2) by (simp only: if_True Option.bind.bind_lunit q(1) point step e_def [symmetric] word_err sub)
  with err show ?thesis by blast
qed

lemma sint_of_nat_u32: "m < 2 ^ 31 \<Longrightarrow> sint (of_nat m :: u32) = int m"
  by (simp add: signed_take_bit_int_eq_self signed_of_nat)

lemma idiv_up_range:
  assumes "0 \<le> m" "0 < e" "m \<le> e * d" "m + e < 2 ^ 31"
  obtains r where "idiv_up m e = Some r" "0 \<le> r" "r \<le> d"
proof -
  obtain r where r: "idiv_up m e = Some r" "r = (m + e - 1) div e"
    using assms by (auto simp: idiv_up_def sdiv_pos i32_def)
  have "(r - 1) * e < d * e" using idiv_up_ceil [OF r(1) assms(2)] assms(3) by (simp add: mult.commute)
  then have "r \<le> d" using assms(2) by (simp add: mult_less_cancel_right_pos)
  moreover have "0 \<le> r" using r(2) assms(1,2) by (simp add: pos_imp_zdiv_nonneg_iff)
  ultimately show thesis using that r(1) by blast
qed

lemma pred_mult_lt: "Suc k * k < 2 ^ 31 \<Longrightarrow> int (Suc k) * (int (Suc k) - 1) < 2 ^ 31"
proof -
  assume "Suc k * k < 2 ^ 31"
  then have "int (Suc k * k) < 2 ^ 31" by (metis of_nat_less_iff of_nat_numeral of_nat_power)
  then show ?thesis by (simp add: algebra_simps)
qed

lemma constant_rate_step:
  assumes cr: "constant_rate sc d n" and k: "1 \<le> k" "k < n" "queue_pos sc + k < qlast"
    and fit: "Suc k * k < 2 ^ 31" "Suc k * Suc d < 2 ^ 31"
    and lo: "0 \<le> lo" "lo \<le> int d"
  shows "\<exists>lo'. 0 \<le> lo' \<and> lo' \<le> int d \<and>
    bisect_inner sc qlast 0 lo (int d) (int d) k = bisect_inner sc qlast 0 lo' (int d) (int d) (Suc k)"
proof -
  let ?nc = "int (Suc k)"
  have fit': "Suc k * d + Suc k < 2 ^ 31" using fit(2) by simp
  then have lt: "Suc k * d < 2 ^ 31" by linarith
  obtain err where np: "minmax_point sc (queue_pos sc + k) = Some (of_nat (Suc k * d - err), of_nat (Suc k * d))"
    and err: "err \<le> d div 2"
    using constant_rate_point [OF cr k(2) lt] by blast
  let ?m = "int (Suc k * d - err)"
  have si: "sint (of_nat (Suc k * d - err) :: u32) = ?m" "sint (of_nat (Suc k * d) :: u32) = int (Suc k * d)"
    using lt by (intro sint_of_nat_u32, linarith)+
  have m: "0 \<le> ?m" "?m \<le> int (Suc k * d)" "int (Suc k * d) = ?nc * int d"
    by (simp, intro of_nat_mono diff_le_self, rule of_nat_mult)
  have big: "int (Suc k * d) + ?nc < 2 ^ 31"
    using fit' by (metis of_nat_add of_nat_less_iff of_nat_numeral of_nat_power)
  have "- (2 ^ 31) \<le> ?nc * (?nc - 1)" by (rule order.trans [of _ 0]) simp_all
  then obtain f where f: "addfactor ?nc = Some f"
    using pred_mult_lt [OF fit(1)] addfactor_Some [OF of_nat_0_le_iff, of "Suc k"] by blast
  have range: "- (2 ^ 31) \<le> ?m" "?m < 2 ^ 31" "- (2 ^ 31) \<le> int (Suc k * d)" "int (Suc k * d) < 2 ^ 31"
    using m big by linarith+
  have dn: "int d * ?nc = int (Suc k * d)" using m(3) by (simp only: mult.commute)
  have "lo * ?nc \<le> int d * ?nc" using lo by (intro mult_right_mono) auto
  then have "lo * ?nc < 2 ^ 31" using big unfolding dn by linarith
  with dn lo have reach: "0 \<le> lo * ?nc" "lo * ?nc < 2 ^ 31" "int d * ?nc = int (Suc k * d)"
    by (blast intro: mult_nonneg_nonneg of_nat_0_le_iff)+
  obtain lo' where lo': "(if lo * ?nc < ?m then idiv_up ?m ?nc else Some lo) = Some lo'" "0 \<le> lo'" "lo' \<le> int d"
  proof (cases "lo * ?nc < ?m")
    case True
    obtain r where "idiv_up ?m ?nc = Some r" "0 \<le> r" "r \<le> int d"
      using idiv_up_range [of ?m ?nc "int d"] m big by (metis add_le_cancel_right le_less_trans of_nat_0_less_iff zero_less_Suc)
    with True that show ?thesis by simp
  next
    case False
    with lo that show ?thesis by simp
  qed
  have i: "i32 0 = Some 0" "i32 ?m = Some ?m" "i32 (lo * ?nc) = Some (lo * ?nc)"
    "i32 (int (Suc k * d)) = Some (int (Suc k * d))"
    using range reach by (simp_all add: i32_def)
  have nlt: "(qlast \<le> queue_pos sc + k) = False" "(int d < lo') = False" using k(3) lo'(3) by simp_all
  have "bisect_inner sc qlast 0 lo (int d) (int d) k = bisect_inner sc qlast 0 lo' (int d) (int d) (Suc k)"
    unfolding bisect_inner.simps [of sc qlast 0 lo "int d" "int d" k] Let_def Suc_eq_plus1 [symmetric]
    by (simp only: np f Option.bind.bind_lunit fst_conv snd_conv si mult_zero_left diff_0_right i lo'(1) reach(3)
        less_irrefl if_False nlt)
  with lo' show ?thesis by blast
qed

lemma constant_rate_run:
  assumes cr: "constant_rate sc d n" and qlast: "qlast \<le> queue_pos sc + n"
    and lo: "0 \<le> lo" "lo \<le> int d"
  shows "queue_pos sc + Suc k \<le> qlast \<Longrightarrow> Suc k * k < 2 ^ 31 \<Longrightarrow> Suc k * Suc d < 2 ^ 31 \<Longrightarrow>
    \<exists>lo'. 0 \<le> lo' \<and> lo' \<le> int d \<and>
      bisect_inner sc qlast 0 lo (int d) (int d) 1 = bisect_inner sc qlast 0 lo' (int d) (int d) (Suc k)"
proof (induction k)
  case 0
  then show ?case using lo by auto
next
  case (Suc k)
  have "Suc k * k \<le> Suc (Suc k) * Suc k" "Suc k * Suc d \<le> Suc (Suc k) * Suc d" by simp_all
  with Suc.prems have "Suc k * k < 2 ^ 31" "Suc k * Suc d < 2 ^ 31" by linarith+
  with Suc.IH Suc.prems(1) obtain lo' where lo': "0 \<le> lo'" "lo' \<le> int d"
    "bisect_inner sc qlast 0 lo (int d) (int d) 1 = bisect_inner sc qlast 0 lo' (int d) (int d) (Suc k)" by auto
  from constant_rate_step [OF cr, of "Suc k" qlast lo'] Suc.prems qlast lo' show ?case by auto
qed

lemma constant_rate_start:
  assumes "constant_rate sc d n" "0 < n" "d < 2 ^ 31"
  obtains lo where "minmax_point sc (queue_pos sc) = Some (of_nat lo, of_nat d)" "lo \<le> d"
proof -
  from constant_rate_point [OF assms(1,2)] assms(3) obtain err where
    "minmax_point sc (queue_pos sc) = Some (of_nat (d - err), of_nat d)" by auto
  with that [of "d - err"] show thesis by simp
qed

lemma constant_rate_round:
  assumes cr: "constant_rate sc d n" and n: "0 < n" and k: "queue_pos sc + Suc k \<le> compress_qlast sc"
    and fit: "Suc k * k < 2 ^ 31" "Suc k * Suc d < 2 ^ 31"
  obtains lo b where "minmax_point sc (queue_pos sc) = Some (of_nat lo, of_nat d)" "lo \<le> d"
    "b = bisect_init (of_nat lo, of_nat d)" "b_add b = 0" "outer_min b = int lo" "outer_max b = int d"
    "\<exists>lo'. 0 \<le> lo' \<and> lo' \<le> int d \<and>
      bisect_inner sc (compress_qlast sc) (b_add b) (outer_min b) (outer_max b) (outer_max b) 1
        = bisect_inner sc (compress_qlast sc) 0 lo' (int d) (int d) (Suc k)"
proof -
  have d: "d < 2 ^ 31" using fit(2) by (simp add: algebra_simps)
  obtain lo where lo: "minmax_point sc (queue_pos sc) = Some (of_nat lo, of_nat d)" "lo \<le> d"
    using constant_rate_start [OF cr n d] .
  let ?b = "bisect_init (of_nat lo, of_nat d)"
  have b: "b_add ?b = 0" "outer_min ?b = int lo" "outer_max ?b = int d"
    using lo(2) d by (simp_all add: bisect_init_def sint_of_nat_u32 del: of_nat_numeral)
  have q: "compress_qlast sc \<le> queue_pos sc + n" using cr by (simp add: compress_qlast_def constant_rate_def)
  show thesis
    using that [OF lo refl b] constant_rate_run [OF cr q _ _ k fit, of "int lo"] lo(2) b by simp
qed

lemma compress_constant:
  assumes cr: "constant_rate sc d n" and n: "0 < n" "n \<le> 46341" and fit: "n * Suc d < 2 ^ 31"
  shows "compress_bisect_add sc = Some \<lparr>mv_interval = of_nat d, mv_count = of_nat n, mv_add = 0\<rparr>"
proof -
  obtain k where k: "n = Suc k" using n(1) by (cases n) auto
  have "Suc k * k \<le> 46341 * 46340" using n(2) k by (intro mult_le_mono) auto
  then have f: "Suc k * k < 2 ^ 31" by simp
  have q: "compress_qlast sc = queue_pos sc + Suc k" using cr n(2) k by (simp add: compress_qlast_def constant_rate_def)
  from constant_rate_round [OF cr n(1) _ f fit [unfolded k]] q obtain lo b lo' where
    b: "minmax_point sc (queue_pos sc) = Some (of_nat lo, of_nat d)" "b = bisect_init (of_nat lo, of_nat d)" "b_add b = 0"
    and run: "bisect_inner sc (compress_qlast sc) (b_add b) (outer_min b) (outer_max b) (outer_max b) 1
        = bisect_inner sc (compress_qlast sc) 0 lo' (int d) (int d) (Suc k)"
    by (metis order.refl)
  have "bisect_inner sc (compress_qlast sc) 0 lo' (int d) (int d) (Suc k) = Some (Whole (mk_move (int d) (int n) 0))"
    using q by (subst bisect_inner.simps) (simp add: Let_def k)
  then have "bisect_round sc (compress_qlast sc) b = Some (Return (mk_move (int d) (int n) 0))"
    using run by (simp add: bisect_round_def)
  then have "bisect_outer (Suc 0x10000) sc (compress_qlast sc) b = Some (mk_move (int d) (int n) 0)"
    by (simp only: bisect_outer.simps option.case round.case)
  then show ?thesis using b by (simp add: compress_bisect_add_def mk_move_def)
qed

lemma compress_overflow:
  assumes cr: "constant_rate sc d n" and n: "46342 \<le> n" and d: "d \<le> 46339"
  shows "compress_bisect_add sc = None"
proof -
  have f: "Suc 46340 * 46340 < (2 :: nat) ^ 31" by simp
  have "Suc 46340 * Suc d \<le> 46341 * 46340" using d by (intro mult_le_mono) auto
  then have g: "Suc 46340 * Suc d < 2 ^ 31" by simp
  have q: "queue_pos sc + Suc 46340 < compress_qlast sc" using cr n by (simp add: compress_qlast_def constant_rate_def)
  from constant_rate_round [OF cr _ _ f g] q n obtain lo b lo' where
    b: "minmax_point sc (queue_pos sc) = Some (of_nat lo, of_nat d)" "b = bisect_init (of_nat lo, of_nat d)"
    and run: "bisect_inner sc (compress_qlast sc) (b_add b) (outer_min b) (outer_max b) (outer_max b) 1
        = bisect_inner sc (compress_qlast sc) 0 lo' (int d) (int d) (Suc 46340)"
    by (metis gr0I less_imp_le not_numeral_le_zero)
  have "46342 * d \<le> 46342 * 46339" using d by (intro mult_le_mono) auto
  then obtain err where "minmax_point sc (queue_pos sc + 46341) = Some (of_nat (Suc 46341 * d - err), of_nat (Suc 46341 * d))"
    using constant_rate_point [OF cr, of 46341] n by auto
  moreover have "addfactor 46342 = None" by (simp add: addfactor_def i32_def)
  ultimately have "bisect_inner sc (compress_qlast sc) 0 lo' (int d) (int d) (Suc 46340) = None"
    using q by (subst bisect_inner.simps) (simp add: Let_def)
  then have "bisect_round sc (compress_qlast sc) b = None"
    using run by (simp add: bisect_round_def)
  then have "bisect_outer (Suc 0x10000) sc (compress_qlast sc) b = None"
    by (simp only: bisect_outer.simps option.case)
  then show ?thesis using b by (simp add: compress_bisect_add_def)
qed

lemma of_nat_le_u32: "a \<le> b \<Longrightarrow> b < 2 ^ 32 \<Longrightarrow> (of_nat a :: u32) \<le> of_nat b"
  by (simp add: word_le_nat_alt unat_of_nat)

lemma check_loop_constant:
  assumes cr: "constant_rate sc d n" and fit: "n * Suc d < 2 ^ 31"
  shows "i + m \<le> n \<Longrightarrow> check_loop sc 0 m i (of_nat d) (of_nat (i * d)) = Some 0"
proof (induction m arbitrary: i)
  case (Suc m)
  have "Suc i * d \<le> n * d" using Suc.prems by (intro mult_le_mono) auto
  then have lt: "Suc i * d < 2 ^ 31" using fit by simp
  then have d: "d < 2 ^ 31" by simp
  obtain err where np: "minmax_point sc (queue_pos sc + i) = Some (of_nat (Suc i * d - err), of_nat (Suc i * d))"
    using constant_rate_point [OF cr _ lt] Suc.prems by auto
  have p: "(of_nat (i * d) + of_nat d :: u32) = of_nat (Suc i * d)" by simp
  have le: "\<not> (of_nat (Suc i * d) :: u32) < of_nat (Suc i * d - err)"
    unfolding not_less using lt by (intro of_nat_le_u32) auto
  have "\<not> (0x80000000 :: u32) \<le> of_nat d" using d by (simp add: word_le_nat_alt unat_of_nat)
  with le Suc.IH [of "Suc i"] Suc.prems show ?case
    unfolding check_loop.simps np Option.bind.bind_lunit Let_def p fst_conv snd_conv by simp
qed simp

lemma check_line_constant:
  assumes cr: "constant_rate sc d n" and n: "0 < n" "n < 65536" "0 < d" and fit: "n * Suc d < 2 ^ 31"
  shows "check_line sc \<lparr>mv_interval = of_nat d, mv_count = of_nat n, mv_add = 0\<rparr> = Some 0"
proof -
  have "1 * Suc d \<le> n * Suc d" using n by (intro mult_le_mono) auto
  then have d: "d < 2 ^ 31" using fit by simp
  then have u: "unat (of_nat d :: u32) = d" "unat (of_nat n :: u16) = n" using n by (simp_all add: unat_of_nat)
  then have "(of_nat d :: u32) \<noteq> 0" "(of_nat n :: u16) \<noteq> 0" "\<not> (0x80000000 :: u32) \<le> of_nat d"
    using n d by (auto simp: word_le_nat_alt dest: arg_cong [of _ _ unat])
  then show ?thesis using check_loop_constant [OF cr fit, of 0 n] u by (simp add: check_line_def)
qed

lemma ucast_of_nat_u32: "k < 2 ^ 32 \<Longrightarrow> (ucast (of_nat k :: u32) :: u64) = of_nat k"
  by (simp add: unsigned_of_nat take_bit_nat_eq_self)

lemma constant_rate_flush:
  assumes cr: "constant_rate sc d n" and n: "0 < n" "n \<le> 46341" "0 < d" and fit: "n * Suc d < 2 ^ 31"
    and clk: "last_step_clock sc < move_clock"
  obtains sc' qm where "queue_flush move_clock sc = Ret 0 sc'" "msg_queue sc' = msg_queue sc @ [qm]"
    "step_msg sc qm \<lparr>mv_interval = of_nat d, mv_count = of_nat n, mv_add = 0\<rparr>" "sc_steps sc' = []"
    "last_step_clock sc' = last_step_clock sc + of_nat (n * d)"
proof -
  let ?m = "\<lparr>mv_interval = of_nat d, mv_count = of_nat n, mv_add = 0\<rparr> :: step_move"
  have q: "queue_next sc = queue_pos sc + n" using cr by (simp add: constant_rate_def)
  have u: "unat (of_nat n :: u16) = n" using n(2) by (simp add: unat_of_nat)
  have un: "uint (of_nat n :: u16) = int n" using n(2) by (simp add: unsigned_of_nat take_bit_nat_eq_self)
  have c: "compress_bisect_add sc = Some ?m" by (rule compress_constant [OF cr n(1,2) fit])
  have l: "check_line sc ?m = Some 0" using n by (intro check_line_constant [OF cr _ _ _ fit]) auto
  have "int n * (int n - 1) \<le> 46341 * 46340" using n by (intro mult_mono) auto
  moreover have "0 \<le> int n * (int n - 1)" using n(1) by simp
  ultimately obtain f where "addfactor (int n) = Some f" using addfactor_Some [of "int n"] by auto
  moreover have "(ucast (of_nat n :: u16) :: u32) = of_nat n"
    using n(2) by (simp add: unsigned_of_nat take_bit_nat_eq_self)
  ultimately have t: "move_ticks ?m = Some (of_nat (d * (n - 1)))"
    using un n(1) by (simp add: move_ticks_def i32_def of_nat_diff)
  have nd: "d + d * (n - 1) = n * d" using n(1) by (cases n) auto
  have small: "n * d < 2 ^ 32" using fit by simp
  have "d \<le> n * d" "d * (n - 1) \<le> n * d" using nd by (metis le_add1, metis le_add2)
  then have "d < 2 ^ 32" "d * (n - 1) < 2 ^ 32" using small by (blast intro: le_less_trans)+
  then have uc: "(ucast (of_nat d :: u32) :: u64) = of_nat d" "(ucast (of_nat (d * (n - 1)) :: u32) :: u64) = of_nat (d * (n - 1))"
    by (simp_all only: ucast_of_nat_u32)
  obtain e where e: "message_alloc_and_encode
      [queue_step_msgtag sc, sc_oid sc, of_nat d, ucast (of_nat n :: u16), 0] = Some e"
    using message_alloc_and_encode_spec by blast
  define sc1 where "sc1 = (case add_move (last_step_clock sc + ucast (of_nat d :: u32)) ?m sc of Ret _ t \<Rightarrow> t)"
  have add: "add_move (last_step_clock sc + ucast (of_nat d :: u32)) ?m sc = Ret () sc1"
    using e t by (simp add: sc1_def add_move_def op_simps Let_def)
  obtain ticks qm where a: "move_ticks ?m = Some ticks" "step_msg sc qm ?m" "msg_queue sc1 = msg_queue sc @ [qm]"
    "last_step_clock sc1 = last_step_clock sc + ucast (of_nat d :: u32) + ucast ticks"
    "queue_pos sc1 = queue_pos sc" "queue_next sc1 = queue_next sc"
    using add_move_spec [OF add] by metis
  let ?t = "calc_last_step_print_time (sc1\<lparr>queue_pos := 0, queue_next := 0\<rparr>)"
  have "flush_loop move_clock sc = Ret 0 ?t"
    using clk c l add a(5,6) q u by (subst flush_loop.simps) simp
  then have "queue_flush move_clock sc = Ret 0 ?t" using q n(1) by (simp add: queue_flush_def op_simps)
  moreover have "last_step_clock sc1 = last_step_clock sc + of_nat (n * d)"
  proof -
    have "ticks = of_nat (d * (n - 1))" using a(1) t by (simp only: option.inject)
    then show ?thesis by (simp only: a(4) uc add.assoc nd flip: of_nat_add)
  qed
  ultimately show thesis
    using that [of ?t qm] a(2,3) by (simp add: calc_last_step_print_time_def Let_def sc_steps_def)
qed

lemma heap_upt: "heap mc \<longleftrightarrow> list_all (\<lambda>i. mc ! ((i - 1) div 2) \<le> mc ! i) [1..<length mc]"
  by (auto simp: heap_def list_all_iff Suc_le_eq)

lemma merged_length: "merged qs ms qs' \<Longrightarrow> length qs' = length qs"
  by (induction rule: merged.induct) simp_all

subsection \<open>Properties\<close>

text \<open>Three steps, 1000 ticks apart, after clock 5000.\<close>

definition example_sc :: stepcompress where
  "example_sc = (stepcompress_fill 25 7 8 (stepcompress_alloc 2))
     \<lparr>queue := [6000, 7000, 8000, 0], queue_pos := 0, queue_next := 3, last_step_clock := 5000, sdir := 1,
      mcu_freq := 1000000\<rparr>"

lemmas example_sc_defs = example_sc_def stepcompress_fill_def stepcompress_alloc_def

lemma example_constant: "constant_rate example_sc 1000 3" "sc_wf example_sc" "last_step_clock example_sc < UINT64_MAX"
  by (auto simp: constant_rate_def example_sc_defs sc_wf_def less_Suc_eq numeral_3_eq_3)

text \<open>
  Compression loses no step and keeps its promise. Whatever \<open>queue_flush\<close> sends, the moves in the
  \<open>queue_step\<close> messages, run one after the other by a micro-controller from the clock of the last step on,
  take exactly the first of the queued steps, each no later than requested and early by at most
  \<open>max_error\<close>; the other steps stay in the queue, and the host's idea of the last step clock
  is the clock at which the micro-controller ends. On success every step before \<open>move_clock\<close> has been sent.
\<close>

theorem queue_flush_refines:
  assumes "queue_flush move_clock sc = Ret r sc'" "sc_wf sc"
  shows "\<exists>moves msgs sent. msg_queue sc' = msg_queue sc @ msgs \<and> list_all2 (step_msg sc) msgs moves \<and>
     sc_steps sc = sent @ sc_steps sc' \<and>
     list_all2 (on_time (max_error sc)) sent (mcu_steps (ucast (last_step_clock sc)) moves) \<and>
     ucast (last_step_clock sc') = fold (\<lambda>m w. move_end w m) moves (ucast (last_step_clock sc)) \<and>
     (r = 0 \<longrightarrow> sc_steps sc' = [] \<or> move_clock \<le> last_step_clock sc')"
  using queue_flush_spec [OF assms] unfolding flushed_def by blast

theorem queue_flush_refines_witness:
  "\<exists>r sc' moves. queue_flush UINT64_MAX example_sc = Ret r sc' \<and>
     list_all2 (on_time 25) [6000, 7000, 8000] (mcu_steps 5000 moves)"
proof -
  obtain sc' where f: "queue_flush UINT64_MAX example_sc = Ret 0 sc'" "sc_steps sc' = []"
    using constant_rate_flush [OF example_constant(1) _ _ _ _ example_constant(3)] by auto
  from queue_flush_refines [OF f(1) example_constant(2)] f(2) obtain moves where
    "list_all2 (on_time (max_error example_sc)) (sc_steps example_sc) (mcu_steps (ucast (last_step_clock example_sc)) moves)"
    by auto
  moreover have "max_error example_sc = 25" "sc_steps example_sc = [6000, 7000, 8000]"
    "ucast (last_step_clock example_sc) = (5000 :: u32)"
    by (simp_all add: example_sc_defs sc_steps_def)
  ultimately show ?thesis using f(1) by auto
qed

text \<open>
  Steps at a constant rate compress to a single command with \<open>add = 0\<close>, for up to 46341 steps: the flush
  succeeds, empties the queue and moves the last step clock to the last step.
\<close>

theorem constant_rate_one_command:
  assumes "constant_rate sc d n" "0 < n" "n \<le> 46341" "0 < d" "n * Suc d < 2 ^ 31" "last_step_clock sc < move_clock"
  shows "\<exists>sc' qm. queue_flush move_clock sc = Ret 0 sc' \<and> msg_queue sc' = msg_queue sc @ [qm] \<and>
     step_msg sc qm \<lparr>mv_interval = of_nat d, mv_count = of_nat n, mv_add = 0\<rparr> \<and> sc_steps sc' = [] \<and>
     last_step_clock sc' = last_step_clock sc + of_nat (n * d)"
  using constant_rate_flush [OF assms] by metis

theorem constant_rate_one_command_witness:
  "\<exists>sc' qm. queue_flush UINT64_MAX example_sc = Ret 0 sc' \<and> msg_queue sc' = [qm] \<and> sc_steps sc' = []"
proof -
  have "msg_queue example_sc = []" by (simp add: example_sc_defs)
  with constant_rate_one_command [OF example_constant(1) _ _ _ _ example_constant(3)] show ?thesis by auto
qed

text \<open>
  With more steps than that in the queue the search computes \<open>nextcount*(nextcount-1)/2\<close> beyond the range
  of \<open>int32_t\<close>, although it is meant to cover up to 65535 steps: a signed overflow.
\<close>

theorem constant_rate_overflows:
  assumes "constant_rate sc d n" "46342 \<le> n" "d \<le> 46339"
  shows "compress_bisect_add sc = None"
  using assms by (rule compress_overflow)

theorem constant_rate_overflows_witness:
  "compress_bisect_add (example_sc\<lparr>queue := map (\<lambda>k. of_nat (5000 + Suc k * 100)) [0..<50000], queue_next := 50000\<rparr>) = None"
proof -
  have "constant_rate (example_sc\<lparr>queue := map (\<lambda>k. of_nat (5000 + Suc k * 100)) [0..<50000], queue_next := 50000\<rparr>) 100 50000"
    by (simp add: constant_rate_def example_sc_defs del: upt_Suc upt_rec_numeral)
  then show ?thesis by (rule constant_rate_overflows) simp_all
qed

text \<open>The variables after \<open>k\<close> rounds of the outer loop that all went on.\<close>

fun bisect_rounds :: "nat \<Rightarrow> stepcompress \<Rightarrow> nat \<Rightarrow> bisect \<Rightarrow> bisect option" where
  "bisect_rounds 0 sc qlast b = Some b"
| "bisect_rounds (Suc k) sc qlast b =
     (case bisect_round sc qlast b of Some (Again b') \<Rightarrow> bisect_rounds k sc qlast b' | _ \<Rightarrow> None)"

lemma bisect_rounds_end:
  assumes "range_ok b" "counts_ok (int (qlast - queue_pos sc)) b" "queue_pos sc < qlast" "maxadd b - minadd b \<le> int n"
  shows "\<exists>k\<le>n. \<exists>b'. bisect_rounds k sc qlast b = Some b' \<and> (\<forall>b''. bisect_round sc qlast b' \<noteq> Some (Again b'')) \<and>
     (\<forall>fuel>n. bisect_outer fuel sc qlast b = bisect_outer 1 sc qlast b')"
  using assms
proof (induction n arbitrary: b)
  case 0
  have no: "bisect_round sc qlast b \<noteq> Some (Again b'')" for b''
    using bisect_round_cases [of sc qlast b "Again b''"] 0 by (auto simp: range_ok_def)
  have "bisect_outer fuel sc qlast b = bisect_outer 1 sc qlast b" if "0 < fuel" for fuel
    using that no by (cases fuel) (auto split: option.splits round.splits)
  with no show ?case by auto
next
  case (Suc n)
  show ?case
  proof (cases "\<exists>b1. bisect_round sc qlast b = Some (Again b1)")
    case True
    then obtain b1 where b1: "bisect_round sc qlast b = Some (Again b1)" by blast
    have "range_ok b1 \<and> counts_ok (int (qlast - queue_pos sc)) b1 \<and> maxadd b1 - minadd b1 \<le> int n"
      using bisect_round_cases [OF b1 Suc.prems(1-3)] Suc.prems(4) by auto
    with Suc.IH [of b1] Suc.prems(3) obtain k b' where k: "k \<le> n" "bisect_rounds k sc qlast b1 = Some b'"
      "\<forall>b''. bisect_round sc qlast b' \<noteq> Some (Again b'')" "\<forall>fuel>n. bisect_outer fuel sc qlast b1 = bisect_outer 1 sc qlast b'"
      by blast
    have "bisect_outer fuel sc qlast b = bisect_outer 1 sc qlast b'" if "Suc n < fuel" for fuel
      using that k(4) b1 by (cases fuel) auto
    with k b1 show ?thesis by (intro exI [of _ "Suc k"]) auto
  next
    case False
    have "bisect_outer fuel sc qlast b = bisect_outer 1 sc qlast b" if "0 < fuel" for fuel
      using that False by (cases fuel) (auto split: option.splits round.splits)
    with False show ?thesis by (intro exI [of _ 0]) auto
  qed
qed

text \<open>
  C18: The search for a move ends. Its outer loop reaches, after at most \<open>0xffff\<close> rounds that went on, a round that
  returns, that leaves the loop or that overflows an \<open>int\<close>, and what the search gives is the outcome of that round: every
  round takes the current \<open>add\<close> out of the range that is left and never widens that range.
\<close>

theorem compress_search_terminates:
  assumes "queue_pos sc < queue_next sc" "minmax_point sc (queue_pos sc) = Some point"
  shows "\<exists>k\<le>0xffff. \<exists>b. bisect_rounds k sc (compress_qlast sc) (bisect_init point) = Some b \<and>
     (\<forall>b'. bisect_round sc (compress_qlast sc) b \<noteq> Some (Again b')) \<and>
     compress_bisect_add sc = bisect_outer 1 sc (compress_qlast sc) b"
proof -
  have q: "queue_pos sc < compress_qlast sc" using assms(1) by (simp add: compress_qlast_def)
  then have "1 \<le> int (compress_qlast sc - queue_pos sc)" by simp
  from bisect_rounds_end [OF bisect_init_ok(1) [of point] bisect_init_ok(2) [OF this, of point] q, of "0xffff"] obtain k b where
    "k \<le> 0xffff" "bisect_rounds k sc (compress_qlast sc) (bisect_init point) = Some b"
    "\<forall>b'. bisect_round sc (compress_qlast sc) b \<noteq> Some (Again b')"
    "bisect_outer 0x10001 sc (compress_qlast sc) (bisect_init point) = bisect_outer 1 sc (compress_qlast sc) b"
    unfolding bisect_init_ok(3) by fastforce
  then show ?thesis using assms(2) by (auto simp: compress_bisect_add_def simp del: bisect_outer.simps)
qed

theorem compress_search_terminates_witness:
  "\<exists>point b. minmax_point example_sc 0 = Some point \<and> (\<exists>k\<le>0xffff. bisect_rounds k example_sc (compress_qlast example_sc) (bisect_init point) = Some b) \<and>
     (\<forall>b'. bisect_round example_sc (compress_qlast example_sc) b \<noteq> Some (Again b')) \<and>
     compress_bisect_add example_sc = bisect_outer 1 example_sc (compress_qlast example_sc) b"
proof -
  have p: "queue_pos example_sc < queue_next example_sc" "queue_pos example_sc = 0" by (simp_all add: example_sc_defs)
  have "\<exists>point. minmax_point example_sc 0 = Some point" by (simp add: example_sc_defs minmax_point_def queue_at_def Let_def)
  then obtain point where "minmax_point example_sc 0 = Some point" ..
  from compress_search_terminates [OF p(1), unfolded p(2), OF this] this show ?thesis by blast
qed

text \<open>
  C19: \<open>heap_replace\<close> is the replacement of the smallest element of a multiset: on a heap it always ends inside the
  array, the result is a heap again, and it holds the same clocks but for one occurrence
  of the smallest, which has become \<open>req_clock\<close>.
\<close>

theorem heap_replace_correct:
  assumes "heap mc" "mc \<noteq> []"
  shows "mc ! 0 = Min_mset (mset mc) \<and>
    (\<exists>mc'. heap_replace mc req = Some mc' \<and> heap mc' \<and> length mc' = length mc \<and>
       mset mc' = mset mc - {#Min_mset (mset mc)#} + {#req#})"
  using heap_replace_ok [OF assms] heap_Min [OF assms] by metis

theorem heap_replace_correct_witness:
  "\<exists>mc'. heap_replace [2, 5, 3, 9] 7 = Some mc' \<and> heap mc' \<and> length mc' = 4"
proof -
  have "heap [2, 5, 3, 9]" by (simp add: heap_upt upt_rec)
  from heap_replace_correct [OF this, of 7] show ?thesis by auto
qed

text \<open>
  C20: The move queue of the micro-controller never overflows. From steppers whose flush succeeds, the commands are
  released in the order of their \<open>req_clock\<close>, each with the earliest clock at which a slot of the
  move queue is free; provided that every command can be transmitted before it has to be loaded,
  at any clock \<open>t\<close> the slots taken by this batch and those still taken by earlier ones are together
  no more than there are.
\<close>

theorem move_queue_never_overflows:
  assumes "heap (move_clocks ss)" "move_clocks ss \<noteq> []" "flush_each move_clock (sc_list ss) = Ret 0 scs"
  shows "\<exists>ss' ms out. steppersync_flush move_clock hist ss = Ret 0 ss' \<and>
     merged (map msg_queue scs) ms (map msg_queue (sc_list ss')) \<and>
     slots (mset (move_clocks ss)) ms = (out, mset (move_clocks ss')) \<and> heap (move_clocks ss') \<and>
     concat (batches ss') = concat (batches ss) @ out \<and>
     (in_time ms out \<longrightarrow>
        taken t ms out + size {#x \<in># mset (move_clocks ss). t < x#} \<le> length (move_clocks ss))"
proof -
  let ?qs = "map msg_queue scs"
  have "sum_list (map length ?qs) \<le> sum_list (map (length \<circ> msg_queue) scs)" by simp
  from batch_loop_ok [OF assms(1,2) this, of move_clock "[]"] obtain ms qs' mc' out where
    b: "batch_loop (sum_list (map (length \<circ> msg_queue) scs)) move_clock ?qs (move_clocks ss) [] = Some (qs', mc', out)"
    "merged ?qs ms qs'" "slots (mset (move_clocks ss)) ms = (out, mset mc')" "heap mc'"
    by auto
  have "length qs' = length scs" using merged_length [OF b(2)] by simp
  then have qs: "map (msg_queue \<circ> stepcompress_history_expire hist) (map2 (\<lambda>sc q. sc\<lparr>msg_queue := q\<rparr>) scs qs') = qs'"
    by (induction scs qs' rule: list_induct2') (auto simp: stepcompress_history_expire_def free_history_def)
  let ?ss = "steppersync_history_expire hist
     (ss\<lparr>sc_list := map2 (\<lambda>sc q. sc\<lparr>msg_queue := q\<rparr>) scs qs', move_clocks := mc',
         batches := (if out = [] then batches ss else batches ss @ [out])\<rparr>)"
  have "steppersync_flush move_clock hist ss = Ret 0 ?ss"
    using assms(3) b(1) by (simp add: steppersync_flush_def)
  moreover have "map msg_queue (sc_list ?ss) = qs'" "move_clocks ?ss = mc'" "concat (batches ?ss) = concat (batches ss) @ out"
    using qs by (auto simp: steppersync_history_expire_def o_assoc)
  moreover have "taken t ms out + size {#x \<in># mset (move_clocks ss). t < x#} \<le> length (move_clocks ss)"
    if "in_time ms out"
  proof -
    let ?H = "mset (move_clocks ss)"
    have "size ?H = size {#x \<in># ?H. x \<le> t#} + size {#x \<in># ?H. t < x#}"
      by (metis (no_types, lifting) filter_mset_cong multiset_partition not_le size_union)
    with slots_taken [OF b(3) _ that, of t] assms(2) show ?thesis by simp
  qed
  ultimately show ?thesis using b by (intro exI [of _ ?ss] exI [of _ ms] exI [of _ out]) simp
qed

theorem move_queue_never_overflows_witness:
  "\<exists>ss' ms out. steppersync_flush 9000 0 (steppersync_alloc [stepcompress_alloc 1] 4) = Ret 0 ss' \<and>
     slots (mset (replicate 4 0)) ms = (out, mset (move_clocks ss'))"
proof -
  have "heap (move_clocks (steppersync_alloc [stepcompress_alloc 1] 4))"
    "move_clocks (steppersync_alloc [stepcompress_alloc 1] 4) \<noteq> []"
    by (simp_all add: heap_def steppersync_alloc_def)
  moreover have "flush_each 9000 (sc_list (steppersync_alloc [stepcompress_alloc 1] 4)) = Ret 0 [stepcompress_alloc 1]"
    by (simp add: steppersync_alloc_def stepcompress_flush_def try_op_def queue_flush_def op_simps stepcompress_alloc_def)
  moreover have "move_clocks (steppersync_alloc [stepcompress_alloc 1] 4) = replicate 4 0"
    by (simp add: steppersync_alloc_def)
  ultimately show ?thesis
    using move_queue_never_overflows [of "steppersync_alloc [stepcompress_alloc 1] 4" 9000 "[stepcompress_alloc 1]" 0]
    by metis
qed

end
