(* ===== verification/Basecmd.thy ===== *)
theory Basecmd
  imports Timers
begin

text \<open>
  The infrastructure commands of \<open>basecmd.c\<close>: the bump allocator over the dynamic memory of
  \<open>generic/alloc.c\<close>, the pool of move nodes and the queues built from them, the table of object
  ids, the configuration commands and the load statistics.

  Memory is a range of addresses. Move nodes are addressed by \<open>move_list + i * move_item_size\<close> and
  linked through \<open>mn_next\<close>, which is the first field of every node; the other fields of a node
  belong to the module that allocated it. The types of the oid table are the names of the config
  commands whose addresses the C code uses, and \<open>sizeof_type\<close> is what \<open>sizeof\<close> gives for the objects
  they allocate.
\<close>

record base = sched +
  dyn_start :: nat
  dyn_end :: nat
  ptr_align :: nat
  ptr_size :: nat
  sizeof_type :: "string \<Rightarrow> nat"
  alloc_end :: nat
  mn_next :: "nat \<Rightarrow> nat option"
  move_free_list :: "nat option"
  move_list :: nat
  move_count :: u16
  move_item_size :: u8
  oids :: "(string option \<times> nat) list option"
  oid_count :: u8
  config_crc :: u32
  stats_send_time :: u32
  stats_send_time_high :: u32
  stats_count :: u32
  stats_sum :: u32
  stats_sumsq :: u32

subsection \<open>Low level allocation\<close>

definition align_up :: "nat \<Rightarrow> nat \<Rightarrow> nat" where
  "align_up x a = (x + a - 1) div a * a"

definition alloc_init :: "('a base_scheme, unit) op" where
  "alloc_init = set_op (\<lambda>s. s\<lparr>alloc_end := align_up (dyn_start s) (ptr_align s)\<rparr>)"

definition alloc_chunk :: "nat \<Rightarrow> ('a base_scheme, nat) op" where
  "alloc_chunk sz =
     bind_op (get_op (\<lambda>s. alloc_end s + sz > dyn_end s)) (\<lambda>full.
       if full then shutdown_op ''alloc_chunk failed''
       else
         bind_op (get_op alloc_end) (\<lambda>data.
         then_op (set_op (\<lambda>s. s\<lparr>alloc_end := alloc_end s + align_up sz (ptr_align s)\<rparr>))
           (ret data)))"

text \<open>The counting loop: \<open>left\<close> is \<open>count - can_alloc\<close>; the value is the pair of \<open>can_alloc\<close> and \<open>p\<close>.\<close>

fun alloc_fit :: "nat \<Rightarrow> nat \<Rightarrow> nat \<Rightarrow> nat \<Rightarrow> nat \<Rightarrow> nat \<times> nat" where
  "alloc_fit 0 sz pend can_alloc p = (can_alloc, p)"
| "alloc_fit (Suc left) sz pend can_alloc p =
     (if p + sz \<le> pend then alloc_fit left sz pend (Suc can_alloc) (p + sz) else (can_alloc, p))"

definition alloc_chunks :: "nat \<Rightarrow> nat \<Rightarrow> ('a base_scheme, nat \<times> u16) op" where
  "alloc_chunks sz count =
     bind_op (get_op (\<lambda>s. alloc_fit count sz (dyn_end s) 0 (alloc_end s))) (\<lambda>(can_alloc, p).
       if can_alloc = 0 then shutdown_op ''alloc_chunks failed''
       else
         bind_op (get_op alloc_end) (\<lambda>e.
         bind_op (alloc_chunk (p - e)) (\<lambda>data. ret (data, of_nat can_alloc))))"

subsection \<open>Move queue\<close>

record move_queue_head =
  mq_first :: "nat option"
  mq_last :: "nat option"

definition is_finalized :: "'a base_scheme \<Rightarrow> bool" where
  "is_finalized s \<longleftrightarrow> move_count s \<noteq> 0"

definition move_free :: "nat \<Rightarrow> ('a base_scheme, unit) op" where
  "move_free m = set_op (\<lambda>s. s\<lparr>mn_next := (mn_next s)(m := move_free_list s), move_free_list := Some m\<rparr>)"

definition move_alloc :: "('a base_scheme, nat) op" where
  "move_alloc =
     bind_op (get_op move_free_list) (\<lambda>mf.
       case mf of
         None \<Rightarrow> shutdown_op ''Move queue overflow''
       | Some m \<Rightarrow> then_op (set_op (\<lambda>s. s\<lparr>move_free_list := mn_next s m\<rparr>)) (ret m))"

definition move_queue_empty :: "move_queue_head \<Rightarrow> bool" where
  "move_queue_empty mh \<longleftrightarrow> mq_first mh = None"

definition move_queue_first :: "move_queue_head \<Rightarrow> nat option" where
  "move_queue_first mh = mq_first mh"

definition move_queue_push :: "nat \<Rightarrow> move_queue_head \<Rightarrow> ('a base_scheme, move_queue_head \<times> bool) op" where
  "move_queue_push m mh =
     then_op (set_op (\<lambda>s. s\<lparr>mn_next := (mn_next s)(m := None)\<rparr>))
     (if mq_first mh \<noteq> None then
        bind_op (option_op (mq_last mh)) (\<lambda>l.
        then_op (set_op (\<lambda>s. s\<lparr>mn_next := (mn_next s)(l := Some m)\<rparr>))
          (ret (mh\<lparr>mq_last := Some m\<rparr>, False)))
      else ret (mh\<lparr>mq_first := Some m, mq_last := Some m\<rparr>, True))"

definition move_queue_pop :: "move_queue_head \<Rightarrow> ('a base_scheme, move_queue_head \<times> nat) op" where
  "move_queue_pop mh =
     bind_op (option_op (mq_first mh)) (\<lambda>mn.
     bind_op (get_op (\<lambda>s. mn_next s mn)) (\<lambda>nx. ret (mh\<lparr>mq_first := nx\<rparr>, mn)))"

definition move_queue_clear :: "move_queue_head \<Rightarrow> move_queue_head" where
  "move_queue_clear mh = mh\<lparr>mq_first := None\<rparr>"

definition move_queue_setup :: "nat \<Rightarrow> ('a base_scheme, move_queue_head) op" where
  "move_queue_setup sz =
     bind_op (get_op is_finalized) (\<lambda>fin.
       if sz > 255 \<or> fin then shutdown_op ''Invalid move request size''
       else
         then_op (set_op (\<lambda>s. if sz > unat (move_item_size s) then s\<lparr>move_item_size := of_nat sz\<rparr> else s))
           (ret \<lparr>mq_first = None, mq_last = None\<rparr>))"

definition move_node_at :: "'a base_scheme \<Rightarrow> nat \<Rightarrow> nat" where
  "move_node_at s i = move_list s + i * unat (move_item_size s)"

definition move_link :: "nat \<Rightarrow> ('a base_scheme, unit) op" where
  "move_link i = set_op (\<lambda>s. s\<lparr>mn_next := (mn_next s)(move_node_at s i \<mapsto> move_node_at s (Suc i))\<rparr>)"

definition move_reset :: "('a base_scheme, unit) op" where
  "move_reset =
     bind_op (get_op move_count) (\<lambda>mc.
       if mc = 0 then ret ()
       else
         then_op (each_op move_link [0..<unat mc - 1])
         (then_op (set_op (\<lambda>s. s\<lparr>mn_next := (mn_next s)(move_node_at s (unat mc - 1) := None)\<rparr>))
           (set_op (\<lambda>s. s\<lparr>move_free_list := Some (move_list s)\<rparr>))))"

definition move_finalize :: "('a base_scheme, unit) op" where
  "move_finalize =
     bind_op (get_op is_finalized) (\<lambda>fin.
       if fin then shutdown_op ''Already finalized''
       else
         bind_op (get_op ptr_size) (\<lambda>psz.
         then_op (move_queue_setup psz)
         (bind_op (get_op (\<lambda>s. unat (move_item_size s))) (\<lambda>sz.
          bind_op (alloc_chunks sz 1024) (\<lambda>(data, n).
          then_op (set_op (\<lambda>s. s\<lparr>move_count := n, move_list := data\<rparr>)) move_reset)))))"

subsection \<open>Generic object ids\<close>

definition oid_entry :: "u8 \<Rightarrow> ('a base_scheme, string option \<times> nat) op" where
  "oid_entry i =
     bind_op (get_op oids) (\<lambda>tab.
     bind_op (option_op tab) (\<lambda>xs.
       if unat i < length xs then ret (xs ! unat i) else undef_op))"

definition oid_lookup :: "u8 \<Rightarrow> string \<Rightarrow> ('a base_scheme, nat) op" where
  "oid_lookup i type =
     bind_op (get_op oid_count) (\<lambda>n.
       if i \<ge> n then shutdown_op ''Invalid oid type''
       else
         bind_op (oid_entry i) (\<lambda>(ty, data).
           if ty \<noteq> Some type then shutdown_op ''Invalid oid type'' else ret data))"

definition oid_set :: "u8 \<Rightarrow> string option \<times> nat \<Rightarrow> ('a base_scheme, unit) op" where
  "oid_set i e = set_op (\<lambda>s. s\<lparr>oids := map_option (\<lambda>xs. xs[unat i := e]) (oids s)\<rparr>)"

definition oid_alloc :: "u8 \<Rightarrow> string \<Rightarrow> nat \<Rightarrow> ('a base_scheme, nat) op" where
  "oid_alloc i type sz =
     bind_op (get_op oid_count) (\<lambda>n.
       if i \<ge> n then shutdown_op ''Can't assign oid''
       else
         bind_op (oid_entry i) (\<lambda>(ty, old).
         bind_op (get_op is_finalized) (\<lambda>fin.
           if ty \<noteq> None \<or> fin then shutdown_op ''Can't assign oid''
           else
             then_op (oid_set i (Some type, old))
             (bind_op (alloc_chunk sz) (\<lambda>data.
              then_op (oid_set i (Some type, data)) (ret data))))))"

text \<open>The next object of a type: its oid and data, or \<open>None\<close> at the end of the table.\<close>

function oid_next_loop :: "u8 \<Rightarrow> (string option \<times> nat) list \<Rightarrow> string \<Rightarrow> u8 \<Rightarrow> (u8 \<times> nat) option" where
  "oid_next_loop n xs type i =
     (let i' = i + 1
      in if i' \<ge> n then None
         else if fst (xs ! unat i') = Some type then Some (i', snd (xs ! unat i'))
         else oid_next_loop n xs type i')"
  by pat_completeness auto
termination
proof (relation "measure (\<lambda>(n, xs, type, i). 256 - unat (i + 1))", simp, clarsimp)
  fix n :: u8 and i :: u8
  assume "\<not> n \<le> i + 1"
  then have lt: "unat (i + 1) < unat n" by (simp add: word_le_nat_alt)
  have "unat n < 256" using unsigned_less [of n] by simp
  with lt have "unat (i + 1) + 1 < 256" by simp
  then have "unat (i + 1 + 1) = unat (i + 1) + 1" by (rule unat_u8_add1)
  moreover have "i + 1 + 1 = 2 + i" by simp
  ultimately show "256 - unat (2 + i) < 256 - unat (i + 1)"
    using lt \<open>unat n < 256\<close> by (simp only:)
qed

declare oid_next_loop.simps [simp del]

definition oid_next :: "u8 \<Rightarrow> string \<Rightarrow> 'a base_scheme \<Rightarrow> (u8 \<times> nat) option" where
  "oid_next i type s = oid_next_loop (oid_count s) (case oids s of None \<Rightarrow> [] | Some xs \<Rightarrow> xs) type i"

text \<open>
  \<open>foreach_oid(pos, data, type) f\<close>: it ends at the first null object. The position grows with every
  round, so that 256 rounds are enough.
\<close>

fun foreach_loop :: "nat \<Rightarrow> u8 \<Rightarrow> string \<Rightarrow> (u8 \<Rightarrow> nat \<Rightarrow> ('a base_scheme, unit) op) \<Rightarrow> ('a base_scheme, unit) op" where
  "foreach_loop 0 pos type f = undef_op"
| "foreach_loop (Suc n) pos type f =
     bind_op (get_op (oid_next pos type)) (\<lambda>r.
       case r of
         None \<Rightarrow> ret ()
       | Some (pos', data) \<Rightarrow>
           if data = 0 then ret () else then_op (f pos' data) (foreach_loop n pos' type f))"

definition foreach_oid :: "string \<Rightarrow> (u8 \<Rightarrow> nat \<Rightarrow> ('a base_scheme, unit) op) \<Rightarrow> ('a base_scheme, unit) op" where
  "foreach_oid type f = foreach_loop 256 (- 1) type f"

definition command_allocate_oids :: "u32 list \<Rightarrow> ('a base_scheme, unit) op" where
  "command_allocate_oids args =
     bind_op (get_op oids) (\<lambda>tab.
       if tab \<noteq> None then shutdown_op ''oids already allocated''
       else
         (let count = ucast (args ! 0) :: u8
          in bind_op (get_op ptr_size) (\<lambda>psz.
             then_op (alloc_chunk (2 * psz * unat count))
             (set_op (\<lambda>s. s\<lparr>oids := Some (replicate (unat count) (None, 0)), oid_count := count\<rparr>)))))"

subsection \<open>Config CRC\<close>

definition command_get_config :: "u32 list \<Rightarrow> ('a base_scheme, unit) op" where
  "command_get_config args =
     bind_op (get_op (\<lambda>s. [of_bool (is_finalized s), config_crc s, of_bool (sched_is_shutdown s),
                           ucast (move_count s)])) (\<lambda>vs.
       sendf ''config is_config=%c crc=%u is_shutdown=%c move_count=%hu'' vs)"

definition command_finalize_config :: "u32 list \<Rightarrow> ('a base_scheme, unit) op" where
  "command_finalize_config args =
     then_op move_finalize (set_op (\<lambda>s. s\<lparr>config_crc := args ! 0\<rparr>))"

definition config_reset :: "u32 list \<Rightarrow> ('a base_scheme, unit) op" where
  "config_reset args =
     bind_op (get_op sched_is_shutdown) (\<lambda>sd.
       if \<not> sd then shutdown_op ''config_reset only available when shutdown''
       else
         then_op (set_op (\<lambda>s. s\<lparr>config_crc := 0, oid_count := 0, oids := None, move_free_list := None,
                               move_list := 0, move_count := 0, move_item_size := 0\<rparr>))
         (then_op alloc_init (then_op sched_timer_reset sched_clear_shutdown)))"

subsection \<open>Timing and load stats\<close>

definition command_get_clock :: "u32 list \<Rightarrow> ('a base_scheme, unit) op" where
  "command_get_clock args = bind_op timer_read_time (\<lambda>now. sendf ''clock clock=%u'' [now])"

definition command_get_uptime :: "u32 list \<Rightarrow> ('a base_scheme, unit) op" where
  "command_get_uptime args =
     bind_op timer_read_time (\<lambda>cur.
     bind_op (get_op (\<lambda>s. stats_send_time_high s + of_bool (cur < stats_send_time s))) (\<lambda>high.
       sendf ''uptime high=%u clock=%u'' [high, cur]))"

definition DIV_ROUND_UP :: "u32 \<Rightarrow> u32 \<Rightarrow> u32" where
  "DIV_ROUND_UP n d = (n + d - 1) div d"

definition next_sumsq :: "u32 \<Rightarrow> u32 \<Rightarrow> u32" where
  "next_sumsq sumsq diff =
     (let nextsumsq =
            (if diff \<le> 0xffff then sumsq + DIV_ROUND_UP (diff * diff) 256
             else if diff \<le> 0xfffff then sumsq + DIV_ROUND_UP diff 256 * diff
             else 0xffffffff)
      in if nextsumsq < sumsq then 0xffffffff else nextsumsq)"

definition stats_update :: "u32 \<Rightarrow> u32 \<Rightarrow> ('a base_scheme, unit) op" where
  "stats_update start cur =
     (let diff = cur - start
      in then_op (set_op (\<lambda>s. s\<lparr>stats_count := stats_count s + 1, stats_sum := stats_sum s + diff,
                               stats_sumsq := next_sumsq (stats_sumsq s) diff\<rparr>))
         (bind_op (get_op (\<lambda>s. timer_is_before cur (stats_send_time s + timer_from_us (clock_freq s) 5000000))) (\<lambda>early.
            if early then ret ()
            else
              bind_op (get_op (\<lambda>s. [stats_count s, stats_sum s, stats_sumsq s])) (\<lambda>vs.
              then_op (sendf ''stats count=%u sum=%u sumsq=%u'' vs)
              (set_op (\<lambda>s. s\<lparr>stats_send_time_high :=
                               (if cur < stats_send_time s then stats_send_time_high s + 1
                                else stats_send_time_high s),
                             stats_send_time := cur,
                             stats_count := 0, stats_sum := 0, stats_sumsq := 0\<rparr>))))))"

subsection \<open>Misc commands\<close>

definition command_emergency_stop :: "u32 list \<Rightarrow> ('a base_scheme, unit) op" where
  "command_emergency_stop args = shutdown_op ''Command request''"

definition command_clear_shutdown :: "u32 list \<Rightarrow> ('a base_scheme, unit) op" where
  "command_clear_shutdown args = sched_clear_shutdown"

text \<open>
  \<open>command_identify_data\<close> is generated by the build. The arguments of the response are the offset,
  the length and the bytes sent.
\<close>

definition command_identify :: "u8 list \<Rightarrow> u32 list \<Rightarrow> ('a base_scheme, unit) op" where
  "command_identify identify_data args =
     (let offset = args ! 0;
          count = ucast (args ! 1) :: u8;
          isize = of_nat (length identify_data) :: u32;
          count = (if offset \<ge> isize then 0
                   else if offset + ucast count > isize then ucast (isize - offset)
                   else count)
      in sendf ''identify_response offset=%u data=%.*s''
           (offset # ucast count # map ucast (take (unat count) (drop (unat offset) identify_data))))"

subsection \<open>The contract of a queue\<close>

fun push_many :: "('a \<Rightarrow> 'q \<Rightarrow> ('s, 'q \<times> bool) op) \<Rightarrow> 'a list \<Rightarrow> 'q \<Rightarrow> ('s, 'q) op" where
  "push_many push [] q = ret q"
| "push_many push (x # xs) q = bind_op (push x q) (\<lambda>(q', first). push_many push xs q')"

fun pop_many :: "('q \<Rightarrow> ('s, 'q \<times> 'a) op) \<Rightarrow> nat \<Rightarrow> 'q \<Rightarrow> ('s, 'q \<times> 'a list) op" where
  "pop_many pop 0 q = ret (q, [])"
| "pop_many pop (Suc n) q =
     bind_op (pop q) (\<lambda>(q', x). bind_op (pop_many pop n q') (\<lambda>(q'', xs). ret (q'', x # xs)))"

text \<open>
  A first-in first-out queue of nodes that the client owns: \<open>rep xs q s\<close> says that the queue head \<open>q\<close>
  holds the nodes \<open>xs\<close> in the state \<open>s\<close>.
\<close>

locale fifo =
  fixes rep :: "'a list \<Rightarrow> 'q \<Rightarrow> 's \<Rightarrow> bool"
    and push :: "'a \<Rightarrow> 'q \<Rightarrow> ('s, 'q \<times> bool) op"
    and pop :: "'q \<Rightarrow> ('s, 'q \<times> 'a) op"
    and is_empty :: "'q \<Rightarrow> bool"
  assumes push_law: "\<lbrakk>rep xs q s; x \<notin> set xs\<rbrakk> \<Longrightarrow> \<exists>q' s'. push x q s = Ret (q', xs = []) s' \<and> rep (xs @ [x]) q' s'"
    and pop_law: "rep (x # xs) q s \<Longrightarrow> \<exists>q' s'. pop q s = Ret (q', x) s' \<and> rep xs q' s'"
    and empty_law: "rep xs q s \<Longrightarrow> is_empty q \<longleftrightarrow> xs = []"
begin

lemma push_many_law:
  "\<lbrakk>rep xs q s; distinct (xs @ ys)\<rbrakk> \<Longrightarrow> \<exists>q' s'. push_many push ys q s = Ret q' s' \<and> rep (xs @ ys) q' s'"
proof (induction ys arbitrary: xs q s)
  case Nil
  then show ?case by (simp add: op_simps)
next
  case (Cons y ys)
  then obtain q1 s1 where s1: "push y q s = Ret (q1, xs = []) s1" "rep (xs @ [y]) q1 s1"
    using push_law [of xs q s y] by auto
  with Cons.IH [of "xs @ [y]" q1 s1] Cons.prems show ?case by (auto simp: op_simps)
qed

lemma pop_many_law:
  "rep (xs @ ys) q s \<Longrightarrow> \<exists>q' s'. pop_many pop (length xs) q s = Ret (q', xs) s' \<and> rep ys q' s'"
proof (induction xs arbitrary: q s)
  case Nil
  then show ?case by (simp add: op_simps)
next
  case (Cons x xs)
  then obtain q1 s1 where s1: "pop q s = Ret (q1, x) s1" "rep (xs @ ys) q1 s1"
    using pop_law [of x "xs @ ys" q s] by auto
  with Cons.IH [of q1 s1] show ?case by (auto simp: op_simps)
qed

lemma in_order:
  assumes "rep [] q s" "distinct xs"
  shows "\<exists>q1 s1 q2 s2. push_many push xs q s = Ret q1 s1 \<and> pop_many pop (length xs) q1 s1 = Ret (q2, xs) s2 \<and>
    rep [] q2 s2 \<and> is_empty q2"
proof -
  obtain q1 s1 where "push_many push xs q s = Ret q1 s1" "rep (xs @ []) q1 s1"
    using push_many_law [OF assms(1), of xs] assms(2) by auto
  with pop_many_law [of xs "[]" q1 s1] empty_law show ?thesis by metis
qed

end

subsection \<open>Move queues are queues\<close>

definition node_list :: "(nat \<Rightarrow> nat option) \<Rightarrow> nat option \<Rightarrow> nat list \<Rightarrow> bool" where
  "node_list n first xs \<longleftrightarrow>
     first = (if xs = [] then None else Some (hd xs)) \<and> links n xs \<and> distinct xs \<and>
     (xs \<noteq> [] \<longrightarrow> n (last xs) = None)"

definition mq_rep :: "nat list \<Rightarrow> move_queue_head \<Rightarrow> 'a base_scheme \<Rightarrow> bool" where
  "mq_rep xs mh s \<longleftrightarrow> node_list (mn_next s) (mq_first mh) xs \<and> (xs \<noteq> [] \<longrightarrow> mq_last mh = Some (last xs))"

definition free_rep :: "nat list \<Rightarrow> 'a base_scheme \<Rightarrow> bool" where
  "free_rep xs s \<longleftrightarrow> node_list (mn_next s) (move_free_list s) xs"

lemma node_list_cong: "(\<And>x. x \<in> set xs \<Longrightarrow> n x = m x) \<Longrightarrow> node_list n f xs = node_list m f xs"
  unfolding node_list_def using links_cong [of xs n m] by (auto dest: in_set_butlastD)

lemma node_list_upd: "x \<notin> set xs \<Longrightarrow> node_list (n(x := v)) f xs = node_list n f xs"
  by (rule node_list_cong) auto

lemma node_list_Cons: "node_list n f (x # xs) \<longleftrightarrow> f = Some x \<and> x \<notin> set xs \<and> node_list n (n x) xs"
  by (auto simp: node_list_def links_Cons)

lemma node_list_snoc:
  assumes "node_list n f xs" "m \<notin> set xs" "xs \<noteq> []"
  shows "node_list (n(m := None, last xs := Some m)) f (xs @ [m])"
proof -
  have "last xs \<in> set xs" "distinct (butlast xs @ [last xs])" using assms by (simp_all add: node_list_def)
  then have "last xs \<noteq> m" "last xs \<notin> set (butlast xs)" "m \<notin> set (butlast xs)"
    using assms(2) by (auto dest: in_set_butlastD)
  with assms show ?thesis by (simp add: node_list_def links_append links_upd)
qed

lemma move_queue_push_rep:
  assumes "mq_rep xs mh s" "m \<notin> set xs"
  shows "\<exists>mh' nx. move_queue_push m mh s = Ret (mh', xs = []) (s\<lparr>mn_next := nx\<rparr>) \<and>
    mq_rep (xs @ [m]) mh' (s\<lparr>mn_next := nx\<rparr>) \<and> (\<forall>x. x \<notin> insert m (set xs) \<longrightarrow> nx x = mn_next s x)"
proof (cases "xs = []")
  case True
  with assms show ?thesis
    by (intro exI [of _ "mh\<lparr>mq_first := Some m, mq_last := Some m\<rparr>"] exI [of _ "(mn_next s)(m := None)"])
      (simp add: mq_rep_def node_list_def move_queue_push_def op_simps)
next
  case False
  with assms(1) have "mq_first mh \<noteq> None" "mq_last mh = Some (last xs)" "last xs \<in> set xs"
    by (auto simp: mq_rep_def node_list_def)
  moreover have "node_list ((mn_next s)(m := None, last xs := Some m)) (mq_first mh) (xs @ [m])"
    using assms False by (intro node_list_snoc) (simp_all add: mq_rep_def)
  ultimately show ?thesis
    using assms False
    by (intro exI [of _ "mh\<lparr>mq_last := Some m\<rparr>"] exI [of _ "(mn_next s)(m := None, last xs := Some m)"])
      (auto simp: mq_rep_def move_queue_push_def op_simps)
qed

lemma move_queue_pop_rep:
  assumes "mq_rep (x # xs) mh s"
  shows "\<exists>mh'. move_queue_pop mh s = Ret (mh', x) s \<and> mq_rep xs mh' s"
  using assms by (auto simp: mq_rep_def node_list_Cons move_queue_pop_def op_simps)

interpretation mq: fifo mq_rep move_queue_push move_queue_pop move_queue_empty
proof unfold_locales
  fix xs mh and s :: "'a base_scheme" and x
  assume "mq_rep xs mh s" "x \<notin> set xs"
  from move_queue_push_rep [OF this]
  show "\<exists>q' s'. move_queue_push x mh s = Ret (q', xs = []) s' \<and> mq_rep (xs @ [x]) q' s'" by blast
next
  fix xs mh and s :: "'a base_scheme" and x
  assume "mq_rep (x # xs) mh s"
  from move_queue_pop_rep [OF this]
  show "\<exists>q' s'. move_queue_pop mh s = Ret (q', x) s' \<and> mq_rep xs q' s'" by blast
qed (auto simp: mq_rep_def node_list_def move_queue_empty_def)

text \<open>
  The pool of move nodes: the free nodes and the nodes on the queues of the modules are disjoint.
\<close>

definition pool :: "nat list \<Rightarrow> (move_queue_head \<times> nat list) list \<Rightarrow> 'a base_scheme \<Rightarrow> bool" where
  "pool fs qs s \<longleftrightarrow> free_rep fs s \<and> (\<forall>(mh, xs)\<in>set qs. mq_rep xs mh s) \<and> distinct (fs @ concat (map snd qs))"

lemma move_alloc_free: "free_rep (m # fs) s \<Longrightarrow>
  move_alloc s = Ret m (s\<lparr>move_free_list := mn_next s m\<rparr>) \<and> free_rep fs (s\<lparr>move_free_list := mn_next s m\<rparr>)"
  by (simp add: free_rep_def node_list_Cons move_alloc_def op_simps)

lemma move_alloc_empty: "free_rep [] s \<Longrightarrow> move_alloc s = Shutdown ''Move queue overflow'' s"
  by (simp add: free_rep_def node_list_def move_alloc_def op_simps)

lemma mq_rep_cong:
  "(\<And>x. x \<in> set xs \<Longrightarrow> mn_next s' x = mn_next s x) \<Longrightarrow> mq_rep xs mh s' = mq_rep xs mh s"
  unfolding mq_rep_def using node_list_cong [of xs "mn_next s'" "mn_next s"] by simp

lemma pool_enqueue:
  assumes "pool (m # fs) ((mh, xs) # qs) s"
  shows "\<exists>mh' s'. bind_op move_alloc (\<lambda>m. move_queue_push m mh) s = Ret (mh', xs = []) s' \<and>
    pool fs ((mh', xs @ [m]) # qs) s'"
proof -
  define s1 where "s1 = s\<lparr>move_free_list := mn_next s m\<rparr>"
  have d: "distinct (m # fs @ xs @ concat (map snd qs))" and q: "mq_rep xs mh s"
    and qs: "\<forall>(mh, xs)\<in>set qs. mq_rep xs mh s" and f: "free_rep (m # fs) s"
    using assms by (auto simp: pool_def)
  have alloc: "move_alloc s = Ret m s1" "free_rep fs s1"
    using move_alloc_free [OF f] by (simp_all add: s1_def)
  have "mq_rep xs mh s1" using q by (subst mq_rep_cong [of _ _ s]) (simp_all add: s1_def)
  then obtain mh' nx where push: "move_queue_push m mh s1 = Ret (mh', xs = []) (s1\<lparr>mn_next := nx\<rparr>)"
      "mq_rep (xs @ [m]) mh' (s1\<lparr>mn_next := nx\<rparr>)" "\<forall>x. x \<notin> insert m (set xs) \<longrightarrow> nx x = mn_next s1 x"
    using move_queue_push_rep [of xs mh s1 m] d by auto
  have "free_rep fs (s1\<lparr>mn_next := nx\<rparr>)"
    using alloc(2) push(3) d unfolding free_rep_def
    by (subst node_list_cong [of fs _ "mn_next s1"]) auto
  moreover have "mq_rep ys h (s1\<lparr>mn_next := nx\<rparr>)" if "(h, ys) \<in> set qs" for h ys
  proof -
    have "set ys \<inter> set (m # xs) = {}" using d that by fastforce
    then have "mq_rep ys h (s1\<lparr>mn_next := nx\<rparr>) = mq_rep ys h s"
      using push(3) by (intro mq_rep_cong) (auto simp: s1_def)
    with qs that show ?thesis by auto
  qed
  ultimately have "pool fs ((mh', xs @ [m]) # qs) (s1\<lparr>mn_next := nx\<rparr>)"
    using push(2) d by (auto simp: pool_def)
  with alloc(1) push(1) show ?thesis by (auto simp: op_simps)
qed

lemma pool_dequeue:
  assumes "pool fs ((mh, x # xs) # qs) s"
  shows "\<exists>mh' s'. bind_op (move_queue_pop mh) (\<lambda>(mh', mn). then_op (move_free mn) (ret (mh', mn))) s = Ret (mh', x) s' \<and>
    pool (x # fs) ((mh', xs) # qs) s'"
proof -
  have d: "distinct (fs @ (x # xs) @ concat (map snd qs))" and q: "mq_rep (x # xs) mh s"
    and qs: "\<forall>(mh, xs)\<in>set qs. mq_rep xs mh s" and f: "free_rep fs s"
    using assms by (auto simp: pool_def)
  obtain mh' where pop: "move_queue_pop mh s = Ret (mh', x) s" "mq_rep xs mh' s"
    using move_queue_pop_rep [OF q] by blast
  define s1 where "s1 = s\<lparr>mn_next := (mn_next s)(x := move_free_list s), move_free_list := Some x\<rparr>"
  have "free_rep (x # fs) s1"
    using f d by (auto simp: free_rep_def node_list_Cons s1_def node_list_upd)
  moreover have "mq_rep ys h s1 = mq_rep ys h s" if "x \<notin> set ys" for h ys
    using that by (intro mq_rep_cong) (auto simp: s1_def)
  then have "mq_rep ys h s1" if "(h, ys) \<in> set ((mh', xs) # qs)" for h ys
    using that qs pop(2) d by fastforce
  ultimately have "pool (x # fs) ((mh', xs) # qs) s1"
    using d by (auto simp: pool_def)
  with pop(1) show ?thesis by (auto simp: op_simps move_free_def s1_def)
qed

subsection \<open>The allocator\<close>

lemma align_up_ge: "0 < a \<Longrightarrow> x \<le> align_up x a"
proof -
  assume a: "0 < a"
  have "(x + a - 1) mod a < a" using a by simp
  moreover have "align_up x a + (x + a - 1) mod a = x + a - 1" by (simp add: align_up_def div_mult_mod_eq)
  ultimately show ?thesis by linarith
qed

lemma alloc_chunk_Ret:
  assumes "alloc_chunk n s = Ret d s'"
  shows "d = alloc_end s \<and> d + n \<le> dyn_end s \<and> s' = s\<lparr>alloc_end := alloc_end s + align_up n (ptr_align s)\<rparr>"
  using assms by (auto simp: alloc_chunk_def op_simps split: if_splits)

lemma alloc_chunk_fits:
  "alloc_end s + n \<le> dyn_end s \<Longrightarrow>
   alloc_chunk n s = Ret (alloc_end s) (s\<lparr>alloc_end := alloc_end s + align_up n (ptr_align s)\<rparr>)"
  by (simp add: alloc_chunk_def op_simps)

lemma alloc_fit_spec:
  assumes "alloc_fit left sz pend c p = (c', p')"
  shows "\<exists>k\<le>left. c' = c + k \<and> p' = p + k * sz \<and> (0 < k \<longrightarrow> p' \<le> pend) \<and> (k = left \<or> pend < p' + sz)"
  using assms
proof (induction left arbitrary: c p)
  case (Suc left)
  show ?case
  proof (cases "p + sz \<le> pend")
    case True
    with Suc.IH [of "Suc c" "p + sz"] Suc.prems obtain k where
      "k \<le> left" "c' = Suc c + k" "p' = p + sz + k * sz" "0 < k \<longrightarrow> p' \<le> pend" "k = left \<or> pend < p' + sz"
      by auto
    with True show ?thesis by (intro exI [of _ "Suc k"]) auto
  next
    case False
    with Suc.prems show ?thesis by (intro exI [of _ 0]) auto
  qed
qed simp

subsection \<open>Building the pool of move nodes\<close>

lemma links_nth: "links n xs \<longleftrightarrow> (\<forall>i. Suc i < length xs \<longrightarrow> n (xs ! i) = Some (xs ! Suc i))"
proof (induction n xs rule: links.induct)
  case (3 n x y zs)
  show ?case
    unfolding links.simps 3 by (auto simp: nth_Cons' less_Suc_eq_0_disj)
qed simp_all

lemma each_op_snoc: "each_op f (xs @ [x]) s = then_op (each_op f xs) (f x) s"
proof (induction xs arbitrary: s)
  case Nil
  show ?case by (cases "f x s") (simp_all add: op_simps)
next
  case (Cons y xs)
  show ?case by (cases "f y s") (simp_all add: op_simps Cons.IH)
qed

lemma move_node_at_next [simp]: "move_node_at (s\<lparr>mn_next := nx\<rparr>) = move_node_at s"
  by (rule ext) (simp add: move_node_at_def)

lemma move_node_at_inj: "0 < move_item_size s \<Longrightarrow> move_node_at s i = move_node_at s j \<longleftrightarrow> i = j"
  by (simp add: move_node_at_def word_less_nat_alt)

lemma move_link_app:
  "move_link i s = Ret () (s\<lparr>mn_next := (mn_next s)(move_node_at s i \<mapsto> move_node_at s (Suc i))\<rparr>)"
  by (simp add: move_link_def op_simps)

lemma move_reset_loop:
  assumes "0 < move_item_size s"
  shows "\<exists>nx. each_op move_link [0..<k] s
      = Ret () (s\<lparr>mn_next := nx\<rparr>) \<and> (\<forall>i<k. nx (move_node_at s i) = Some (move_node_at s (Suc i)))"
proof (induction k)
  case 0
  show ?case by (intro exI [of _ "mn_next s"]) (simp add: op_simps)
next
  case (Suc k)
  then obtain nx where nx: "each_op move_link [0..<k] s
      = Ret () (s\<lparr>mn_next := nx\<rparr>)" "\<forall>i<k. nx (move_node_at s i) = Some (move_node_at s (Suc i))" by blast
  from nx(1) have "each_op move_link [0..<Suc k] s = move_link k (s\<lparr>mn_next := nx\<rparr>)"
    by (simp only: upt_Suc_append le0 each_op_snoc then_op_app outcome.case)
  also have "\<dots> = Ret () (s\<lparr>mn_next := nx(move_node_at s k \<mapsto> move_node_at s (Suc k))\<rparr>)"
    by (simp add: move_link_app)
  finally show ?case
    using nx assms by (auto simp: move_node_at_inj less_Suc_eq)
qed

lemma move_reset_free:
  assumes "0 < move_item_size s" "move_count s \<noteq> 0"
  shows "\<exists>nx. move_reset s = Ret () (s\<lparr>mn_next := nx, move_free_list := Some (move_list s)\<rparr>) \<and>
    free_rep (map (move_node_at s) [0..<unat (move_count s)]) (s\<lparr>mn_next := nx, move_free_list := Some (move_list s)\<rparr>)"
proof -
  let ?n = "unat (move_count s)"
  have n: "0 < ?n" using assms(2) by (simp add: unat_gt_0)
  obtain nx where nx: "each_op move_link [0..<?n - 1] s
      = Ret () (s\<lparr>mn_next := nx\<rparr>)" "\<forall>i<?n - 1. nx (move_node_at s i) = Some (move_node_at s (Suc i))"
    using move_reset_loop [OF assms(1)] by blast
  define nx' where "nx' = nx(move_node_at s (?n - 1) := None)"
  have run: "move_reset s = Ret () (s\<lparr>mn_next := nx', move_free_list := Some (move_list s)\<rparr>)"
    using nx(1) assms(2) by (simp add: move_reset_def op_simps nx'_def)
  have "links nx' (map (move_node_at s) [0..<?n])"
    unfolding links_nth using nx(2) assms(1) by (auto simp: nx'_def move_node_at_inj)
  moreover have "distinct (map (move_node_at s) [0..<?n])"
    using assms(1) by (auto simp: distinct_map inj_on_def move_node_at_inj)
  moreover have "move_list s = hd (map (move_node_at s) [0..<?n])"
    using n by (simp add: hd_map move_node_at_def)
  moreover have "nx' (last (map (move_node_at s) [0..<?n])) = None"
    using n by (simp add: last_map nx'_def)
  ultimately have "node_list nx' (Some (move_list s)) (map (move_node_at s) [0..<?n])"
    using n by (simp add: node_list_def)
  with run show ?thesis by (intro exI [of _ nx']) (simp add: free_rep_def)
qed

lemma move_finalize_ok:
  assumes fin: "\<not> is_finalized s" and ps: "0 < ptr_size s" "ptr_size s \<le> 255" and al: "0 < ptr_align s"
    and sz: "sz = max (unat (move_item_size s)) (ptr_size s)" and room: "alloc_end s + sz \<le> dyn_end s"
  shows "\<exists>s' n. move_finalize s = Ret () s' \<and> 0 < n \<and> n \<le> 1024 \<and> unat (move_count s') = n \<and>
    free_rep (map (\<lambda>i. alloc_end s + i * sz) [0..<n]) s' \<and>
    alloc_end s + n * sz \<le> dyn_end s \<and> alloc_end s + n * sz \<le> alloc_end s' \<and>
    (n = 1024 \<or> dyn_end s < alloc_end s + Suc n * sz)"
proof -
  have szb: "0 < sz" "sz < 256" using ps sz unsigned_less [of "move_item_size s"] by auto
  define s1 where "s1 = s\<lparr>move_item_size := of_nat sz\<rparr>"
  have it: "unat (move_item_size s1) = sz" using szb by (simp add: s1_def unat_of_nat_u8)
  have mqs: "move_queue_setup (ptr_size s) s = Ret \<lparr>mq_first = None, mq_last = None\<rparr> s1"
    using fin ps sz by (auto simp: move_queue_setup_def op_simps s1_def max_def)
  obtain n p where fit: "alloc_fit 1024 sz (dyn_end s) 0 (alloc_end s) = (n, p)" by fastforce
  from alloc_fit_spec [OF fit] have n: "n \<le> 1024" "p = alloc_end s + n * sz" "0 < n \<longrightarrow> p \<le> dyn_end s"
    "n = 1024 \<or> dyn_end s < p + sz" by auto
  have n0: "0 < n" using n room by (cases n) auto
  define s2 where "s2 = s1\<lparr>alloc_end := alloc_end s + align_up (n * sz) (ptr_align s)\<rparr>"
  have al2: "alloc_chunks sz 1024 s1 = Ret (alloc_end s, of_nat n) s2"
    using fit n n0 alloc_chunk_fits [of s1 "n * sz"]
    by (simp add: alloc_chunks_def op_simps s1_def s2_def)
  define s3 where "s3 = s2\<lparr>move_count := of_nat n, move_list := alloc_end s\<rparr>"
  have mc: "unat (move_count s3) = n" using n by (simp add: s3_def unat_of_nat)
  have "0 < move_item_size s3" "move_count s3 \<noteq> 0" "unat (move_item_size s3) = sz"
    using it szb mc n0 by (auto simp: s3_def s2_def word_less_nat_alt)
  from move_reset_free [OF this(1,2)] obtain nx where
    reset: "move_reset s3 = Ret () (s3\<lparr>mn_next := nx, move_free_list := Some (move_list s3)\<rparr>)"
    "free_rep (map (move_node_at s3) [0..<n]) (s3\<lparr>mn_next := nx, move_free_list := Some (move_list s3)\<rparr>)"
    using mc by auto
  let ?s = "s3\<lparr>mn_next := nx, move_free_list := Some (move_list s3)\<rparr>"
  have "move_finalize s = Ret () ?s"
    using fin mqs al2 reset(1) it by (simp add: move_finalize_def op_simps s3_def)
  moreover have "move_node_at s3 = (\<lambda>i. alloc_end s + i * sz)"
    using \<open>unat (move_item_size s3) = sz\<close> by (auto simp: move_node_at_def s3_def)
  moreover have "n * sz \<le> align_up (n * sz) (ptr_align s)" using al by (rule align_up_ge)
  ultimately show ?thesis
    using n n0 mc reset(2) by (intro exI [of _ ?s] exI [of _ n]) (auto simp: s3_def s2_def)
qed

subsection \<open>Object ids\<close>

definition oids_ok :: "'a base_scheme \<Rightarrow> bool" where
  "oids_ok s \<longleftrightarrow> (case oids s of None \<Rightarrow> oid_count s = 0 | Some xs \<Rightarrow> length xs = unat (oid_count s))"

lemma oid_lookup_eq:
  assumes "oids_ok s"
  shows "oid_lookup i ty s =
    (if i < oid_count s \<and> fst (the (oids s) ! unat i) = Some ty then Ret (snd (the (oids s) ! unat i)) s
     else Shutdown ''Invalid oid type'' s)"
proof (cases "i < oid_count s")
  case True
  with assms obtain xs where "oids s = Some xs" "unat i < length xs"
    by (cases "oids s") (auto simp: oids_ok_def word_less_nat_alt)
  moreover have "\<not> oid_count s \<le> i" using True by (simp add: not_le)
  ultimately show ?thesis
    using True by (auto simp: oid_lookup_def oid_entry_def op_simps split: prod.splits)
next
  case False
  then have "oid_count s \<le> i" by (simp add: not_less)
  then show ?thesis using False by (simp add: oid_lookup_def op_simps)
qed

lemma oid_alloc_eq:
  assumes "oids_ok s"
  shows "oid_alloc i ty sz s =
    (if \<not> (i < oid_count s \<and> fst (the (oids s) ! unat i) = None \<and> \<not> is_finalized s)
     then Shutdown ''Can't assign oid'' s
     else if alloc_end s + sz \<le> dyn_end s
     then Ret (alloc_end s) (s\<lparr>oids := Some ((the (oids s))[unat i := (Some ty, alloc_end s)]),
                              alloc_end := alloc_end s + align_up sz (ptr_align s)\<rparr>)
     else Shutdown ''alloc_chunk failed''
            (s\<lparr>oids := Some ((the (oids s))[unat i := (Some ty, snd (the (oids s) ! unat i))])\<rparr>))"
proof (cases "i < oid_count s")
  case True
  with assms obtain xs where xs: "oids s = Some xs" "unat i < length xs"
    by (cases "oids s") (auto simp: oids_ok_def word_less_nat_alt)
  obtain t0 d0 where e: "xs ! unat i = (t0, d0)" by fastforce
  moreover have "\<not> oid_count s \<le> i" using True by (simp add: not_le)
  ultimately show ?thesis
    using True xs by (simp add: oid_alloc_def oid_entry_def oid_set_def alloc_chunk_def op_simps)
next
  case False
  then have "oid_count s \<le> i" by (simp add: not_less)
  then show ?thesis using False by (simp add: oid_alloc_def op_simps)
qed

text \<open>An object never overlaps memory that was handed out before.\<close>

definition oid_blocks_ok :: "'a base_scheme \<Rightarrow> bool" where
  "oid_blocks_ok s \<longleftrightarrow>
     oids_ok s \<and> (\<forall>i < unat (oid_count s). \<forall>ty d. the (oids s) ! i = (Some ty, d) \<longrightarrow> d + sizeof_type s ty \<le> alloc_end s) \<and>
     (\<forall>i < unat (oid_count s). \<forall>j < unat (oid_count s). \<forall>ty d ty' d'. i \<noteq> j \<and>
        the (oids s) ! i = (Some ty, d) \<and> the (oids s) ! j = (Some ty', d') \<longrightarrow>
        d + sizeof_type s ty \<le> d' \<or> d' + sizeof_type s ty' \<le> d)"

lemma oid_alloc_blocks:
  assumes ok: "oid_blocks_ok s" and al: "0 < ptr_align s"
    and run: "oid_alloc i ty (sizeof_type s ty) s = Ret d s'"
  shows "oid_blocks_ok s' \<and> oid_lookup i ty s' = Ret d s' \<and> d + sizeof_type s ty \<le> dyn_end s \<and>
    (\<forall>j ty'. j \<noteq> i \<and> (\<exists>d'. oid_lookup j ty' s = Ret d' s) \<longrightarrow>
       (\<exists>d'. oid_lookup j ty' s = Ret d' s \<and> oid_lookup j ty' s' = Ret d' s'))"
proof -
  have ok': "oids_ok s" using ok by (simp add: oid_blocks_ok_def)
  note run' = run [unfolded oid_alloc_eq [OF ok']]
  from run' have i: "i < oid_count s" and d: "d = alloc_end s" "d + sizeof_type s ty \<le> dyn_end s"
    and s': "s' = s\<lparr>oids := Some ((the (oids s))[unat i := (Some ty, d)]),
                    alloc_end := d + align_up (sizeof_type s ty) (ptr_align s)\<rparr>"
    by (auto split: if_splits)
  have len: "unat i < length (the (oids s))" "length (the (oids s)) = unat (oid_count s)"
    using ok' i by (cases "oids s"; auto simp: oids_ok_def word_less_nat_alt)+
  then have ok2: "oids_ok s'" by (simp add: oids_ok_def s')
  have ge: "sizeof_type s ty \<le> align_up (sizeof_type s ty) (ptr_align s)" using al by (rule align_up_ge)
  have old: "d0 + sizeof_type s t0 \<le> d" if "j < unat (oid_count s)" "the (oids s) ! j = (Some t0, d0)" for j t0 d0
    using ok that d(1) unfolding oid_blocks_ok_def by blast
  have ent: "the (oids s') ! j = (if j = unat i then (Some ty, d) else the (oids s) ! j)"
    if "j < unat (oid_count s)" for j using that len by (simp add: s' nth_list_update)
  have fields: "oid_count s' = oid_count s" "sizeof_type s' = sizeof_type s" "d + sizeof_type s ty \<le> alloc_end s'"
    using ge by (simp_all add: s')
  have "d0 + sizeof_type s t0 \<le> alloc_end s'" if "j < unat (oid_count s)" "the (oids s') ! j = (Some t0, d0)" for j t0 d0
    using that ent [of j] old [of j t0 d0] fields(3) by (auto split: if_splits)
  moreover have "d0 + sizeof_type s t0 \<le> d1 \<or> d1 + sizeof_type s t1 \<le> d0"
    if jk: "j < unat (oid_count s)" "k < unat (oid_count s)" "j \<noteq> k"
      and e: "the (oids s') ! j = (Some t0, d0)" "the (oids s') ! k = (Some t1, d1)" for j k t0 d0 t1 d1
  proof (cases "j = unat i \<or> k = unat i")
    case True
    then show ?thesis
      using jk e ent [of j] ent [of k] old [of j t0 d0] old [of k t1 d1] by (auto split: if_splits)
  next
    case False
    then show ?thesis using jk e ent [of j] ent [of k] ok unfolding oid_blocks_ok_def by auto
  qed
  ultimately have "oid_blocks_ok s'"
    unfolding oid_blocks_ok_def fields using ok2 by blast
  moreover have "oid_lookup i ty s' = Ret d s'"
    using i len unfolding oid_lookup_eq [OF ok2] by (simp add: s')
  moreover have "oid_lookup j t s' = Ret d' s'" if "oid_lookup j t s = Ret d' s" "j \<noteq> i" for j t d'
  proof -
    have "unat i \<noteq> unat j" using that(2) by (metis unsigned_word_eqI)
    with that len show ?thesis
      unfolding oid_lookup_eq [OF ok2] oid_lookup_eq [OF ok'] by (auto simp: s' split: if_splits)
  qed
  ultimately show ?thesis using d(2) by blast
qed

subsection \<open>Statistics\<close>

lemma unat_DIV_ROUND_UP: "unat n + 255 < 2 ^ 32 \<Longrightarrow> unat (DIV_ROUND_UP n 256) = (unat n + 255) div 256"
proof -
  assume a: "unat n + 255 < 2 ^ 32"
  have "n + 256 - 1 = n + 255" by simp
  moreover have "unat (n + 255) = unat n + 255" using a by (simp add: unat_word_ariths)
  ultimately show ?thesis unfolding DIV_ROUND_UP_def by (simp only: unat_div_distrib) simp
qed

lemma unat_mult_small: "unat (a :: u32) * unat b < 2 ^ 32 \<Longrightarrow> unat (a * b) = unat a * unat b"
  by (simp add: unat_word_ariths)

lemma saturating_add:
  "unat (if q + x < q then 0xffffffff else q + x) = min (2 ^ 32 - 1) (unat (q :: u32) + unat x)"
proof -
  have b: "unat q < 2 ^ 32" "unat x < 2 ^ 32" using unsigned_less [of q] unsigned_less [of x] by simp_all
  show ?thesis
  proof (cases "unat q + unat x < 2 ^ 32")
    case True
    then have "unat (q + x) = unat q + unat x" by (simp add: unat_word_ariths)
    with True show ?thesis by (simp add: word_less_nat_alt)
  next
    case False
    with b have "unat (q + x) = unat q + unat x - 2 ^ 32" by (simp add: unat_word_ariths mod_if)
    with False b show ?thesis by (simp add: word_less_nat_alt)
  qed
qed

lemma next_sumsq_short:
  assumes "diff \<le> 0xffff"
  shows "unat (next_sumsq q diff) = min (2 ^ 32 - 1) (unat q + (unat diff * unat diff + 255) div 256)"
proof -
  have d: "unat diff \<le> 0xffff" using assms by (simp add: word_le_nat_alt)
  then have m: "unat diff * unat diff \<le> 0xffff * 0xffff" by (intro mult_mono) auto
  then have "unat (diff * diff) = unat diff * unat diff" by (intro unat_mult_small) simp
  moreover from this m have "unat (DIV_ROUND_UP (diff * diff) 256) = (unat (diff * diff) + 255) div 256"
    by (intro unat_DIV_ROUND_UP) simp
  ultimately show ?thesis
    using assms saturating_add [of q "DIV_ROUND_UP (diff * diff) 256"]
    by (simp only: next_sumsq_def Let_def if_True)
qed

lemma next_sumsq_long:
  assumes "0xffff < diff" "diff \<le> 0xfffff"
  shows "unat (next_sumsq q diff) = min (2 ^ 32 - 1) (unat q + (unat diff + 255) div 256 * unat diff)"
proof -
  have d: "unat diff \<le> 0xfffff" using assms by (simp add: word_le_nat_alt)
  then have u: "unat (DIV_ROUND_UP diff 256) = (unat diff + 255) div 256" by (intro unat_DIV_ROUND_UP) simp
  have "(unat diff + 255) div 256 \<le> (0xfffff + 255) div 256" using d by (intro div_le_mono) simp
  then have "(unat diff + 255) div 256 * unat diff \<le> (0xfffff + 255) div 256 * 0xfffff" using d by (rule mult_mono) auto
  then have "unat (DIV_ROUND_UP diff 256 * diff) = (unat diff + 255) div 256 * unat diff"
    unfolding u [symmetric] by (intro unat_mult_small) simp
  moreover have "\<not> diff \<le> 0xffff" using assms(1) by simp
  ultimately show ?thesis
    using assms(2) saturating_add [of q "DIV_ROUND_UP diff 256 * diff"]
    by (simp only: next_sumsq_def Let_def if_True if_False)
qed

subsection \<open>The objects of a type\<close>

text \<open>The ids of the objects of a type, from id \<open>p\<close> on, in the order of the table.\<close>

definition oid_ids :: "nat \<Rightarrow> string \<Rightarrow> 'a base_scheme \<Rightarrow> nat list" where
  "oid_ids p ty s = filter (\<lambda>k. fst (the (oids s) ! k) = Some ty) [p..<unat (oid_count s)]"

definition oid_objs :: "string \<Rightarrow> 'a base_scheme \<Rightarrow> (u8 \<times> nat) list" where
  "oid_objs ty s = map (\<lambda>k. (of_nat k, snd (the (oids s) ! k))) (oid_ids 0 ty s)"

lemma oid_ids_Cons:
  assumes "oid_ids p ty s = k # ks"
  shows "ks = oid_ids (Suc k) ty s" "k < unat (oid_count s)" "p \<le> k"
proof -
  let ?P = "\<lambda>k. fst (the (oids s) ! k) = Some ty"
  obtain us vs where uv: "[p..<unat (oid_count s)] = us @ k # vs" "\<forall>u\<in>set us. \<not> ?P u" "?P k" "ks = filter ?P vs"
    using filter_eq_Cons_iff [of ?P] assms unfolding oid_ids_def by blast
  then have "k = p + length us" "length us < unat (oid_count s) - p"
    by (metis add_diff_cancel_left' length_append length_Cons length_upt less_add_Suc1 add_Suc_right
        nth_append_length nth_upt add.commute less_diff_conv)+
  moreover have "vs = drop (Suc (length us)) [p..<unat (oid_count s)]" using uv(1) by simp
  ultimately show "ks = oid_ids (Suc k) ty s" "k < unat (oid_count s)" "p \<le> k"
    using uv(4) by (simp_all add: oid_ids_def)
qed

lemma oid_next_ids:
  "p \<le> unat (oid_count s) \<Longrightarrow> oids s = Some xs \<Longrightarrow>
   oid_next (of_nat p - 1) ty s =
     (case oid_ids p ty s of [] \<Rightarrow> None | k # _ \<Rightarrow> Some (of_nat k, snd (xs ! k)))"
proof (induction "unat (oid_count s) - p" arbitrary: p)
  case 0
  then have "p = unat (oid_count s)" by simp
  then show ?case by (simp add: oid_next_def oid_ids_def oid_next_loop.simps)
next
  case (Suc n)
  have lt: "p < unat (oid_count s)" using Suc(2) by simp
  then have p: "unat (of_nat p :: u8) = p" using unsigned_less [where ?'a = nat, of "oid_count s"]
    by (intro unat_of_nat_u8) simp
  with lt have le: "\<not> oid_count s \<le> of_nat p" by (simp add: word_le_nat_alt)
  have up: "[p..<unat (oid_count s)] = p # [Suc p..<unat (oid_count s)]" using lt by (rule upt_conv_Cons)
  show ?case
  proof (cases "fst (xs ! p) = Some ty")
    case True
    then show ?thesis
      using Suc.prems(2) p le up by (simp add: oid_next_def oid_ids_def oid_next_loop.simps Let_def)
  next
    case False
    have "oid_next (of_nat p - 1) ty s = oid_next (of_nat (Suc p) - 1) ty s"
      using Suc.prems(2) p le False by (simp add: oid_next_def oid_next_loop.simps [of _ _ _ "of_nat p - 1"] Let_def)
    moreover have "oid_ids p ty s = oid_ids (Suc p) ty s"
      using Suc.prems(2) up False by (simp add: oid_ids_def)
    ultimately show ?thesis using Suc(1) [of "Suc p"] Suc(2) lt Suc.prems(2) by simp
  qed
qed

lemma foreach_loop_ids:
  assumes f: "\<And>i d t. \<exists>t'. f i d t = Ret () t' \<and> oids t' = oids t \<and> oid_count t' = oid_count t"
    and tab: "oids s = Some xs" "\<forall>k < unat (oid_count s). fst (xs ! k) = Some ty \<longrightarrow> snd (xs ! k) \<noteq> 0"
  shows "\<lbrakk>p \<le> unat (oid_count s); unat (oid_count s) - p < n\<rbrakk> \<Longrightarrow>
    foreach_loop n (of_nat p - 1) ty f s =
      each_op (\<lambda>(i, d). f i d) (map (\<lambda>k. (of_nat k, snd (xs ! k))) (oid_ids p ty s)) s"
  using tab
proof (induction n arbitrary: p s)
  case 0
  then show ?case by simp
next
  case (Suc n)
  show ?case
  proof (cases "oid_ids p ty s")
    case Nil
    then show ?thesis using Suc.prems by (simp add: op_simps oid_next_ids)
  next
    case (Cons k ks)
    from oid_ids_Cons [OF Cons] have k: "ks = oid_ids (Suc k) ty s" "k < unat (oid_count s)" "p \<le> k" .
    have "fst (xs ! k) = Some ty"
    proof -
      have "k \<in> set (oid_ids p ty s)" using Cons by simp
      with Suc.prems(3) show ?thesis by (simp add: oid_ids_def)
    qed
    with k Suc.prems(4) have nz: "snd (xs ! k) \<noteq> 0" by simp
    obtain t where t: "f (of_nat k) (snd (xs ! k)) s = Ret () t" "oids t = oids s" "oid_count t = oid_count s"
      using f by blast
    have "foreach_loop n (of_nat (Suc k) - 1) ty f t =
        each_op (\<lambda>(i, d). f i d) (map (\<lambda>k. (of_nat k, snd (xs ! k))) (oid_ids (Suc k) ty t)) t"
      using Suc.prems k t by (intro Suc.IH) auto
    moreover have "oid_ids (Suc k) ty t = ks" using t k(1) by (simp add: oid_ids_def)
    ultimately show ?thesis
      using Suc.prems Cons nz t(1) by (simp add: op_simps oid_next_ids)
  qed
qed

text \<open>A \<open>foreach_oid\<close> whose body keeps the table visits the objects of the type one after the other.\<close>

lemma foreach_oid_each:
  assumes "\<And>i d t. \<exists>t'. f i d t = Ret () t' \<and> oids t' = oids t \<and> oid_count t' = oid_count t"
    and "oids s = Some xs" "\<forall>k < unat (oid_count s). fst (xs ! k) = Some ty \<longrightarrow> snd (xs ! k) \<noteq> 0"
  shows "foreach_oid ty f s = each_op (\<lambda>(i, d). f i d) (oid_objs ty s) s"
  using foreach_loop_ids [where f = f, OF assms(1) assms(2,3), of 0 256] assms(2) unsigned_less [where ?'a = nat, of "oid_count s"]
  by (simp add: foreach_oid_def oid_objs_def)

subsection \<open>Properties\<close>

text \<open>A configured-memory example: 64 bytes of pool, pointers of four bytes.\<close>

definition example_base :: base where
  "example_base =
     \<lparr>clock_freq = 1000000, static_id = (\<lambda>_. 7), hw_clock = (\<lambda>_. 1000), clock_reads = 0,
      pin_in = (\<lambda>_. False), pin_reads = 0, pin_out = (\<lambda>_. False), pwm_out = (\<lambda>_. 0), sent = [],
      kicks = 0, t_next = (\<lambda>_. None), t_func = (\<lambda>_. Null_func), t_wake = (\<lambda>_. 0),
      timer_list = Periodic_timer, last_insert = Periodic_timer, tasks_status = 0,
      shutdown_status = 0, shutdown_reason = [], task_wake = (\<lambda>_. False), timer_repeat_until = 0,
      dyn_start = 100, dyn_end = 164, ptr_align = 4, ptr_size = 4, sizeof_type = (\<lambda>_. 10),
      alloc_end = 100, mn_next = (\<lambda>_. None), move_free_list = None, move_list = 0, move_count = 0,
      move_item_size = 12, oids = Some [(None, 0), (None, 0)], oid_count = 2, config_crc = 0,
      stats_send_time = 0, stats_send_time_high = 0, stats_count = 0, stats_sum = 0, stats_sumsq = 0\<rparr>"

text \<open>
  C32: Move nodes are never shared. From a state in which the free nodes and the nodes on the queues
  are disjoint, allocating a node and pushing it onto a queue appends the first free node to that
  queue (reporting whether it was empty), popping a node and freeing it returns the oldest node
  of the queue to the free list, the other queues are untouched, and the nodes stay disjoint.
\<close>

theorem move_pool_conserved:
  "(pool (m # fs) ((mh, xs) # qs) s \<longrightarrow>
      (\<exists>mh' s'. bind_op move_alloc (\<lambda>m. move_queue_push m mh) s = Ret (mh', xs = []) s' \<and>
         pool fs ((mh', xs @ [m]) # qs) s')) \<and>
   (pool fs ((mh, x # xs) # qs) s \<longrightarrow>
      (\<exists>mh' s'. bind_op (move_queue_pop mh) (\<lambda>(mh', mn). then_op (move_free mn) (ret (mh', mn))) s
           = Ret (mh', x) s' \<and> pool (x # fs) ((mh', xs) # qs) s'))"
  using pool_enqueue pool_dequeue by blast

theorem move_pool_conserved_witness:
  "\<exists>mh' s'. bind_op move_alloc (\<lambda>m. move_queue_push m \<lparr>mq_first = None, mq_last = None\<rparr>)
       (example_base\<lparr>move_free_list := Some 8\<rparr>) = Ret (mh', True) s' \<and> pool [] [(mh', [8])] s'"
proof -
  have "pool [8] [(\<lparr>mq_first = None, mq_last = None\<rparr>, [])] (example_base\<lparr>move_free_list := Some 8\<rparr>)"
    by (simp add: pool_def free_rep_def mq_rep_def node_list_def example_base_def)
  with move_pool_conserved [of 8 "[]" "\<lparr>mq_first = None, mq_last = None\<rparr>" "[]" "[]"
      "example_base\<lparr>move_free_list := Some 8\<rparr>" 0]
  show ?thesis by simp
qed

text \<open>
  A move queue hands its nodes out in the order in which they were pushed and is empty afterwards.
\<close>

theorem move_queue_in_order:
  assumes "mq_rep [] mh s" "distinct xs"
  shows "\<exists>mh1 s1 mh2 s2. push_many move_queue_push xs mh s = Ret mh1 s1 \<and>
    pop_many move_queue_pop (length xs) mh1 s1 = Ret (mh2, xs) s2 \<and> move_queue_empty mh2"
  using mq.in_order [OF assms] by blast

theorem move_queue_in_order_witness:
  "\<exists>mh1 s1 mh2 s2. push_many move_queue_push [3, 1, 2] \<lparr>mq_first = None, mq_last = Some 9\<rparr> example_base = Ret mh1 s1 \<and>
    pop_many move_queue_pop 3 mh1 s1 = Ret (mh2, [3, 1, 2]) s2 \<and> move_queue_empty mh2"
  using move_queue_in_order [of "\<lparr>mq_first = None, mq_last = Some 9\<rparr>" example_base "[3, 1, 2]"]
  by (simp add: mq_rep_def node_list_def numeral_3_eq_3)

text \<open>
  Finalizing the configuration turns the memory that is left into as many move nodes as fit, at
  most 1024, all free, disjoint and inside the dynamic memory.
\<close>

theorem move_finalize_builds_pool:
  assumes "\<not> is_finalized s" "0 < ptr_size s" "ptr_size s \<le> 255" "0 < ptr_align s"
    and "sz = max (unat (move_item_size s)) (ptr_size s)" "alloc_end s + sz \<le> dyn_end s"
  shows "\<exists>s' n. move_finalize s = Ret () s' \<and> 0 < n \<and> n \<le> 1024 \<and> unat (move_count s') = n \<and>
    free_rep (map (\<lambda>i. alloc_end s + i * sz) [0..<n]) s' \<and>
    alloc_end s + n * sz \<le> dyn_end s \<and> alloc_end s + n * sz \<le> alloc_end s' \<and>
    (n = 1024 \<or> dyn_end s < alloc_end s + Suc n * sz)"
  by (rule move_finalize_ok [OF assms])

theorem move_finalize_builds_pool_witness:
  "\<exists>s' n. move_finalize example_base = Ret () s' \<and> unat (move_count s') = n \<and> 100 + n * 12 \<le> 164 \<and>
    164 < 100 + Suc n * 12 \<and> free_rep (map (\<lambda>i. 100 + i * 12) [0..<n]) s'"
proof -
  have "\<exists>s' n. move_finalize example_base = Ret () s' \<and> 0 < n \<and> n \<le> 1024 \<and> unat (move_count s') = n \<and>
    free_rep (map (\<lambda>i. 100 + i * 12) [0..<n]) s' \<and>
    100 + n * 12 \<le> 164 \<and> 100 + n * 12 \<le> alloc_end s' \<and> (n = 1024 \<or> 164 < 100 + Suc n * 12)"
    using move_finalize_builds_pool [of example_base 12] by (simp add: example_base_def is_finalized_def)
  then obtain s' n where s': "move_finalize example_base = Ret () s'" "unat (move_count s') = n"
      "free_rep (map (\<lambda>i. 100 + i * 12) [0..<n]) s'" "100 + n * 12 \<le> 164" "n = 1024 \<or> 164 < 100 + Suc n * 12"
    by blast
  then have "164 < 100 + Suc n * 12" by auto
  with s' show ?thesis by blast
qed

text \<open>
  Allocating an object id gives memory that lies inside the dynamic memory and overlaps no object
  allocated before; afterwards the id looks up to that memory under its own type, and every other
  id looks up as before.
\<close>

theorem oid_alloc_fresh:
  assumes "oid_blocks_ok s" "0 < ptr_align s" "oid_alloc i ty (sizeof_type s ty) s = Ret d s'"
  shows "oid_blocks_ok s' \<and> oid_lookup i ty s' = Ret d s' \<and> d + sizeof_type s ty \<le> dyn_end s \<and>
    (\<forall>j ty'. j \<noteq> i \<and> (\<exists>d'. oid_lookup j ty' s = Ret d' s) \<longrightarrow>
       (\<exists>d'. oid_lookup j ty' s = Ret d' s \<and> oid_lookup j ty' s' = Ret d' s'))"
  by (rule oid_alloc_blocks [OF assms])

theorem oid_alloc_fresh_witness:
  "\<exists>s'. oid_alloc 1 ''command_config_stepper'' 10 example_base = Ret 100 s' \<and>
     oid_lookup 1 ''command_config_stepper'' s' = Ret 100 s'"
proof -
  have ok: "oids_ok example_base" by (simp add: oids_ok_def example_base_def)
  moreover have "the (oids example_base) ! i = (None, 0)" if "i < 2" for i
    using that by (auto simp: example_base_def less_2_cases_iff)
  ultimately have "oid_blocks_ok example_base"
    by (simp add: oid_blocks_ok_def example_base_def)
  moreover obtain s' where "oid_alloc 1 ''command_config_stepper'' 10 example_base = Ret 100 s'"
    by (simp add: oid_alloc_eq [OF ok]) (simp add: example_base_def is_finalized_def)
  ultimately show ?thesis
    using oid_alloc_fresh [of example_base 1 "''command_config_stepper''" 100 s']
    by (simp add: example_base_def)
qed

text \<open>
  When an object does not fit into memory, \<open>oid_alloc\<close> shuts down with the type of the id already
  set, so that a later lookup of the id succeeds and returns the null pointer of the table entry.
\<close>

theorem oid_alloc_failure_leaves_null:
  assumes "oids_ok s" "i < oid_count s" "the (oids s) ! unat i = (None, 0)" "\<not> is_finalized s"
    and "dyn_end s < alloc_end s + sz"
  shows "\<exists>s'. oid_alloc i ty sz s = Shutdown ''alloc_chunk failed'' s' \<and> oid_lookup i ty s' = Ret 0 s'"
proof -
  let ?s = "s\<lparr>oids := Some ((the (oids s))[unat i := (Some ty, 0)])\<rparr>"
  have "unat i < length (the (oids s))" "oids_ok ?s"
    using assms(1,2) by (cases "oids s"; auto simp: oids_ok_def word_less_nat_alt)+
  then have "oid_lookup i ty ?s = Ret 0 ?s"
    using assms(2) unfolding oid_lookup_eq [OF \<open>oids_ok ?s\<close>] by simp
  moreover have "oid_alloc i ty sz s = Shutdown ''alloc_chunk failed'' ?s"
    using assms(2-5) unfolding oid_alloc_eq [OF assms(1)] by simp
  ultimately show ?thesis by blast
qed

theorem oid_alloc_failure_leaves_null_witness:
  "\<exists>s'. oid_alloc 0 ''command_config_stepper'' 65 example_base = Shutdown ''alloc_chunk failed'' s' \<and>
     oid_lookup 0 ''command_config_stepper'' s' = Ret 0 s'"
  using oid_alloc_failure_leaves_null [of example_base 0 65 "''command_config_stepper''"]
  by (simp add: oids_ok_def example_base_def is_finalized_def)

text \<open>
  The accumulated square of the task run times is exact up to rounding each term up and saturates
  instead of wrapping, for every run time: no intermediate product overflows 32 bits.
\<close>

theorem stats_sumsq_saturates:
  "unat (next_sumsq q diff) =
     (if diff \<le> 0xffff then min (2 ^ 32 - 1) (unat q + (unat diff * unat diff + 255) div 256)
      else if diff \<le> 0xfffff then min (2 ^ 32 - 1) (unat q + (unat diff + 255) div 256 * unat diff)
      else 2 ^ 32 - 1)"
proof (cases "diff \<le> 0xfffff")
  case True
  then show ?thesis using next_sumsq_short [of diff q] next_sumsq_long [of diff q] by (auto simp: not_le)
next
  case False
  then have "\<not> diff \<le> 0xffff" by (auto simp: word_le_nat_alt)
  moreover have "\<not> (0xffffffff :: u32) < q" using unsigned_less [where ?'a = nat, of q] by (simp add: not_less word_le_nat_alt)
  ultimately show ?thesis using False by (simp add: next_sumsq_def Let_def)
qed

end
