(* ===== verification/Trsync.thy ===== *)
theory Trsync
  imports Basecmd
begin

text \<open>
  Trigger synchronisation, \<open>trsync.c\<close>: a trigger object that stops steppers when an endstop fires, the
  host commands it, or its time runs out.

  A \<open>struct trsync\<close> is identified by its address. A \<open>struct trsync_signal\<close> is a field of the object that
  registered it, and is identified by that object's address; its callback is one of \<open>sigfunc\<close>. The
  argument \<open>call\<close> stands for the call through the function pointer, which leads into the modules
  that use the trigger.
\<close>

datatype sigfunc = Stepper_stop

record trsync =
  report_ticks :: u32
  signals :: "nat option"
  ts_flags :: u8
  trigger_reason :: u8
  expire_reason :: u8

record trsyncs = base +
  trsync_at :: "nat \<Rightarrow> trsync"
  tss_next :: "nat \<Rightarrow> nat option"
  tss_func :: "nat \<Rightarrow> sigfunc option"

abbreviation (input) TSF_CAN_TRIGGER :: u8 where "TSF_CAN_TRIGGER \<equiv> 1"
abbreviation (input) TSF_REPORT :: u8 where "TSF_REPORT \<equiv> 4"

abbreviation (input) report_time :: "nat \<Rightarrow> tptr" where "report_time ts \<equiv> Obj_timer Trsync_report_time ts"
abbreviation (input) expire_time :: "nat \<Rightarrow> tptr" where "expire_time ts \<equiv> Obj_timer Trsync_expire_time ts"

type_synonym 's sigcall = "sigfunc \<Rightarrow> nat \<Rightarrow> u8 \<Rightarrow> ('s, unit) op"

definition ts_get :: "nat \<Rightarrow> ('a trsyncs_scheme, trsync) op" where
  "ts_get ts = get_op (\<lambda>s. trsync_at s ts)"

definition ts_upd :: "nat \<Rightarrow> (trsync \<Rightarrow> trsync) \<Rightarrow> ('a trsyncs_scheme, unit) op" where
  "ts_upd ts f = set_op (\<lambda>s. s\<lparr>trsync_at := (trsync_at s)(ts := f (trsync_at s ts))\<rparr>)"

text \<open>One round of the loop that dispatches the signals.\<close>

definition trsync_signal_round :: "'a trsyncs_scheme sigcall \<Rightarrow> nat \<Rightarrow> u8 \<Rightarrow> ('a trsyncs_scheme, unit) op" where
  "trsync_signal_round call ts reason =
     bind_op (get_op (\<lambda>s. signals (trsync_at s ts))) (\<lambda>sg.
     bind_op (option_op sg) (\<lambda>tss.
     bind_op (get_op (\<lambda>s. tss_func s tss)) (\<lambda>func.
     then_op (set_op (\<lambda>s. s\<lparr>trsync_at := (trsync_at s)(ts := (trsync_at s ts)\<lparr>signals := tss_next s tss\<rparr>),
                           tss_next := (tss_next s)(tss := None),
                           tss_func := (tss_func s)(tss := None)\<rparr>))
     (bind_op (option_op func) (\<lambda>f. call f tss reason)))))"

definition trsync_do_trigger :: "'a trsyncs_scheme sigcall \<Rightarrow> nat \<Rightarrow> u8 \<Rightarrow> ('a trsyncs_scheme, unit) op" where
  "trsync_do_trigger call ts reason =
     bind_op (ts_get ts) (\<lambda>t.
       let flags = ts_flags t
       in if flags AND TSF_CAN_TRIGGER = 0 then ret ()
          else
            then_op (ts_upd ts (\<lambda>t. t\<lparr>trigger_reason := reason,
                                       ts_flags := (flags AND NOT TSF_CAN_TRIGGER) OR TSF_REPORT\<rparr>))
            (then_op (while_op (\<lambda>s. signals (trsync_at s ts) \<noteq> None) (trsync_signal_round call ts reason))
            (sched_wake_task ''trsync_wake'')))"

definition trsync_expire_event :: "'a trsyncs_scheme sigcall \<Rightarrow> nat \<Rightarrow> ('a trsyncs_scheme, sf) op" where
  "trsync_expire_event call ts =
     bind_op (ts_get ts) (\<lambda>t. then_op (trsync_do_trigger call ts (expire_reason t)) (ret SF_DONE))"

definition trsync_report_event :: "nat \<Rightarrow> ('a trsyncs_scheme, sf) op" where
  "trsync_report_event ts =
     then_op (ts_upd ts (\<lambda>t. t\<lparr>ts_flags := ts_flags t OR TSF_REPORT\<rparr>))
     (then_op (sched_wake_task ''trsync_wake'')
     (bind_op (ts_get ts) (\<lambda>t.
      then_op (wake_upd (report_time ts) (\<lambda>w. w + report_ticks t)) (ret SF_RESCHEDULE))))"

definition zero_trsync :: trsync where
  "zero_trsync = \<lparr>report_ticks = 0, signals = None, ts_flags = 0, trigger_reason = 0, expire_reason = 0\<rparr>"

definition command_config_trsync :: "u32 list \<Rightarrow> ('a trsyncs_scheme, unit) op" where
  "command_config_trsync args =
     bind_op (get_op (\<lambda>s. sizeof_type s ''command_config_trsync'')) (\<lambda>sz.
     bind_op (oid_alloc (ucast (args ! 0)) ''command_config_trsync'' sz) (\<lambda>ts.
     then_op (ts_upd ts (\<lambda>_. zero_trsync))
     (then_op (func_set (report_time ts) Trsync_report_event)
       (func_set (expire_time ts) Trsync_expire_event))))"

definition trsync_oid_lookup :: "u8 \<Rightarrow> ('a trsyncs_scheme, nat) op" where
  "trsync_oid_lookup i = oid_lookup i ''command_config_trsync''"

definition trsync_add_signal :: "nat \<Rightarrow> nat \<Rightarrow> sigfunc \<Rightarrow> ('a trsyncs_scheme, unit) op" where
  "trsync_add_signal ts tss func =
     bind_op (get_op (\<lambda>s. tss_func s tss)) (\<lambda>f.
       if f \<noteq> None then shutdown_op ''Can't add signal that is already active''
       else
         set_op (\<lambda>s. s\<lparr>tss_func := (tss_func s)(tss := Some func),
                       tss_next := (tss_next s)(tss := signals (trsync_at s ts)),
                       trsync_at := (trsync_at s)(ts := (trsync_at s ts)\<lparr>signals := Some tss\<rparr>)\<rparr>))"

text \<open>
  The loop of \<open>trsync_clear\<close> walks the list with the local \<open>tss\<close>; here the walk is over the field
  \<open>signals\<close>, which the code overwrites right after the loop.
\<close>

definition trsync_clear_round :: "nat \<Rightarrow> ('a trsyncs_scheme, unit) op" where
  "trsync_clear_round ts =
     bind_op (get_op (\<lambda>s. signals (trsync_at s ts))) (\<lambda>sg.
     bind_op (option_op sg) (\<lambda>tss.
       set_op (\<lambda>s. s\<lparr>trsync_at := (trsync_at s)(ts := (trsync_at s ts)\<lparr>signals := tss_next s tss\<rparr>),
                     tss_func := (tss_func s)(tss := None),
                     tss_next := (tss_next s)(tss := None)\<rparr>)))"

definition trsync_clear :: "nat \<Rightarrow> ('a trsyncs_scheme, unit) op" where
  "trsync_clear ts =
     then_op (sched_del_timer (report_time ts))
     (then_op (sched_del_timer (expire_time ts))
     (then_op (while_op (\<lambda>s. signals (trsync_at s ts) \<noteq> None) (trsync_clear_round ts))
       (ts_upd ts (\<lambda>t. t\<lparr>signals := None, ts_flags := 0, trigger_reason := 0, expire_reason := 0\<rparr>))))"

definition command_trsync_start :: "u32 list \<Rightarrow> ('a trsyncs_scheme, unit) op" where
  "command_trsync_start args =
     bind_op (trsync_oid_lookup (ucast (args ! 0))) (\<lambda>ts.
     then_op (trsync_clear ts)
     (then_op (ts_upd ts (\<lambda>t. t\<lparr>ts_flags := TSF_CAN_TRIGGER\<rparr>))
     (then_op (wake_upd (report_time ts) (\<lambda>_. args ! 1))
     (then_op (ts_upd ts (\<lambda>t. t\<lparr>report_ticks := args ! 2\<rparr>))
     (then_op (when_op (args ! 2 \<noteq> 0) (sched_add_timer (report_time ts)))
       (ts_upd ts (\<lambda>t. t\<lparr>expire_reason := ucast (args ! 3)\<rparr>)))))))"

definition command_trsync_set_timeout :: "u32 list \<Rightarrow> ('a trsyncs_scheme, unit) op" where
  "command_trsync_set_timeout args =
     bind_op (trsync_oid_lookup (ucast (args ! 0))) (\<lambda>ts.
     bind_op (ts_get ts) (\<lambda>t.
       when_op (ts_flags t AND TSF_CAN_TRIGGER \<noteq> 0)
         (then_op (sched_del_timer (expire_time ts))
         (then_op (wake_upd (expire_time ts) (\<lambda>_. args ! 1))
           (sched_add_timer (expire_time ts))))))"

definition trsync_report :: "u8 \<Rightarrow> u8 \<Rightarrow> u8 \<Rightarrow> u32 \<Rightarrow> ('a trsyncs_scheme, unit) op" where
  "trsync_report i flags reason clock =
     sendf ''trsync_state oid=%c can_trigger=%c trigger_reason=%c clock=%u''
       [ucast i, of_bool (flags AND TSF_CAN_TRIGGER \<noteq> 0), ucast reason, clock]"

definition command_trsync_trigger :: "'a trsyncs_scheme sigcall \<Rightarrow> u32 list \<Rightarrow> ('a trsyncs_scheme, unit) op" where
  "command_trsync_trigger call args =
     (let i = ucast (args ! 0) :: u8
      in bind_op (trsync_oid_lookup i) (\<lambda>ts.
         then_op (trsync_do_trigger call ts (ucast (args ! 1)))
         (then_op (sched_del_timer (report_time ts))
         (then_op (sched_del_timer (expire_time ts))
         (then_op (ts_upd ts (\<lambda>t. t\<lparr>ts_flags := 0\<rparr>))
         (bind_op (ts_get ts) (\<lambda>t. trsync_report i 0 (trigger_reason t) 0)))))))"

definition trsync_task_one :: "u8 \<Rightarrow> nat \<Rightarrow> ('a trsyncs_scheme, unit) op" where
  "trsync_task_one i ts =
     bind_op (ts_get ts) (\<lambda>t.
       if ts_flags t AND TSF_REPORT = 0 then ret ()
       else
         bind_op timer_read_time (\<lambda>time.
         bind_op (ts_get ts) (\<lambda>t.
         then_op (ts_upd ts (\<lambda>t. t\<lparr>ts_flags := ts_flags t AND NOT TSF_REPORT\<rparr>))
           (trsync_report i (ts_flags t) (trigger_reason t) time))))"

definition trsync_task :: "('a trsyncs_scheme, unit) op" where
  "trsync_task =
     bind_op (sched_check_wake ''trsync_wake'') (\<lambda>w.
       if \<not> w then ret () else foreach_oid ''command_config_trsync'' trsync_task_one)"

definition trsync_shutdown :: "('a trsyncs_scheme, unit) op" where
  "trsync_shutdown = foreach_oid ''command_config_trsync'' (\<lambda>i ts. trsync_clear ts)"

subsection \<open>The signals of a trigger\<close>

text \<open>\<open>sig_rep ts xs s\<close>: the objects \<open>xs\<close> are registered with the trigger \<open>ts\<close>.\<close>

definition sig_rep :: "nat \<Rightarrow> nat list \<Rightarrow> 'a trsyncs_scheme \<Rightarrow> bool" where
  "sig_rep ts xs s \<longleftrightarrow>
     node_list (tss_next s) (signals (trsync_at s ts)) xs \<and> (\<forall>x\<in>set xs. tss_func s x \<noteq> None)"

lemma trsync_add_signal_ok:
  assumes "sig_rep ts xs s" "tss_func s x = None"
  shows "\<exists>s'. trsync_add_signal ts x f s = Ret () s' \<and> sig_rep ts (x # xs) s' \<and> tss_func s' x = Some f"
proof -
  have "x \<notin> set xs" using assms by (auto simp: sig_rep_def)
  with assms show ?thesis
    by (simp add: trsync_add_signal_def op_simps sig_rep_def node_list_Cons node_list_upd)
qed

text \<open>
  What a trigger asks of the objects that register with it: the callback of a client returns, leaves
  the object stopped, does not restart another one, and does not touch the trigger.
\<close>

locale trigger_client =
  fixes call :: "'a trsyncs_scheme sigcall"
    and client :: "nat \<Rightarrow> bool"
    and good :: "'a trsyncs_scheme \<Rightarrow> bool"
    and stopped :: "nat \<Rightarrow> 'a trsyncs_scheme \<Rightarrow> bool"
  assumes call_law: "\<lbrakk>good s; client x\<rbrakk> \<Longrightarrow>
      \<exists>s'. call f x r s = Ret () s' \<and> good s' \<and> stopped x s' \<and> (\<forall>y. stopped y s \<longrightarrow> stopped y s') \<and>
        trsync_at s' = trsync_at s \<and> tss_next s' = tss_next s \<and> tss_func s' = tss_func s"
    and good_upd: "good (s\<lparr>trsync_at := a, tss_next := n, tss_func := g\<rparr>) = good s"
    and stopped_upd: "stopped x (s\<lparr>trsync_at := a, tss_next := n, tss_func := g\<rparr>) = stopped x s"
begin

lemma signal_round:
  assumes g: "good s" and c: "client x" and rep: "sig_rep ts (x # xs) s"
  shows "\<exists>s'. trsync_signal_round call ts r s = Ret () s' \<and> good s' \<and> stopped x s' \<and>
    (\<forall>y. stopped y s \<longrightarrow> stopped y s') \<and> sig_rep ts xs s' \<and> tss_func s' = (tss_func s)(x := None) \<and>
    trsync_at s' = (trsync_at s)(ts := (trsync_at s ts)\<lparr>signals := tss_next s x\<rparr>)"
proof -
  obtain f where f: "tss_func s x = Some f" and sg: "signals (trsync_at s ts) = Some x"
    using rep by (auto simp: sig_rep_def node_list_Cons)
  define s1 where "s1 = s\<lparr>trsync_at := (trsync_at s)(ts := (trsync_at s ts)\<lparr>signals := tss_next s x\<rparr>),
    tss_next := (tss_next s)(x := None), tss_func := (tss_func s)(x := None)\<rparr>"
  have "good s1" using g by (simp add: s1_def good_upd)
  then obtain s' where s': "call f x r s1 = Ret () s'" "good s'" "stopped x s'" "\<forall>y. stopped y s1 \<longrightarrow> stopped y s'"
      "trsync_at s' = trsync_at s1" "tss_next s' = tss_next s1" "tss_func s' = tss_func s1"
    using call_law [OF _ c] by blast
  have "trsync_signal_round call ts r s = Ret () s'"
    using f sg s'(1) by (simp add: trsync_signal_round_def op_simps s1_def)
  moreover have "sig_rep ts xs s'"
    using rep s'(5-7) by (auto simp: sig_rep_def node_list_Cons s1_def node_list_upd)
  moreover have "\<forall>y. stopped y s \<longrightarrow> stopped y s'" using s'(4) by (simp add: s1_def stopped_upd)
  ultimately show ?thesis using s' by (simp add: s1_def)
qed

lemma signals_dispatch:
  assumes "good s" "\<forall>x\<in>set xs. client x" "sig_rep ts xs s"
  shows "\<exists>s'. while_op (\<lambda>s. signals (trsync_at s ts) \<noteq> None) (trsync_signal_round call ts r) s = Ret () s' \<and>
    good s' \<and> (\<forall>x\<in>set xs. stopped x s' \<and> tss_func s' x = None) \<and> (\<forall>y. stopped y s \<longrightarrow> stopped y s') \<and>
    (\<forall>y. tss_func s y = None \<longrightarrow> tss_func s' y = None) \<and>
    trsync_at s' = (trsync_at s)(ts := (trsync_at s ts)\<lparr>signals := None\<rparr>)"
  using assms
proof (induction xs arbitrary: s)
  case Nil
  then have "signals (trsync_at s ts) = None" by (simp add: sig_rep_def node_list_def)
  moreover from this have "trsync_at s = (trsync_at s)(ts := (trsync_at s ts)\<lparr>signals := None\<rparr>)"
    by (intro fun_upd_idem [symmetric]) (cases "trsync_at s ts", simp)
  ultimately show ?case using Nil by (subst while_op_unfold) simp
next
  case (Cons x xs)
  have "client x" "\<forall>x\<in>set xs. client x" using Cons.prems(2) by simp_all
  from signal_round [OF Cons.prems(1) this(1) Cons.prems(3)] obtain s1 where s1: "trsync_signal_round call ts r s = Ret () s1" "good s1" "stopped x s1"
      "\<forall>y. stopped y s \<longrightarrow> stopped y s1" "sig_rep ts xs s1" "tss_func s1 = (tss_func s)(x := None)"
      "trsync_at s1 = (trsync_at s)(ts := (trsync_at s ts)\<lparr>signals := tss_next s x\<rparr>)"
    by blast
  with Cons.IH [OF _ \<open>\<forall>x\<in>set xs. client x\<close>] obtain s' where s': "while_op (\<lambda>s. signals (trsync_at s ts) \<noteq> None) (trsync_signal_round call ts r) s1 = Ret () s'"
      "good s'" "\<forall>x\<in>set xs. stopped x s' \<and> tss_func s' x = None" "\<forall>y. stopped y s1 \<longrightarrow> stopped y s'"
      "\<forall>y. tss_func s1 y = None \<longrightarrow> tss_func s' y = None"
      "trsync_at s' = (trsync_at s1)(ts := (trsync_at s1 ts)\<lparr>signals := None\<rparr>)"
    by blast
  have "signals (trsync_at s ts) \<noteq> None" using Cons.prems by (simp add: sig_rep_def node_list_Cons)
  then have "while_op (\<lambda>s. signals (trsync_at s ts) \<noteq> None) (trsync_signal_round call ts r) s = Ret () s'"
    using s1(1) s'(1) by (subst while_op_unfold) (simp add: then_op_app)
  with s1 s' show ?case by (intro exI [of _ s']) auto
qed

lemma trigger_stops_clients:
  assumes "good s" "\<forall>x\<in>set xs. client x" "sig_rep ts xs s" "ts_flags (trsync_at s ts) AND TSF_CAN_TRIGGER \<noteq> 0"
  shows "\<exists>s'. trsync_do_trigger call ts r s = sched_wake_task ''trsync_wake'' s' \<and> good s' \<and>
    (\<forall>x\<in>set xs. stopped x s' \<and> tss_func s' x = None) \<and>
    trsync_at s' = (trsync_at s)(ts := (trsync_at s ts)\<lparr>trigger_reason := r,
      ts_flags := (ts_flags (trsync_at s ts) AND NOT TSF_CAN_TRIGGER) OR TSF_REPORT, signals := None\<rparr>)"
proof -
  let ?t = "(trsync_at s ts)\<lparr>trigger_reason := r, ts_flags := (ts_flags (trsync_at s ts) AND NOT TSF_CAN_TRIGGER) OR TSF_REPORT\<rparr>"
  define s1 where "s1 = s\<lparr>trsync_at := (trsync_at s)(ts := ?t)\<rparr>"
  have eq: "s1 = s\<lparr>trsync_at := (trsync_at s)(ts := ?t), tss_next := tss_next s, tss_func := tss_func s\<rparr>"
    by (simp add: s1_def)
  have "good s1" unfolding eq good_upd by (rule assms(1))
  moreover have "sig_rep ts xs s1" using assms(3) by (simp add: sig_rep_def s1_def)
  ultimately obtain s' where s': "while_op (\<lambda>s. signals (trsync_at s ts) \<noteq> None) (trsync_signal_round call ts r) s1 = Ret () s'"
      "good s'" "\<forall>x\<in>set xs. stopped x s' \<and> tss_func s' x = None"
      "trsync_at s' = (trsync_at s1)(ts := (trsync_at s1 ts)\<lparr>signals := None\<rparr>)"
    using signals_dispatch [OF _ assms(2), of s1] by blast
  have "trsync_do_trigger call ts r s = sched_wake_task ''trsync_wake'' s'"
    using assms(4) s'(1) by (simp add: trsync_do_trigger_def ts_get_def ts_upd_def op_simps Let_def s1_def)
  with s' show ?thesis by (intro exI [of _ s']) (simp add: s1_def)
qed

end

lemma trsync_do_trigger_once:
  "ts_flags (trsync_at s ts) AND TSF_CAN_TRIGGER = 0 \<Longrightarrow> trsync_do_trigger call ts r s = Ret () s"
  by (simp add: trsync_do_trigger_def ts_get_def op_simps Let_def)

subsection \<open>Properties\<close>

definition example_trsyncs :: trsyncs where
  "example_trsyncs = base.extend example_base
     (trsyncs.fields ((\<lambda>_. zero_trsync)(5 := zero_trsync\<lparr>ts_flags := TSF_CAN_TRIGGER\<rparr>)) (\<lambda>_. None) (\<lambda>_. None))"

text \<open>
  A signal is registered at most once: registering an object with a trigger puts it in front of
  the registered ones, and registering it again, with any trigger, shuts down and changes nothing.
\<close>

theorem trsync_signal_registered_once:
  assumes "sig_rep ts xs s" "tss_func s x = None"
  shows "\<exists>s'. trsync_add_signal ts x f s = Ret () s' \<and> sig_rep ts (x # xs) s' \<and>
    (\<forall>ts' f'. trsync_add_signal ts' x f' s' = Shutdown ''Can't add signal that is already active'' s')"
proof -
  obtain s' where "trsync_add_signal ts x f s = Ret () s'" "sig_rep ts (x # xs) s'" "tss_func s' x = Some f"
    using trsync_add_signal_ok [OF assms] by blast
  then show ?thesis by (auto simp: trsync_add_signal_def op_simps)
qed

theorem trsync_signal_registered_once_witness:
  "\<exists>s'. trsync_add_signal 5 8 Stepper_stop example_trsyncs = Ret () s' \<and> sig_rep 5 [8] s'"
  using trsync_signal_registered_once [of 5 "[]" example_trsyncs 8 Stepper_stop]
  by (auto simp: sig_rep_def node_list_def example_trsyncs_def base.defs trsyncs.defs zero_trsync_def)

end
