(* ===== verification/Stepper.thy ===== *)
theory Stepper
  imports Trsync
begin

text \<open>
  The stepper driver, \<open>stepper.c\<close>: moves queued by the host (interval, count, add) are expanded into
  step pulses by the timer callback. All three variants of the step function are modelled; which
  of them a build has is the content of the fields \<open>have_edge\<close>, \<open>have_avr\<close> and \<open>inline_hack\<close>
  (\<open>HAVE_EDGE_OPTIMIZATION\<close>, \<open>HAVE_AVR_OPTIMIZATION\<close>, \<open>CONFIG_INLINE_STEPPER_HACK\<close>). The 16-bit signed
  \<open>add\<close> is a 16-bit word that is sign extended where the code adds it to a time.
\<close>

record stepper_move =
  sm_interval :: u32
  sm_add :: u16
  sm_count :: u16
  sm_flags :: u8

record stepper =
  st_interval :: u32
  st_add :: u16
  st_count :: u32
  next_step_time :: u32
  step_pulse_ticks :: u32
  step_pin :: u32
  dir_pin :: u32
  position :: u32
  st_mq :: move_queue_head
  st_flags :: u8

record steppers = trsyncs +
  have_edge :: bool
  have_avr :: bool
  inline_hack :: bool
  stepper_at :: "nat \<Rightarrow> stepper"
  move_at :: "nat \<Rightarrow> stepper_move"

abbreviation (input) MF_DIR :: u8 where "MF_DIR \<equiv> 1"
abbreviation (input) SF_LAST_DIR :: u8 where "SF_LAST_DIR \<equiv> 1"
abbreviation (input) SF_NEXT_DIR :: u8 where "SF_NEXT_DIR \<equiv> 2"
abbreviation (input) SF_INVERT_STEP :: u8 where "SF_INVERT_STEP \<equiv> 4"
abbreviation (input) SF_NEED_RESET :: u8 where "SF_NEED_RESET \<equiv> 8"
abbreviation (input) SF_SINGLE_SCHED :: u8 where "SF_SINGLE_SCHED \<equiv> 16"
abbreviation (input) SF_HAVE_ADD :: u8 where "SF_HAVE_ADD \<equiv> 32"
abbreviation (input) POSITION_BIAS :: u32 where "POSITION_BIAS \<equiv> 0x40000000"
abbreviation (input) AVR_STEP_INSNS :: u32 where "AVR_STEP_INSNS \<equiv> 40"

abbreviation (input) stepper_time :: "nat \<Rightarrow> tptr" where "stepper_time st \<equiv> Obj_timer Stepper_time st"

definition have_single :: "'a steppers_scheme \<Rightarrow> bool" where
  "have_single s \<longleftrightarrow> have_edge s \<or> have_avr s"

definition st_get :: "nat \<Rightarrow> ('a steppers_scheme, stepper) op" where
  "st_get st = get_op (\<lambda>s. stepper_at s st)"

definition st_upd :: "nat \<Rightarrow> (stepper \<Rightarrow> stepper) \<Rightarrow> ('a steppers_scheme, unit) op" where
  "st_upd st f = set_op (\<lambda>s. s\<lparr>stepper_at := (stepper_at s)(st := f (stepper_at s st))\<rparr>)"

text \<open>\<open>HAVE_SINGLE_SCHEDULE && s->flags & SF_SINGLE_SCHED\<close>\<close>

definition single_sched :: "nat \<Rightarrow> 'a steppers_scheme \<Rightarrow> bool" where
  "single_sched st s \<longleftrightarrow> have_single s \<and> st_flags (stepper_at s st) AND SF_SINGLE_SCHED \<noteq> 0"

subsection \<open>Step events\<close>

definition stepper_load_next :: "nat \<Rightarrow> ('a steppers_scheme, sf) op" where
  "stepper_load_next st =
     bind_op (st_get st) (\<lambda>x.
       if move_queue_empty (st_mq x) then
         then_op (st_upd st (\<lambda>x. x\<lparr>st_count := 0\<rparr>)) (ret SF_DONE)
       else
         bind_op (move_queue_pop (st_mq x)) (\<lambda>(mq', mn).
         then_op (st_upd st (\<lambda>x. x\<lparr>st_mq := mq'\<rparr>))
         (bind_op (get_op (\<lambda>s. move_at s mn)) (\<lambda>m.
         then_op (st_upd st (\<lambda>x. x\<lparr>st_add := sm_add m, st_interval := sm_interval m + scast (sm_add m)\<rparr>))
         (bind_op (get_op (single_sched st)) (\<lambda>single.
         bind_op (get_op have_avr) (\<lambda>avr.
         then_op
           (if single then
              then_op (wake_upd (stepper_time st) (\<lambda>w. w + sm_interval m))
              (then_op (when_op avr
                 (st_upd st (\<lambda>x. x\<lparr>st_flags := (if sm_add m \<noteq> 0 then st_flags x OR SF_HAVE_ADD
                                                else st_flags x AND NOT SF_HAVE_ADD)\<rparr>)))
               (st_upd st (\<lambda>x. x\<lparr>st_count := ucast (sm_count m)\<rparr>)))
            else
              then_op (st_upd st (\<lambda>x. x\<lparr>next_step_time := next_step_time x + sm_interval m\<rparr>))
              (bind_op (st_get st) (\<lambda>x.
               then_op (wake_upd (stepper_time st) (\<lambda>_. next_step_time x))
                 (st_upd st (\<lambda>x. x\<lparr>st_count := ucast (sm_count m) * 2\<rparr>)))))
         (then_op
           (if sm_flags m AND MF_DIR \<noteq> 0 then
              then_op (st_upd st (\<lambda>x. x\<lparr>position := - position x + ucast (sm_count m)\<rparr>))
                (gpio_out_toggle_noirq (dir_pin x))
            else st_upd st (\<lambda>x. x\<lparr>position := position x + ucast (sm_count m)\<rparr>))
         (then_op (move_free mn) (ret SF_RESCHEDULE))))))))))"

definition stepper_event_edge :: "nat \<Rightarrow> ('a steppers_scheme, sf) op" where
  "stepper_event_edge st =
     bind_op (st_get st) (\<lambda>x.
     then_op (gpio_out_toggle_noirq (step_pin x))
     (let count = st_count x - 1
      in if count \<noteq> 0 then
           then_op (st_upd st (\<lambda>x. x\<lparr>st_count := count\<rparr>))
           (then_op (wake_upd (stepper_time st) (\<lambda>w. w + st_interval x))
           (then_op (st_upd st (\<lambda>x. x\<lparr>st_interval := st_interval x + scast (st_add x)\<rparr>))
             (ret SF_RESCHEDULE)))
         else stepper_load_next st))"

text \<open>The AVR variant decrements the low half of \<open>count\<close> in place.\<close>

definition stepper_event_avr :: "nat \<Rightarrow> ('a steppers_scheme, sf) op" where
  "stepper_event_avr st =
     bind_op (st_get st) (\<lambda>x.
     then_op (gpio_out_toggle_noirq (step_pin x))
     (let count = ucast (st_count x) - 1 :: u16
      in if count \<noteq> 0 then
           then_op (st_upd st (\<lambda>x. x\<lparr>st_count := (st_count x AND 0xffff0000) OR ucast count\<rparr>))
           (then_op (wake_upd (stepper_time st) (\<lambda>w. w + st_interval x))
           (then_op (gpio_out_toggle_noirq (step_pin x))
           (then_op (when_op (st_flags x AND SF_HAVE_ADD \<noteq> 0)
              (st_upd st (\<lambda>x. x\<lparr>st_interval := st_interval x + scast (st_add x)\<rparr>)))
             (ret SF_RESCHEDULE))))
         else
           bind_op (stepper_load_next st) (\<lambda>r.
           then_op (gpio_out_toggle_noirq (step_pin x)) (ret r))))"

definition reschedule_min :: "nat \<Rightarrow> u32 \<Rightarrow> ('a steppers_scheme, sf) op" where
  "reschedule_min st min_next_time =
     then_op (wake_upd (stepper_time st) (\<lambda>_. min_next_time)) (ret SF_RESCHEDULE)"

definition stepper_event_full :: "nat \<Rightarrow> ('a steppers_scheme, sf) op" where
  "stepper_event_full st =
     bind_op (st_get st) (\<lambda>x.
     then_op (gpio_out_toggle_noirq (step_pin x))
     (bind_op timer_read_time (\<lambda>curtime.
      let min_next_time = curtime + step_pulse_ticks x;
          count = st_count x - 1
      in then_op (st_upd st (\<lambda>x. x\<lparr>st_count := count\<rparr>))
         (if count AND 1 \<noteq> 0 then reschedule_min st min_next_time
          else if count \<noteq> 0 then
            (let nst = next_step_time x + st_interval x
             in then_op (st_upd st (\<lambda>x. x\<lparr>next_step_time := nst, st_interval := st_interval x + scast (st_add x)\<rparr>))
                (if timer_is_before nst min_next_time then reschedule_min st min_next_time
                 else then_op (wake_upd (stepper_time st) (\<lambda>_. nst)) (ret SF_RESCHEDULE)))
          else
            bind_op (stepper_load_next st) (\<lambda>r.
            bind_op (get_op (\<lambda>s. t_wake s (stepper_time st))) (\<lambda>w.
            bind_op (get_op (\<lambda>s. timer_from_us (clock_freq s) 1000)) (\<lambda>ms.
              if r = SF_DONE \<or> \<not> timer_is_before w min_next_time then ret r
              else if sint (w - min_next_time) < sint (- ms) then shutdown_op ''Stepper too far in past''
              else reschedule_min st min_next_time)))))))"

definition stepper_event :: "nat \<Rightarrow> ('a steppers_scheme, sf) op" where
  "stepper_event st =
     bind_op (get_op (\<lambda>s. (have_edge s, have_avr s))) (\<lambda>(edge, avr).
       if edge then stepper_event_edge st
       else if avr then stepper_event_avr st
       else stepper_event_full st)"

subsection \<open>Commands\<close>

definition zero_stepper :: stepper where
  "zero_stepper =
     \<lparr>st_interval = 0, st_add = 0, st_count = 0, next_step_time = 0, step_pulse_ticks = 0, step_pin = 0,
      dir_pin = 0, position = 0, st_mq = \<lparr>mq_first = None, mq_last = None\<rparr>, st_flags = 0\<rparr>"

definition command_config_stepper :: "u32 list \<Rightarrow> ('a steppers_scheme, unit) op" where
  "command_config_stepper args =
     bind_op (get_op (\<lambda>s. sizeof_type s ''command_config_stepper'')) (\<lambda>sz.
     bind_op (oid_alloc (ucast (args ! 0)) ''command_config_stepper'' sz) (\<lambda>st.
     (let invert_step = sint (ucast (args ! 3) :: u8)
      in then_op (st_upd st (\<lambda>_. zero_stepper\<lparr>st_flags := (if invert_step > 0 then SF_INVERT_STEP else 0)\<rparr>))
         (bind_op (gpio_out_setup (args ! 1) (invert_step > 0)) (\<lambda>sp.
          then_op (st_upd st (\<lambda>x. x\<lparr>step_pin := sp\<rparr>))
         (bind_op (gpio_out_setup (args ! 2) False) (\<lambda>dp.
          then_op (st_upd st (\<lambda>x. x\<lparr>dir_pin := dp, position := - POSITION_BIAS, step_pulse_ticks := args ! 4\<rparr>))
         (bind_op (get_op (\<lambda>s. sizeof_type s ''struct stepper_move'')) (\<lambda>msz.
          bind_op (move_queue_setup msz) (\<lambda>mq.
          then_op (st_upd st (\<lambda>x. x\<lparr>st_mq := mq\<rparr>))
         (bind_op (get_op (\<lambda>s. (have_edge s, have_avr s, inline_hack s))) (\<lambda>(edge, avr, inl).
            if edge then
              (if args ! 4 = 0 \<and> invert_step < 0
               then st_upd st (\<lambda>x. x\<lparr>st_flags := st_flags x OR SF_SINGLE_SCHED\<rparr>)
               else func_set (stepper_time st) Stepper_event_full)
            else if avr then
              (if args ! 4 \<le> AVR_STEP_INSNS
               then st_upd st (\<lambda>x. x\<lparr>st_flags := st_flags x OR SF_SINGLE_SCHED\<rparr>)
               else func_set (stepper_time st) Stepper_event_full)
            else when_op (\<not> inl) (func_set (stepper_time st) Stepper_event_full)))))))))))))"

definition stepper_oid_lookup :: "u8 \<Rightarrow> ('a steppers_scheme, nat) op" where
  "stepper_oid_lookup i = oid_lookup i ''command_config_stepper''"

definition command_queue_step :: "u32 list \<Rightarrow> ('a steppers_scheme, unit) op" where
  "command_queue_step args =
     bind_op (stepper_oid_lookup (ucast (args ! 0))) (\<lambda>st.
     bind_op move_alloc (\<lambda>m.
     if (ucast (args ! 2) :: u16) = 0 then shutdown_op ''Invalid count parameter''
     else
       bind_op (st_get st) (\<lambda>x.
       (let change = ((st_flags x AND SF_LAST_DIR \<noteq> 0) \<noteq> (st_flags x AND SF_NEXT_DIR \<noteq> 0));
            flags = (if change then st_flags x XOR SF_LAST_DIR else st_flags x);
            mv = \<lparr>sm_interval = args ! 1, sm_add = ucast (args ! 3), sm_count = ucast (args ! 2),
                  sm_flags = (if change then MF_DIR else 0)\<rparr>
        in then_op (set_op (\<lambda>s. s\<lparr>move_at := (move_at s)(m := mv)\<rparr>))
           (if st_count x \<noteq> 0 then
              then_op (st_upd st (\<lambda>x. x\<lparr>st_flags := flags\<rparr>))
              (bind_op (move_queue_push m (st_mq x)) (\<lambda>(mq', e). st_upd st (\<lambda>x. x\<lparr>st_mq := mq'\<rparr>)))
            else if flags AND SF_NEED_RESET \<noteq> 0 then move_free m
            else
              then_op (st_upd st (\<lambda>x. x\<lparr>st_flags := flags\<rparr>))
              (then_op (bind_op (move_queue_push m (st_mq x)) (\<lambda>(mq', e). st_upd st (\<lambda>x. x\<lparr>st_mq := mq'\<rparr>)))
              (then_op (stepper_load_next st) (sched_add_timer (stepper_time st))))))))) "

definition command_set_next_step_dir :: "u32 list \<Rightarrow> ('a steppers_scheme, unit) op" where
  "command_set_next_step_dir args =
     bind_op (stepper_oid_lookup (ucast (args ! 0))) (\<lambda>st.
       st_upd st (\<lambda>x. x\<lparr>st_flags := (st_flags x AND NOT SF_NEXT_DIR) OR
                          (if (args ! 1) \<noteq> 0 then SF_NEXT_DIR else 0)\<rparr>))"

definition command_reset_step_clock :: "u32 list \<Rightarrow> ('a steppers_scheme, unit) op" where
  "command_reset_step_clock args =
     bind_op (stepper_oid_lookup (ucast (args ! 0))) (\<lambda>st.
     bind_op (st_get st) (\<lambda>x.
       if st_count x \<noteq> 0 then shutdown_op ''Can't reset time when stepper active''
       else
         then_op (wake_upd (stepper_time st) (\<lambda>_. args ! 1))
           (st_upd st (\<lambda>x. x\<lparr>next_step_time := args ! 1, st_flags := st_flags x AND NOT SF_NEED_RESET\<rparr>))))"

definition stepper_get_position :: "nat \<Rightarrow> 'a steppers_scheme \<Rightarrow> u32" where
  "stepper_get_position st s =
     (let x = stepper_at s st;
          pos = (if single_sched st s then position x - st_count x else position x - st_count x div 2)
      in if pos AND 0x80000000 \<noteq> 0 then - pos else pos)"

definition command_stepper_get_position :: "u32 list \<Rightarrow> ('a steppers_scheme, unit) op" where
  "command_stepper_get_position args =
     (let i = ucast (args ! 0) :: u8
      in bind_op (stepper_oid_lookup i) (\<lambda>st.
         bind_op (get_op (stepper_get_position st)) (\<lambda>p.
           sendf ''stepper_position oid=%c pos=%i'' [ucast i, p - POSITION_BIAS])))"

definition stepper_drain_round :: "nat \<Rightarrow> ('a steppers_scheme, unit) op" where
  "stepper_drain_round st =
     bind_op (st_get st) (\<lambda>x.
     bind_op (move_queue_pop (st_mq x)) (\<lambda>(mq', mn).
     then_op (st_upd st (\<lambda>x. x\<lparr>st_mq := mq'\<rparr>)) (move_free mn)))"

definition stepper_stop :: "nat \<Rightarrow> u8 \<Rightarrow> ('a steppers_scheme, unit) op" where
  "stepper_stop st reason =
     then_op (sched_del_timer (stepper_time st))
     (then_op (wake_upd (stepper_time st) (\<lambda>_. 0))
     (then_op (st_upd st (\<lambda>x. x\<lparr>next_step_time := 0\<rparr>))
     (bind_op (get_op (stepper_get_position st)) (\<lambda>p.
     then_op (st_upd st (\<lambda>x. x\<lparr>position := - p, st_count := 0,
                st_flags := (st_flags x AND (SF_INVERT_STEP OR SF_SINGLE_SCHED)) OR SF_NEED_RESET\<rparr>))
     (bind_op (st_get st) (\<lambda>x.
     then_op (gpio_out_write (dir_pin x) False)
     (bind_op (get_op have_edge) (\<lambda>edge.
     then_op (when_op (\<not> (edge \<and> st_flags x AND SF_SINGLE_SCHED \<noteq> 0))
        (gpio_out_write (step_pin x) (st_flags x AND SF_INVERT_STEP \<noteq> 0)))
     (while_op (\<lambda>s. \<not> move_queue_empty (st_mq (stepper_at s st))) (stepper_drain_round st))))))))))"

text \<open>The callback of the stop signal: the call through \<open>tss->func\<close>.\<close>

definition signal_call :: "'a steppers_scheme sigcall" where
  "signal_call f tss reason = (case f of Stepper_stop \<Rightarrow> stepper_stop tss reason)"

definition command_stepper_stop_on_trigger :: "u32 list \<Rightarrow> ('a steppers_scheme, unit) op" where
  "command_stepper_stop_on_trigger args =
     bind_op (stepper_oid_lookup (ucast (args ! 0))) (\<lambda>st.
     bind_op (trsync_oid_lookup (ucast (args ! 1))) (\<lambda>ts.
       trsync_add_signal ts st Stepper_stop))"

definition stepper_shutdown :: "('a steppers_scheme, unit) op" where
  "stepper_shutdown =
     foreach_oid ''command_config_stepper'' (\<lambda>i st.
       then_op (st_upd st (\<lambda>x. x\<lparr>st_mq := move_queue_clear (st_mq x)\<rparr>)) (stepper_stop st 0))"

subsection \<open>Stopping a stepper\<close>

text \<open>
  The move queues of the steppers in \<open>S\<close> hold the nodes \<open>q\<close>, disjoint from each other and from the
  free nodes \<open>fs\<close>.
\<close>

definition motion_pool :: "nat set \<Rightarrow> (nat \<Rightarrow> nat list) \<Rightarrow> nat list \<Rightarrow> 'a steppers_scheme \<Rightarrow> bool" where
  "motion_pool S q fs s \<longleftrightarrow>
     free_rep fs s \<and> (\<forall>st\<in>S. mq_rep (q st) (st_mq (stepper_at s st)) s \<and> set (q st) \<inter> set fs = {}) \<and>
     (\<forall>st\<in>S. \<forall>st'\<in>S. st \<noteq> st' \<longrightarrow> set (q st) \<inter> set (q st') = {})"

definition motion_ok :: "u32 \<Rightarrow> nat set \<Rightarrow> 'a steppers_scheme \<Rightarrow> bool" where
  "motion_ok b S s \<longleftrightarrow> (\<exists>ts. pending b ts s) \<and> (\<exists>q fs. motion_pool S q fs s)"

definition stepper_idle :: "u32 \<Rightarrow> nat \<Rightarrow> 'a steppers_scheme \<Rightarrow> bool" where
  "stepper_idle b st s \<longleftrightarrow>
     st_count (stepper_at s st) = 0 \<and> move_queue_empty (st_mq (stepper_at s st)) \<and>
     st_flags (stepper_at s st) AND SF_NEED_RESET \<noteq> 0 \<and>
     (\<exists>ts. pending b ts s \<and> stepper_time st \<notin> set ts)"

lemma motion_pool_cong:
  assumes "\<And>st. st \<in> S \<Longrightarrow> st_mq (stepper_at s' st) = st_mq (stepper_at s st)"
    "mn_next s' = mn_next s" "move_free_list s' = move_free_list s"
  shows "motion_pool S q fs s' = motion_pool S q fs s"
  using assms by (simp add: motion_pool_def free_rep_def mq_rep_def)

lemma drain_round:
  assumes p: "motion_pool S q fs s" and st: "st \<in> S" "q st = x # xs"
  shows "\<exists>mh nx. stepper_drain_round st s =
      Ret () (s\<lparr>stepper_at := (stepper_at s)(st := (stepper_at s st)\<lparr>st_mq := mh\<rparr>),
                mn_next := nx, move_free_list := Some x\<rparr>) \<and>
    motion_pool S (q(st := xs)) (x # fs)
      (s\<lparr>stepper_at := (stepper_at s)(st := (stepper_at s st)\<lparr>st_mq := mh\<rparr>), mn_next := nx, move_free_list := Some x\<rparr>)"
proof -
  have rep: "mq_rep (x # xs) (st_mq (stepper_at s st)) s" using p st by (auto simp: motion_pool_def)
  obtain mh where pop: "move_queue_pop (st_mq (stepper_at s st)) s = Ret (mh, x) s" "mq_rep xs mh s"
    using move_queue_pop_rep [OF rep] by blast
  let ?s = "s\<lparr>stepper_at := (stepper_at s)(st := (stepper_at s st)\<lparr>st_mq := mh\<rparr>),
    mn_next := (mn_next s)(x := move_free_list s), move_free_list := Some x\<rparr>"
  have run: "stepper_drain_round st s = Ret () ?s"
    using pop(1) by (simp add: stepper_drain_round_def st_get_def st_upd_def op_simps move_free_def)
  have x: "x \<notin> set xs" "x \<notin> set fs" using rep p st by (auto simp: mq_rep_def node_list_def motion_pool_def)
  have keep: "mq_rep ys h ?s = mq_rep ys h s" if "x \<notin> set ys" for ys h
    using that by (intro mq_rep_cong) auto
  have "free_rep (x # fs) ?s"
    using p x by (simp add: motion_pool_def free_rep_def node_list_Cons node_list_upd)
  moreover have "mq_rep ((q(st := xs)) st') (st_mq (stepper_at ?s st')) ?s \<and> set ((q(st := xs)) st') \<inter> set (x # fs) = {}"
    if "st' \<in> S" for st'
  proof (cases "st' = st")
    case True
    moreover have "set (x # xs) \<inter> set fs = {}" using p st by (metis motion_pool_def)
    ultimately show ?thesis using pop(2) x keep [of xs mh] by auto
  next
    case False
    then have "x \<notin> set (q st')" using p st that by (fastforce simp: motion_pool_def)
    then show ?thesis using False keep [of "q st'"] p that by (auto simp: motion_pool_def)
  qed
  moreover have "set ((q(st := xs)) a) \<inter> set ((q(st := xs)) c) = {}" if "a \<in> S" "c \<in> S" "a \<noteq> c" for a c
  proof -
    have "set (q a) \<inter> set (q c) = {}" using p that by (simp add: motion_pool_def)
    moreover have "set ((q(st := xs)) d) \<subseteq> set (q d)" for d using st(2) by auto
    ultimately show ?thesis by blast
  qed
  ultimately have "motion_pool S (q(st := xs)) (x # fs) ?s" unfolding motion_pool_def by blast
  with run show ?thesis by blast
qed

lemma drain_all:
  assumes "motion_pool S q fs s" "st \<in> S"
  shows "\<exists>mh nx fl. while_op (\<lambda>s. \<not> move_queue_empty (st_mq (stepper_at s st))) (stepper_drain_round st) s =
      Ret () (s\<lparr>stepper_at := (stepper_at s)(st := (stepper_at s st)\<lparr>st_mq := mh\<rparr>), mn_next := nx, move_free_list := fl\<rparr>) \<and>
    move_queue_empty mh \<and>
    motion_pool S (q(st := [])) (rev (q st) @ fs)
      (s\<lparr>stepper_at := (stepper_at s)(st := (stepper_at s st)\<lparr>st_mq := mh\<rparr>), mn_next := nx, move_free_list := fl\<rparr>)"
  using assms
proof (induction "q st" arbitrary: q fs s)
  case Nil
  have "mq_rep (q st) (st_mq (stepper_at s st)) s" using Nil.prems by (auto simp: motion_pool_def)
  with Nil.hyps have e: "move_queue_empty (st_mq (stepper_at s st))"
    by (simp add: mq_rep_def node_list_def move_queue_empty_def)
  have "q(st := []) = q" using Nil.hyps by auto
  then show ?case
    using e Nil.prems Nil.hyps
    by (intro exI [of _ "st_mq (stepper_at s st)"] exI [of _ "mn_next s"] exI [of _ "move_free_list s"])
      (simp add: while_op_unfold)
next
  case (Cons x xs)
  have "mq_rep (x # xs) (st_mq (stepper_at s st)) s" using Cons by (auto simp: motion_pool_def)
  then have ne: "\<not> move_queue_empty (st_mq (stepper_at s st))"
    by (simp add: mq_rep_def node_list_def move_queue_empty_def)
  obtain s1 mh nx where r: "stepper_drain_round st s = Ret () s1" "motion_pool S (q(st := xs)) (x # fs) s1"
      and s1: "s1 = s\<lparr>stepper_at := (stepper_at s)(st := (stepper_at s st)\<lparr>st_mq := mh\<rparr>), mn_next := nx, move_free_list := Some x\<rparr>"
    using drain_round [OF Cons.prems(1,2) Cons.hyps(2) [symmetric]] by blast
  obtain mh' nx' fl where w: "while_op (\<lambda>s. \<not> move_queue_empty (st_mq (stepper_at s st))) (stepper_drain_round st) s1 =
      Ret () (s1\<lparr>stepper_at := (stepper_at s1)(st := (stepper_at s1 st)\<lparr>st_mq := mh'\<rparr>), mn_next := nx', move_free_list := fl\<rparr>)"
    "move_queue_empty mh'"
    "motion_pool S ((q(st := xs))(st := [])) (rev ((q(st := xs)) st) @ x # fs)
      (s1\<lparr>stepper_at := (stepper_at s1)(st := (stepper_at s1 st)\<lparr>st_mq := mh'\<rparr>), mn_next := nx', move_free_list := fl\<rparr>)"
    using Cons.hyps(1) [OF _ r(2) Cons.prems(2)] by auto
  show ?case
    using w r(1) ne Cons.hyps(2) [symmetric]
    by (intro exI [of _ mh'] exI [of _ nx'] exI [of _ fl]) (subst while_op_unfold, simp add: then_op_app s1)
qed

lemma timer_frame_steppers:
  assumes "timer_frame s s'"
  shows "stepper_at s' = stepper_at s" "mn_next s' = mn_next s" "move_free_list s' = move_free_list s"
    "trsync_at s' = trsync_at s" "tss_next s' = tss_next s" "tss_func s' = tss_func s"
    "have_edge s' = have_edge s" "have_avr s' = have_avr s" "move_at s' = move_at s"
  by (subst assms [unfolded timer_frame_def], simp)+

text \<open>The state of the stepper that \<open>stepper_stop\<close> leaves, before it drains the queue.\<close>

definition stopped_stepper :: "u32 \<Rightarrow> stepper \<Rightarrow> stepper" where
  "stopped_stepper p x = x\<lparr>next_step_time := 0, position := - p, st_count := 0,
     st_flags := (st_flags x AND (SF_INVERT_STEP OR SF_SINGLE_SCHED)) OR SF_NEED_RESET\<rparr>"

lemma stepper_get_position_cong:
  assumes "stepper_at s' st = stepper_at s st\<lparr>next_step_time := n\<rparr>" "have_edge s' = have_edge s" "have_avr s' = have_avr s"
  shows "stepper_get_position st s' = stepper_get_position st s"
  using assms by (simp add: stepper_get_position_def single_sched_def have_single_def Let_def)

lemma stepper_stop_run:
  assumes p: "pending b ts s" and m: "motion_pool S q fs s" and st: "st \<in> S"
  shows "\<exists>s' mh. stepper_stop st r s = Ret () s' \<and> pending b (removeAll (stepper_time st) ts) s' \<and>
    motion_pool S (q(st := [])) (rev (q st) @ fs) s' \<and> move_queue_empty mh \<and>
    stepper_at s' = (stepper_at s)(st := (stopped_stepper (stepper_get_position st s) (stepper_at s st))\<lparr>st_mq := mh\<rparr>) \<and>
    trsync_at s' = trsync_at s \<and> tss_next s' = tss_next s \<and> tss_func s' = tss_func s \<and>
    have_edge s' = have_edge s \<and> have_avr s' = have_avr s \<and> (timer_list s \<noteq> stepper_time st \<longrightarrow> timer_list s' = timer_list s)"
proof -
  let ?t = "stepper_time st" and ?x = "stopped_stepper (stepper_get_position st s) (stepper_at s st)"
  obtain s1 where s1: "sched_del_timer ?t s = Ret () s1" "timer_frame s s1" "pending b (removeAll ?t ts) s1"
    using fw_timers.del_law [OF p, of ?t] by auto
  have head: "timer_list s \<noteq> ?t \<longrightarrow> timer_list s1 = timer_list s"
    using s1(1) by (auto simp: sched_del_timer_def op_simps split: option.splits)
  note f = timer_frame_steppers [OF s1(2)]
  define po where "po = (if have_edge s \<and> st_flags ?x AND SF_SINGLE_SCHED \<noteq> 0 then (pin_out s1)(dir_pin ?x := False)
    else (pin_out s1)(dir_pin ?x := False, step_pin ?x := st_flags ?x AND SF_INVERT_STEP \<noteq> 0))"
  define s2 where "s2 = (set_wake ?t 0 s1)\<lparr>stepper_at := (stepper_at s)(st := ?x), pin_out := po\<rparr>"
  have "pending b (removeAll ?t ts) (set_wake ?t 0 s1)"
    by (rule pending_set_wake [OF s1(3)]) simp_all
  then have p2: "pending b (removeAll ?t ts) s2"
    by (subst pending_cong [of _ "set_wake ?t 0 s1"]) (simp_all add: s2_def)
  have "motion_pool S q fs s2 = motion_pool S q fs s"
    by (rule motion_pool_cong) (auto simp: s2_def set_wake_def f stopped_stepper_def)
  with m have "motion_pool S q fs s2" by simp
  from drain_all [OF this st] obtain s3 mh nx fl where
    d: "while_op (\<lambda>s. \<not> move_queue_empty (st_mq (stepper_at s st))) (stepper_drain_round st) s2 = Ret () s3"
    and s3: "s3 = s2\<lparr>stepper_at := (stepper_at s2)(st := (stepper_at s2 st)\<lparr>st_mq := mh\<rparr>), mn_next := nx, move_free_list := fl\<rparr>"
    and d2:
    "move_queue_empty mh" "motion_pool S (q(st := [])) (rev (q st) @ fs) s3" by blast
  have pos: "stepper_get_position st (s1\<lparr>t_wake := (t_wake s1)(?t := 0),
       stepper_at := (stepper_at s1)(st := (stepper_at s1 st)\<lparr>next_step_time := 0\<rparr>)\<rparr>) = stepper_get_position st s"
    by (rule stepper_get_position_cong [where n = 0]) (simp_all add: f)
  have "stepper_stop st r s =
      while_op (\<lambda>s. \<not> move_queue_empty (st_mq (stepper_at s st))) (stepper_drain_round st) s2"
    unfolding s2_def po_def set_wake_def stopped_stepper_def
    using s1(1) pos
    by (simp add: stepper_stop_def op_simps wake_upd_def st_upd_def st_get_def gpio_out_write_def f)
  with d(1) have "stepper_stop st r s = Ret () s3" by simp
  moreover have "pending b (removeAll ?t ts) s3"
    using p2 by (subst pending_cong [of _ s2]) (simp_all add: s3)
  ultimately show ?thesis
    using d2 f head by (intro exI [of _ s3] exI [of _ mh]) (simp add: s3 s2_def set_wake_def)
qed

lemma need_reset_flag: "((f AND (SF_INVERT_STEP OR SF_SINGLE_SCHED)) OR SF_NEED_RESET) AND SF_NEED_RESET \<noteq> 0"
proof -
  have "bit (((f AND (SF_INVERT_STEP OR SF_SINGLE_SCHED)) OR SF_NEED_RESET) AND SF_NEED_RESET :: u8) 3"
    by (simp add: bit_simps bit_int_exp [of 8 3])
  then show ?thesis by (metis bit_0_eq bot_apply bot_bool_def)
qed

lemma stepper_stop_client:
  assumes "motion_ok b S s" "st \<in> S"
  shows "\<exists>s'. stepper_stop st r s = Ret () s' \<and> motion_ok b S s' \<and> stepper_idle b st s' \<and>
    (\<forall>y. stepper_idle b y s \<longrightarrow> stepper_idle b y s') \<and>
    trsync_at s' = trsync_at s \<and> tss_next s' = tss_next s \<and> tss_func s' = tss_func s \<and>
    (timer_list s \<noteq> stepper_time st \<longrightarrow> timer_list s' = timer_list s)"
proof -
  obtain ts q fs where p: "pending b ts s" and m: "motion_pool S q fs s"
    using assms(1) by (auto simp: motion_ok_def)
  obtain s' mh where run: "stepper_stop st r s = Ret () s'"
    and p': "pending b (removeAll (stepper_time st) ts) s'" and m': "motion_pool S (q(st := [])) (rev (q st) @ fs) s'"
    and e: "move_queue_empty mh"
    and x: "stepper_at s' = (stepper_at s)(st := (stopped_stepper (stepper_get_position st s) (stepper_at s st))\<lparr>st_mq := mh\<rparr>)"
    and t: "trsync_at s' = trsync_at s" "tss_next s' = tss_next s" "tss_func s' = tss_func s"
      "timer_list s \<noteq> stepper_time st \<longrightarrow> timer_list s' = timer_list s"
    using stepper_stop_run [OF p m assms(2)] by blast
  have idle: "stepper_idle b st s'"
    using p' e by (auto simp: stepper_idle_def x stopped_stepper_def need_reset_flag [simplified])
  have "stepper_idle b y s'" if y: "stepper_idle b y s" for y
  proof (cases "y = st")
    case False
    from y obtain ts' where ts': "pending b ts' s" "stepper_time y \<notin> set ts'" by (auto simp: stepper_idle_def)
    from stepper_stop_run [OF this(1) m assms(2), of r] run
    have "pending b (removeAll (stepper_time st) ts') s'" by auto
    with ts'(2) y False show ?thesis by (auto simp: stepper_idle_def x)
  qed (use idle in simp)
  with run p' m' idle t show ?thesis unfolding motion_ok_def by blast
qed

interpretation stop_clients: trigger_client signal_call "\<lambda>x. x \<in> S" "motion_ok b S" "stepper_idle b" for b S
proof unfold_locales
  fix s :: "'a steppers_scheme" and x r and f :: sigfunc
  assume "motion_ok b S s" "x \<in> S"
  from stepper_stop_client [OF this, of r]
  show "\<exists>s'. signal_call f x r s = Ret () s' \<and> motion_ok b S s' \<and> stepper_idle b x s' \<and>
      (\<forall>y. stepper_idle b y s \<longrightarrow> stepper_idle b y s') \<and>
      trsync_at s' = trsync_at s \<and> tss_next s' = tss_next s \<and> tss_func s' = tss_func s"
    by (cases f) (auto simp: signal_call_def)
next
  fix s :: "'a steppers_scheme" and a n g
  let ?s = "s\<lparr>trsync_at := a, tss_next := n, tss_func := g\<rparr>"
  have p: "pending b ts ?s = pending b ts s" for ts by (rule pending_cong) simp_all
  have "motion_pool S q fs ?s = motion_pool S q fs s" for q fs by (rule motion_pool_cong) simp_all
  with p show "motion_ok b S ?s = motion_ok b S s" by (simp add: motion_ok_def)
  fix x
  from p show "stepper_idle b x ?s = stepper_idle b x s" by (simp add: stepper_idle_def)
qed

subsection \<open>Position tracking\<close>

text \<open>The signed reading of the position counter: its top bit is the direction.\<close>

definition raw_position :: "nat \<Rightarrow> 'a steppers_scheme \<Rightarrow> u32" where
  "raw_position st s =
     (let x = stepper_at s st
      in if single_sched st s then position x - st_count x else position x - st_count x div 2)"

definition unsign :: "u32 \<Rightarrow> u32" where
  "unsign p = (if bit p 31 then - p else p)"

lemma and_top_iff: "(p :: u32) AND 0x80000000 \<noteq> 0 \<longleftrightarrow> bit p 31"
  using and_bit_zero_iff [of p 31] by simp

lemma stepper_get_position_raw: "stepper_get_position st s = unsign (raw_position st s)"
  unfolding stepper_get_position_def raw_position_def unsign_def Let_def and_top_iff by simp

lemma bit31_uminus:
  assumes "p \<noteq> 0" "p \<noteq> 0x80000000"
  shows "bit (- p :: u32) 31 \<longleftrightarrow> \<not> bit p 31"
proof -
  have "unat p < 2 ^ 32" using unsigned_less [of p] by simp
  moreover have "unat p \<noteq> 2 ^ 31"
  proof
    assume "unat p = 2 ^ 31"
    then have "unat p = unat (0x80000000 :: u32)" by simp
    then show False using assms(2) by (metis unsigned_word_eqI)
  qed
  ultimately show ?thesis unfolding bit31_iff unat_uminus [OF assms(1)] by auto
qed

lemma unsign_uminus: "p \<noteq> 0 \<Longrightarrow> p \<noteq> 0x80000000 \<Longrightarrow> unsign (- p) = unsign p"
  by (simp add: unsign_def bit31_uminus)

lemma unsign_eq_zero: "unsign p = 0 \<longleftrightarrow> p = 0"
  by (auto simp: unsign_def)

lemma stepper_stop_position:
  assumes "pending b ts s" "motion_pool S q fs s" "st \<in> S"
    and "stepper_get_position st s \<noteq> 0" "stepper_get_position st s \<noteq> 0x80000000"
    and "stepper_stop st r s = Ret () s'"
  shows "stepper_get_position st s' = stepper_get_position st s \<and>
    (st' \<noteq> st \<longrightarrow> stepper_get_position st' s' = stepper_get_position st' s)"
proof -
  let ?p = "stepper_get_position st s"
  obtain mh where x: "stepper_at s' = (stepper_at s)(st := (stopped_stepper ?p (stepper_at s st))\<lparr>st_mq := mh\<rparr>)"
    and h: "have_edge s' = have_edge s" "have_avr s' = have_avr s"
    using stepper_stop_run [OF assms(1-3), of r] assms(6) by auto
  have "raw_position st s' = - ?p" by (simp add: raw_position_def Let_def x stopped_stepper_def)
  then have "stepper_get_position st s' = unsign ?p"
    using assms(4,5) by (simp add: stepper_get_position_raw [of st s'] unsign_uminus)
  moreover have "\<not> bit ?p 31"
  proof (cases "bit (raw_position st s) 31")
    case True
    then have "?p = - raw_position st s" by (simp add: stepper_get_position_raw unsign_def)
    moreover have "raw_position st s \<noteq> 0" "raw_position st s \<noteq> 0x80000000"
      using assms(4,5) True by (auto simp: stepper_get_position_raw unsign_def)
    ultimately show ?thesis using True by (simp add: bit31_uminus)
  next
    case False
    then show ?thesis by (simp add: stepper_get_position_raw unsign_def)
  qed
  moreover have "stepper_get_position st' s' = stepper_get_position st' s" if "st' \<noteq> st"
    using that by (simp add: stepper_get_position_def single_sched_def have_single_def x h)
  ultimately show ?thesis by (simp add: unsign_def)
qed

subsection \<open>Loading a move\<close>

definition load_stepper :: "bool \<Rightarrow> bool \<Rightarrow> stepper_move \<Rightarrow> move_queue_head \<Rightarrow> stepper \<Rightarrow> stepper" where
  "load_stepper single avr m mq' x =
     x\<lparr>st_mq := mq', st_add := sm_add m, st_interval := sm_interval m + scast (sm_add m),
       st_flags := (if single \<and> avr
                    then if sm_add m \<noteq> 0 then st_flags x OR SF_HAVE_ADD else st_flags x AND NOT SF_HAVE_ADD
                    else st_flags x),
       next_step_time := (if single then next_step_time x else next_step_time x + sm_interval m),
       st_count := (if single then ucast (sm_count m) else ucast (sm_count m) * 2),
       position := (if sm_flags m AND MF_DIR \<noteq> 0 then - position x else position x) + ucast (sm_count m)\<rparr>"

lemma stepper_load_next_empty:
  "mq_first (st_mq (stepper_at s st)) = None \<Longrightarrow>
   stepper_load_next st s = Ret SF_DONE (s\<lparr>stepper_at := (stepper_at s)(st := (stepper_at s st)\<lparr>st_count := 0\<rparr>)\<rparr>)"
  by (simp add: stepper_load_next_def st_get_def st_upd_def op_simps move_queue_empty_def)

lemma stepper_load_next_move:
  assumes mn: "mq_first (st_mq (stepper_at s st)) = Some mn"
  shows "stepper_load_next st s = Ret SF_RESCHEDULE (s\<lparr>
     stepper_at := (stepper_at s)(st := load_stepper (single_sched st s) (have_avr s) (move_at s mn)
        ((st_mq (stepper_at s st))\<lparr>mq_first := mn_next s mn\<rparr>) (stepper_at s st)),
     t_wake := (t_wake s)(stepper_time st :=
        (if single_sched st s then t_wake s (stepper_time st) else next_step_time (stepper_at s st)) + sm_interval (move_at s mn)),
     pin_out := (if sm_flags (move_at s mn) AND MF_DIR \<noteq> 0
        then (pin_out s)(dir_pin (stepper_at s st) := \<not> pin_out s (dir_pin (stepper_at s st))) else pin_out s), mn_next := (mn_next s)(mn := move_free_list s), move_free_list := Some mn\<rparr>)"
proof -
  have single: "single_sched st (s\<lparr>stepper_at := (stepper_at s)(st := (stepper_at s st)
      \<lparr>st_mq := h, st_add := a, st_interval := i\<rparr>)\<rparr>) = single_sched st s" for h a i
    by (simp add: single_sched_def have_single_def)
  show ?thesis
    by (cases "single_sched st s"; cases "have_avr s"; cases "sm_flags (move_at s mn) AND MF_DIR = 0")
      (simp_all add: mn stepper_load_next_def st_get_def st_upd_def op_simps move_queue_empty_def move_queue_pop_def
        single wake_upd_def gpio_out_toggle_noirq_def move_free_def load_stepper_def fun_upd_same)
qed

lemma raw_position_loaded:
  assumes "stepper_at s' st = load_stepper (single_sched st s) avr m mq' (stepper_at s st)"
    "have_edge s' = have_edge s" "have_avr s' = have_avr s" "avr = have_avr s"
  shows "raw_position st s' =
    (if sm_flags m AND MF_DIR \<noteq> 0 then - position (stepper_at s st) else position (stepper_at s st))"
proof -
  have bits: "(f OR SF_HAVE_ADD) AND SF_SINGLE_SCHED = f AND SF_SINGLE_SCHED"
      "(f AND NOT SF_HAVE_ADD) AND SF_SINGLE_SCHED = f AND SF_SINGLE_SCHED" for f :: u8
    by (rule bit_word_eqI; auto simp: bit_simps bit_int_exp [of 32 5])+
  have flags: "st_flags (stepper_at s' st) AND SF_SINGLE_SCHED = st_flags (stepper_at s st) AND SF_SINGLE_SCHED"
    unfolding assms(1) load_stepper_def by (simp add: bits [simplified])
  then have single: "single_sched st s' = single_sched st s"
    using assms(2,3) by (simp add: single_sched_def have_single_def)
  have "(ucast c * 2 :: u32) div 2 = ucast (c :: u16)" for c
  proof (rule unsigned_word_eqI)
    have "unat c < 2 ^ 16" using unsigned_less [of c] by simp
    then show "unat ((ucast c * 2 :: u32) div 2) = unat (ucast c :: u32)"
      by (simp add: unat_div_distrib unat_word_ariths unsigned_ucast_eq take_bit_nat_eq_self)
  qed
  then show ?thesis
    by (simp add: raw_position_def single Let_def) (simp add: assms(1) load_stepper_def)
qed

lemma unsign_step:
  assumes "r + 1 \<noteq> 0" "r + 1 \<noteq> 0x80000000"
  shows "unsign (r + 1) = unsign r + (if bit r 31 then - 1 else 1)"
proof -
  have "unat (r + 1) = unat r + 1"
    using assms(1) by (metis Suc_eq_plus1 unatSuc add.commute)
  moreover have "unat (r + 1) \<noteq> 2 ^ 31"
  proof
    assume "unat (r + 1) = 2 ^ 31"
    then have "unat (r + 1) = unat (0x80000000 :: u32)" by simp
    then show False using assms(2) by (metis unsigned_word_eqI)
  qed
  ultimately have "bit (r + 1) 31 = bit r 31" unfolding bit31_iff by auto
  then show ?thesis by (simp add: unsign_def)
qed

text \<open>One edge of the step pin in the single-scheduled mode.\<close>

lemma edge_raw_position:
  assumes single: "single_sched st s" and run: "stepper_event_edge st s = Ret r s'"
  shows "raw_position st s' = raw_position st s + 1 \<or> raw_position st s' = - (raw_position st s + 1)"
proof -
  let ?x = "stepper_at s st"
  define s1 where "s1 = s\<lparr>pin_out := (pin_out s)(step_pin ?x := \<not> pin_out s (step_pin ?x))\<rparr>"
  have s1: "single_sched st s1" "stepper_at s1 = stepper_at s" "have_avr s1 = have_avr s" "have_edge s1 = have_edge s"
    using single by (simp_all add: s1_def single_sched_def have_single_def)
  show ?thesis
  proof (cases "st_count ?x - 1 = 0")
    case False
    then have "s' = s1\<lparr>t_wake := (t_wake s)(stepper_time st := t_wake s (stepper_time st) + st_interval ?x),
        stepper_at := (stepper_at s)(st := ?x\<lparr>st_count := st_count ?x - 1, st_interval := st_interval ?x + scast (st_add ?x)\<rparr>)\<rparr>"
      using run by (auto simp: stepper_event_edge_def st_get_def st_upd_def op_simps wake_upd_def gpio_out_toggle_noirq_def s1_def)
    then show ?thesis using single by (simp add: raw_position_def single_sched_def have_single_def Let_def s1_def)
  next
    case True
    then have c1: "st_count ?x = 1" by simp
    have load: "stepper_load_next st s1 = Ret r s'"
      using run c1 by (simp add: stepper_event_edge_def st_get_def op_simps gpio_out_toggle_noirq_def s1_def)
    have before: "raw_position st s = position ?x - 1" using single c1 by (simp add: raw_position_def Let_def)
    show ?thesis
    proof (cases "mq_first (st_mq ?x)")
      case None
      with load have "s' = s1\<lparr>stepper_at := (stepper_at s)(st := ?x\<lparr>st_count := 0\<rparr>)\<rparr>"
        by (simp add: stepper_load_next_empty s1)
      then have "raw_position st s' = position ?x"
        by (simp add: raw_position_def Let_def)
      with before show ?thesis by simp
    next
      case (Some mn)
      with load stepper_load_next_move [of s1 st mn] have
        "stepper_at s' st = load_stepper (single_sched st s1) (have_avr s1) (move_at s1 mn)
           ((st_mq ?x)\<lparr>mq_first := mn_next s1 mn\<rparr>) (stepper_at s1 st)"
        "have_edge s' = have_edge s1" "have_avr s' = have_avr s1"
        by (simp_all add: s1) (auto simp: s1)
      from raw_position_loaded [OF this refl] before show ?thesis by (simp add: s1)
    qed
  qed
qed

lemma edge_step_position:
  assumes "single_sched st s" "stepper_event_edge st s = Ret r s'"
    and "raw_position st s + 1 \<noteq> 0" "raw_position st s + 1 \<noteq> 0x80000000"
  shows "stepper_get_position st s' =
    stepper_get_position st s + (if bit (raw_position st s) 31 then - 1 else 1)"
  using edge_raw_position [OF assms(1,2)] unsign_step [OF assms(3,4)] unsign_uminus [OF assms(3,4)]
  by (auto simp: stepper_get_position_raw)

lemma and_one_iff: "(c :: u32) AND 1 \<noteq> 0 \<longleftrightarrow> odd (unat c)"
proof -
  have "c AND 1 \<noteq> 0 \<longleftrightarrow> bit c 0" using and_bit_zero_iff [of c 0] by simp
  also have "\<dots> \<longleftrightarrow> bit (unat c) 0" by (simp add: bit_unsigned_iff)
  finally show ?thesis by (simp add: bit_0)
qed

lemma half_pred:
  assumes "(c :: u32) \<noteq> 0"
  shows "(c - 1) div 2 = (if odd (unat c) then c div 2 else c div 2 - 1)"
proof (rule unsigned_word_eqI)
  have u: "unat (c - 1) = unat c - 1" "0 < unat c" using assms by (simp_all add: unat_minus_one unat_gt_0)
  show "unat ((c - 1) div 2) = unat (if odd (unat c) then c div 2 else c div 2 - 1)"
  proof (cases "odd (unat c)")
    case False
    then have "c div 2 \<noteq> 0" using u(2) by (auto simp: unat_eq_zero [symmetric] unat_div_distrib)
    then have "unat (c div 2 - 1) = unat c div 2 - 1" by (simp add: unat_minus_one unat_div_distrib)
    with False u show ?thesis by (auto simp: unat_div_distrib elim!: evenE)
  qed (use u in \<open>auto simp: unat_div_distrib elim!: oddE\<close>)
qed

lemma reschedule_min_app:
  "reschedule_min st m s = Ret SF_RESCHEDULE (s\<lparr>t_wake := (t_wake s)(stepper_time st := m)\<rparr>)"
  by (simp add: reschedule_min_def op_simps wake_upd_def)

lemma raw_position_t_wake [simp]: "raw_position st (s\<lparr>t_wake := w\<rparr>) = raw_position st s"
  by (simp add: raw_position_def single_sched_def have_single_def Let_def)

lemma load_next_raw:
  assumes "stepper_load_next st s = Ret r s'" "\<not> single_sched st s" "st_count (stepper_at s st) = 0"
  shows "raw_position st s' = raw_position st s \<or> raw_position st s' = - raw_position st s"
proof -
  have before: "raw_position st s = position (stepper_at s st)" using assms(2,3) by (simp add: raw_position_def Let_def)
  show ?thesis
  proof (cases "mq_first (st_mq (stepper_at s st))")
    case None
    with assms have "s' = s\<lparr>stepper_at := (stepper_at s)(st := (stepper_at s st)\<lparr>st_count := 0\<rparr>)\<rparr>"
      by (simp add: stepper_load_next_empty)
    then show ?thesis using before by (simp add: raw_position_def Let_def)
  next
    case (Some mn)
    with assms(1) stepper_load_next_move [of s st mn] have
      "stepper_at s' st = load_stepper (single_sched st s) (have_avr s) (move_at s mn)
         ((st_mq (stepper_at s st))\<lparr>mq_first := mn_next s mn\<rparr>) (stepper_at s st)"
      "have_edge s' = have_edge s" "have_avr s' = have_avr s" by auto
    from raw_position_loaded [OF this refl] before show ?thesis by simp
  qed
qed

text \<open>An event of the double-scheduled mode: the step when \<open>count\<close> is even, the unstep when it is odd.\<close>

lemma full_raw_position:
  assumes dbl: "\<not> single_sched st s" and c: "st_count (stepper_at s st) \<noteq> 0"
    and run: "stepper_event_full st s = Ret r s'"
  shows "if odd (unat (st_count (stepper_at s st)))
    then raw_position st s' = raw_position st s \<or> raw_position st s' = - raw_position st s
    else raw_position st s' = raw_position st s + 1"
proof -
  let ?x = "stepper_at s st" and ?m = "hw_clock s (clock_reads s) + step_pulse_ticks (stepper_at s st)"
  define s1 where "s1 = s\<lparr>pin_out := (pin_out s)(step_pin ?x := \<not> pin_out s (step_pin ?x)), clock_reads := Suc (clock_reads s),
    stepper_at := (stepper_at s)(st := ?x\<lparr>st_count := st_count ?x - 1\<rparr>)\<rparr>"
  have s1: "\<not> single_sched st s1" using dbl by (simp add: s1_def single_sched_def have_single_def)
  have raw1: "raw_position st s1 = (if odd (unat (st_count ?x)) then raw_position st s else raw_position st s + 1)"
    using s1 dbl by (simp add: raw_position_def Let_def) (simp add: s1_def half_pred [OF c])
  have par: "(st_count ?x - 1) AND 1 \<noteq> 0 \<longleftrightarrow> even (unat (st_count ?x))"
    using c unfolding and_one_iff by (simp add: unat_minus_one unat_gt_0)
  show ?thesis
  proof (cases "odd (unat (st_count ?x))")
    case False
    then have "s' = s1\<lparr>t_wake := (t_wake s)(stepper_time st := ?m)\<rparr>"
      using run par by (auto simp: stepper_event_full_def st_get_def st_upd_def op_simps gpio_out_toggle_noirq_def
          timer_read_time_def Let_def reschedule_min_app s1_def)
    with raw1 False show ?thesis by simp
  next
    case True
    show ?thesis
    proof (cases "st_count ?x - 1 = 0")
      case False
      have "(\<exists>w. s' = s1\<lparr>stepper_at := (stepper_at s1)(st := (stepper_at s1 st)\<lparr>next_step_time := next_step_time ?x + st_interval ?x,
          st_interval := st_interval ?x + scast (st_add ?x)\<rparr>), t_wake := w\<rparr>)"
        using run par True False
        by (cases "timer_is_before (next_step_time ?x + st_interval ?x) ?m")
          (auto simp: stepper_event_full_def st_get_def st_upd_def op_simps gpio_out_toggle_noirq_def wake_upd_def
            timer_read_time_def Let_def reschedule_min_app s1_def)
      then have "raw_position st s' = raw_position st s1"
        by (auto simp: raw_position_def single_sched_def have_single_def Let_def)
      with raw1 True show ?thesis by simp
    next
      case c0: True
      have "\<exists>r2 s2. stepper_load_next st s1 = Ret r2 s2 \<and> raw_position st s' = raw_position st s2"
      proof (cases "stepper_load_next st s1")
        case (Ret r2 s2)
        with run par True c0 show ?thesis
          by (auto simp: stepper_event_full_def st_get_def st_upd_def op_simps gpio_out_toggle_noirq_def
              timer_read_time_def Let_def reschedule_min_app s1_def split: if_splits)
      qed (use run par True c0 in \<open>auto simp: stepper_event_full_def st_get_def st_upd_def op_simps gpio_out_toggle_noirq_def
              timer_read_time_def Let_def reschedule_min_app s1_def\<close>)
      then obtain r2 s2 where l: "stepper_load_next st s1 = Ret r2 s2" "raw_position st s' = raw_position st s2" by blast
      have "st_count (stepper_at s1 st) = 0" using c0 by (simp add: s1_def)
      from load_next_raw [OF l(1) s1 this] l(2) raw1 True show ?thesis by simp
    qed
  qed
qed

subsection \<open>The step times of a move\<close>

text \<open>\<open>n\<close> step events in a row, each at the wake time of the timer: the clocks and the last state.\<close>

fun edge_trace :: "nat \<Rightarrow> nat \<Rightarrow> 'a steppers_scheme \<Rightarrow> (u32 list \<times> 'a steppers_scheme) option" where
  "edge_trace 0 st s = Some ([], s)"
| "edge_trace (Suc n) st s =
     (case stepper_event_edge st s of
        Ret r s' \<Rightarrow> map_option (\<lambda>(ws, t). (t_wake s (stepper_time st) # ws, t)) (edge_trace n st s')
      | _ \<Rightarrow> None)"

lemma edge_event_mid:
  assumes "st_count (stepper_at s st) - 1 \<noteq> 0"
  shows "\<exists>s'. stepper_event_edge st s = Ret SF_RESCHEDULE s' \<and>
    stepper_at s' st = (stepper_at s st)\<lparr>st_count := st_count (stepper_at s st) - 1,
      st_interval := st_interval (stepper_at s st) + scast (st_add (stepper_at s st))\<rparr> \<and>
    t_wake s' (stepper_time st) = t_wake s (stepper_time st) + st_interval (stepper_at s st)"
  using assms
  by (simp add: stepper_event_edge_def st_get_def st_upd_def op_simps wake_upd_def gpio_out_toggle_noirq_def)

lemma edge_trace_clocks:
  assumes "st_count (stepper_at s st) = of_nat n" "n < 2 ^ 32" "st_add (stepper_at s st) = a"
    "st_interval (stepper_at s st) = i + of_nat k * scast a" "t_wake s (stepper_time st) = step_clock w i a k"
    "m < n"
  shows "\<exists>s'. edge_trace m st s = Some (map (step_clock w i a) [k..<k + m], s') \<and>
    st_count (stepper_at s' st) = of_nat (n - m) \<and> t_wake s' (stepper_time st) = step_clock w i a (k + m) \<and>
    st_mq (stepper_at s' st) = st_mq (stepper_at s st)"
  using assms
proof (induction m arbitrary: s n k)
  case 0
  then show ?case by simp
next
  case (Suc m)
  let ?x = "stepper_at s st"
  obtain n' where n: "n = Suc n'" "m < n'" using Suc.prems(6) by (cases n) auto
  have cnt: "st_count ?x - 1 = of_nat (n - 1)" using Suc.prems(1) by (simp add: n(1))
  have "unat (of_nat n' :: u32) = n'" using Suc.prems(2) n by (simp add: unat_of_nat)
  then have "(of_nat n' :: u32) \<noteq> 0" using n(2) by (metis not_less_zero unat_eq_zero)
  then have "(of_nat (n - 1) :: u32) \<noteq> 0" by (simp add: n(1))
  with cnt obtain s1 where s1: "stepper_event_edge st s = Ret SF_RESCHEDULE s1"
      "stepper_at s1 st = ?x\<lparr>st_count := st_count ?x - 1, st_interval := st_interval ?x + scast (st_add ?x)\<rparr>"
      "t_wake s1 (stepper_time st) = t_wake s (stepper_time st) + st_interval ?x"
    using edge_event_mid [of s st] by auto
  have p1: "st_count (stepper_at s1 st) = of_nat (n - 1)" "st_add (stepper_at s1 st) = a"
    using cnt Suc.prems(3) by (simp_all add: s1(2) n(1))
  have p2: "n - 1 < 2 ^ 32" "m < n - 1" using Suc.prems(2) n by simp_all
  have p3: "st_interval (stepper_at s1 st) = i + of_nat (Suc k) * scast a"
    using Suc.prems(3,4) by (simp add: s1(2) algebra_simps)
  have p4: "t_wake s1 (stepper_time st) = step_clock w i a (Suc k)"
    using Suc.prems(4,5) by (simp add: s1(3) step_clock_Suc)
  obtain s' where s': "edge_trace m st s1 = Some (map (step_clock w i a) [Suc k..<Suc k + m], s')"
      "st_count (stepper_at s' st) = of_nat (n - 1 - m)" "t_wake s' (stepper_time st) = step_clock w i a (Suc k + m)"
      "st_mq (stepper_at s' st) = st_mq (stepper_at s1 st)"
    using Suc.IH [OF p1(1) p2(1) p1(2) p3 p4 p2(2)] by blast
  have "[k..<k + Suc m] = k # [Suc k..<Suc k + m]" by (simp add: upt_conv_Cons)
  with s1(1) s' Suc.prems(5) show ?case by (simp add: s1(2))
qed

lemma edge_trace_snoc:
  assumes "edge_trace m st s = Some (ws, u)" "stepper_event_edge st u = Ret r v"
  shows "edge_trace (Suc m) st s = Some (ws @ [t_wake u (stepper_time st)], v)"
  using assms(1)
proof (induction m arbitrary: s ws)
  case 0
  with assms(2) show ?case by simp
next
  case (Suc m)
  then obtain r' s' vs where s': "stepper_event_edge st s = Ret r' s'" "edge_trace m st s' = Some (vs, u)"
      "ws = t_wake s (stepper_time st) # vs"
    by (auto split: outcome.splits)
  from Suc.IH [OF s'(2)] have "edge_trace (Suc m) st s' = Some (vs @ [t_wake u (stepper_time st)], v)" .
  with s' show ?case by (simp only: edge_trace.simps(2) [of "Suc m"] outcome.case) simp
qed

text \<open>A whole move of an idle stepper, with nothing queued behind it.\<close>

lemma edge_move_clocks:
  assumes single: "single_sched st s" and mn: "mq_first (st_mq (stepper_at s st)) = Some mn"
    and last: "mn_next s mn = None" and c: "sm_count (move_at s mn) = c" "c \<noteq> 0"
    and w: "t_wake s (stepper_time st) = w"
  shows "\<exists>s1 s2. stepper_load_next st s = Ret SF_RESCHEDULE s1 \<and>
    edge_trace (unat c) st s1 = Some (map (step_clock w (sm_interval (move_at s mn)) (sm_add (move_at s mn))) [1..<Suc (unat c)], s2) \<and>
    st_count (stepper_at s2 st) = 0"
proof -
  let ?m = "move_at s mn"
  obtain s1 where s1: "stepper_load_next st s = Ret SF_RESCHEDULE s1"
      "stepper_at s1 st = load_stepper True (have_avr s) ?m ((st_mq (stepper_at s st))\<lparr>mq_first := None\<rparr>) (stepper_at s st)"
      "t_wake s1 (stepper_time st) = w + sm_interval ?m"
    using stepper_load_next_move [OF mn] single last w by simp
  have cu: "0 < unat c" "unat c < 2 ^ 16" using c(2) unsigned_less [of c] by (simp_all add: unat_gt_0)
  have "\<exists>s'. edge_trace (unat c - 1) st s1 = Some (map (step_clock w (sm_interval ?m) (sm_add ?m)) [1..<1 + (unat c - 1)], s') \<and>
    st_count (stepper_at s' st) = of_nat (unat c - (unat c - 1)) \<and>
    t_wake s' (stepper_time st) = step_clock w (sm_interval ?m) (sm_add ?m) (1 + (unat c - 1)) \<and>
    st_mq (stepper_at s' st) = st_mq (stepper_at s1 st)"
    using cu c(1) by (intro edge_trace_clocks) (simp_all add: s1 load_stepper_def step_clock_def)
  then obtain s' where s': "edge_trace (unat c - 1) st s1 = Some (map (step_clock w (sm_interval ?m) (sm_add ?m)) [1..<unat c], s')"
      "st_count (stepper_at s' st) = 1" "t_wake s' (stepper_time st) = step_clock w (sm_interval ?m) (sm_add ?m) (unat c)"
      "st_mq (stepper_at s' st) = (st_mq (stepper_at s st))\<lparr>mq_first := None\<rparr>"
    using cu by (auto simp: s1(2) load_stepper_def)
  define s2 where "s2 = s'\<lparr>pin_out := (pin_out s')(step_pin (stepper_at s' st) := \<not> pin_out s' (step_pin (stepper_at s' st)))\<rparr>"
  have ev: "stepper_event_edge st s' = Ret SF_DONE (s2\<lparr>stepper_at := (stepper_at s2)(st := (stepper_at s2 st)\<lparr>st_count := 0\<rparr>)\<rparr>)"
    using s'(2,4) stepper_load_next_empty [of s2 st]
    by (simp add: stepper_event_edge_def st_get_def op_simps gpio_out_toggle_noirq_def s2_def)
  from edge_trace_snoc [OF s'(1) ev] s'(3)
  have "edge_trace (Suc (unat c - 1)) st s1 = Some (map (step_clock w (sm_interval ?m) (sm_add ?m)) ([1..<unat c] @ [unat c]),
     s2\<lparr>stepper_at := (stepper_at s2)(st := (stepper_at s2 st)\<lparr>st_count := 0\<rparr>)\<rparr>)"
    by (simp only: map_append list.map)
  moreover have "Suc (unat c - 1) = unat c" "[1..<Suc (unat c)] = [1..<unat c] @ [unat c]" using cu by simp_all
  ultimately show ?thesis using s1(1) by auto
qed

subsection \<open>The step times of a queue of moves\<close>









subsection \<open>Properties\<close>

text \<open>A machine with one stepper at address 8 in the middle of a move of five steps.\<close>

definition example_stepper :: stepper where
  "example_stepper = zero_stepper\<lparr>st_interval := 100, st_add := 2, st_count := 3, position := 0x40000005,
     st_flags := SF_SINGLE_SCHED, step_pin := 1, dir_pin := 2\<rparr>"

definition example_steppers :: steppers where
  "example_steppers =
     trsyncs.extend (example_trsyncs
        \<lparr>t_wake := (\<lambda>_. 0)(stepper_time 8 := 5000, Sentinel_timer := 0x80000000),
         t_next := (\<lambda>_. None)(Periodic_timer \<mapsto> Sentinel_timer)\<rparr>)
       (steppers.fields True False True ((\<lambda>_. zero_stepper)(8 := example_stepper))
         (\<lambda>_. \<lparr>sm_interval = 1000, sm_add = 10, sm_count = 3, sm_flags = 0\<rparr>))"

lemmas example_defs = example_steppers_def example_trsyncs_def example_base_def example_stepper_def
  zero_stepper_def zero_trsync_def trsyncs.defs steppers.defs base.defs

lemma example_steppers_pending: "pending 0 [Periodic_timer] example_steppers"
  unfolding pending_def
  by (intro exI [of _ "[Periodic_timer]"])
    (simp add: timers_ok_def timers_shape_def timers_ordered_def off_def example_defs)

lemma example_steppers_pool: "motion_pool {8} (\<lambda>_. []) [] example_steppers"
  by (simp add: motion_pool_def free_rep_def mq_rep_def node_list_def example_defs)

text \<open>
  In the single-scheduled mode every event of the stepper moves the reported position by exactly
  one step in the current direction, also when it is the last step of a move and the next move,
  with or without a change of direction, is loaded.
\<close>

theorem edge_event_moves_one_step:
  assumes "single_sched st s" "stepper_event_edge st s = Ret r s'"
    and "raw_position st s + 1 \<noteq> 0" "raw_position st s + 1 \<noteq> 0x80000000"
  shows "stepper_get_position st s' =
    stepper_get_position st s + (if bit (raw_position st s) 31 then - 1 else 1)"
  using assms by (rule edge_step_position)

theorem edge_event_moves_one_step_witness:
  "\<exists>r s'. stepper_event_edge 8 example_steppers = Ret r s' \<and>
     stepper_get_position 8 s' = stepper_get_position 8 example_steppers + 1"
proof -
  have raw: "raw_position 8 example_steppers = 0x40000002" and single: "single_sched 8 example_steppers"
    by (simp_all add: raw_position_def single_sched_def have_single_def example_defs)
  obtain s' where "stepper_event_edge 8 example_steppers = Ret SF_RESCHEDULE s'"
    using edge_event_mid [of example_steppers 8] by (auto simp: example_defs)
  with edge_event_moves_one_step [OF single this] show ?thesis
    by (auto simp: raw bit31_iff)
qed

text \<open>
  In the double-scheduled mode the event that raises the step pin moves the reported position by
  one step in the current direction, and the event that lowers it again leaves the position alone,
  also when it loads the next move.
\<close>

theorem full_event_position:
  assumes "\<not> single_sched st s" "st_count (stepper_at s st) \<noteq> 0" "stepper_event_full st s = Ret r s'"
    and "raw_position st s + 1 \<noteq> 0" "raw_position st s + 1 \<noteq> 0x80000000"
    and "raw_position st s \<noteq> 0" "raw_position st s \<noteq> 0x80000000"
  shows "stepper_get_position st s' =
    (if odd (unat (st_count (stepper_at s st))) then stepper_get_position st s
     else stepper_get_position st s + (if bit (raw_position st s) 31 then - 1 else 1))"
  using full_raw_position [OF assms(1-3)] unsign_step [OF assms(4,5)] unsign_uminus [OF assms(6,7)]
  by (auto simp: stepper_get_position_raw split: if_splits)

theorem full_event_position_witness:
  "\<exists>(s :: steppers) s'. stepper_event_full 8 s = Ret SF_RESCHEDULE s' \<and> unat (st_count (stepper_at s 8)) = 4 \<and>
     stepper_get_position 8 s' = stepper_get_position 8 s + 1"
proof -
  define s where "s = example_steppers\<lparr>stepper_at := (\<lambda>_. example_stepper\<lparr>st_flags := 0, st_count := 4\<rparr>)\<rparr>"
  have dbl: "\<not> single_sched 8 s" and c: "st_count (stepper_at s 8) = 4" and raw: "raw_position 8 s = 0x40000003"
    by (simp_all add: raw_position_def single_sched_def have_single_def s_def example_defs)
  obtain s' where run: "stepper_event_full 8 s = Ret SF_RESCHEDULE s'"
    by (simp add: stepper_event_full_def st_get_def st_upd_def op_simps gpio_out_toggle_noirq_def
        timer_read_time_def reschedule_min_app s_def example_defs Let_def)
  have "unat (st_count (stepper_at s 8)) = 4" using c by simp
  moreover from this have "stepper_get_position 8 s' = stepper_get_position 8 s + 1"
    using full_event_position [OF dbl _ run] c raw by (simp add: bit31_iff)
  ultimately show ?thesis using run by blast
qed



text \<open>
  C9: Stopping a stepper always completes: its timer is taken out of the list, its queued moves go back
  to the pool, it is left idle and waiting for a new reference clock, and the position it reports
  does not change; other steppers keep their positions.
\<close>

theorem stepper_stop_keeps_position:
  assumes "pending b ts s" "motion_pool S q fs s" "st \<in> S"
    and "stepper_get_position st s \<noteq> 0" "stepper_get_position st s \<noteq> 0x80000000"
  shows "\<exists>s'. stepper_stop st r s = Ret () s' \<and> stepper_idle b st s' \<and>
    pending b (removeAll (stepper_time st) ts) s' \<and> motion_pool S (q(st := [])) (rev (q st) @ fs) s' \<and>
    (\<forall>st'. stepper_get_position st' s' = stepper_get_position st' s)"
proof -
  obtain s' where s': "stepper_stop st r s = Ret () s'" "pending b (removeAll (stepper_time st) ts) s'"
      "motion_pool S (q(st := [])) (rev (q st) @ fs) s'"
    using stepper_stop_run [OF assms(1-3), of r] by blast
  have "motion_ok b S s" using assms(1,2) by (auto simp: motion_ok_def)
  with stepper_stop_client [OF this assms(3), of r] s'(1) have "stepper_idle b st s'" by auto
  with s' stepper_stop_position [OF assms s'(1)] show ?thesis by metis
qed

theorem stepper_stop_keeps_position_witness:
  "\<exists>s'. stepper_stop 8 1 example_steppers = Ret () s' \<and> stepper_idle 0 8 s' \<and>
     stepper_get_position 8 s' = 0x40000002"
proof -
  have "stepper_get_position 8 example_steppers = 0x40000002"
    by (simp add: stepper_get_position_raw raw_position_def single_sched_def have_single_def unsign_def bit31_iff example_defs)
  with stepper_stop_keeps_position [OF example_steppers_pending example_steppers_pool, of 8 1] show ?thesis
    by auto
qed

end
