(* ===== verification/Endstop.thy ===== *)
theory Endstop
  imports Stepper
begin

text \<open>
  Endstop sampling, \<open>endstop.c\<close>: a timer polls a pin, and a level seen \<open>sample_count\<close> times in a row
  fires the trigger of the endstop.
\<close>

record endstop =
  es_pin :: u32
  rest_time :: u32
  sample_time :: u32
  nextwake :: u32
  es_ts :: "nat option"
  es_flags :: u8
  sample_count :: u8
  trigger_count :: u8
  es_trigger_reason :: u8

record endstops = steppers +
  endstop_at :: "nat \<Rightarrow> endstop"

abbreviation (input) ESF_PIN_HIGH :: u8 where "ESF_PIN_HIGH \<equiv> 1"
abbreviation (input) ESF_HOMING :: u8 where "ESF_HOMING \<equiv> 2"

abbreviation (input) endstop_time :: "nat \<Rightarrow> tptr" where "endstop_time e \<equiv> Obj_timer Endstop_time e"

definition es_get :: "nat \<Rightarrow> ('a endstops_scheme, endstop) op" where
  "es_get e = get_op (\<lambda>s. endstop_at s e)"

definition es_upd :: "nat \<Rightarrow> (endstop \<Rightarrow> endstop) \<Rightarrow> ('a endstops_scheme, unit) op" where
  "es_upd e f = set_op (\<lambda>s. s\<lparr>endstop_at := (endstop_at s)(e := f (endstop_at s e))\<rparr>)"

text \<open>\<open>(val ? ~e->flags : e->flags) & ESF_PIN_HIGH\<close>: the pin does not have the level waited for.\<close>

definition es_no_match :: "bool \<Rightarrow> u8 \<Rightarrow> bool" where
  "es_no_match val flags \<longleftrightarrow> (if val then NOT flags else flags) AND ESF_PIN_HIGH \<noteq> 0"

definition endstop_oversample_event :: "nat \<Rightarrow> ('a endstops_scheme, sf) op" where
  "endstop_oversample_event e =
     bind_op gpio_in_read (\<lambda>val.
     bind_op (es_get e) (\<lambda>x.
       if es_no_match val (es_flags x) then
         then_op (func_set (endstop_time e) Endstop_event)
         (then_op (wake_upd (endstop_time e) (\<lambda>_. nextwake x))
         (then_op (es_upd e (\<lambda>x. x\<lparr>trigger_count := sample_count x\<rparr>)) (ret SF_RESCHEDULE)))
       else
         (let count = trigger_count x - 1
          in if count = 0 then
               bind_op (option_op (es_ts x)) (\<lambda>ts.
               then_op (trsync_do_trigger signal_call ts (es_trigger_reason x)) (ret SF_DONE))
             else
               then_op (es_upd e (\<lambda>x. x\<lparr>trigger_count := count\<rparr>))
               (then_op (wake_upd (endstop_time e) (\<lambda>w. w + sample_time x)) (ret SF_RESCHEDULE)))))"

definition endstop_event :: "nat \<Rightarrow> ('a endstops_scheme, sf) op" where
  "endstop_event e =
     bind_op gpio_in_read (\<lambda>val.
     bind_op (es_get e) (\<lambda>x.
     bind_op (get_op (\<lambda>s. t_wake s (endstop_time e) + rest_time x)) (\<lambda>nw.
       if es_no_match val (es_flags x) then
         then_op (wake_upd (endstop_time e) (\<lambda>_. nw)) (ret SF_RESCHEDULE)
       else
         then_op (es_upd e (\<lambda>x. x\<lparr>nextwake := nw\<rparr>))
         (then_op (func_set (endstop_time e) Endstop_oversample_event)
           (endstop_oversample_event e)))))"

definition zero_endstop :: endstop where
  "zero_endstop =
     \<lparr>es_pin = 0, rest_time = 0, sample_time = 0, nextwake = 0, es_ts = None, es_flags = 0,
      sample_count = 0, trigger_count = 0, es_trigger_reason = 0\<rparr>"

definition command_config_endstop :: "u32 list \<Rightarrow> ('a endstops_scheme, unit) op" where
  "command_config_endstop args =
     bind_op (get_op (\<lambda>s. sizeof_type s ''command_config_endstop'')) (\<lambda>sz.
     bind_op (oid_alloc (ucast (args ! 0)) ''command_config_endstop'' sz) (\<lambda>e.
       es_upd e (\<lambda>_. zero_endstop\<lparr>es_pin := args ! 1\<rparr>)))"

definition command_endstop_home :: "u32 list \<Rightarrow> ('a endstops_scheme, unit) op" where
  "command_endstop_home args =
     bind_op (oid_lookup (ucast (args ! 0)) ''command_config_endstop'') (\<lambda>e.
     then_op (sched_del_timer (endstop_time e))
     (then_op (wake_upd (endstop_time e) (\<lambda>_. args ! 1))
     (then_op (es_upd e (\<lambda>x. x\<lparr>sample_time := args ! 2, sample_count := ucast (args ! 3)\<rparr>))
     (if (ucast (args ! 3) :: u8) = 0 then es_upd e (\<lambda>x. x\<lparr>es_ts := None, es_flags := 0\<rparr>)
      else
        then_op (es_upd e (\<lambda>x. x\<lparr>rest_time := args ! 4\<rparr>))
        (then_op (func_set (endstop_time e) Endstop_event)
        (then_op (es_upd e (\<lambda>x. x\<lparr>trigger_count := sample_count x,
                     es_flags := ESF_HOMING OR (if args ! 5 \<noteq> 0 then ESF_PIN_HIGH else 0)\<rparr>))
        (bind_op (trsync_oid_lookup (ucast (args ! 6))) (\<lambda>ts.
         then_op (es_upd e (\<lambda>x. x\<lparr>es_ts := Some ts, es_trigger_reason := ucast (args ! 7)\<rparr>))
           (sched_add_timer (endstop_time e))))))))))"

definition command_endstop_query_state :: "u32 list \<Rightarrow> ('a endstops_scheme, unit) op" where
  "command_endstop_query_state args =
     (let i = ucast (args ! 0) :: u8
      in bind_op (oid_lookup i ''command_config_endstop'') (\<lambda>e.
         bind_op (es_get e) (\<lambda>x.
         bind_op gpio_in_read (\<lambda>val.
           sendf ''endstop_state oid=%c homing=%c next_clock=%u pin_value=%c''
             [ucast i, of_bool (es_flags x AND ESF_HOMING \<noteq> 0), nextwake x, of_bool val]))))"

text \<open>The timer callbacks of the motion modules, by the function pointer and the timer.\<close>

definition motion_event :: "timer_func \<Rightarrow> tptr \<Rightarrow> ('a endstops_scheme, sf) op" where
  "motion_event f t =
     (case t of
        Obj_timer k a \<Rightarrow>
          (case f of
             Null_func \<Rightarrow> stepper_event a
           | Stepper_event_full \<Rightarrow> stepper_event_full a
           | Trsync_report_event \<Rightarrow> trsync_report_event a
           | Trsync_expire_event \<Rightarrow> trsync_expire_event signal_call a
           | Endstop_event \<Rightarrow> endstop_event a
           | Endstop_oversample_event \<Rightarrow> endstop_oversample_event a
           | _ \<Rightarrow> undef_op)
      | _ \<Rightarrow> undef_op)"

subsection \<open>Homing\<close>

text \<open>The motion state while the timer \<open>h\<close> is being dispatched.\<close>

definition motion_at :: "u32 \<Rightarrow> nat set \<Rightarrow> tptr \<Rightarrow> 'a steppers_scheme \<Rightarrow> bool" where
  "motion_at b S h s \<longleftrightarrow> motion_ok b S s \<and> timer_list s = h"

lemma motion_ok_cong:
  assumes "t_next s' = t_next s" "t_wake s' = t_wake s" "timer_list s' = timer_list s" "last_insert s' = last_insert s"
    "stepper_at s' = stepper_at s" "mn_next s' = mn_next s" "move_free_list s' = move_free_list s"
  shows "motion_ok b S s' = motion_ok b S s" "stepper_idle b st s' = stepper_idle b st s"
proof -
  have p: "pending b ts s' = pending b ts s" for ts using assms(1-4) by (rule pending_cong)
  have m: "motion_pool S q fs s' = motion_pool S q fs s" for q fs using assms(5-7) by (intro motion_pool_cong) simp_all
  show "motion_ok b S s' = motion_ok b S s" by (simp add: motion_ok_def p m)
  show "stepper_idle b st s' = stepper_idle b st s" by (simp add: stepper_idle_def p assms(5))
qed

interpretation homing_clients: trigger_client signal_call "\<lambda>x. x \<in> S \<and> stepper_time x \<noteq> h" "motion_at b S h" "stepper_idle b"
  for b S h
proof unfold_locales
  fix s :: "'a steppers_scheme" and x r and f :: sigfunc
  assume "motion_at b S h s" "x \<in> S \<and> stepper_time x \<noteq> h"
  then have m: "motion_ok b S s" "x \<in> S" "timer_list s \<noteq> stepper_time x" "timer_list s = h" by (auto simp: motion_at_def)
  from stepper_stop_client [OF m(1,2), of r] m(3,4)
  show "\<exists>s'. signal_call f x r s = Ret () s' \<and> motion_at b S h s' \<and> stepper_idle b x s' \<and>
      (\<forall>y. stepper_idle b y s \<longrightarrow> stepper_idle b y s') \<and>
      trsync_at s' = trsync_at s \<and> tss_next s' = tss_next s \<and> tss_func s' = tss_func s"
    by (cases f) (auto simp: signal_call_def motion_at_def)
next
  fix s :: "'a steppers_scheme" and a n g
  let ?s = "s\<lparr>trsync_at := a, tss_next := n, tss_func := g\<rparr>"
  show "motion_at b S h ?s = motion_at b S h s"
    unfolding motion_at_def by (subst motion_ok_cong(1) [of ?s s]) simp_all
  fix x
  show "stepper_idle b x ?s = stepper_idle b x s" by (rule motion_ok_cong(2)) simp_all
qed

lemma oversample_trigger:
  assumes m: "motion_at b S (endstop_time e) s" and xs: "set xs \<subseteq> S" "sig_rep ts xs s"
    and can: "ts_flags (trsync_at s ts) AND TSF_CAN_TRIGGER \<noteq> 0"
    and match: "\<not> es_no_match (pin_in s (pin_reads s)) (es_flags (endstop_at s e))"
    and cnt: "trigger_count (endstop_at s e) = 1" and ts: "es_ts (endstop_at s e) = Some ts"
  shows "\<exists>s'. endstop_oversample_event e s = Ret SF_DONE s' \<and> motion_at b S (endstop_time e) s' \<and>
    (\<forall>x\<in>set xs. stepper_idle b x s' \<and> tss_func s' x = None) \<and> task_wake s' ''trsync_wake'' \<and>
    trigger_reason (trsync_at s' ts) = es_trigger_reason (endstop_at s e) \<and>
    ts_flags (trsync_at s' ts) = (ts_flags (trsync_at s ts) AND NOT TSF_CAN_TRIGGER) OR TSF_REPORT"
proof -
  define s1 where "s1 = s\<lparr>pin_reads := Suc (pin_reads s)\<rparr>"
  have m1: "motion_at b S (endstop_time e) s1"
    using m unfolding motion_at_def by (subst motion_ok_cong(1) [of s1 s]) (simp_all add: s1_def)
  have "sig_rep ts xs s1" "ts_flags (trsync_at s1 ts) AND TSF_CAN_TRIGGER \<noteq> 0"
    using xs(2) can by (simp_all add: sig_rep_def s1_def)
  moreover have "\<forall>x\<in>set xs. x \<in> S \<and> stepper_time x \<noteq> endstop_time e" using xs(1) by auto
  ultimately obtain s2 where s2: "trsync_do_trigger signal_call ts (es_trigger_reason (endstop_at s e)) s1 = sched_wake_task ''trsync_wake'' s2"
      "motion_at b S (endstop_time e) s2" "\<forall>x\<in>set xs. stepper_idle b x s2 \<and> tss_func s2 x = None"
      "trsync_at s2 = (trsync_at s1)(ts := (trsync_at s1 ts)\<lparr>trigger_reason := es_trigger_reason (endstop_at s e),
        ts_flags := (ts_flags (trsync_at s1 ts) AND NOT TSF_CAN_TRIGGER) OR TSF_REPORT, signals := None\<rparr>)"
    using homing_clients.trigger_stops_clients [OF m1] by blast
  define s3 where "s3 = s2\<lparr>tasks_status := TS_REQUESTED, task_wake := (task_wake s2)(''trsync_wake'' := True)\<rparr>"
  have "endstop_oversample_event e s = Ret SF_DONE s3"
    using match cnt ts s2(1)
    by (simp add: endstop_oversample_event_def gpio_in_read_def es_get_def op_simps s1_def s3_def
        sched_wake_task_def sched_wake_tasks_def)
  moreover have "motion_at b S (endstop_time e) s3"
    using s2(2) unfolding motion_at_def by (subst motion_ok_cong(1) [of s3 s2]) (simp_all add: s3_def)
  moreover have "stepper_idle b x s3 = stepper_idle b x s2" for x
    by (rule motion_ok_cong(2)) (simp_all add: s3_def)
  ultimately show ?thesis using s2(3,4) by (intro exI [of _ s3]) (simp add: s3_def s1_def)
qed

lemma pending_fired:
  assumes "pending b ts s" "timer_list s \<noteq> Deleted_timer"
  shows "\<exists>us. fired_ok b (timer_list s) us s \<and> ts = timer_list s # us"
proof -
  obtain us where us: "timers_ok b us s" "ts = filter (\<lambda>u. u \<noteq> Deleted_timer) us"
    using assms(1) by (auto simp: pending_def)
  obtain v vs where v: "us = v # vs" using timers_ok_nonempty [OF us(1)] by (cases us) auto
  have "v = timer_list s" "Deleted_timer \<notin> set vs"
    using us(1) v by (auto simp: timers_ok_def timers_shape_def)
  then have "ts = timer_list s # vs" using us(2) v assms(2) by (simp add: filter_id_conv) metis
  moreover have "fired_ok b (timer_list s) vs s"
    using us(1) v \<open>v = timer_list s\<close> by (simp add: fired_ok_def timers_ok_def timers_ordered_Cons)
  ultimately show ?thesis by blast
qed

lemma homing_dispatch:
  assumes m: "motion_at b S (endstop_time e) s" and xs: "set xs \<subseteq> S" "sig_rep ts xs s"
    and can: "ts_flags (trsync_at s ts) AND TSF_CAN_TRIGGER \<noteq> 0"
    and match: "\<not> es_no_match (pin_in s (pin_reads s)) (es_flags (endstop_at s e))"
    and cnt: "trigger_count (endstop_at s e) = 1" and ts: "es_ts (endstop_at s e) = Some ts"
    and func: "t_func s (endstop_time e) = Endstop_oversample_event"
  shows "\<exists>s'. sched_timer_dispatch motion_event s = Ret (t_wake s' (timer_list s')) s' \<and>
    (\<forall>x\<in>set xs. stepper_idle b x s') \<and> (\<exists>ts. pending b ts s' \<and> endstop_time e \<notin> set ts) \<and>
    trigger_reason (trsync_at s' ts) = es_trigger_reason (endstop_at s e)"
proof -
  obtain s1 where s1: "endstop_oversample_event e s = Ret SF_DONE s1" "motion_at b S (endstop_time e) s1"
      "\<forall>x\<in>set xs. stepper_idle b x s1" "trigger_reason (trsync_at s1 ts) = es_trigger_reason (endstop_at s e)"
    using oversample_trigger [OF m xs can match cnt ts] by blast
  have tl: "timer_list s = endstop_time e" "timer_list s1 = endstop_time e"
    using m s1(2) by (simp_all add: motion_at_def)
  have call: "call_func motion_event (timer_list s) s = Ret SF_DONE s1"
    using s1(1) func by (simp add: call_func_def op_simps motion_event_def tl)
  obtain qs where p: "pending b qs s1" using s1(2) by (auto simp: motion_at_def motion_ok_def)
  from pending_fired [OF p] tl obtain us where us: "fired_ok b (timer_list s) us s1" "qs = endstop_time e # us" by auto
  have "timer_list s \<noteq> Periodic_timer" by (simp add: tl)
  from dispatch_done [OF call us(1) this] obtain s2 where
    s2: "sched_timer_dispatch motion_event s = Ret (t_wake s2 (timer_list s2)) s2" "timers_ok b us s2" "timer_frame s1 s2"
    by blast
  have u: "endstop_time e \<notin> set us" "Deleted_timer \<notin> set us"
    using pending_distinct [OF p] us by (auto simp: fired_ok_def timers_shape_def)
  then have "filter (\<lambda>u. u \<noteq> Deleted_timer) us = us" by (auto simp: filter_id_conv)
  with s2(2) have p2: "pending b us s2" unfolding pending_def by (intro exI [of _ us]) simp
  note f = timer_frame_steppers [OF s2(3)]
  have "stepper_idle b x s2" if "x \<in> set xs" for x
  proof -
    from s1(3) that obtain rs where rs: "pending b rs s1" "stepper_time x \<notin> set rs" "stepper_idle b x s1"
      by (auto simp: stepper_idle_def)
    from pending_unique [OF p rs(1)] us(2) rs(2) have "stepper_time x \<notin> set us" by auto
    with p2 rs(3) show ?thesis by (auto simp: stepper_idle_def f)
  qed
  with s2(1) p2 u(1) s1(4) f(4) show ?thesis by auto
qed

text \<open>One sample of an endstop that is being oversampled, on every branch.\<close>

lemma oversample_no_match:
  assumes "es_no_match (pin_in s (pin_reads s)) (es_flags (endstop_at s e))"
  shows "\<exists>s'. endstop_oversample_event e s = Ret SF_RESCHEDULE s' \<and>
    t_func s' (endstop_time e) = Endstop_event \<and> t_wake s' (endstop_time e) = nextwake (endstop_at s e) \<and>
    trigger_count (endstop_at s' e) = sample_count (endstop_at s e)"
  using assms
  by (simp add: endstop_oversample_event_def gpio_in_read_def es_get_def es_upd_def op_simps func_set_def wake_upd_def)

lemma oversample_match:
  assumes "\<not> es_no_match (pin_in s (pin_reads s)) (es_flags (endstop_at s e))" "trigger_count (endstop_at s e) \<noteq> 1"
  shows "\<exists>s'. endstop_oversample_event e s = Ret SF_RESCHEDULE s' \<and> trsync_at s' = trsync_at s \<and>
    t_wake s' (endstop_time e) = t_wake s (endstop_time e) + sample_time (endstop_at s e) \<and>
    endstop_at s' = (endstop_at s)(e := (endstop_at s e)\<lparr>trigger_count := trigger_count (endstop_at s e) - 1\<rparr>) \<and>
    pin_reads s' = Suc (pin_reads s) \<and> pin_in s' = pin_in s"
  using assms
  by (simp add: endstop_oversample_event_def gpio_in_read_def es_get_def es_upd_def op_simps wake_upd_def Let_def)

text \<open>\<open>n\<close> samples in a row: the clocks at which they are taken and the state behind them.\<close>

fun oversample_run :: "nat \<Rightarrow> nat \<Rightarrow> 'a endstops_scheme \<Rightarrow> (u32 list \<times> 'a endstops_scheme) option" where
  "oversample_run 0 e s = Some ([], s)"
| "oversample_run (Suc n) e s =
     (case endstop_oversample_event e s of
        Ret SF_RESCHEDULE s' \<Rightarrow> map_option (\<lambda>(ws, t). (t_wake s (endstop_time e) # ws, t)) (oversample_run n e s')
      | _ \<Rightarrow> None)"

lemma oversample_run_matching:
  assumes "\<forall>k<n. \<not> es_no_match (pin_in s (pin_reads s + k)) (es_flags (endstop_at s e))"
    and "n < unat (trigger_count (endstop_at s e))"
  shows "\<exists>s'. oversample_run n e s =
      Some (map (\<lambda>k. t_wake s (endstop_time e) + of_nat k * sample_time (endstop_at s e)) [0..<n], s') \<and>
    trsync_at s' = trsync_at s \<and> pin_reads s' = pin_reads s + n \<and> pin_in s' = pin_in s \<and>
    endstop_at s' = (endstop_at s)(e := (endstop_at s e)\<lparr>trigger_count := trigger_count (endstop_at s e) - of_nat n\<rparr>)"
  using assms
proof (induction n arbitrary: s)
  case 0
  then show ?case by simp
next
  case (Suc n)
  let ?c = "trigger_count (endstop_at s e)"
  have "?c \<noteq> 1" "?c \<noteq> 0" using Suc.prems(2) by auto
  moreover have "\<not> es_no_match (pin_in s (pin_reads s)) (es_flags (endstop_at s e))"
    using Suc.prems(1) [rule_format, of 0] by simp
  ultimately obtain s1 where s1: "endstop_oversample_event e s = Ret SF_RESCHEDULE s1" "trsync_at s1 = trsync_at s"
      "t_wake s1 (endstop_time e) = t_wake s (endstop_time e) + sample_time (endstop_at s e)"
      "endstop_at s1 = (endstop_at s)(e := (endstop_at s e)\<lparr>trigger_count := ?c - 1\<rparr>)"
      "pin_reads s1 = Suc (pin_reads s)" "pin_in s1 = pin_in s"
    using oversample_match [of s e] by blast
  have "unat (?c - 1) = unat ?c - 1" using \<open>?c \<noteq> 0\<close> by (simp add: unat_minus_one)
  then have p1: "n < unat (trigger_count (endstop_at s1 e))" using Suc.prems(2) by (simp add: s1)
  have "\<forall>k<n. \<not> es_no_match (pin_in s (Suc (pin_reads s) + k)) (es_flags (endstop_at s e))"
    using Suc.prems(1) by (metis Suc_mono add_Suc_shift)
  then have p2: "\<forall>k<n. \<not> es_no_match (pin_in s1 (pin_reads s1 + k)) (es_flags (endstop_at s1 e))" by (simp add: s1)
  obtain s' where s': "oversample_run n e s1 =
      Some (map (\<lambda>k. t_wake s1 (endstop_time e) + of_nat k * sample_time (endstop_at s1 e)) [0..<n], s')"
      "trsync_at s' = trsync_at s1" "pin_reads s' = pin_reads s1 + n" "pin_in s' = pin_in s1"
      "endstop_at s' = (endstop_at s1)(e := (endstop_at s1 e)\<lparr>trigger_count := trigger_count (endstop_at s1 e) - of_nat n\<rparr>)"
    using Suc.IH [OF p2 p1] by blast
  have "map (\<lambda>k. t_wake s (endstop_time e) + of_nat k * sample_time (endstop_at s e)) [0..<Suc n] =
    t_wake s (endstop_time e) # map (\<lambda>k. t_wake s1 (endstop_time e) + of_nat k * sample_time (endstop_at s1 e)) [0..<n]"
    by (simp add: map_upt_Suc s1 algebra_simps del: upt_Suc)
  with s1(1) s'(1) have run: "oversample_run (Suc n) e s =
      Some (map (\<lambda>k. t_wake s (endstop_time e) + of_nat k * sample_time (endstop_at s e)) [0..<Suc n], s')"
    by simp
  have "endstop_at s' = (endstop_at s)(e := (endstop_at s e)\<lparr>trigger_count := ?c - of_nat (Suc n)\<rparr>)"
    unfolding s'(5) s1(4) by (simp add: diff_diff_eq)
  with run show ?case by (intro exI [of _ s'] conjI) (simp_all only: s1 s' add_Suc_right add_Suc)
qed

subsection \<open>Properties\<close>

text \<open>A machine that homes: the endstop at 9 is about to take its last sample for the trigger at 5.\<close>

definition example_homing :: endstops where
  "example_homing =
     steppers.extend (example_steppers
        \<lparr>t_next := (\<lambda>_. None)(endstop_time 9 \<mapsto> Periodic_timer, Periodic_timer \<mapsto> Sentinel_timer),
         timer_list := endstop_time 9, t_func := (\<lambda>_. Endstop_oversample_event),
         trsync_at := (\<lambda>_. zero_trsync\<lparr>ts_flags := TSF_CAN_TRIGGER, signals := Some 8\<rparr>),
         tss_func := (\<lambda>_. Some Stepper_stop)\<rparr>)
       (endstops.fields (\<lambda>_. zero_endstop\<lparr>es_flags := ESF_HOMING, trigger_count := 1, sample_count := 4,
          es_ts := Some 5, es_trigger_reason := 3\<rparr>))"

lemmas homing_defs = example_homing_def example_defs endstops.defs zero_endstop_def

lemma example_homing_at: "motion_at 0 {8} (endstop_time 9) example_homing"
proof -
  have "timers_ok 0 [endstop_time 9, Periodic_timer] example_homing"
    by (simp add: timers_ok_def timers_shape_def timers_ordered_def off_def homing_defs)
  moreover have "motion_pool {8} (\<lambda>_. []) [] example_homing"
    by (simp add: motion_pool_def free_rep_def mq_rep_def node_list_def homing_defs)
  moreover have "timer_list example_homing = endstop_time 9" by (simp add: homing_defs)
  ultimately show ?thesis unfolding motion_at_def motion_ok_def pending_def by blast
qed

text \<open>
  C5: The homing guarantee, over scheduler, endstop, trigger and steppers. When the timer interrupt
  dispatches an endstop that takes its last missing sample and sees the level it waits for, the
  interrupt completes and afterwards every stepper registered with the trigger is idle: no step
  is pending, its queue is empty and its timer is gone; the reason of the trigger is recorded and
  the endstop does not fire again.
\<close>

theorem homing_interrupt_stops_steppers:
  assumes "motion_at b S (endstop_time e) s" "set xs \<subseteq> S" "sig_rep ts xs s"
    and "ts_flags (trsync_at s ts) AND TSF_CAN_TRIGGER \<noteq> 0"
    and "\<not> es_no_match (pin_in s (pin_reads s)) (es_flags (endstop_at s e))"
    and "trigger_count (endstop_at s e) = 1" "es_ts (endstop_at s e) = Some ts"
    and "t_func s (endstop_time e) = Endstop_oversample_event"
  shows "\<exists>s'. sched_timer_dispatch motion_event s = Ret (t_wake s' (timer_list s')) s' \<and>
    (\<forall>x\<in>set xs. stepper_idle b x s') \<and> (\<exists>ts. pending b ts s' \<and> endstop_time e \<notin> set ts) \<and>
    trigger_reason (trsync_at s' ts) = es_trigger_reason (endstop_at s e)"
  by (rule homing_dispatch [OF assms])

theorem homing_interrupt_stops_steppers_witness:
  "\<exists>s'. sched_timer_dispatch motion_event example_homing = Ret (t_wake s' (timer_list s')) s' \<and>
     stepper_idle 0 8 s' \<and> trigger_reason (trsync_at s' 5) = 3"
proof -
  have "sig_rep 5 [8] example_homing" by (simp add: sig_rep_def node_list_def homing_defs)
  from homing_interrupt_stops_steppers [OF example_homing_at _ this] show ?thesis
    by (auto simp: es_no_match_def homing_defs)
qed

text \<open>
  An endstop triggers only after \<open>trigger_count\<close> matching samples in a row: any smaller number of
  matching samples is taken at the configured spacing, counts down, and leaves every trigger
  untouched; a sample that does not match restarts the count.
\<close>

theorem endstop_needs_all_samples:
  assumes "\<forall>k<n. \<not> es_no_match (pin_in s (pin_reads s + k)) (es_flags (endstop_at s e))"
    and "n < unat (trigger_count (endstop_at s e))"
  shows "\<exists>s'. oversample_run n e s =
      Some (map (\<lambda>k. t_wake s (endstop_time e) + of_nat k * sample_time (endstop_at s e)) [0..<n], s') \<and>
    trsync_at s' = trsync_at s \<and>
    trigger_count (endstop_at s' e) = trigger_count (endstop_at s e) - of_nat n \<and>
    (es_no_match (pin_in s (pin_reads s + n)) (es_flags (endstop_at s e)) \<longrightarrow>
       (\<exists>s''. endstop_oversample_event e s' = Ret SF_RESCHEDULE s'' \<and>
          trigger_count (endstop_at s'' e) = sample_count (endstop_at s e)))"
proof -
  obtain s' where s': "oversample_run n e s =
      Some (map (\<lambda>k. t_wake s (endstop_time e) + of_nat k * sample_time (endstop_at s e)) [0..<n], s')"
      "trsync_at s' = trsync_at s" "pin_reads s' = pin_reads s + n" "pin_in s' = pin_in s"
      "endstop_at s' = (endstop_at s)(e := (endstop_at s e)\<lparr>trigger_count := trigger_count (endstop_at s e) - of_nat n\<rparr>)"
    using oversample_run_matching [OF assms] by blast
  with oversample_no_match [of s' e] show ?thesis by (intro exI [of _ s']) auto
qed

theorem endstop_needs_all_samples_witness:
  "\<exists>(s :: endstops) s'. oversample_run 2 9 s = Some ([0, 50], s') \<and> trsync_at s' = trsync_at s"
proof -
  define s where "s = example_homing\<lparr>endstop_at := (\<lambda>_. zero_endstop\<lparr>es_flags := ESF_HOMING, trigger_count := 4, sample_time := 50\<rparr>)\<rparr>"
  have "\<forall>k<2. \<not> es_no_match (pin_in s (pin_reads s + k)) (es_flags (endstop_at s 9))"
    "2 < unat (trigger_count (endstop_at s 9))"
    by (simp_all add: s_def es_no_match_def homing_defs)
  from endstop_needs_all_samples [OF this] obtain s' where
    "oversample_run 2 9 s = Some (map (\<lambda>k. t_wake s (endstop_time 9) + of_nat k * sample_time (endstop_at s 9)) [0..<2], s')"
    "trsync_at s' = trsync_at s" by blast
  moreover have "map (\<lambda>k. t_wake s (endstop_time 9) + of_nat k * sample_time (endstop_at s 9)) [0..<2] = [0, 50]"
    by (simp add: s_def homing_defs upt_rec)
  ultimately show ?thesis by auto
qed

end
