(* ===== verification/Outputs.thy ===== *)
theory Outputs
  imports Endstop
begin

text \<open>
  Output pins: digital outputs with software PWM, \<open>gpiocmds.c\<close>, and hardware PWM, \<open>pwmcmds.c\<close>. Both take
  timed updates from a move queue and guard a pin that is away from its default value by a
  maximum duration. A \<open>struct digital_move\<close> or \<open>struct pwm_move\<close> lives in a node of the move pool
  and is identified by its address.
\<close>

record digital_out =
  d_on_duration :: u32
  d_off_duration :: u32
  d_end_time :: u32
  d_pin :: u32
  d_max_duration :: u32
  d_cycle_time :: u32
  d_mq :: move_queue_head
  d_flags :: u8

record digital_move =
  dm_waketime :: u32
  dm_on_duration :: u32

record pwm_out_s =
  p_pin :: u32
  p_max_duration :: u32
  p_default_value :: u16
  p_mq :: move_queue_head

record pwm_move =
  pm_waketime :: u32
  pm_value :: u16

record outputs = endstops +
  digital_at :: "nat \<Rightarrow> digital_out"
  digital_move_at :: "nat \<Rightarrow> digital_move"
  pwm_at :: "nat \<Rightarrow> pwm_out_s"
  pwm_move_at :: "nat \<Rightarrow> pwm_move"

abbreviation (input) DF_ON :: u8 where "DF_ON \<equiv> 1"
abbreviation (input) DF_TOGGLING :: u8 where "DF_TOGGLING \<equiv> 2"
abbreviation (input) DF_CHECK_END :: u8 where "DF_CHECK_END \<equiv> 4"
abbreviation (input) DF_DEFAULT_ON :: u8 where "DF_DEFAULT_ON \<equiv> 16"

abbreviation (input) digital_timer :: "nat \<Rightarrow> tptr" where "digital_timer d \<equiv> Obj_timer Digital_time d"
abbreviation (input) pwm_timer :: "nat \<Rightarrow> tptr" where "pwm_timer p \<equiv> Obj_timer Pwm_time p"

definition d_get :: "nat \<Rightarrow> ('a outputs_scheme, digital_out) op" where
  "d_get d = get_op (\<lambda>s. digital_at s d)"

definition d_upd :: "nat \<Rightarrow> (digital_out \<Rightarrow> digital_out) \<Rightarrow> ('a outputs_scheme, unit) op" where
  "d_upd d f = set_op (\<lambda>s. s\<lparr>digital_at := (digital_at s)(d := f (digital_at s d))\<rparr>)"

definition p_get :: "nat \<Rightarrow> ('a outputs_scheme, pwm_out_s) op" where
  "p_get p = get_op (\<lambda>s. pwm_at s p)"

definition p_upd :: "nat \<Rightarrow> (pwm_out_s \<Rightarrow> pwm_out_s) \<Rightarrow> ('a outputs_scheme, unit) op" where
  "p_upd p f = set_op (\<lambda>s. s\<lparr>pwm_at := (pwm_at s)(p := f (pwm_at s p))\<rparr>)"

subsection \<open>Digital outputs (gpiocmds.c)\<close>

definition digital_toggle_event :: "nat \<Rightarrow> ('a outputs_scheme, sf) op" where
  "digital_toggle_event d =
     bind_op (d_get d) (\<lambda>x.
     then_op (gpio_out_toggle_noirq (d_pin x))
     (then_op (d_upd d (\<lambda>x. x\<lparr>d_flags := d_flags x XOR DF_ON\<rparr>))
     (bind_op (d_get d) (\<lambda>x.
      bind_op (get_op (\<lambda>s. t_wake s (digital_timer d)
                 + (if d_flags x AND DF_ON \<noteq> 0 then d_on_duration x else d_off_duration x))) (\<lambda>waketime.
        if d_flags x AND DF_CHECK_END \<noteq> 0 \<and> \<not> timer_is_before waketime (d_end_time x) then
          then_op (func_set (digital_timer d) Digital_load_event)
          (then_op (wake_upd (digital_timer d) (\<lambda>_. d_end_time x)) (ret SF_RESCHEDULE))
        else then_op (wake_upd (digital_timer d) (\<lambda>_. waketime)) (ret SF_RESCHEDULE))))))"

text \<open>"Calculate next end_time and flags": for a pin now at \<open>flags\<close>, before the queue is looked at.\<close>

definition digital_limit :: "digital_out \<Rightarrow> u32 \<Rightarrow> u32 \<Rightarrow> u8 \<Rightarrow> u32 \<times> u8" where
  "digital_limit x waketime on_duration flags =
     (if flags = 0 \<or> on_duration \<ge> d_cycle_time x then
        (if (flags = 0) \<noteq> (d_flags x AND DF_DEFAULT_ON = 0) \<and> d_max_duration x \<noteq> 0
         then (waketime + d_max_duration x, flags OR DF_CHECK_END)
         else (0, flags))
      else if d_max_duration x \<noteq> 0
      then (waketime + d_max_duration x, flags OR DF_TOGGLING OR DF_CHECK_END)
      else (0, flags OR DF_TOGGLING))"

text \<open>"Schedule next event".\<close>

definition digital_schedule :: "nat \<Rightarrow> u32 \<Rightarrow> u32 \<Rightarrow> u8 \<Rightarrow> ('a outputs_scheme, sf) op" where
  "digital_schedule d on_duration end_time flags =
     (if flags AND DF_TOGGLING = 0 then
        (if flags AND DF_CHECK_END = 0 then ret SF_DONE
         else then_op (wake_upd (digital_timer d) (\<lambda>_. end_time)) (ret SF_RESCHEDULE))
      else
        bind_op (get_op (\<lambda>s. t_wake s (digital_timer d) + on_duration)) (\<lambda>waketime.
          if flags AND DF_CHECK_END \<noteq> 0 \<and> \<not> timer_is_before waketime end_time then
            then_op (wake_upd (digital_timer d) (\<lambda>_. end_time)) (ret SF_RESCHEDULE)
          else
            then_op (func_set (digital_timer d) Digital_toggle_event)
            (then_op (wake_upd (digital_timer d) (\<lambda>_. waketime))
            (then_op (d_upd d (\<lambda>x. x\<lparr>d_on_duration := on_duration, d_off_duration := d_cycle_time x - on_duration\<rparr>))
               (ret SF_RESCHEDULE)))))"

definition digital_load_event :: "nat \<Rightarrow> ('a outputs_scheme, sf) op" where
  "digital_load_event d =
     bind_op (d_get d) (\<lambda>x.
       if move_queue_empty (d_mq x) then shutdown_op ''Missed scheduling of next digital out event''
       else
         bind_op (move_queue_pop (d_mq x)) (\<lambda>(mq', mn).
         then_op (d_upd d (\<lambda>x. x\<lparr>d_mq := mq'\<rparr>))
         (bind_op (get_op (\<lambda>s. dm_on_duration (digital_move_at s mn))) (\<lambda>on_duration.
          let flags = (if on_duration \<noteq> 0 then DF_ON else 0)
          in then_op (gpio_out_write (d_pin x) (flags \<noteq> 0))
             (then_op (move_free mn)
             (bind_op (get_op (\<lambda>s. digital_limit x (t_wake s (digital_timer d)) on_duration flags)) (\<lambda>(end_time, flags).
              bind_op
                (case move_queue_first mq' of
                   None \<Rightarrow> ret (end_time, flags)
                 | Some nn \<Rightarrow>
                     bind_op (get_op (\<lambda>s. dm_waketime (digital_move_at s nn))) (\<lambda>wake.
                       if flags AND DF_CHECK_END \<noteq> 0 \<and> timer_is_before end_time wake
                       then shutdown_op ''Scheduled digital out event will exceed max_duration''
                       else ret (wake, flags OR DF_CHECK_END))) (\<lambda>(end_time, flags).
              then_op (d_upd d (\<lambda>x. x\<lparr>d_end_time := end_time, d_flags := flags OR (d_flags x AND DF_DEFAULT_ON)\<rparr>))
                (digital_schedule d on_duration end_time flags)))))))))"

definition command_config_digital_out :: "u32 list \<Rightarrow> ('a outputs_scheme, unit) op" where
  "command_config_digital_out args =
     bind_op (gpio_out_setup (args ! 1) (args ! 2 \<noteq> 0)) (\<lambda>pin.
     bind_op (get_op (\<lambda>s. sizeof_type s ''command_config_digital_out'')) (\<lambda>sz.
     bind_op (oid_alloc (ucast (args ! 0)) ''command_config_digital_out'' sz) (\<lambda>d.
     then_op (d_upd d (\<lambda>_.
        \<lparr>d_on_duration = 0, d_off_duration = 0, d_end_time = 0, d_pin = pin, d_max_duration = args ! 4,
         d_cycle_time = 0, d_mq = \<lparr>mq_first = None, mq_last = None\<rparr>,
         d_flags = (if args ! 2 \<noteq> 0 then DF_ON else 0) OR (if args ! 3 \<noteq> 0 then DF_DEFAULT_ON else 0)\<rparr>))
     (bind_op (get_op (\<lambda>s. sizeof_type s ''struct digital_move'')) (\<lambda>msz.
      bind_op (move_queue_setup msz) (\<lambda>mq. d_upd d (\<lambda>x. x\<lparr>d_mq := mq\<rparr>)))))))"

definition command_set_digital_out_pwm_cycle :: "u32 list \<Rightarrow> ('a outputs_scheme, unit) op" where
  "command_set_digital_out_pwm_cycle args =
     bind_op (oid_lookup (ucast (args ! 0)) ''command_config_digital_out'') (\<lambda>d.
     bind_op (d_get d) (\<lambda>x.
       if \<not> move_queue_empty (d_mq x) then shutdown_op ''Can not set soft pwm cycle ticks while updates pending''
       else d_upd d (\<lambda>x. x\<lparr>d_cycle_time := args ! 1\<rparr>)))"

definition command_queue_digital_out :: "u32 list \<Rightarrow> ('a outputs_scheme, unit) op" where
  "command_queue_digital_out args =
     bind_op (oid_lookup (ucast (args ! 0)) ''command_config_digital_out'') (\<lambda>d.
     bind_op move_alloc (\<lambda>m.
     then_op (set_op (\<lambda>s. s\<lparr>digital_move_at := (digital_move_at s)(m :=
                   \<lparr>dm_waketime = args ! 1, dm_on_duration = args ! 2\<rparr>)\<rparr>))
     (bind_op (d_get d) (\<lambda>x.
      bind_op (move_queue_push m (d_mq x)) (\<lambda>(mq', first_on_queue).
      then_op (d_upd d (\<lambda>x. x\<lparr>d_mq := mq'\<rparr>))
        (if \<not> first_on_queue then ret ()
         else
           (let time = args ! 1; flags = d_flags x
            in if flags AND DF_CHECK_END \<noteq> 0 \<and> timer_is_before (d_end_time x) time
               then shutdown_op ''Scheduled digital out event will exceed max_duration''
               else
                 then_op (d_upd d (\<lambda>x. x\<lparr>d_end_time := time, d_flags := flags OR DF_CHECK_END\<rparr>))
                 (bind_op (get_op (\<lambda>s. t_wake s (digital_timer d))) (\<lambda>wake.
                    if flags AND DF_TOGGLING \<noteq> 0 \<and> timer_is_before wake time then ret ()
                    else
                      then_op (sched_del_timer (digital_timer d))
                      (then_op (wake_upd (digital_timer d) (\<lambda>_. time))
                      (then_op (func_set (digital_timer d) Digital_load_event)
                        (sched_add_timer (digital_timer d)))))))))))))"

definition command_update_digital_out :: "u32 list \<Rightarrow> ('a outputs_scheme, unit) op" where
  "command_update_digital_out args =
     bind_op (oid_lookup (ucast (args ! 0)) ''command_config_digital_out'') (\<lambda>d.
     then_op (sched_del_timer (digital_timer d))
     (bind_op (d_get d) (\<lambda>x.
        if \<not> move_queue_empty (d_mq x) then shutdown_op ''update_digital_out not valid with active queue''
        else
          (let value = ucast (args ! 1) :: u8; flags = d_flags x; on_flag = (if value \<noteq> 0 then DF_ON else 0)
           in then_op (gpio_out_write (d_pin x) (on_flag \<noteq> 0))
              (if (on_flag = 0) \<noteq> (flags AND DF_DEFAULT_ON = 0) \<and> d_max_duration x \<noteq> 0 then
                 bind_op timer_read_time (\<lambda>now.
                 then_op (d_upd d (\<lambda>x. x\<lparr>d_end_time := now + d_max_duration x\<rparr>))
                 (then_op (wake_upd (digital_timer d) (\<lambda>_. now + d_max_duration x))
                 (then_op (func_set (digital_timer d) Digital_load_event)
                 (then_op (d_upd d (\<lambda>x. x\<lparr>d_flags := (flags AND DF_DEFAULT_ON) OR on_flag OR DF_CHECK_END\<rparr>))
                   (sched_add_timer (digital_timer d))))))
               else d_upd d (\<lambda>x. x\<lparr>d_flags := (flags AND DF_DEFAULT_ON) OR on_flag\<rparr>))))))"

definition digital_default :: "u8 \<Rightarrow> nat \<Rightarrow> ('a outputs_scheme, unit) op" where
  "digital_default i d =
     bind_op (d_get d) (\<lambda>x.
     then_op (gpio_out_write (d_pin x) (d_flags x AND DF_DEFAULT_ON \<noteq> 0))
       (d_upd d (\<lambda>x. x\<lparr>d_flags := (if d_flags x AND DF_DEFAULT_ON \<noteq> 0 then DF_ON OR DF_DEFAULT_ON else 0),
                        d_mq := move_queue_clear (d_mq x)\<rparr>)))"

definition digital_out_shutdown :: "('a outputs_scheme, unit) op" where
  "digital_out_shutdown = foreach_oid ''command_config_digital_out'' digital_default"

definition command_set_digital_out :: "u32 list \<Rightarrow> ('a outputs_scheme, unit) op" where
  "command_set_digital_out args =
     bind_op (gpio_out_setup (args ! 0) ((ucast (args ! 1) :: u8) \<noteq> 0)) (\<lambda>_. ret ())"

subsection \<open>Hardware PWM (pwmcmds.c)\<close>

text \<open>\<open>gpio_pwm_setup()\<close> of the board starts the pin with a value; the handle is the pin.\<close>

definition gpio_pwm_setup :: "u32 \<Rightarrow> u32 \<Rightarrow> u32 \<Rightarrow> ('a outputs_scheme, u32) op" where
  "gpio_pwm_setup pin cycle_time val = then_op (gpio_pwm_write pin (ucast val)) (ret pin)"

definition pwm_end_event :: "nat \<Rightarrow> ('a outputs_scheme, sf) op" where
  "pwm_end_event p = shutdown_op ''Missed scheduling of next hard pwm event''"

definition pwm_event :: "nat \<Rightarrow> ('a outputs_scheme, sf) op" where
  "pwm_event p =
     bind_op (p_get p) (\<lambda>x.
     bind_op (move_queue_pop (p_mq x)) (\<lambda>(mq', mn).
     then_op (p_upd p (\<lambda>x. x\<lparr>p_mq := mq'\<rparr>))
     (bind_op (get_op (\<lambda>s. pm_value (pwm_move_at s mn))) (\<lambda>value.
      then_op (gpio_pwm_write (p_pin x) value)
      (then_op (move_free mn)
         (case move_queue_first mq' of
            None \<Rightarrow>
              if value = p_default_value x \<or> p_max_duration x = 0 then ret SF_DONE
              else
                then_op (wake_upd (pwm_timer p) (\<lambda>w. w + p_max_duration x))
                (then_op (func_set (pwm_timer p) Pwm_end_event) (ret SF_RESCHEDULE))
          | Some nn \<Rightarrow>
              bind_op (get_op (\<lambda>s. pm_waketime (pwm_move_at s nn))) (\<lambda>wake.
              bind_op (get_op (\<lambda>s. t_wake s (pwm_timer p))) (\<lambda>now.
                if value \<noteq> p_default_value x \<and> p_max_duration x \<noteq> 0
                   \<and> timer_is_before (now + p_max_duration x) wake
                then shutdown_op ''Scheduled pwm event will exceed max_duration''
                else then_op (wake_upd (pwm_timer p) (\<lambda>_. wake)) (ret SF_RESCHEDULE)))))))))"

definition command_config_pwm_out :: "u32 list \<Rightarrow> ('a outputs_scheme, unit) op" where
  "command_config_pwm_out args =
     bind_op (gpio_pwm_setup (args ! 1) (args ! 2) (args ! 3)) (\<lambda>pin.
     bind_op (get_op (\<lambda>s. sizeof_type s ''command_config_pwm_out'')) (\<lambda>sz.
     bind_op (oid_alloc (ucast (args ! 0)) ''command_config_pwm_out'' sz) (\<lambda>p.
     then_op (p_upd p (\<lambda>_. \<lparr>p_pin = pin, p_max_duration = args ! 5, p_default_value = ucast (args ! 4),
                            p_mq = \<lparr>mq_first = None, mq_last = None\<rparr>\<rparr>))
     (then_op (func_set (pwm_timer p) Pwm_event)
     (bind_op (get_op (\<lambda>s. sizeof_type s ''struct pwm_move'')) (\<lambda>msz.
      bind_op (move_queue_setup msz) (\<lambda>mq. p_upd p (\<lambda>x. x\<lparr>p_mq := mq\<rparr>))))))))"

definition command_queue_pwm_out :: "u32 list \<Rightarrow> ('a outputs_scheme, unit) op" where
  "command_queue_pwm_out args =
     bind_op (oid_lookup (ucast (args ! 0)) ''command_config_pwm_out'') (\<lambda>p.
     bind_op move_alloc (\<lambda>m.
     then_op (set_op (\<lambda>s. s\<lparr>pwm_move_at := (pwm_move_at s)(m :=
                   \<lparr>pm_waketime = args ! 1, pm_value = ucast (args ! 2)\<rparr>)\<rparr>))
     (bind_op (p_get p) (\<lambda>x.
      bind_op (move_queue_push m (p_mq x)) (\<lambda>(mq', need_add_timer).
      then_op (p_upd p (\<lambda>x. x\<lparr>p_mq := mq'\<rparr>))
        (if \<not> need_add_timer then ret ()
         else
           then_op (sched_del_timer (pwm_timer p))
           (bind_op (get_op (\<lambda>s. t_func s (pwm_timer p) = Pwm_end_event
                       \<and> timer_is_before (t_wake s (pwm_timer p)) (args ! 1))) (\<lambda>late.
              if late then shutdown_op ''Scheduled pwm event will exceed max_duration''
              else
                then_op (func_set (pwm_timer p) Pwm_event)
                (then_op (wake_upd (pwm_timer p) (\<lambda>_. args ! 1)) (sched_add_timer (pwm_timer p)))))))))))"

definition pwm_default :: "u8 \<Rightarrow> nat \<Rightarrow> ('a outputs_scheme, unit) op" where
  "pwm_default i p =
     bind_op (p_get p) (\<lambda>x.
     then_op (gpio_pwm_write (p_pin x) (p_default_value x))
     (then_op (func_set (pwm_timer p) Pwm_event)
       (p_upd p (\<lambda>x. x\<lparr>p_mq := move_queue_clear (p_mq x)\<rparr>))))"

definition pwm_shutdown :: "('a outputs_scheme, unit) op" where
  "pwm_shutdown = foreach_oid ''command_config_pwm_out'' pwm_default"

definition command_set_pwm_out :: "u32 list \<Rightarrow> ('a outputs_scheme, unit) op" where
  "command_set_pwm_out args = bind_op (gpio_pwm_setup (args ! 0) (args ! 1) (args ! 2)) (\<lambda>_. ret ())"

text \<open>The timer callbacks of the outputs, on top of those of the motion modules.\<close>

definition output_event :: "timer_func \<Rightarrow> tptr \<Rightarrow> ('a outputs_scheme, sf) op" where
  "output_event f t =
     (case t of
        Obj_timer k a \<Rightarrow>
          (case f of
             Digital_toggle_event \<Rightarrow> digital_toggle_event a
           | Digital_load_event \<Rightarrow> digital_load_event a
           | Pwm_event \<Rightarrow> pwm_event a
           | Pwm_end_event \<Rightarrow> pwm_end_event a
           | _ \<Rightarrow> motion_event f t)
      | _ \<Rightarrow> undef_op)"

subsection \<open>The guard on a digital output\<close>

text \<open>
  A guarded pin has a time limit: its timer loads the next setting at \<open>end_time\<close>, or toggles the pin
  before \<open>end_time\<close>.
\<close>

definition pin_guarded :: "nat \<Rightarrow> 'a outputs_scheme \<Rightarrow> bool" where
  "pin_guarded d s \<longleftrightarrow>
     d_flags (digital_at s d) AND DF_CHECK_END \<noteq> 0 \<and>
     (t_func s (digital_timer d) = Digital_load_event \<and>
        t_wake s (digital_timer d) = d_end_time (digital_at s d) \<or>
      t_func s (digital_timer d) = Digital_toggle_event \<and>
        timer_is_before (t_wake s (digital_timer d)) (d_end_time (digital_at s d)))"

text \<open>A setting that is not the constant default level.\<close>

definition away_from_default :: "digital_out \<Rightarrow> u32 \<Rightarrow> bool" where
  "away_from_default x on_duration \<longleftrightarrow>
     (on_duration = 0) \<noteq> (d_flags x AND DF_DEFAULT_ON = 0) \<or> (on_duration \<noteq> 0 \<and> on_duration < d_cycle_time x)"

lemmas pin_ops = d_get_def d_upd_def gpio_out_write_def gpio_out_toggle_noirq_def wake_upd_def func_set_def
  move_free_def move_queue_pop_def move_queue_first_def move_queue_empty_def

lemma df_bits:
  "f AND DF_TOGGLING = 0 \<longleftrightarrow> \<not> bit f 1" "f AND DF_CHECK_END = 0 \<longleftrightarrow> \<not> bit f 2"
  "f AND DF_DEFAULT_ON = 0 \<longleftrightarrow> \<not> bit f 4"
  for f :: u8
  using and_bit_zero_iff [of f 1] and_bit_zero_iff [of f 2] and_bit_zero_iff [of f 4] by simp_all

lemma df_on: "(f :: u8) AND DF_ON = 0 \<longleftrightarrow> \<not> bit f 0"
  using and_bit_zero_iff [of f 0] by simp

lemma digital_limit_spec:
  assumes "digital_limit x w on (if on \<noteq> 0 then DF_ON else 0) = (e, fl)"
  shows "bit fl 0 = (on \<noteq> 0)" "bit fl 1 = (on \<noteq> 0 \<and> on < d_cycle_time x)"
    "bit fl 2 = (away_from_default x on \<and> d_max_duration x \<noteq> 0)" "bit fl 2 \<Longrightarrow> e = w + d_max_duration x"
  using assms by (auto simp: digital_limit_def away_from_default_def not_le bit_simps split: if_splits)

lemma digital_schedule_guards:
  assumes "digital_schedule d on e flags s = Ret r s'" "flags AND DF_CHECK_END \<noteq> 0"
    and "t_func s (digital_timer d) = Digital_load_event"
    and "d_flags (digital_at s d) AND DF_CHECK_END \<noteq> 0" "d_end_time (digital_at s d) = e"
  shows "r = SF_RESCHEDULE \<and> pin_guarded d s' \<and> d_end_time (digital_at s' d) = e \<and> pin_out s' = pin_out s"
  using assms
  by (auto simp: digital_schedule_def pin_guarded_def pin_ops op_simps split: if_splits)

text \<open>
  A load event that returns: it reaches \<open>digital_schedule\<close> with the pin at its new level, an end time
  and flags that obey the limit.
\<close>

lemma digital_load_tail:
  assumes run: "digital_load_event d s = Ret r s'" and m: "mq_first (d_mq (digital_at s d)) = Some m"
    and on: "on = dm_on_duration (digital_move_at s m)" and x: "x = digital_at s d"
  shows "\<exists>mq e fl t. digital_schedule d on e fl t = Ret r s' \<and>
    digital_at t d = x\<lparr>d_mq := mq, d_end_time := e, d_flags := fl OR (d_flags x AND DF_DEFAULT_ON)\<rparr> \<and>
    pin_out t (d_pin x) = (on \<noteq> 0) \<and> t_func t = t_func s \<and> t_wake t = t_wake s \<and>
    bit fl 0 = (on \<noteq> 0) \<and> bit fl 1 = (on \<noteq> 0 \<and> on < d_cycle_time x) \<and>
    (away_from_default x on \<and> d_max_duration x \<noteq> 0 \<longrightarrow>
       bit fl 2 \<and> \<not> timer_is_before (t_wake s (digital_timer d) + d_max_duration x) e)"
proof -
  have level: "((if on \<noteq> 0 then DF_ON else 0) \<noteq> (0 :: u8)) = (on \<noteq> 0)" by simp
  obtain e0 fl where lim: "digital_limit x (t_wake s (digital_timer d)) on (if on \<noteq> 0 then DF_ON else 0) = (e0, fl)"
    by fastforce
  note fl = digital_limit_spec [OF lim]
  show ?thesis
  proof (cases "mn_next s m")
    case None
    with run m lim have "digital_schedule d on e0 fl
       (s\<lparr>pin_out := (pin_out s)(d_pin (digital_at s d) := on \<noteq> 0),
          mn_next := (mn_next s)(m := move_free_list s), move_free_list := Some m,
          digital_at := (digital_at s)(d := digital_at s d \<lparr>d_mq := (d_mq (digital_at s d))\<lparr>mq_first := None\<rparr>,
            d_end_time := e0, d_flags := fl OR (d_flags (digital_at s d) AND DF_DEFAULT_ON)\<rparr>)\<rparr>) = Ret r s'"
      by (simp add: x digital_load_event_def pin_ops op_simps Let_def level flip: on cong: if_cong)
    then show ?thesis
      using fl by (intro exI conjI) (assumption | simp add: x timer_is_before_def)+
  next
    case (Some k)
    define w where "w = dm_waketime (digital_move_at s k)"
    from run m lim Some have k: "\<not> (bit fl 2 \<and> timer_is_before e0 w)"
       "digital_schedule d on w (fl OR DF_CHECK_END)
       (s\<lparr>pin_out := (pin_out s)(d_pin (digital_at s d) := on \<noteq> 0),
          mn_next := (mn_next s)(m := move_free_list s), move_free_list := Some m,
          digital_at := (digital_at s)(d := digital_at s d \<lparr>d_mq := (d_mq (digital_at s d))\<lparr>mq_first := Some k\<rparr>,
            d_end_time := w, d_flags := (fl OR DF_CHECK_END) OR (d_flags (digital_at s d) AND DF_DEFAULT_ON)\<rparr>)\<rparr>) = Ret r s'"
      by (auto simp: x digital_load_event_def pin_ops op_simps Let_def level df_bits simp flip: on w_def cong: if_cong split: if_splits)
    from k(2) show ?thesis
      using fl k(1) by (intro exI conjI) (assumption | simp add: x | simp add: x bit_simps | auto simp: bit_simps)+
  qed
qed

lemma digital_load_guards:
  assumes run: "digital_load_event d s = Ret r s'" and f: "t_func s (digital_timer d) = Digital_load_event"
    and m: "mq_first (d_mq (digital_at s d)) = Some m"
    and away: "away_from_default (digital_at s d) (dm_on_duration (digital_move_at s m))" "d_max_duration (digital_at s d) \<noteq> 0"
  shows "r = SF_RESCHEDULE \<and> pin_guarded d s' \<and>
    \<not> timer_is_before (t_wake s (digital_timer d) + d_max_duration (digital_at s d)) (d_end_time (digital_at s' d)) \<and>
    pin_out s' (d_pin (digital_at s d)) = (dm_on_duration (digital_move_at s m) \<noteq> 0)"
proof -
  obtain mq e fl t where t: "digital_schedule d (dm_on_duration (digital_move_at s m)) e fl t = Ret r s'"
    "digital_at t d = (digital_at s d)\<lparr>d_mq := mq, d_end_time := e, d_flags := fl OR (d_flags (digital_at s d) AND DF_DEFAULT_ON)\<rparr>"
    "pin_out t (d_pin (digital_at s d)) = (dm_on_duration (digital_move_at s m) \<noteq> 0)" "t_func t = t_func s" "bit fl 2"
    "\<not> timer_is_before (t_wake s (digital_timer d) + d_max_duration (digital_at s d)) e"
    using digital_load_tail [OF run m refl refl] away by blast
  from digital_schedule_guards [OF t(1)] t(2-) f show ?thesis by (simp add: df_bits bit_simps)
qed

text \<open>The next edge of a toggling pin, and the edges of a whole run of toggle events.\<close>

lemma digital_toggle_eval:
  "\<exists>s'. digital_toggle_event d s = Ret SF_RESCHEDULE s' \<and>
     digital_at s' = (digital_at s)(d := (digital_at s d)\<lparr>d_flags := d_flags (digital_at s d) XOR DF_ON\<rparr>) \<and>
     pin_out s' = (pin_out s)(d_pin (digital_at s d) := \<not> pin_out s (d_pin (digital_at s d))) \<and>
     (let x = digital_at s d;
          w = t_wake s (digital_timer d) + (if bit (d_flags x) 0 then d_off_duration x else d_on_duration x);
          stop = bit (d_flags x) 2 \<and> \<not> timer_is_before w (d_end_time x)
      in t_wake s' (digital_timer d) = (if stop then d_end_time x else w) \<and>
         t_func s' (digital_timer d) = (if stop then Digital_load_event else t_func s (digital_timer d)))"
  by (simp add: digital_toggle_event_def pin_ops op_simps Let_def df_bits df_on bit_simps) blast

lemma digital_toggle_keeps_guard:
  assumes "pin_guarded d s" "t_func s (digital_timer d) = Digital_toggle_event"
  shows "\<exists>s'. digital_toggle_event d s = Ret SF_RESCHEDULE s' \<and> pin_guarded d s' \<and>
    d_end_time (digital_at s' d) = d_end_time (digital_at s d)"
  using digital_toggle_eval [of d s] assms
  by (auto simp: pin_guarded_def df_bits bit_simps Let_def split: if_splits)

fun toggle_trace :: "nat \<Rightarrow> nat \<Rightarrow> 'a outputs_scheme \<Rightarrow> ((u32 \<times> bool) list \<times> 'a outputs_scheme) option" where
  "toggle_trace 0 d s = Some ([], s)"
| "toggle_trace (Suc n) d s =
     (case digital_toggle_event d s of
        Ret r s' \<Rightarrow> map_option (\<lambda>(es, t). ((t_wake s (digital_timer d), pin_out s' (d_pin (digital_at s d))) # es, t))
                     (toggle_trace n d s')
      | _ \<Rightarrow> None)"

text \<open>The clock of edge \<open>k\<close> of a pin that is on until \<open>w\<close>.\<close>

definition pwm_edge :: "digital_out \<Rightarrow> u32 \<Rightarrow> nat \<Rightarrow> u32" where
  "pwm_edge x w k = w + of_nat (k div 2) * (d_on_duration x + d_off_duration x) + (if odd k then d_off_duration x else 0)"

lemma pwm_edge_Suc:
  "pwm_edge x w (Suc k) = pwm_edge x w k + (if even k then d_off_duration x else d_on_duration x)"
  by (auto simp: pwm_edge_def elim!: oddE evenE) (simp_all add: algebra_simps)

text \<open>
  The waveform, as long as no edge reaches the end time: \<open>k\<close> counts the edges before the run, so that
  the pin is on when \<open>k\<close> is even.
\<close>

lemma toggle_trace_run:
  assumes "t_func s (digital_timer d) = Digital_toggle_event" "t_wake s (digital_timer d) = pwm_edge x w k"
    and "pin_out s (d_pin x) = even k" "bit (d_flags (digital_at s d)) 0 = even k"
    and "digital_at s d = x\<lparr>d_flags := d_flags (digital_at s d)\<rparr>" "bit (d_flags (digital_at s d)) 2 = c"
    and "c \<longrightarrow> (\<forall>j \<le> k + n. timer_is_before (pwm_edge x w j) (d_end_time x))"
  shows "\<exists>s'. toggle_trace n d s = Some (map (\<lambda>j. (pwm_edge x w j, odd j)) [k..<k + n], s') \<and>
    t_func s' (digital_timer d) = Digital_toggle_event \<and> t_wake s' (digital_timer d) = pwm_edge x w (k + n)"
  using assms
proof (induction n arbitrary: s k)
  case 0
  then show ?case by simp
next
  case (Suc n)
  obtain s1 where s1: "digital_toggle_event d s = Ret SF_RESCHEDULE s1"
     "digital_at s1 = (digital_at s)(d := (digital_at s d)\<lparr>d_flags := d_flags (digital_at s d) XOR DF_ON\<rparr>)"
     "pin_out s1 = (pin_out s)(d_pin (digital_at s d) := \<not> pin_out s (d_pin (digital_at s d)))"
     "let x = digital_at s d;
          w = t_wake s (digital_timer d) + (if bit (d_flags x) 0 then d_off_duration x else d_on_duration x);
          stop = bit (d_flags x) 2 \<and> \<not> timer_is_before w (d_end_time x)
      in t_wake s1 (digital_timer d) = (if stop then d_end_time x else w) \<and>
         t_func s1 (digital_timer d) = (if stop then Digital_load_event else t_func s (digital_timer d))"
    using digital_toggle_eval [of d s] by blast
  have x: "d_pin (digital_at s d) = d_pin x" "d_on_duration (digital_at s d) = d_on_duration x"
    "d_off_duration (digital_at s d) = d_off_duration x" "d_end_time (digital_at s d) = d_end_time x"
    by (subst Suc.prems(5), simp)+
  have w: "t_wake s (digital_timer d) + (if bit (d_flags (digital_at s d)) 0 then d_off_duration x else d_on_duration x) =
      pwm_edge x w (Suc k)"
    using Suc.prems(2,4) by (simp add: pwm_edge_Suc)
  have stop: "\<not> (c \<and> \<not> timer_is_before (pwm_edge x w (Suc k)) (d_end_time x))"
    using Suc.prems(7) by auto
  have next1: "t_wake s1 (digital_timer d) = pwm_edge x w (Suc k)" "t_func s1 (digital_timer d) = Digital_toggle_event"
    using s1(4) w stop Suc.prems(1,6) unfolding x Let_def by auto
  have fl: "bit (d_flags (digital_at s1 d)) 0 = even (Suc k)" "bit (d_flags (digital_at s1 d)) 2 = c"
    using Suc.prems(4,6) by (simp_all add: s1(2) bit_simps)
  have x1: "digital_at s1 d = x\<lparr>d_flags := d_flags (digital_at s1 d)\<rparr>"
    unfolding s1(2) by (simp, subst Suc.prems(5), simp)
  have "\<exists>s'. toggle_trace n d s1 = Some (map (\<lambda>j. (pwm_edge x w j, odd j)) [Suc k..<Suc k + n], s') \<and>
    t_func s' (digital_timer d) = Digital_toggle_event \<and> t_wake s' (digital_timer d) = pwm_edge x w (Suc k + n)"
    using Suc.prems(3,7) by (intro Suc.IH next1 fl x1) (auto simp: s1(3) x(1))
  then obtain s' where s': "toggle_trace n d s1 = Some (map (\<lambda>j. (pwm_edge x w j, odd j)) [Suc k..<Suc k + n], s')"
    "t_func s' (digital_timer d) = Digital_toggle_event" "t_wake s' (digital_timer d) = pwm_edge x w (Suc k + n)"
    by blast
  have "[k..<k + Suc n] = k # [Suc k..<Suc k + n]" by (simp add: upt_conv_Cons)
  with s' s1(1) Suc.prems(2,3) show ?case
    by (intro exI [of _ s']) (simp add: s1(3) x(1))
qed

lemma digital_schedule_toggles:
  assumes "digital_schedule d on e fl t = Ret r s'" "bit fl 1"
    and "bit fl 2 \<longrightarrow> timer_is_before (t_wake t (digital_timer d) + on) e"
  shows "t_func s' (digital_timer d) = Digital_toggle_event \<and> t_wake s' (digital_timer d) = t_wake t (digital_timer d) + on \<and>
    digital_at s' d = (digital_at t d)\<lparr>d_on_duration := on, d_off_duration := d_cycle_time (digital_at t d) - on\<rparr> \<and>
    pin_out s' = pin_out t"
  using assms by (auto simp: digital_schedule_def df_bits pin_ops op_simps)

text \<open>The clock of edge \<open>j\<close> after a setting was loaded at \<open>w\<close>: the pin goes off after \<open>on\<close> of every cycle.\<close>

definition pwm_clock :: "u32 \<Rightarrow> u32 \<Rightarrow> u32 \<Rightarrow> nat \<Rightarrow> u32" where
  "pwm_clock w on cycle j = w + of_nat (j div 2) * cycle + (if even j then on else cycle)"

lemma pwm_edge_clock:
  "d_on_duration x = on \<Longrightarrow> d_off_duration x = cycle - on \<Longrightarrow> pwm_edge x (w + on) j = pwm_clock w on cycle j"
  by (simp add: pwm_edge_def pwm_clock_def algebra_simps)

lemma digital_pwm_run:
  assumes run: "digital_load_event d s = Ret r s1" and m: "mq_first (d_mq (digital_at s d)) = Some m"
    and on: "on = dm_on_duration (digital_move_at s m)" "on \<noteq> 0" "on < d_cycle_time (digital_at s d)"
    and w: "w = t_wake s (digital_timer d)" and c: "cycle = d_cycle_time (digital_at s d)"
    and lim: "bit (d_flags (digital_at s1 d)) 2 \<longrightarrow>
       (\<forall>j\<le>n. timer_is_before (pwm_clock w on cycle j) (d_end_time (digital_at s1 d)))"
  shows "\<exists>s2. toggle_trace n d s1 = Some (map (\<lambda>j. (pwm_clock w on cycle j, odd j)) [0..<n], s2)"
proof -
  obtain mq e fl t where t: "digital_schedule d on e fl t = Ret r s1"
    "digital_at t d = (digital_at s d)\<lparr>d_mq := mq, d_end_time := e, d_flags := fl OR (d_flags (digital_at s d) AND DF_DEFAULT_ON)\<rparr>"
    "pin_out t (d_pin (digital_at s d))" "t_wake t = t_wake s" "bit fl 0" "bit fl 1"
    using digital_load_tail [OF run m on(1) refl] on(2,3) by metis
  have x1: "d_flags (digital_at s1 d) = fl OR (d_flags (digital_at s d) AND DF_DEFAULT_ON)" "d_end_time (digital_at s1 d) = e"
    using t(1,2) by (auto simp: digital_schedule_def pin_ops op_simps split: if_splits)
  have "bit fl 2 \<longrightarrow> timer_is_before (t_wake t (digital_timer d) + on) e"
    using lim x1 t(4) by (auto simp: bit_simps w pwm_clock_def)
  note s1 = digital_schedule_toggles [OF t(1,6) this]
  define x where "x = digital_at s1 d"
  have x: "d_on_duration x = on" "d_off_duration x = cycle - on" "d_pin x = d_pin (digital_at s d)"
    using s1 t(2) by (simp_all add: x_def c)
  note pe = pwm_edge_clock [OF x(1,2), of w]
  have "\<exists>s'. toggle_trace n d s1 = Some (map (\<lambda>j. (pwm_edge x (w + on) j, odd j)) [0..<0 + n], s') \<and>
    t_func s' (digital_timer d) = Digital_toggle_event \<and> t_wake s' (digital_timer d) = pwm_edge x (w + on) (0 + n)"
  proof (rule toggle_trace_run [where c = "bit (d_flags (digital_at s1 d)) 2"])
    show "pin_out s1 (d_pin x) = even 0" using s1 t(3) x(3) by simp
    show "bit (d_flags (digital_at s1 d)) 0 = even 0" using x1 t(5) by (simp add: bit_simps)
    show "t_wake s1 (digital_timer d) = pwm_edge x (w + on) 0"
      using s1 t(4) unfolding pe by (simp add: w pwm_clock_def)
    show "bit (d_flags (digital_at s1 d)) 2 \<longrightarrow> (\<forall>j\<le>0 + n. timer_is_before (pwm_edge x (w + on) j) (d_end_time x))"
      using lim unfolding pe by (simp add: x_def)
  qed (use s1 in \<open>simp_all add: x_def\<close>)
  then show ?thesis by (auto simp: pe)
qed

subsection \<open>The outputs after a shutdown\<close>

text \<open>A digital output at its default: the level, no toggling, no limit and no pending update.\<close>

definition digital_safe :: "nat \<Rightarrow> 'a outputs_scheme \<Rightarrow> bool" where
  "digital_safe d s \<longleftrightarrow>
     (let x = digital_at s d
      in pin_out s (d_pin x) = (d_flags x AND DF_DEFAULT_ON \<noteq> 0) \<and> (d_flags x AND DF_ON \<noteq> 0) = (d_flags x AND DF_DEFAULT_ON \<noteq> 0) \<and>
         d_flags x AND (DF_TOGGLING OR DF_CHECK_END) = 0 \<and> move_queue_empty (d_mq x))"

definition pwm_safe :: "nat \<Rightarrow> 'a outputs_scheme \<Rightarrow> bool" where
  "pwm_safe p s \<longleftrightarrow>
     pwm_out s (p_pin (pwm_at s p)) = p_default_value (pwm_at s p) \<and> move_queue_empty (p_mq (pwm_at s p)) \<and>
     t_func s (pwm_timer p) = Pwm_event"

text \<open>The objects of a type are there, each at an address of its own.\<close>

definition objects_ok :: "string \<Rightarrow> 'a base_scheme \<Rightarrow> bool" where
  "objects_ok ty s \<longleftrightarrow>
     (\<exists>xs. oids s = Some xs \<and> (\<forall>k < unat (oid_count s). fst (xs ! k) = Some ty \<longrightarrow> snd (xs ! k) \<noteq> 0)) \<and>
     distinct (map snd (oid_objs ty s))"

text \<open>
  The contract of a shutdown handler that puts the objects of a type to their defaults: \<open>step\<close> makes one
  object safe, and leaves those that drive another pin safe.
\<close>

locale pin_defaults =
  fixes ty :: string
    and step :: "u8 \<Rightarrow> nat \<Rightarrow> ('a base_scheme, unit) op"
    and safe :: "nat \<Rightarrow> 'a base_scheme \<Rightarrow> bool"
    and pin :: "'a base_scheme \<Rightarrow> nat \<Rightarrow> 'p"
    and keep :: "'a base_scheme \<Rightarrow> 'a base_scheme \<Rightarrow> bool"
  assumes step_law: "\<exists>s'. step i d s = Ret () s' \<and> oids s' = oids s \<and> oid_count s' = oid_count s \<and> safe d s' \<and>
      keep s s' \<and> pin s' = pin s \<and> (\<forall>e. pin s e \<noteq> pin s d \<longrightarrow> safe e s \<longrightarrow> safe e s')"
    and keep_refl: "keep s s" and keep_trans: "keep s t \<Longrightarrow> keep t u \<Longrightarrow> keep s u"
begin

lemma each_law:
  assumes "distinct (map snd ds)" "inj_on (pin s) (set (map snd ds))"
  shows "\<exists>s'. each_op (\<lambda>(i, d). step i d) ds s = Ret () s' \<and> (\<forall>d\<in>set (map snd ds). safe d s') \<and> keep s s' \<and>
    pin s' = pin s \<and> (\<forall>e. pin s e \<notin> pin s ` set (map snd ds) \<longrightarrow> safe e s \<longrightarrow> safe e s') \<and>
    oids s' = oids s \<and> oid_count s' = oid_count s"
  using assms
proof (induction ds arbitrary: s)
  case Nil
  then show ?case by (simp add: op_simps keep_refl)
next
  case (Cons a ds)
  obtain i d where a: "a = (i, d)" by fastforce
  obtain s1 where s1: "step i d s = Ret () s1" "oids s1 = oids s" "oid_count s1 = oid_count s" "safe d s1" "keep s s1"
      "pin s1 = pin s" "\<forall>e. pin s e \<noteq> pin s d \<longrightarrow> safe e s \<longrightarrow> safe e s1"
    using step_law [of i d s] by blast
  obtain s2 where s2: "each_op (\<lambda>(i, d). step i d) ds s1 = Ret () s2" "\<forall>d\<in>set (map snd ds). safe d s2" "keep s1 s2"
      "pin s2 = pin s1" "\<forall>e. pin s1 e \<notin> pin s1 ` set (map snd ds) \<longrightarrow> safe e s1 \<longrightarrow> safe e s2"
      "oids s2 = oids s1" "oid_count s2 = oid_count s1"
    using Cons.IH [of s1] Cons.prems a s1(6) by auto
  have "pin s d \<notin> pin s ` set (map snd ds)" using Cons.prems a by auto
  with s1 s2 a keep_trans [OF s1(5) s2(3)] show ?case
    by (intro exI [of _ s2]) (auto simp: op_simps)
qed

lemma shutdown_law:
  assumes "objects_ok ty s" "inj_on (pin s) (snd ` set (oid_objs ty s))"
  shows "\<exists>s'. foreach_oid ty step s = Ret () s' \<and> (\<forall>(i, d)\<in>set (oid_objs ty s). safe d s') \<and> keep s s' \<and>
    oids s' = oids s \<and> oid_count s' = oid_count s"
proof -
  obtain xs where xs: "oids s = Some xs" "\<forall>k < unat (oid_count s). fst (xs ! k) = Some ty \<longrightarrow> snd (xs ! k) \<noteq> 0"
    using assms(1) by (auto simp: objects_ok_def)
  have "foreach_oid ty step s = each_op (\<lambda>(i, d). step i d) (oid_objs ty s) s"
    using step_law by (intro foreach_oid_each [OF _ xs]) blast
  moreover obtain s' where "each_op (\<lambda>(i, d). step i d) (oid_objs ty s) s = Ret () s'"
      "\<forall>d\<in>set (map snd (oid_objs ty s)). safe d s'" "keep s s'" "oids s' = oids s" "oid_count s' = oid_count s"
    using each_law [of "oid_objs ty s" s] assms by (auto simp: objects_ok_def)
  ultimately show ?thesis by (intro exI [of _ s']) auto
qed

end

interpretation digital_defaults: pin_defaults "''command_config_digital_out''" digital_default digital_safe
  "\<lambda>s d. d_pin (digital_at s d)" "\<lambda>s s'. pwm_out s' = pwm_out s \<and> pwm_at s' = pwm_at s \<and> t_func s' = t_func s"
proof (unfold_locales, goal_cases)
  case (1 i d s)
  then show ?case
    by (auto simp: digital_default_def digital_safe_def pin_ops op_simps move_queue_clear_def Let_def df_bits df_on fun_eq_iff)
qed auto

interpretation pwm_defaults: pin_defaults "''command_config_pwm_out''" pwm_default pwm_safe
  "\<lambda>s p. p_pin (pwm_at s p)" "\<lambda>s s'. pin_out s' = pin_out s \<and> digital_at s' = digital_at s"
proof (unfold_locales, goal_cases)
  case (1 i p s)
  then show ?case
    by (auto simp: pwm_default_def pwm_safe_def p_get_def p_upd_def gpio_pwm_write_def func_set_def op_simps
        move_queue_clear_def move_queue_empty_def fun_eq_iff)
qed auto

lemma outputs_shutdown_ok:
  assumes "objects_ok ''command_config_digital_out'' s" "objects_ok ''command_config_pwm_out'' s"
    and "inj_on (\<lambda>d. d_pin (digital_at s d)) (snd ` set (oid_objs ''command_config_digital_out'' s))"
    and "inj_on (\<lambda>p. p_pin (pwm_at s p)) (snd ` set (oid_objs ''command_config_pwm_out'' s))"
  shows "\<exists>s'. then_op digital_out_shutdown pwm_shutdown s = Ret () s' \<and>
    (\<forall>(i, d)\<in>set (oid_objs ''command_config_digital_out'' s). digital_safe d s') \<and>
    (\<forall>(i, p)\<in>set (oid_objs ''command_config_pwm_out'' s). pwm_safe p s')"
proof -
  obtain s1 where s1: "digital_out_shutdown s = Ret () s1"
     "\<forall>(i, d)\<in>set (oid_objs ''command_config_digital_out'' s). digital_safe d s1"
     "pwm_at s1 = pwm_at s" "oids s1 = oids s" "oid_count s1 = oid_count s"
    using digital_defaults.shutdown_law [OF assms(1,3)] unfolding digital_out_shutdown_def by blast
  have objs: "oid_objs ty s1 = oid_objs ty s" for ty using s1(4,5) by (simp add: oid_objs_def oid_ids_def)
  have "objects_ok ''command_config_pwm_out'' s1" using assms(2) s1(4,5) by (simp add: objects_ok_def objs)
  moreover have "inj_on (\<lambda>p. p_pin (pwm_at s1 p)) (snd ` set (oid_objs ''command_config_pwm_out'' s1))"
    using assms(4) s1(3) by (simp add: objs)
  ultimately obtain s2 where s2: "pwm_shutdown s1 = Ret () s2"
     "\<forall>(i, p)\<in>set (oid_objs ''command_config_pwm_out'' s). pwm_safe p s2" "pin_out s2 = pin_out s1" "digital_at s2 = digital_at s1"
    using pwm_defaults.shutdown_law [of s1] unfolding pwm_shutdown_def objs by blast
  have "digital_safe d s2 = digital_safe d s1" for d using s2(3,4) by (simp add: digital_safe_def)
  with s1(1,2) s2(1,2) show ?thesis by (auto simp: op_simps)
qed

subsection \<open>Properties\<close>

text \<open>
  A digital output at 40 on pin 3 with default off, one update pending at node 100, and a PWM output at
  60 on pin 5.
\<close>

definition example_outputs :: outputs where
  "example_outputs =
     endstops.extend (example_homing
        \<lparr>t_func := (\<lambda>_. Digital_load_event), t_wake := (\<lambda>_. 1000), oid_count := 2,
         oids := Some [(Some ''command_config_digital_out'', 40), (Some ''command_config_pwm_out'', 60)],
         mn_next := (\<lambda>_. None)\<rparr>)
       (outputs.fields
          (\<lambda>_. \<lparr>d_on_duration = 0, d_off_duration = 0, d_end_time = 1000, d_pin = 3, d_max_duration = 5000,
               d_cycle_time = 100, d_mq = \<lparr>mq_first = Some 100, mq_last = Some 100\<rparr>, d_flags = DF_CHECK_END\<rparr>)
          (\<lambda>_. \<lparr>dm_waketime = 1000, dm_on_duration = 30\<rparr>)
          (\<lambda>_. \<lparr>p_pin = 5, p_max_duration = 5000, p_default_value = 9, p_mq = \<lparr>mq_first = None, mq_last = None\<rparr>\<rparr>)
          (\<lambda>_. \<lparr>pm_waketime = 0, pm_value = 0\<rparr>))"

lemmas outputs_defs = example_outputs_def homing_defs outputs.defs

lemma example_outputs_oids:
  "oids example_outputs = Some [(Some ''command_config_digital_out'', 40), (Some ''command_config_pwm_out'', 60)]"
  "oid_count example_outputs = 2"
  by (simp_all add: outputs_defs)

lemma example_load:
  "\<exists>s'. digital_load_event 40 example_outputs = Ret SF_RESCHEDULE s' \<and>
     d_end_time (digital_at s' 40) = 6000 \<and> d_flags (digital_at s' 40) = 7"
  by (simp add: digital_load_event_def digital_limit_def digital_schedule_def pin_ops op_simps outputs_defs
      timer_is_before_def)

text \<open>
  C33: A digital output that is given a level other than its default, or a software PWM setting, while
  \<open>max_duration\<close> is set is never left unguarded: the load event that writes the pin reschedules its
  timer with an end time no later than \<open>max_duration\<close> from now, and the next event either loads a new
  setting at exactly that time or toggles the pin before it.
\<close>

theorem digital_load_guards_pin:
  assumes "digital_load_event d s = Ret r s'" "t_func s (digital_timer d) = Digital_load_event"
    and "mq_first (d_mq (digital_at s d)) = Some m"
    and "away_from_default (digital_at s d) (dm_on_duration (digital_move_at s m))" "d_max_duration (digital_at s d) \<noteq> 0"
  shows "r = SF_RESCHEDULE \<and> pin_guarded d s' \<and>
    \<not> timer_is_before (t_wake s (digital_timer d) + d_max_duration (digital_at s d)) (d_end_time (digital_at s' d)) \<and>
    pin_out s' (d_pin (digital_at s d)) = (dm_on_duration (digital_move_at s m) \<noteq> 0)"
  by (rule digital_load_guards [OF assms])

theorem digital_load_guards_pin_witness:
  "\<exists>s'. digital_load_event 40 example_outputs = Ret SF_RESCHEDULE s' \<and> pin_guarded 40 s' \<and> pin_out s' 3 \<and>
     \<not> timer_is_before 6000 (d_end_time (digital_at s' 40))"
proof -
  obtain s' where s': "digital_load_event 40 example_outputs = Ret SF_RESCHEDULE s'" using example_load by blast
  with digital_load_guards_pin [OF s', of 100] show ?thesis
    by (auto simp: away_from_default_def outputs_defs)
qed

text \<open>
  Until its end time a guarded pin can only toggle, which leaves it guarded with the same end time;
  the event at the end time loads the next setting, and when none was queued in time the firmware
  shuts down.
\<close>

theorem guarded_pin_expires:
  assumes "pin_guarded d s"
  shows "t_func s (digital_timer d) = Digital_toggle_event \<and>
      (\<exists>s'. digital_toggle_event d s = Ret SF_RESCHEDULE s' \<and> pin_guarded d s' \<and>
         d_end_time (digital_at s' d) = d_end_time (digital_at s d)) \<or>
    t_func s (digital_timer d) = Digital_load_event \<and>
      t_wake s (digital_timer d) = d_end_time (digital_at s d) \<and>
      (move_queue_empty (d_mq (digital_at s d)) \<longrightarrow>
         digital_load_event d s = Shutdown ''Missed scheduling of next digital out event'' s)"
proof (cases "t_func s (digital_timer d) = Digital_toggle_event")
  case True
  with digital_toggle_keeps_guard [OF assms] show ?thesis by blast
next
  case False
  with assms show ?thesis by (auto simp: pin_guarded_def digital_load_event_def d_get_def op_simps)
qed

theorem guarded_pin_expires_witness:
  "digital_load_event 40 (example_outputs\<lparr>digital_at := (\<lambda>_. (digital_at example_outputs 40)\<lparr>d_mq := \<lparr>mq_first = None, mq_last = None\<rparr>\<rparr>)\<rparr>) =
     Shutdown ''Missed scheduling of next digital out event''
      (example_outputs\<lparr>digital_at := (\<lambda>_. (digital_at example_outputs 40)\<lparr>d_mq := \<lparr>mq_first = None, mq_last = None\<rparr>\<rparr>)\<rparr>)"
  (is "digital_load_event 40 ?s = _")
proof -
  have "pin_guarded 40 ?s" by (simp add: pin_guarded_def outputs_defs)
  from guarded_pin_expires [OF this] show ?thesis
    by (simp add: outputs_defs move_queue_empty_def)
qed

text \<open>
  The software PWM: after a setting of \<open>on\<close> ticks per cycle was loaded at clock \<open>w\<close>, the timer events
  switch the pin off at \<open>w + on\<close> of every cycle and on again at its end, each at its exact clock,
  until an edge would reach the end time.
\<close>

theorem digital_pwm_waveform:
  assumes "digital_load_event d s = Ret r s1" "mq_first (d_mq (digital_at s d)) = Some m"
    and "on = dm_on_duration (digital_move_at s m)" "on \<noteq> 0" "on < d_cycle_time (digital_at s d)"
    and "w = t_wake s (digital_timer d)" "cycle = d_cycle_time (digital_at s d)"
    and "bit (d_flags (digital_at s1 d)) 2 \<longrightarrow>
       (\<forall>j\<le>n. timer_is_before (pwm_clock w on cycle j) (d_end_time (digital_at s1 d)))"
  shows "\<exists>s2. toggle_trace n d s1 = Some (map (\<lambda>j. (pwm_clock w on cycle j, odd j)) [0..<n], s2)"
  by (rule digital_pwm_run [OF assms])

theorem digital_pwm_waveform_witness:
  "\<exists>s1 s2. digital_load_event 40 example_outputs = Ret SF_RESCHEDULE s1 \<and>
     toggle_trace 3 40 s1 = Some ([(1030, False), (1100, True), (1130, False)], s2)"
proof -
  obtain s' where s': "digital_load_event 40 example_outputs = Ret SF_RESCHEDULE s'"
    "d_end_time (digital_at s' 40) = 6000" using example_load by blast
  have "\<forall>j\<le>3. timer_is_before (pwm_clock 1000 30 100 j) 6000"
    by (simp add: le_Suc_eq numeral_3_eq_3 pwm_clock_def timer_is_before_def)
  moreover have "mq_first (d_mq (digital_at example_outputs 40)) = Some 100" "30 = dm_on_duration (digital_move_at example_outputs 100)"
    "1000 = t_wake example_outputs (digital_timer 40)" "100 = d_cycle_time (digital_at example_outputs 40)"
    by (simp_all add: outputs_defs)
  moreover have "(30 :: u32) \<noteq> 0" "(30 :: u32) < 100" by simp_all
  ultimately have "\<exists>s2. toggle_trace 3 40 s' = Some (map (\<lambda>j. (pwm_clock 1000 30 100 j, odd j)) [0..<3], s2)"
    using s' digital_pwm_waveform [of 40 example_outputs SF_RESCHEDULE s' 100 30 1000 100 3] by metis
  then show ?thesis using s'(1) by (simp add: pwm_clock_def upt_rec)
qed

text \<open>
  The shutdown handlers of the output modules leave every configured digital output and every
  configured PWM output at its default value, with nothing queued and no toggling left, provided that
  no two outputs share a pin.
\<close>

theorem outputs_shutdown_safe:
  assumes "objects_ok ''command_config_digital_out'' s" "objects_ok ''command_config_pwm_out'' s"
    and "inj_on (\<lambda>d. d_pin (digital_at s d)) (snd ` set (oid_objs ''command_config_digital_out'' s))"
    and "inj_on (\<lambda>p. p_pin (pwm_at s p)) (snd ` set (oid_objs ''command_config_pwm_out'' s))"
  shows "\<exists>s'. then_op digital_out_shutdown pwm_shutdown s = Ret () s' \<and>
    (\<forall>(i, d)\<in>set (oid_objs ''command_config_digital_out'' s). digital_safe d s') \<and>
    (\<forall>(i, p)\<in>set (oid_objs ''command_config_pwm_out'' s). pwm_safe p s')"
  by (rule outputs_shutdown_ok [OF assms])

theorem outputs_shutdown_safe_witness:
  "\<exists>s'. then_op digital_out_shutdown pwm_shutdown example_outputs = Ret () s' \<and> digital_safe 40 s' \<and> pwm_safe 60 s'"
proof -
  have objs: "oid_objs ''command_config_digital_out'' example_outputs = [(0, 40)]"
    "oid_objs ''command_config_pwm_out'' example_outputs = [(1, 60)]"
    by (simp_all add: oid_objs_def oid_ids_def example_outputs_oids upt_rec)
  moreover have "\<forall>k<2. snd ([(Some ''command_config_digital_out'', 40 :: nat), (Some ''command_config_pwm_out'', 60)] ! k) \<noteq> 0"
    by (simp add: less_2_cases_iff)
  then have "objects_ok ''command_config_digital_out'' example_outputs" "objects_ok ''command_config_pwm_out'' example_outputs"
    by (simp_all add: objects_ok_def objs example_outputs_oids)
  ultimately show ?thesis using outputs_shutdown_safe [of example_outputs] by simp
qed

end
