(* ===== verification/Inputs.thy ===== *)
theory Inputs
  imports Outputs
begin

text \<open>
  Input pins: analog inputs, \<open>adccmds.c\<close>, buttons, \<open>buttons.c\<close>, and edge counters, \<open>pulse_counter.c\<close>. The
  converter of the board is an oracle: the \<open>n\<close>-th call of \<open>gpio_adc_sample()\<close> returns \<open>adc_delay n\<close> and the
  \<open>n\<close>-th call of \<open>gpio_adc_read()\<close> returns \<open>adc_value n\<close>. \<open>gpio_in_setup()\<close> and \<open>gpio_adc_setup()\<close> only select
  the pin.
\<close>

record analog_in =
  a_rest_time :: u32
  a_sample_time :: u32
  next_begin_time :: u32
  a_value :: u16
  min_value :: u16
  max_value :: u16
  a_pin :: u32
  invalid_count :: u8
  range_check_count :: u8
  a_state :: u8
  a_sample_count :: u8

record buttons =
  rest_ticks :: u32
  pressed :: u8
  last_pressed :: u8
  report_count :: u8
  reports :: "u8 list"
  ack_count :: u8
  retransmit_state :: u8
  retransmit_count :: u8
  button_count :: u8
  b_pins :: "u32 list"

record counter =
  poll_ticks :: u32
  sample_ticks :: u32
  next_sample_time :: u32
  c_count :: u32
  last_count_time :: u32
  c_flags :: u8
  c_pin :: u32

record inputs = outputs +
  adc_delay :: "nat \<Rightarrow> u32"
  adc_samples :: nat
  adc_value :: "nat \<Rightarrow> u16"
  adc_reads :: nat
  analog_at :: "nat \<Rightarrow> analog_in"
  buttons_at :: "nat \<Rightarrow> buttons"
  counter_at :: "nat \<Rightarrow> counter"

abbreviation (input) BF_NO_RETRANSMIT :: u8 where "BF_NO_RETRANSMIT \<equiv> 0x80"
abbreviation (input) BF_PENDING :: u8 where "BF_PENDING \<equiv> 0xff"
abbreviation (input) BF_ACKED :: u8 where "BF_ACKED \<equiv> 0xfe"
abbreviation (input) CF_PENDING :: u8 where "CF_PENDING \<equiv> 1"

abbreviation (input) analog_timer :: "nat \<Rightarrow> tptr" where "analog_timer a \<equiv> Obj_timer Analog_time a"
abbreviation (input) buttons_timer :: "nat \<Rightarrow> tptr" where "buttons_timer b \<equiv> Obj_timer Buttons_time b"
abbreviation (input) counter_timer :: "nat \<Rightarrow> tptr" where "counter_timer c \<equiv> Obj_timer Counter_time c"

definition a_get :: "nat \<Rightarrow> ('a inputs_scheme, analog_in) op" where
  "a_get a = get_op (\<lambda>s. analog_at s a)"

definition a_upd :: "nat \<Rightarrow> (analog_in \<Rightarrow> analog_in) \<Rightarrow> ('a inputs_scheme, unit) op" where
  "a_upd a f = set_op (\<lambda>s. s\<lparr>analog_at := (analog_at s)(a := f (analog_at s a))\<rparr>)"

definition b_get :: "nat \<Rightarrow> ('a inputs_scheme, buttons) op" where
  "b_get b = get_op (\<lambda>s. buttons_at s b)"

definition b_upd :: "nat \<Rightarrow> (buttons \<Rightarrow> buttons) \<Rightarrow> ('a inputs_scheme, unit) op" where
  "b_upd b f = set_op (\<lambda>s. s\<lparr>buttons_at := (buttons_at s)(b := f (buttons_at s b))\<rparr>)"

definition c_get :: "nat \<Rightarrow> ('a inputs_scheme, counter) op" where
  "c_get c = get_op (\<lambda>s. counter_at s c)"

definition c_upd :: "nat \<Rightarrow> (counter \<Rightarrow> counter) \<Rightarrow> ('a inputs_scheme, unit) op" where
  "c_upd c f = set_op (\<lambda>s. s\<lparr>counter_at := (counter_at s)(c := f (counter_at s c))\<rparr>)"

subsection \<open>Analog inputs (adccmds.c)\<close>

definition gpio_adc_sample :: "('a inputs_scheme, u32) op" where
  "gpio_adc_sample = (\<lambda>s. Ret (adc_delay s (adc_samples s)) (s\<lparr>adc_samples := Suc (adc_samples s)\<rparr>))"

definition gpio_adc_read :: "('a inputs_scheme, u16) op" where
  "gpio_adc_read = (\<lambda>s. Ret (adc_value s (adc_reads s)) (s\<lparr>adc_reads := Suc (adc_reads s)\<rparr>))"

text \<open>\<open>gpio_adc_cancel_sample()\<close> leaves nothing behind that the model has.\<close>

definition gpio_adc_cancel_sample :: "('a inputs_scheme, unit) op" where
  "gpio_adc_cancel_sample = ret ()"

definition analog_in_event :: "nat \<Rightarrow> ('a inputs_scheme, sf) op" where
  "analog_in_event a =
     bind_op gpio_adc_sample (\<lambda>sample_delay.
       if sample_delay \<noteq> 0 then
         then_op (wake_upd (analog_timer a) (\<lambda>w. w + sample_delay)) (ret SF_RESCHEDULE)
       else
         bind_op gpio_adc_read (\<lambda>value.
         bind_op (a_get a) (\<lambda>x.
         let (state, value) = (if a_state x \<ge> a_sample_count x then (0, value) else (a_state x, value + a_value x))
         in then_op (a_upd a (\<lambda>x. x\<lparr>a_value := value, a_state := state + 1\<rparr>))
            (if state + 1 < a_sample_count x then
               then_op (wake_upd (analog_timer a) (\<lambda>w. w + a_sample_time x)) (ret SF_RESCHEDULE)
             else
               then_op
                 (if value \<ge> min_value x \<and> value \<le> max_value x then a_upd a (\<lambda>x. x\<lparr>invalid_count := 0\<rparr>)
                  else
                    then_op (a_upd a (\<lambda>x. x\<lparr>invalid_count := invalid_count x + 1\<rparr>))
                      (if invalid_count x + 1 \<ge> range_check_count x then
                         then_op (sched_try_shutdown ''ADC out of range'')
                           (a_upd a (\<lambda>x. x\<lparr>invalid_count := 0\<rparr>))
                       else ret ()))
               (then_op (sched_wake_task ''analog_wake'')
               (then_op (a_upd a (\<lambda>x. x\<lparr>next_begin_time := next_begin_time x + a_rest_time x\<rparr>))
               (bind_op (a_get a) (\<lambda>x.
                then_op (wake_upd (analog_timer a) (\<lambda>_. next_begin_time x)) (ret SF_RESCHEDULE)))))))))"

definition zero_analog :: analog_in where
  "zero_analog =
     \<lparr>a_rest_time = 0, a_sample_time = 0, next_begin_time = 0, a_value = 0, min_value = 0, max_value = 0,
      a_pin = 0, invalid_count = 0, range_check_count = 0, a_state = 0, a_sample_count = 0\<rparr>"

definition command_config_analog_in :: "u32 list \<Rightarrow> ('a inputs_scheme, unit) op" where
  "command_config_analog_in args =
     bind_op (get_op (\<lambda>s. sizeof_type s ''command_config_analog_in'')) (\<lambda>sz.
     bind_op (oid_alloc (ucast (args ! 0)) ''command_config_analog_in'' sz) (\<lambda>a.
     then_op (a_upd a (\<lambda>_. zero_analog\<lparr>a_pin := args ! 1, a_state := 1\<rparr>))
       (func_set (analog_timer a) Analog_in_event)))"

definition command_query_analog_in :: "u32 list \<Rightarrow> ('a inputs_scheme, unit) op" where
  "command_query_analog_in args =
     bind_op (oid_lookup (ucast (args ! 0)) ''command_config_analog_in'') (\<lambda>a.
     then_op (sched_del_timer (analog_timer a))
     (then_op gpio_adc_cancel_sample
     (then_op (wake_upd (analog_timer a) (\<lambda>_. args ! 1))
     (then_op (a_upd a (\<lambda>x. x\<lparr>next_begin_time := args ! 1, a_sample_time := args ! 2,
                   a_sample_count := ucast (args ! 3), a_state := ucast (args ! 3) + 1,
                   a_rest_time := args ! 4, min_value := ucast (args ! 5), max_value := ucast (args ! 6),
                   range_check_count := ucast (args ! 7)\<rparr>))
       (if (ucast (args ! 3) :: u8) = 0 then ret () else sched_add_timer (analog_timer a))))))"

definition analog_report :: "u8 \<Rightarrow> nat \<Rightarrow> ('a inputs_scheme, unit) op" where
  "analog_report oid a =
     bind_op (a_get a) (\<lambda>x.
       if a_state x \<noteq> a_sample_count x then ret ()
       else
         then_op (a_upd a (\<lambda>x. x\<lparr>a_state := a_state x + 1\<rparr>))
           (sendf ''analog_in_state oid=%c next_clock=%u value=%hu'' [ucast oid, next_begin_time x, ucast (a_value x)]))"

definition analog_in_task :: "('a inputs_scheme, unit) op" where
  "analog_in_task =
     bind_op (sched_check_wake ''analog_wake'') (\<lambda>wake.
       if \<not> wake then ret () else foreach_oid ''command_config_analog_in'' analog_report)"

definition analog_restart :: "u8 \<Rightarrow> nat \<Rightarrow> ('a inputs_scheme, unit) op" where
  "analog_restart i a =
     then_op gpio_adc_cancel_sample
     (bind_op (a_get a) (\<lambda>x.
        if a_sample_count x \<noteq> 0 then
          then_op (a_upd a (\<lambda>x. x\<lparr>a_state := a_sample_count x + 1,
                                  next_begin_time := next_begin_time x + a_rest_time x\<rparr>))
          (then_op (wake_upd (analog_timer a) (\<lambda>_. next_begin_time x + a_rest_time x))
             (sched_add_timer (analog_timer a)))
        else ret ()))"

definition analog_in_shutdown :: "('a inputs_scheme, unit) op" where
  "analog_in_shutdown = foreach_oid ''command_config_analog_in'' analog_restart"

subsection \<open>Buttons (buttons.c)\<close>

text \<open>The loop that reads the pins, from button \<open>i\<close> on.\<close>

fun read_buttons :: "nat \<Rightarrow> u8 \<Rightarrow> u8 \<Rightarrow> ('a inputs_scheme, u8) op" where
  "read_buttons 0 bt status = ret status"
| "read_buttons (Suc n) bt status =
     bind_op gpio_in_read (\<lambda>val. read_buttons n (push_bit 1 bt) (if val then status OR bt else status))"

text \<open>The debouncing and the report, for the pin levels \<open>status\<close>: the object and whether the task is woken.\<close>

definition buttons_debounce :: "u8 \<Rightarrow> buttons \<Rightarrow> buttons \<times> bool" where
  "buttons_debounce status x =
     (let diff = status XOR pressed x; debounced = NOT (status XOR last_pressed x);
          (x, wake) =
            (if diff \<noteq> 0 \<and> diff AND debounced \<noteq> 0 then
               (let x = x\<lparr>pressed := (pressed x AND NOT debounced) OR (status AND debounced)\<rparr>
                in if report_count x < 8 then
                     (x\<lparr>reports := (reports x)[unat (report_count x) := pressed x],
                        report_count := report_count x + 1, retransmit_state := BF_PENDING\<rparr>, True)
                   else (x, False))
             else (x, False))
      in (x\<lparr>last_pressed := status\<rparr>, wake))"

definition buttons_event :: "nat \<Rightarrow> ('a inputs_scheme, sf) op" where
  "buttons_event b =
     bind_op (b_get b) (\<lambda>x.
     bind_op (read_buttons (unat (button_count x)) 1 0) (\<lambda>status.
     bind_op (b_get b) (\<lambda>x.
     let (x', wake) = buttons_debounce status x
     in then_op (b_upd b (\<lambda>_. x'))
        (then_op (if wake then sched_wake_task ''buttons_wake'' else ret ())
        (then_op
           (if retransmit_state x' AND BF_NO_RETRANSMIT = 0 then
              then_op (if (retransmit_state x' - 1) AND BF_NO_RETRANSMIT \<noteq> 0 then sched_wake_task ''buttons_wake'' else ret ())
                (b_upd b (\<lambda>x. x\<lparr>retransmit_state := retransmit_state x - 1\<rparr>))
            else ret ())
        (then_op (wake_upd (buttons_timer b) (\<lambda>w. w + rest_ticks x')) (ret SF_RESCHEDULE)))))))"

definition command_config_buttons :: "u32 list \<Rightarrow> ('a inputs_scheme, unit) op" where
  "command_config_buttons args =
     (let count = ucast (args ! 1) :: u8
      in if count > 8 then shutdown_op ''Max of 8 buttons''
         else
           bind_op (get_op (\<lambda>s. sizeof_type s ''command_config_buttons''
                              + sizeof_type s ''struct gpio_in'' * unat count)) (\<lambda>sz.
           bind_op (oid_alloc (ucast (args ! 0)) ''command_config_buttons'' sz) (\<lambda>b.
           then_op (b_upd b (\<lambda>_.
              \<lparr>rest_ticks = 0, pressed = 0, last_pressed = 0, report_count = 0, reports = replicate 8 0,
               ack_count = 0, retransmit_state = 0, retransmit_count = 0, button_count = count,
               b_pins = replicate (unat count) 0\<rparr>))
             (func_set (buttons_timer b) Buttons_event))))"

definition command_buttons_add :: "u32 list \<Rightarrow> ('a inputs_scheme, unit) op" where
  "command_buttons_add args =
     bind_op (oid_lookup (ucast (args ! 0)) ''command_config_buttons'') (\<lambda>b.
     bind_op (b_get b) (\<lambda>x.
       let pos = ucast (args ! 1) :: u8
       in if pos \<ge> button_count x then shutdown_op ''Set button past maximum button count''
          else b_upd b (\<lambda>x. x\<lparr>b_pins := (b_pins x)[unat pos := args ! 2]\<rparr>)))"

definition command_buttons_query :: "u32 list \<Rightarrow> ('a inputs_scheme, unit) op" where
  "command_buttons_query args =
     bind_op (oid_lookup (ucast (args ! 0)) ''command_config_buttons'') (\<lambda>b.
     then_op (sched_del_timer (buttons_timer b))
     (then_op (wake_upd (buttons_timer b) (\<lambda>_. args ! 1))
     (then_op (b_upd b (\<lambda>x. x\<lparr>rest_ticks := args ! 2, pressed := ucast (args ! 4), last_pressed := ucast (args ! 4),
                   ack_count := 0, report_count := 0, retransmit_state := BF_ACKED,
                   retransmit_count := ucast (args ! 3)\<rparr>))
       (if (ucast (args ! 3) :: u8) \<ge> BF_NO_RETRANSMIT then shutdown_op ''Invalid buttons retransmit count''
        else if args ! 2 = 0 then ret ()
        else sched_add_timer (buttons_timer b)))))"

text \<open>\<open>for (i=0; i<pending; i++) b->reports[i] = b->reports[i+count];\<close>\<close>

definition shift_reports :: "nat \<Rightarrow> nat \<Rightarrow> u8 list \<Rightarrow> u8 list" where
  "shift_reports n k r = take n (drop k r) @ drop n r"

definition command_buttons_ack :: "u32 list \<Rightarrow> ('a inputs_scheme, unit) op" where
  "command_buttons_ack args =
     bind_op (oid_lookup (ucast (args ! 0)) ''command_config_buttons'') (\<lambda>b.
     let count = ucast (args ! 1) :: u8
     in then_op (b_upd b (\<lambda>x. x\<lparr>ack_count := ack_count x + count\<rparr>))
        (bind_op (b_get b) (\<lambda>x.
           if count \<ge> report_count x then b_upd b (\<lambda>x. x\<lparr>report_count := 0, retransmit_state := BF_ACKED\<rparr>)
           else
             b_upd b (\<lambda>x. x\<lparr>reports := shift_reports (unat (report_count x - count)) (unat count) (reports x),
                            report_count := report_count x - count\<rparr>))))"

definition buttons_report :: "u8 \<Rightarrow> nat \<Rightarrow> ('a inputs_scheme, unit) op" where
  "buttons_report oid b =
     bind_op (b_get b) (\<lambda>x.
       if retransmit_state x \<noteq> BF_PENDING then ret ()
       else if report_count x = 0 then ret ()
       else
         then_op (b_upd b (\<lambda>x. x\<lparr>retransmit_state := retransmit_count x\<rparr>))
           (sendf ''buttons_state oid=%c ack_count=%c state=%*s''
              (ucast oid # ucast (ack_count x) # map ucast (take (unat (report_count x)) (reports x)))))"

definition buttons_task :: "('a inputs_scheme, unit) op" where
  "buttons_task =
     bind_op (sched_check_wake ''buttons_wake'') (\<lambda>wake.
       if \<not> wake then ret () else foreach_oid ''command_config_buttons'' buttons_report)"

subsection \<open>Edge counters (pulse\_counter.c)\<close>

definition counter_event :: "nat \<Rightarrow> ('a inputs_scheme, sf) op" where
  "counter_event c =
     bind_op (get_op (\<lambda>s. t_wake s (counter_timer c))) (\<lambda>time.
     bind_op (c_get c) (\<lambda>x.
     bind_op gpio_in_read (\<lambda>value.
     then_op
       (if (c_count x AND 1 \<noteq> 0) \<noteq> value
        then c_upd c (\<lambda>x. x\<lparr>c_count := c_count x + 1, last_count_time := time\<rparr>) else ret ())
     (then_op
        (if timer_is_before (next_sample_time x) time then
           then_op (c_upd c (\<lambda>x. x\<lparr>c_flags := c_flags x OR CF_PENDING, next_sample_time := time + sample_ticks x\<rparr>))
             (sched_wake_task ''counter_wake'')
         else ret ())
     (then_op (wake_upd (counter_timer c) (\<lambda>w. w + poll_ticks x)) (ret SF_RESCHEDULE))))))"

definition zero_counter :: counter where
  "zero_counter =
     \<lparr>poll_ticks = 0, sample_ticks = 0, next_sample_time = 0, c_count = 0, last_count_time = 0,
      c_flags = 0, c_pin = 0\<rparr>"

definition command_config_counter :: "u32 list \<Rightarrow> ('a inputs_scheme, unit) op" where
  "command_config_counter args =
     bind_op (get_op (\<lambda>s. sizeof_type s ''command_config_counter'')) (\<lambda>sz.
     bind_op (oid_alloc (ucast (args ! 0)) ''command_config_counter'' sz) (\<lambda>c.
     then_op (c_upd c (\<lambda>_. zero_counter\<lparr>c_pin := args ! 1\<rparr>))
       (func_set (counter_timer c) Counter_event)))"

definition command_query_counter :: "u32 list \<Rightarrow> ('a inputs_scheme, unit) op" where
  "command_query_counter args =
     bind_op (oid_lookup (ucast (args ! 0)) ''command_config_counter'') (\<lambda>c.
     then_op (sched_del_timer (counter_timer c))
     (then_op (wake_upd (counter_timer c) (\<lambda>_. args ! 1))
     (then_op (c_upd c (\<lambda>x. x\<lparr>poll_ticks := args ! 2, sample_ticks := args ! 3, next_sample_time := args ! 1\<rparr>))
       (sched_add_timer (counter_timer c)))))"

definition counter_report :: "u8 \<Rightarrow> nat \<Rightarrow> ('a inputs_scheme, unit) op" where
  "counter_report oid c =
     bind_op (c_get c) (\<lambda>x.
       if c_flags x AND CF_PENDING = 0 then ret ()
       else
         bind_op (get_op (\<lambda>s. t_wake s (counter_timer c))) (\<lambda>waketime.
         then_op (c_upd c (\<lambda>x. x\<lparr>c_flags := c_flags x AND NOT CF_PENDING\<rparr>))
           (sendf ''counter_state oid=%c next_clock=%u count=%u count_clock=%u''
              [ucast oid, waketime, c_count x, last_count_time x])))"

definition counter_task :: "('a inputs_scheme, unit) op" where
  "counter_task =
     bind_op (sched_check_wake ''counter_wake'') (\<lambda>wake.
       if \<not> wake then ret () else foreach_oid ''command_config_counter'' counter_report)"

text \<open>The timer callbacks of all modules.\<close>

definition firmware_event :: "timer_func \<Rightarrow> tptr \<Rightarrow> ('a inputs_scheme, sf) op" where
  "firmware_event f t =
     (case t of
        Obj_timer k a \<Rightarrow>
          (case f of
             Analog_in_event \<Rightarrow> analog_in_event a
           | Buttons_event \<Rightarrow> buttons_event a
           | Counter_event \<Rightarrow> counter_event a
           | _ \<Rightarrow> output_event f t)
      | _ \<Rightarrow> undef_op)"

subsection \<open>The type of a buttons object\<close>

text \<open>
  The fields of a \<open>struct buttons\<close> stay inside the arrays they index: at most eight reports, at most eight
  buttons.
\<close>

definition buttons_wf :: "buttons \<Rightarrow> bool" where
  "buttons_wf x \<longleftrightarrow>
     report_count x \<le> 8 \<and> length (reports x) = 8 \<and> button_count x \<le> 8 \<and> length (b_pins x) = unat (button_count x)"

definition all_buttons_wf :: "nat set \<Rightarrow> 'a inputs_scheme \<Rightarrow> bool" where
  "all_buttons_wf B s \<longleftrightarrow> (\<forall>b\<in>B. buttons_wf (buttons_at s b))"

named_theorems buttons_safe

lemma safe_b_upd: "(\<And>x. buttons_wf x \<Longrightarrow> buttons_wf (f x)) \<Longrightarrow> safe_op (all_buttons_wf B) (b_upd b f)"
  unfolding b_upd_def by (rule safe_set) (auto simp: all_buttons_wf_def)

lemma wf_frame: "buttons_at t = buttons_at s \<Longrightarrow> all_buttons_wf B s \<Longrightarrow> all_buttons_wf B t"
  by (simp add: all_buttons_wf_def)

text \<open>Operations of the other modules that the button code calls.\<close>

lemma safe_frame: "(\<And>s t. out_state (m s) = Some t \<Longrightarrow> buttons_at t = buttons_at s) \<Longrightarrow> safe_op (all_buttons_wf B) m"
  unfolding safe_op_def by (meson wf_frame)

lemma safe_calls [buttons_safe]:
  "safe_op (all_buttons_wf B) gpio_in_read" "safe_op (all_buttons_wf B) (wake_upd tm w)"
  "safe_op (all_buttons_wf B) (func_set tm g)" "safe_op (all_buttons_wf B) (sched_wake_task nm)"
  "safe_op (all_buttons_wf B) (sched_check_wake nm)" "safe_op (all_buttons_wf B) (sendf fmt vs)"
  "safe_op (all_buttons_wf B) (b_get b)" "safe_op (all_buttons_wf B) (ret r)"
  "safe_op (all_buttons_wf B) (shutdown_op e)" "safe_op (all_buttons_wf B) (get_op h)" "safe_op (all_buttons_wf B) undef_op"
  by (rule safe_frame; auto simp: gpio_in_read_def wake_upd_def func_set_def sched_wake_task_def sched_wake_tasks_def
      sched_check_wake_def sendf_def b_get_def op_simps split: if_splits)+

lemma safe_del_timer [buttons_safe]: "safe_op (all_buttons_wf B) (sched_del_timer tm)"
  by (rule safe_frame) (auto simp: sched_del_timer_def op_simps split: if_splits option.splits)

lemma safe_add_timer [buttons_safe]: "safe_op (all_buttons_wf B) (sched_add_timer tm)"
  by (rule safe_frame)
    (auto simp: sched_add_timer_def insert_timer_def timer_read_time_def sched_try_shutdown_def timer_kick_def op_simps
      split: if_splits option.splits prod.splits)

lemma safe_oid [buttons_safe]:
  "safe_op (all_buttons_wf B) (oid_lookup i ty)" "safe_op (all_buttons_wf B) (oid_alloc i ty sz)"
  by (rule safe_frame; auto simp: oid_lookup_def oid_alloc_def oid_entry_def oid_set_def alloc_chunk_def op_simps
      split: if_splits option.splits prod.splits)+

lemma safe_when: "(c \<Longrightarrow> safe_op P m) \<Longrightarrow> (\<not> c \<Longrightarrow> safe_op P n) \<Longrightarrow> safe_op P (if c then m else n)" by simp

lemma safe_foreach:
  assumes "\<And>i d. safe_op P (f i d)"
  shows "safe_op P (foreach_oid ty f)"
proof -
  have "safe_op P (foreach_loop n pos ty f)" for n pos
  proof (induction n arbitrary: pos)
    case (Suc n)
    then show ?case
      by (auto intro!: safe_bind safe_get safe_ret safe_then assms split: option.splits)
  qed (simp add: safe_undef)
  then show ?thesis by (simp add: foreach_oid_def)
qed

lemma safe_read_buttons [buttons_safe]: "safe_op (all_buttons_wf B) (read_buttons n bt st)"
  by (induction n arbitrary: bt st) (auto intro!: safe_bind buttons_safe)

lemma buttons_wf_debounce: "buttons_wf x \<Longrightarrow> buttons_wf (fst (buttons_debounce st x))"
proof -
  have "report_count x < 8 \<Longrightarrow> report_count x + 1 \<le> 8" by (simp add: inc_le)
  then show "buttons_wf x \<Longrightarrow> buttons_wf (fst (buttons_debounce st x))"
    by (auto simp: buttons_wf_def buttons_debounce_def Let_def)
qed

lemma safe_b_set: "(b \<in> B \<Longrightarrow> buttons_wf y) \<Longrightarrow> safe_op (all_buttons_wf B) (b_upd b (\<lambda>_. y))"
  unfolding b_upd_def by (rule safe_set) (auto simp: all_buttons_wf_def)

lemma safe_b_get:
  assumes "\<And>x. (b \<in> B \<Longrightarrow> buttons_wf x) \<Longrightarrow> safe_op (all_buttons_wf B) (f x)"
  shows "safe_op (all_buttons_wf B) (bind_op (b_get b) f)"
proof (rule safe_bind)
  fix x and s t :: "'a inputs_scheme"
  assume "all_buttons_wf B s" "b_get b s = Ret x t"
  then have "b \<in> B \<Longrightarrow> buttons_wf x" by (auto simp: b_get_def op_simps all_buttons_wf_def)
  then show "safe_op (all_buttons_wf B) (f x)" by (rule assms)
qed (rule buttons_safe)

lemmas buttons_steps = safe_b_get safe_bind safe_then safe_when buttons_safe

lemma safe_buttons_event: "safe_op (all_buttons_wf B) (buttons_event b)"
proof -
  have tail: "safe_op (all_buttons_wf B)
     (let (x', wake) = buttons_debounce status x
     in then_op (b_upd b (\<lambda>_. x'))
        (then_op (if wake then sched_wake_task ''buttons_wake'' else ret ())
        (then_op
           (if retransmit_state x' AND BF_NO_RETRANSMIT = 0 then
              then_op (if (retransmit_state x' - 1) AND BF_NO_RETRANSMIT \<noteq> 0 then sched_wake_task ''buttons_wake'' else ret ())
                (b_upd b (\<lambda>x. x\<lparr>retransmit_state := retransmit_state x - 1\<rparr>))
            else ret ())
        (then_op (wake_upd (buttons_timer b) (\<lambda>w. w + rest_ticks x')) (ret SF_RESCHEDULE)))))"
    if "b \<in> B \<Longrightarrow> buttons_wf x" for x status
  proof -
    obtain x' wake where d: "buttons_debounce status x = (x', wake)" by fastforce
    with that buttons_wf_debounce [of x status] have "b \<in> B \<Longrightarrow> buttons_wf x'" by simp
    then show ?thesis unfolding d Let_def prod.case
      by (intro buttons_steps safe_b_set safe_b_upd) (simp_all add: buttons_wf_def)
  qed
  show ?thesis unfolding buttons_event_def
    by (rule safe_b_get, rule safe_bind [OF safe_read_buttons], rule safe_b_get, rule tail)
qed

lemma shift_reports_length: "length (shift_reports n k r) = length r" if "n + k \<le> length r"
  using that by (simp add: shift_reports_def)

lemma safe_config_buttons: "safe_op (all_buttons_wf B) (command_config_buttons args)"
  unfolding command_config_buttons_def Let_def
  by (intro buttons_steps safe_b_set) (auto simp: buttons_wf_def not_less)

lemma safe_buttons_add: "safe_op (all_buttons_wf B) (command_buttons_add args)"
  unfolding command_buttons_add_def Let_def
  by (intro safe_bind [OF buttons_safe(14)] buttons_steps safe_b_upd) (auto simp: buttons_wf_def)

lemma safe_buttons_query: "safe_op (all_buttons_wf B) (command_buttons_query args)"
  unfolding command_buttons_query_def
  by (intro buttons_steps safe_b_upd) (auto simp: buttons_wf_def)

lemma buttons_wf_ack:
  assumes "buttons_wf x" "\<not> k \<ge> report_count x"
  shows "buttons_wf (x\<lparr>reports := shift_reports (unat (report_count x - k)) (unat k) (reports x), report_count := report_count x - k\<rparr>)"
proof -
  have "k \<le> report_count x" using assms(2) by simp
  then have "unat (report_count x - k) + unat k = unat (report_count x)"
    by (simp add: unat_sub word_le_nat_alt)
  moreover have "unat (report_count x) \<le> 8" using assms(1) by (simp add: buttons_wf_def word_le_nat_alt)
  ultimately show ?thesis
    using assms(1) by (auto simp: buttons_wf_def shift_reports_length word_le_nat_alt)
qed

lemma safe_buttons_ack: "safe_op (all_buttons_wf B) (command_buttons_ack args)"
proof -
  have "safe_op (all_buttons_wf B)
     (then_op (b_upd b (\<lambda>x. x\<lparr>ack_count := ack_count x + k\<rparr>))
        (bind_op (b_get b) (\<lambda>x.
           if k \<ge> report_count x then b_upd b (\<lambda>x. x\<lparr>report_count := 0, retransmit_state := BF_ACKED\<rparr>)
           else
             b_upd b (\<lambda>x. x\<lparr>reports := shift_reports (unat (report_count x - k)) (unat k) (reports x),
                            report_count := report_count x - k\<rparr>))))" for b k
    using buttons_wf_ack [of "(buttons_at _ b)\<lparr>ack_count := ack_count (buttons_at _ b) + k\<rparr>" k]
    by (auto simp: safe_op_def b_upd_def b_get_def op_simps all_buttons_wf_def buttons_wf_def)
  then show ?thesis
    unfolding command_buttons_ack_def Let_def by (intro safe_bind [OF buttons_safe(14)])
qed

lemma safe_buttons_task: "safe_op (all_buttons_wf B) buttons_task"
  unfolding buttons_task_def buttons_report_def
  by (intro safe_foreach buttons_steps safe_b_upd) (auto simp: buttons_wf_def)

subsection \<open>Buttons as a queue of reports\<close>

text \<open>The reports that the host has not acknowledged.\<close>

definition unacked :: "buttons \<Rightarrow> u8 list" where
  "unacked x = take (unat (report_count x)) (reports x)"

text \<open>What the debouncing promises for one pin: the level counts once it was seen twice in a row.\<close>

lemma bit_and_diff: "(p AND NOT d) OR (st AND d) = (p :: u8) \<longleftrightarrow> (st XOR p) AND d = 0"
proof
  assume eq: "(p AND NOT d) OR (st AND d) = p"
  show "(st XOR p) AND d = 0"
  proof (rule bit_word_eqI)
    fix n assume "n < LENGTH(8)"
    then show "bit ((st XOR p) AND d) n = bit (0 :: u8) n"
      using arg_cong [OF eq, of "\<lambda>w. bit w n"] by (auto simp: bit_simps)
  qed
next
  assume eq: "(st XOR p) AND d = 0"
  show "(p AND NOT d) OR (st AND d) = p"
  proof (rule bit_word_eqI)
    fix n assume "n < LENGTH(8)"
    then show "bit ((p AND NOT d) OR (st AND d)) n = bit p n"
      using arg_cong [OF eq, of "\<lambda>w. bit w n"] by (auto simp: bit_simps)
  qed
qed

definition debounce :: "u8 \<Rightarrow> u8 \<Rightarrow> u8 \<Rightarrow> u8" where
  "debounce st prv p = (p AND NOT (NOT (st XOR prv))) OR (st AND NOT (st XOR prv))"

lemma bit_debounce: "i < 8 \<Longrightarrow> bit (debounce st prv p) i = (if bit st i = bit prv i then bit st i else bit p i)"
  by (auto simp: debounce_def bit_simps)

lemma buttons_debounce_eq:
  "buttons_debounce st x =
     (let p = debounce st (last_pressed x) (pressed x); x' = x\<lparr>pressed := p\<rparr>
      in if p = pressed x then (x\<lparr>last_pressed := st\<rparr>, False)
         else if report_count x < 8
         then (x'\<lparr>reports := (reports x)[unat (report_count x) := p], report_count := report_count x + 1,
                  retransmit_state := BF_PENDING, last_pressed := st\<rparr>, True)
         else (x'\<lparr>last_pressed := st\<rparr>, False))"
proof -
  let ?d = "NOT (st XOR last_pressed x)"
  have p: "debounce st (last_pressed x) (pressed x) = pressed x \<longleftrightarrow> (st XOR pressed x) AND ?d = 0"
    unfolding debounce_def by (rule bit_and_diff)
  have c: "st XOR pressed x \<noteq> 0 \<and> (st XOR pressed x) AND ?d \<noteq> 0 \<longleftrightarrow> (st XOR pressed x) AND ?d \<noteq> 0" by auto
  show ?thesis
    unfolding buttons_debounce_def Let_def c p by (auto simp: debounce_def)
qed

lemma buttons_debounce_queue:
  assumes "buttons_wf x" "buttons_debounce st x = (x', wake)"
  shows "pressed x' = debounce st (last_pressed x) (pressed x) \<and> last_pressed x' = st \<and>
    wake = (pressed x' \<noteq> pressed x \<and> length (unacked x) < 8) \<and>
    unacked x' = (if wake then unacked x @ [pressed x'] else unacked x) \<and>
    (wake \<longrightarrow> retransmit_state x' = BF_PENDING)"
proof -
  have l: "length (unacked x) = unat (report_count x)" "length (reports x) = 8"
    using assms(1) by (simp_all add: unacked_def buttons_wf_def word_le_nat_alt)
  have lt: "report_count x < 8 \<longleftrightarrow> length (unacked x) < 8" by (simp add: l word_less_nat_alt)
  have s: "unat (report_count x + 1) = Suc (unat (report_count x))" if "report_count x < 8"
    using that unat_u8_add1 [of "report_count x"] by (simp add: word_less_nat_alt)
  have t: "take (Suc n) (rs[n := p]) = take n rs @ [p]" if "n < length rs" for n and rs :: "u8 list" and p
    using that by (simp add: take_Suc_conv_app_nth)
  show ?thesis
    using assms(2) unfolding buttons_debounce_eq Let_def
    by (auto simp: lt [symmetric] unacked_def s t l(2) word_less_nat_alt split: if_splits)
qed

lemma unacked_ack:
  assumes "buttons_wf x" "\<not> k \<ge> report_count x"
  shows "take (unat (report_count x - k)) (shift_reports (unat (report_count x - k)) (unat k) (reports x)) = drop (unat k) (unacked x)"
proof -
  have "k \<le> report_count x" using assms(2) by simp
  then have "unat (report_count x - k) = unat (report_count x) - unat k" "unat k \<le> unat (report_count x)"
    by (simp_all add: unat_sub word_le_nat_alt)
  moreover have "unat (report_count x) \<le> 8" "length (reports x) = 8" using assms(1) by (simp_all add: buttons_wf_def word_le_nat_alt)
  ultimately show ?thesis by (simp add: shift_reports_def unacked_def take_drop)
qed

lemma buttons_ack_eval:
  assumes "oid_lookup (ucast (args ! 0)) ''command_config_buttons'' s = Ret b s" "buttons_wf (buttons_at s b)"
  shows "\<exists>s'. command_buttons_ack args s = Ret () s' \<and>
    unacked (buttons_at s' b) = drop (unat (ucast (args ! 1) :: u8)) (unacked (buttons_at s b)) \<and>
    ack_count (buttons_at s' b) = ack_count (buttons_at s b) + ucast (args ! 1) \<and>
    (unacked (buttons_at s' b) = [] \<longrightarrow> retransmit_state (buttons_at s' b) = BF_ACKED)"
proof -
  define k where "k = (ucast (args ! 1) :: u8)"
  show ?thesis
  proof (cases "k \<ge> report_count (buttons_at s b)")
    case True
    then have "unat k \<ge> length (unacked (buttons_at s b))" by (simp add: unacked_def word_le_nat_alt)
    with True assms(1) show ?thesis
      unfolding command_buttons_ack_def k_def [symmetric] Let_def
      by (simp add: b_upd_def b_get_def op_simps unacked_def)
  next
    case False
    then have "unat (report_count (buttons_at s b) - k) \<noteq> 0" by (auto simp: unat_eq_0)
    moreover have "reports (buttons_at s b) \<noteq> []" using assms(2) by (auto simp: buttons_wf_def)
    moreover have "unat k < length (reports (buttons_at s b))"
      using False assms(2) by (auto simp: buttons_wf_def word_le_nat_alt not_le)
    ultimately show ?thesis
      using False assms(1) unacked_ack [OF assms(2) False] unfolding command_buttons_ack_def k_def [symmetric] Let_def
      by (auto simp: b_upd_def b_get_def op_simps unacked_def shift_reports_def)
  qed
qed

lemma read_buttons_eval:
  "\<exists>s'. read_buttons n bt st s = Ret (foldl (\<lambda>w i. if pin_in s (pin_reads s + i) then w OR push_bit i bt else w) st [0..<n]) s' \<and>
     buttons_at s' = buttons_at s"
proof (induction n bt st arbitrary: s rule: read_buttons.induct)
  case (1 bt st)
  then show ?case by (simp add: op_simps)
next
  case (2 n bt st)
  let ?val = "pin_in s (pin_reads s)"
  obtain s1 where s1: "gpio_in_read s = Ret ?val s1" "pin_in s1 = pin_in s" "pin_reads s1 = Suc (pin_reads s)" "buttons_at s1 = buttons_at s"
    by (simp add: gpio_in_read_def op_simps)
  from 2 [of ?val s1] obtain s2 where s2: "read_buttons n (push_bit 1 bt) (if ?val then st OR bt else st) s1 =
      Ret (foldl (\<lambda>w i. if pin_in s1 (pin_reads s1 + i) then w OR push_bit i (push_bit 1 bt) else w) (if ?val then st OR bt else st) [0..<n]) s2"
    "buttons_at s2 = buttons_at s1" by blast
  have "[0..<Suc n] = 0 # map Suc [0..<n]" by (simp add: map_Suc_upt upt_conv_Cons del: upt_Suc)
  moreover have shift: "push_bit i (push_bit 1 bt) = push_bit (Suc i) bt" for i by (simp only: push_bit_push_bit add.commute Suc_eq_plus1)
  ultimately show ?case using s1 s2 [unfolded shift] by (simp add: op_simps foldl_map del: upt_Suc push_bit_Suc)
qed

definition pin_levels :: "nat \<Rightarrow> 'a inputs_scheme \<Rightarrow> u8" where
  "pin_levels n s = foldl (\<lambda>w i. if pin_in s (pin_reads s + i) then w OR push_bit i 1 else w) 0 [0..<n]"

lemma bit_pin_levels: "i < 8 \<Longrightarrow> bit (pin_levels n s) i \<longleftrightarrow> i < n \<and> pin_in s (pin_reads s + i)"
  unfolding pin_levels_def by (induction n) (auto simp: bit_simps less_Suc_eq)

lemma buttons_event_eval:
  assumes "buttons_wf (buttons_at s b)"
  shows "\<exists>s'. buttons_event b s = Ret SF_RESCHEDULE s' \<and>
    (let x = buttons_at s b; p = debounce (pin_levels (unat (button_count x)) s) (last_pressed x) (pressed x)
     in pressed (buttons_at s' b) = p \<and>
        unacked (buttons_at s' b) = unacked x @ (if p \<noteq> pressed x \<and> length (unacked x) < 8 then [p] else []))"
proof -
  let ?x = "buttons_at s b"
  let ?st = "pin_levels (unat (button_count ?x)) s"
  obtain s1 where s1: "read_buttons (unat (button_count ?x)) 1 0 s = Ret ?st s1" "buttons_at s1 = buttons_at s"
    using read_buttons_eval [of "unat (button_count ?x)" 1 0 s] by (auto simp: pin_levels_def)
  obtain x' wake where d: "buttons_debounce ?st ?x = (x', wake)" by fastforce
  from buttons_debounce_queue [OF assms d] have x': "pressed x' = debounce ?st (last_pressed ?x) (pressed ?x)"
    "unacked x' = unacked ?x @ (if pressed x' \<noteq> pressed ?x \<and> length (unacked ?x) < 8 then [pressed x'] else [])" by auto
  have "\<exists>s'. buttons_event b s = Ret SF_RESCHEDULE s' \<and> pressed (buttons_at s' b) = pressed x' \<and> unacked (buttons_at s' b) = unacked x'"
    using s1 d by (simp add: buttons_event_def op_simps b_get_def b_upd_def sched_wake_task_def sched_wake_tasks_def wake_upd_def unacked_def)
  with x' show ?thesis by (auto simp: Let_def)
qed
lemma buttons_report_cases:
  "\<exists>s'. buttons_report oid b s = Ret () s' \<and> unacked (buttons_at s' b) = unacked (buttons_at s b) \<and>
    sent s' = sent s @ (if retransmit_state (buttons_at s b) = BF_PENDING \<and> unacked (buttons_at s b) \<noteq> []
       then [(''buttons_state oid=%c ack_count=%c state=%*s'',
         ucast oid # ucast (ack_count (buttons_at s b)) # map ucast (unacked (buttons_at s b)))] else [])"
  if "buttons_wf (buttons_at s b)"
proof -
  have "reports (buttons_at s b) \<noteq> []" using that by (auto simp: buttons_wf_def)
  then have "unacked (buttons_at s b) = [] \<longleftrightarrow> report_count (buttons_at s b) = 0" by (simp add: unacked_def unat_eq_0)
  moreover have "unacked (x\<lparr>retransmit_state := r\<rparr>) = unacked x" for x r by (simp add: unacked_def)
  ultimately show ?thesis
    by (cases "retransmit_state (buttons_at s b) = BF_PENDING"; cases "report_count (buttons_at s b) = 0")
      (simp_all add: buttons_report_def b_get_def b_upd_def sendf_def op_simps, simp_all add: unacked_def)
qed

lemma buttons_ack_state:
  assumes "oid_lookup (ucast (args ! 0)) ''command_config_buttons'' s = Ret b s" "buttons_wf (buttons_at s b)"
    "command_buttons_ack args s = Ret () s'"
  shows "retransmit_state (buttons_at s' b) =
     (if unacked (buttons_at s' b) = [] then BF_ACKED else retransmit_state (buttons_at s b))"
proof (cases "(ucast (args ! 1) :: u8) \<ge> report_count (buttons_at s b)")
  case True
  with assms(1,3) show ?thesis
    by (auto simp: command_buttons_ack_def Let_def b_upd_def b_get_def op_simps unacked_def)
next
  case False
  have "unacked (buttons_at s' b) \<noteq> []"
  proof -
    have "length (unacked (buttons_at s b)) = unat (report_count (buttons_at s b))"
      using assms(2) by (simp add: unacked_def buttons_wf_def word_le_nat_alt)
    then show ?thesis using buttons_ack_eval [OF assms(1,2)] assms(3) False by (auto simp: word_le_nat_alt)
  qed
  with False assms(1,3) show ?thesis
    by (auto simp: command_buttons_ack_def Let_def b_upd_def b_get_def op_simps)
qed

subsection \<open>Counting edges\<close>

fun counter_run :: "nat \<Rightarrow> nat \<Rightarrow> 'a inputs_scheme \<Rightarrow> 'a inputs_scheme option" where
  "counter_run 0 c s = Some s"
| "counter_run (Suc n) c s = (case counter_event c s of Ret r s' \<Rightarrow> counter_run n c s' | _ \<Rightarrow> None)"

text \<open>The edges in a sequence of levels, after the level \<open>b\<close>.\<close>

fun edges :: "bool \<Rightarrow> bool list \<Rightarrow> nat" where
  "edges b [] = 0"
| "edges b (v # vs) = of_bool (b \<noteq> v) + edges v vs"

lemma counter_event_eval:
  "\<exists>s'. counter_event c s = Ret SF_RESCHEDULE s' \<and> pin_in s' = pin_in s \<and> pin_reads s' = Suc (pin_reads s) \<and>
     c_count (counter_at s' c) = c_count (counter_at s c) + of_bool (bit (c_count (counter_at s c)) 0 \<noteq> pin_in s (pin_reads s)) \<and>
     (c_count (counter_at s' c) \<noteq> c_count (counter_at s c) \<longrightarrow> last_count_time (counter_at s' c) = t_wake s (counter_timer c)) \<and>
     bit (c_count (counter_at s' c)) 0 = pin_in s (pin_reads s) \<and>
     poll_ticks (counter_at s' c) = poll_ticks (counter_at s c) \<and>
     t_wake s' (counter_timer c) = t_wake s (counter_timer c) + poll_ticks (counter_at s c)"
proof -
  have one: "w AND 1 = 0 \<longleftrightarrow> \<not> bit w 0" for w :: u32 using and_bit_zero_iff [of w 0] by simp
  have inc: "bit (w + 1) 0 = (\<not> bit w 0)" for w :: u32 by (simp add: bit_0)
  show ?thesis
    by (cases "timer_is_before (next_sample_time (counter_at s c)) (t_wake s (counter_timer c))")
      (auto simp: counter_event_def c_get_def c_upd_def gpio_in_read_def wake_upd_def sched_wake_task_def
        sched_wake_tasks_def op_simps one inc)
qed

lemma counter_run_edges:
  "\<exists>s'. counter_run n c s = Some s' \<and>
     c_count (counter_at s' c) = c_count (counter_at s c) +
       of_nat (edges (bit (c_count (counter_at s c)) 0) (map (\<lambda>k. pin_in s (pin_reads s + k)) [0..<n])) \<and>
     (n \<noteq> 0 \<longrightarrow> bit (c_count (counter_at s' c)) 0 = pin_in s (pin_reads s + (n - 1))) \<and>
     t_wake s' (counter_timer c) = t_wake s (counter_timer c) + of_nat n * poll_ticks (counter_at s c)"
proof (induction n arbitrary: s)
  case 0
  then show ?case by simp
next
  case (Suc n)
  obtain s1 where s1: "counter_event c s = Ret SF_RESCHEDULE s1" "pin_in s1 = pin_in s" "pin_reads s1 = Suc (pin_reads s)"
     "c_count (counter_at s1 c) = c_count (counter_at s c) + of_bool (bit (c_count (counter_at s c)) 0 \<noteq> pin_in s (pin_reads s))"
     "bit (c_count (counter_at s1 c)) 0 = pin_in s (pin_reads s)" "poll_ticks (counter_at s1 c) = poll_ticks (counter_at s c)"
     "t_wake s1 (counter_timer c) = t_wake s (counter_timer c) + poll_ticks (counter_at s c)"
    using counter_event_eval [of c s] by blast
  have m: "map (\<lambda>k. pin_in s (pin_reads s + k)) [0..<Suc n] =
      pin_in s (pin_reads s) # map (\<lambda>k. pin_in s (Suc (pin_reads s + k))) [0..<n]"
    by (simp add: upt_conv_Cons map_Suc_upt [symmetric] o_def del: upt_Suc)
  from Suc.IH [of s1] obtain s' where s': "counter_run n c s1 = Some s'"
     "c_count (counter_at s' c) = c_count (counter_at s1 c) +
       of_nat (edges (pin_in s (pin_reads s)) (map (\<lambda>k. pin_in s (Suc (pin_reads s + k))) [0..<n]))"
     "n \<noteq> 0 \<longrightarrow> bit (c_count (counter_at s' c)) 0 = pin_in s (Suc (pin_reads s) + (n - 1))"
     "t_wake s' (counter_timer c) = t_wake s1 (counter_timer c) + of_nat n * poll_ticks (counter_at s c)"
    unfolding s1(2,3,5,6) by auto
  show ?case
  proof (intro exI [of _ s'] conjI)
    show "counter_run (Suc n) c s = Some s'" using s1(1) s'(1) by simp
    show "Suc n \<noteq> 0 \<longrightarrow> bit (c_count (counter_at s' c)) 0 = pin_in s (pin_reads s + (Suc n - 1))"
      using s'(1,3) s1(5) by (cases n) auto
    show "t_wake s' (counter_timer c) = t_wake s (counter_timer c) + of_nat (Suc n) * poll_ticks (counter_at s c)"
      unfolding s'(4) s1(7) by (simp add: algebra_simps)
  qed (simp only: m s'(2) s1(4) edges.simps, simp)
qed

subsection \<open>Oversampling of an analog input\<close>

fun analog_run :: "nat \<Rightarrow> nat \<Rightarrow> 'a inputs_scheme \<Rightarrow> (u32 list \<times> 'a inputs_scheme) option" where
  "analog_run 0 a s = Some ([], s)"
| "analog_run (Suc n) a s =
     (case analog_in_event a s of
        Ret r s' \<Rightarrow> map_option (\<lambda>(ws, t). (t_wake s (analog_timer a) # ws, t)) (analog_run n a s')
      | _ \<Rightarrow> None)"

text \<open>The sum of the samples in the 16 bits of \<open>a->value\<close>.\<close>

definition adc_sum :: "'a inputs_scheme \<Rightarrow> nat \<Rightarrow> nat \<Rightarrow> u16" where
  "adc_sum s r n = sum_list (map (adc_value s) [r..<r + n])"

text \<open>The samples taken of the current measurement, and their sum.\<close>

definition samples_taken :: "analog_in \<Rightarrow> u8" where
  "samples_taken x = (if a_state x \<ge> a_sample_count x then 0 else a_state x)"

definition samples_sum :: "analog_in \<Rightarrow> u16" where
  "samples_sum x = (if a_state x \<ge> a_sample_count x then 0 else a_value x)"

lemmas analog_ops = analog_in_event_def gpio_adc_sample_def gpio_adc_read_def a_get_def a_upd_def wake_upd_def op_simps

lemma analog_sample:
  assumes "adc_delay s (adc_samples s) = 0" "x = analog_at s a" "samples_taken x + 1 < a_sample_count x"
  shows "\<exists>s'. analog_in_event a s = Ret SF_RESCHEDULE s' \<and>
     t_wake s' (analog_timer a) = t_wake s (analog_timer a) + a_sample_time x \<and>
     adc_delay s' = adc_delay s \<and> adc_value s' = adc_value s \<and> shutdown_status s' = shutdown_status s \<and>
     adc_samples s' = Suc (adc_samples s) \<and> adc_reads s' = Suc (adc_reads s) \<and>
     analog_at s' a = x\<lparr>a_value := samples_sum x + adc_value s (adc_reads s), a_state := samples_taken x + 1\<rparr>"
  using assms(1,3) unfolding assms(2)
  by (simp add: analog_ops samples_taken_def samples_sum_def add.commute split: if_splits)

lemma adc_sum_Suc: "adc_sum s r (Suc n) = adc_value s r + adc_sum s (Suc r) n"
  by (simp add: adc_sum_def upt_conv_Cons del: upt_Suc)

lemma samples_step:
  assumes "samples_taken x + 1 < a_sample_count x"
  shows "samples_taken (x\<lparr>a_value := v, a_state := samples_taken x + 1\<rparr>) = samples_taken x + 1"
    "samples_sum (x\<lparr>a_value := v, a_state := samples_taken x + 1\<rparr>) = v"
proof -
  have "\<not> a_sample_count x \<le> samples_taken x + 1" using assms by (simp add: not_le)
  then show "samples_taken (x\<lparr>a_value := v, a_state := samples_taken x + 1\<rparr>) = samples_taken x + 1"
    "samples_sum (x\<lparr>a_value := v, a_state := samples_taken x + 1\<rparr>) = v"
    by (simp_all add: samples_taken_def [of "_\<lparr>a_state := _\<rparr>"] samples_sum_def)
qed

lemma unat_u8_inc: "unat (k :: u8) + 1 < unat (c :: u8) \<Longrightarrow> unat (k + 1) = unat k + 1 \<and> k + 1 < c"
  using unat_u8_add1 [of k] unsigned_less [where ?'a = nat, of c] by (simp add: word_less_nat_alt)

lemma analog_run_mid:
  assumes "\<forall>k<n. adc_delay s (adc_samples s + k) = 0" "x = analog_at s a" "unat (samples_taken x) + n < unat (a_sample_count x)"
  shows "\<exists>s'. analog_run n a s = Some (map (\<lambda>k. t_wake s (analog_timer a) + of_nat k * a_sample_time x) [0..<n], s') \<and>
     t_wake s' (analog_timer a) = t_wake s (analog_timer a) + of_nat n * a_sample_time x \<and>
     adc_delay s' = adc_delay s \<and> adc_value s' = adc_value s \<and> shutdown_status s' = shutdown_status s \<and>
     adc_samples s' = adc_samples s + n \<and> adc_reads s' = adc_reads s + n \<and>
     (\<exists>v st. analog_at s' a = x\<lparr>a_value := v, a_state := st\<rparr>) \<and>
     unat (samples_taken (analog_at s' a)) = unat (samples_taken x) + n \<and>
     samples_sum (analog_at s' a) = samples_sum x + adc_sum s (adc_reads s) n"
  using assms
proof (induction n arbitrary: s x)
  case 0
  have "\<exists>v st. x = x\<lparr>a_value := v, a_state := st\<rparr>" by (intro exI [of _ "a_value x"] exI [of _ "a_state x"]) simp
  then show ?case using 0 by (auto simp: adc_sum_def)
next
  case (Suc n)
  have "unat (samples_taken x) + 1 < unat (a_sample_count x)" using Suc.prems(3) by simp
  note inc = unat_u8_inc [OF this]
  have lt: "samples_taken x + 1 < a_sample_count x" using inc by blast
  have "adc_delay s (adc_samples s) = 0" using Suc.prems(1) [rule_format, of 0] by simp
  from analog_sample [OF this Suc.prems(2) lt] obtain s1 where s1: "analog_in_event a s = Ret SF_RESCHEDULE s1"
     "t_wake s1 (analog_timer a) = t_wake s (analog_timer a) + a_sample_time x"
     "adc_delay s1 = adc_delay s" "adc_value s1 = adc_value s" "shutdown_status s1 = shutdown_status s"
     "adc_samples s1 = Suc (adc_samples s)" "adc_reads s1 = Suc (adc_reads s)"
     "analog_at s1 a = x\<lparr>a_value := samples_sum x + adc_value s (adc_reads s), a_state := samples_taken x + 1\<rparr>" by blast
  define x1 where "x1 = x\<lparr>a_value := samples_sum x + adc_value s (adc_reads s), a_state := samples_taken x + 1\<rparr>"
  have x1: "samples_taken x1 = samples_taken x + 1" "samples_sum x1 = samples_sum x + adc_value s (adc_reads s)"
    "a_sample_time x1 = a_sample_time x" "a_sample_count x1 = a_sample_count x"
    using samples_step [OF lt] by (simp_all add: x1_def)
  have "\<forall>k<n. adc_delay s1 (adc_samples s1 + k) = 0"
    using Suc.prems(1) by (auto simp: s1(3,6) dest: spec [of _ "Suc _"])
  moreover have "unat (samples_taken x1) + n < unat (a_sample_count x1)" using Suc.prems(3) inc x1 by simp
  moreover have "x1 = analog_at s1 a" using s1(8) by (simp add: x1_def)
  ultimately obtain s' where s': "analog_run n a s1 = Some (map (\<lambda>k. t_wake s1 (analog_timer a) + of_nat k * a_sample_time x1) [0..<n], s')"
     "t_wake s' (analog_timer a) = t_wake s1 (analog_timer a) + of_nat n * a_sample_time x1"
     "adc_delay s' = adc_delay s1" "adc_value s' = adc_value s1" "shutdown_status s' = shutdown_status s1"
     "adc_samples s' = adc_samples s1 + n" "adc_reads s' = adc_reads s1 + n"
     "\<exists>v st. analog_at s' a = x1\<lparr>a_value := v, a_state := st\<rparr>"
     "unat (samples_taken (analog_at s' a)) = unat (samples_taken x1) + n"
     "samples_sum (analog_at s' a) = samples_sum x1 + adc_sum s1 (adc_reads s1) n"
    using Suc.IH [of s1 x1] by blast
  have m: "map (\<lambda>k. t_wake s (analog_timer a) + of_nat k * a_sample_time x) [0..<Suc n] =
      t_wake s (analog_timer a) # map (\<lambda>k. t_wake s1 (analog_timer a) + of_nat k * a_sample_time x1) [0..<n]"
    by (simp add: s1(2) x1(3) upt_conv_Cons map_Suc_upt [symmetric] o_def algebra_simps del: upt_Suc)
  show ?case
  proof (intro exI [of _ s'] conjI)
    show "analog_run (Suc n) a s = Some (map (\<lambda>k. t_wake s (analog_timer a) + of_nat k * a_sample_time x) [0..<Suc n], s')"
      unfolding m using s1(1) s'(1) by simp
    show "\<exists>v st. analog_at s' a = x\<lparr>a_value := v, a_state := st\<rparr>" using s'(8) by (auto simp: x1_def)
    show "samples_sum (analog_at s' a) = samples_sum x + adc_sum s (adc_reads s) (Suc n)"
      unfolding s'(10) x1(2) adc_sum_Suc by (simp add: adc_sum_def s1(4,7))
  qed (use s' s1 x1 inc in \<open>simp_all add: algebra_simps\<close>)
qed

text \<open>The last sample of a measurement.\<close>

lemma analog_last:
  assumes "adc_delay s (adc_samples s) = 0" "x = analog_at s a" "samples_taken x + 1 = a_sample_count x"
    and "v = samples_sum x + adc_value s (adc_reads s)"
    and "ok \<longleftrightarrow> min_value x \<le> v \<and> v \<le> max_value x"
  shows "ok \<or> invalid_count x + 1 < range_check_count x \<Longrightarrow>
      \<exists>s'. analog_in_event a s = Ret SF_RESCHEDULE s' \<and> task_wake s' ''analog_wake'' \<and>
      t_wake s' (analog_timer a) = next_begin_time x + a_rest_time x \<and>
      a_value (analog_at s' a) = v \<and> a_state (analog_at s' a) = a_sample_count x \<and>
      next_begin_time (analog_at s' a) = next_begin_time x + a_rest_time x \<and>
      invalid_count (analog_at s' a) = (if ok then 0 else invalid_count x + 1)"
    "\<lbrakk>\<not> ok; invalid_count x + 1 \<ge> range_check_count x; shutdown_status s = 0\<rbrakk> \<Longrightarrow>
      \<exists>s'. analog_in_event a s = Shutdown ''ADC out of range'' s'"
proof -
  have c: "\<not> a_sample_count x < a_sample_count x" by simp
  have ev: "analog_in_event a s =
     then_op (a_upd a (\<lambda>x. x\<lparr>a_value := v, a_state := a_sample_count (analog_at s a)\<rparr>))
       (then_op
                 (if ok then a_upd a (\<lambda>x. x\<lparr>invalid_count := 0\<rparr>)
                  else
                    then_op (a_upd a (\<lambda>x. x\<lparr>invalid_count := invalid_count x + 1\<rparr>))
                      (if invalid_count x + 1 \<ge> range_check_count x then
                         then_op (sched_try_shutdown ''ADC out of range'')
                           (a_upd a (\<lambda>x. x\<lparr>invalid_count := 0\<rparr>))
                       else ret ()))
               (then_op (sched_wake_task ''analog_wake'')
               (then_op (a_upd a (\<lambda>x. x\<lparr>next_begin_time := next_begin_time x + a_rest_time x\<rparr>))
               (bind_op (a_get a) (\<lambda>x.
                then_op (wake_upd (analog_timer a) (\<lambda>_. next_begin_time x)) (ret SF_RESCHEDULE))))))
       (s\<lparr>adc_samples := Suc (adc_samples s), adc_reads := Suc (adc_reads s)\<rparr>)"
    using assms(3) c unfolding analog_in_event_def assms(5) assms(2,4) samples_taken_def samples_sum_def
    by (simp add: bind_op_app gpio_adc_sample_def gpio_adc_read_def a_get_def get_op_app assms(1) Let_def add.commute
        cong: if_cong split: if_splits)
  note call_defs = a_upd_def a_get_def wake_upd_def sched_wake_task_def sched_wake_tasks_def sched_try_shutdown_def op_simps
  show "\<exists>s'. analog_in_event a s = Ret SF_RESCHEDULE s' \<and> task_wake s' ''analog_wake'' \<and>
      t_wake s' (analog_timer a) = next_begin_time x + a_rest_time x \<and>
      a_value (analog_at s' a) = v \<and> a_state (analog_at s' a) = a_sample_count x \<and>
      next_begin_time (analog_at s' a) = next_begin_time x + a_rest_time x \<and>
      invalid_count (analog_at s' a) = (if ok then 0 else invalid_count x + 1)"
    if "ok \<or> invalid_count x + 1 < range_check_count x"
    using that unfolding ev assms(2) by (cases ok) (simp_all add: call_defs not_le [symmetric])
  show "\<exists>s'. analog_in_event a s = Shutdown ''ADC out of range'' s'"
    if "\<not> ok" "invalid_count x + 1 \<ge> range_check_count x" "shutdown_status s = 0"
    using that unfolding ev assms(2) by (simp add: call_defs)
qed

lemma analog_measurement:
  assumes x: "x = analog_at s a" "a_state x \<ge> a_sample_count x" "unat (a_sample_count x) = Suc m"
    and d: "\<forall>k\<le>m. adc_delay s (adc_samples s + k) = 0"
    and v: "v = adc_sum s (adc_reads s) (Suc m)" "ok \<longleftrightarrow> min_value x \<le> v \<and> v \<le> max_value x"
  shows "\<exists>s1. analog_run m a s = Some (map (\<lambda>k. t_wake s (analog_timer a) + of_nat k * a_sample_time x) [0..<m], s1) \<and>
    t_wake s1 (analog_timer a) = t_wake s (analog_timer a) + of_nat m * a_sample_time x \<and>
    (ok \<or> invalid_count x + 1 < range_check_count x \<longrightarrow>
      (\<exists>s2. analog_in_event a s1 = Ret SF_RESCHEDULE s2 \<and> task_wake s2 ''analog_wake'' \<and>
      t_wake s2 (analog_timer a) = next_begin_time x + a_rest_time x \<and>
      a_value (analog_at s2 a) = v \<and> a_state (analog_at s2 a) = a_sample_count x \<and>
      invalid_count (analog_at s2 a) = (if ok then 0 else invalid_count x + 1))) \<and>
    (\<not> ok \<and> invalid_count x + 1 \<ge> range_check_count x \<and> shutdown_status s = 0 \<longrightarrow>
      (\<exists>s2. analog_in_event a s1 = Shutdown ''ADC out of range'' s2))"
proof -
  have st: "samples_taken x = 0" "samples_sum x = 0" using x(2) by (simp_all add: samples_taken_def samples_sum_def)
  have "\<forall>k<m. adc_delay s (adc_samples s + k) = 0" using d by simp
  moreover have "unat (samples_taken x) + m < unat (a_sample_count x)" using x(3) st by simp
  ultimately obtain s1 where s1: "analog_run m a s = Some (map (\<lambda>k. t_wake s (analog_timer a) + of_nat k * a_sample_time x) [0..<m], s1)"
    "t_wake s1 (analog_timer a) = t_wake s (analog_timer a) + of_nat m * a_sample_time x"
    "adc_delay s1 = adc_delay s" "adc_value s1 = adc_value s" "shutdown_status s1 = shutdown_status s"
    "adc_samples s1 = adc_samples s + m" "adc_reads s1 = adc_reads s + m"
    "\<exists>v st. analog_at s1 a = x\<lparr>a_value := v, a_state := st\<rparr>"
    "unat (samples_taken (analog_at s1 a)) = unat (samples_taken x) + m"
    "samples_sum (analog_at s1 a) = samples_sum x + adc_sum s (adc_reads s) m"
    using analog_run_mid [of m s x a] x(1) by blast
  obtain v1 st1 where x1: "analog_at s1 a = x\<lparr>a_value := v1, a_state := st1\<rparr>" using s1(8) by blast
  have cnt: "unat (samples_taken (analog_at s1 a)) = m" using s1(9) st by simp
  have "unat (samples_taken (analog_at s1 a) + 1) = Suc m"
    using unat_u8_add1 [of "samples_taken (analog_at s1 a)"] cnt x(3) unsigned_less [where ?'a = nat, of "a_sample_count x"] by simp
  then have last1: "samples_taken (analog_at s1 a) + 1 = a_sample_count (analog_at s1 a)"
    using x(3) x1 by (metis analog_in.select_convs(11) analog_in.surjective analog_in.update_convs(4,10) unsigned_word_eqI)
  have sum: "v = samples_sum (analog_at s1 a) + adc_value s1 (adc_reads s1)"
    unfolding s1(10,4,7) st v(1) by (simp add: adc_sum_def)
  have d1: "adc_delay s1 (adc_samples s1) = 0" using d s1(3,6) by simp
  have ok: "ok \<longleftrightarrow> min_value (analog_at s1 a) \<le> v \<and> v \<le> max_value (analog_at s1 a)" using v(2) x1 by simp
  note fin = analog_last [OF d1 refl last1 sum ok]
  have f: "invalid_count (analog_at s1 a) = invalid_count x" "range_check_count (analog_at s1 a) = range_check_count x"
    "next_begin_time (analog_at s1 a) = next_begin_time x" "a_rest_time (analog_at s1 a) = a_rest_time x"
    "a_sample_count (analog_at s1 a) = a_sample_count x" using x1 by simp_all
  show ?thesis using s1(1,2) fin unfolding f s1(5) by (intro exI [of _ s1]) blast
qed

subsection \<open>Properties\<close>

text \<open>Buttons at 70 with three pins, an analog input at 80 that takes two samples, and a counter at 90.\<close>

definition example_buttons :: buttons where
  "example_buttons =
     \<lparr>rest_ticks = 100, pressed = 1, last_pressed = 3, report_count = 1, reports = [5, 0, 0, 0, 0, 0, 0, 0],
      ack_count = 2, retransmit_state = BF_PENDING, retransmit_count = 10, button_count = 3, b_pins = [1, 2, 3]\<rparr>"

definition example_inputs :: inputs where
  "example_inputs =
     outputs.extend (example_outputs\<lparr>oid_count := 1, oids := Some [(Some ''command_config_buttons'', 70)]\<rparr>)
       (inputs.fields (\<lambda>_. 0) 0 (\<lambda>n. 100 + of_nat n) 0
          (\<lambda>_. zero_analog\<lparr>a_sample_count := 2, a_state := 3, a_sample_time := 10, a_rest_time := 500, next_begin_time := 1000,
                min_value := 50, max_value := 200, range_check_count := 1\<rparr>)
          (\<lambda>_. example_buttons) (\<lambda>_. zero_counter\<lparr>poll_ticks := 7\<rparr>))"

lemmas inputs_defs = example_inputs_def inputs.defs outputs_defs zero_analog_def zero_counter_def

text \<open>
  C34: The fields of a buttons object keep their type through every operation of the module, commands,
  timer event and task: never more than the eight reports and the eight buttons there is room for.
\<close>

theorem buttons_keep_type:
  "safe_op (all_buttons_wf B) (buttons_event b) \<and> safe_op (all_buttons_wf B) buttons_task \<and>
   safe_op (all_buttons_wf B) (command_config_buttons args) \<and> safe_op (all_buttons_wf B) (command_buttons_add args) \<and>
   safe_op (all_buttons_wf B) (command_buttons_query args) \<and> safe_op (all_buttons_wf B) (command_buttons_ack args)"
  by (intro conjI safe_buttons_event safe_buttons_task safe_config_buttons safe_buttons_add safe_buttons_query safe_buttons_ack)

text \<open>
  Debouncing: the level of a pin counts as soon as two samples in a row agree on it, and a pin whose
  samples disagree keeps its state. Every change of the debounced levels is appended to the reports
  that wait for the host, in order, and wakes the task; only when eight reports wait is it dropped.
\<close>

theorem buttons_debounce_correct:
  assumes "buttons_wf x" "buttons_debounce status x = (x', wake)"
  shows "(\<forall>i<8. bit (pressed x') i = (if bit status i = bit (last_pressed x) i then bit status i else bit (pressed x) i)) \<and>
    last_pressed x' = status \<and> wake = (pressed x' \<noteq> pressed x \<and> length (unacked x) < 8) \<and>
    unacked x' = (if wake then unacked x @ [pressed x'] else unacked x) \<and>
    (wake \<longrightarrow> retransmit_state x' = BF_PENDING)"
  using buttons_debounce_queue [OF assms] bit_debounce by auto

theorem buttons_debounce_correct_witness:
  "unacked (fst (buttons_debounce 6 example_buttons)) = [5, 3] \<and> snd (buttons_debounce 6 example_buttons)"
proof -
  have wf: "buttons_wf example_buttons" by (simp add: buttons_wf_def example_buttons_def)
  obtain x' wake where d: "buttons_debounce 6 example_buttons = (x', wake)" by fastforce
  then have "pressed x' = 3" "wake" by (auto simp: buttons_debounce_def example_buttons_def Let_def)
  moreover have "unacked example_buttons = [5]" "pressed example_buttons = 1" by (simp_all add: unacked_def example_buttons_def)
  ultimately show ?thesis using buttons_debounce_correct [OF wf d] unfolding d fst_conv snd_conv by simp
qed

text \<open>
  C35: The reports of a buttons object are a queue with acknowledgements. The timer event appends the debounced levels
  when they have changed and fewer than eight reports wait, and takes nothing out. The task sends all that wait, oldest
  first, exactly when a transmission is pending, and takes nothing out. An acknowledgement of \<open>count\<close> reports, in
  whatever state of the retransmission, removes exactly the \<open>count\<close> oldest ones; it stops the retransmission when none is
  left and otherwise leaves its state as it is.
\<close>

theorem buttons_ack_correct:
  assumes "buttons_wf (buttons_at s b)" "oid_lookup (ucast (args ! 0)) ''command_config_buttons'' s = Ret b s"
  shows "(\<exists>s'. buttons_event b s = Ret SF_RESCHEDULE s' \<and>
      (let x = buttons_at s b; p = debounce (pin_levels (unat (button_count x)) s) (last_pressed x) (pressed x)
       in pressed (buttons_at s' b) = p \<and>
          unacked (buttons_at s' b) = unacked x @ (if p \<noteq> pressed x \<and> length (unacked x) < 8 then [p] else []))) \<and>
    (\<exists>s'. buttons_report oid b s = Ret () s' \<and> unacked (buttons_at s' b) = unacked (buttons_at s b) \<and>
      sent s' = sent s @ (if retransmit_state (buttons_at s b) = BF_PENDING \<and> unacked (buttons_at s b) \<noteq> []
         then [(''buttons_state oid=%c ack_count=%c state=%*s'',
           ucast oid # ucast (ack_count (buttons_at s b)) # map ucast (unacked (buttons_at s b)))] else [])) \<and>
    (\<exists>s'. command_buttons_ack args s = Ret () s' \<and>
      unacked (buttons_at s' b) = drop (unat (ucast (args ! 1) :: u8)) (unacked (buttons_at s b)) \<and>
      ack_count (buttons_at s' b) = ack_count (buttons_at s b) + ucast (args ! 1) \<and>
      retransmit_state (buttons_at s' b) =
        (if unacked (buttons_at s' b) = [] then BF_ACKED else retransmit_state (buttons_at s b)))"
proof -
  have "\<exists>s'. command_buttons_ack args s = Ret () s' \<and>
      unacked (buttons_at s' b) = drop (unat (ucast (args ! 1) :: u8)) (unacked (buttons_at s b)) \<and>
      ack_count (buttons_at s' b) = ack_count (buttons_at s b) + ucast (args ! 1) \<and>
      retransmit_state (buttons_at s' b) =
        (if unacked (buttons_at s' b) = [] then BF_ACKED else retransmit_state (buttons_at s b))"
    using buttons_ack_eval [OF assms(2,1)] buttons_ack_state [OF assms(2,1)] by blast
  with buttons_event_eval [OF assms(1)] buttons_report_cases [OF assms(1), of oid] show ?thesis by blast
qed

text \<open>One report waits, was sent and is acknowledged while the retransmission counts down.\<close>

theorem buttons_ack_correct_witness:
  "\<exists>s'. command_buttons_ack [0, 1] (example_inputs\<lparr>buttons_at := (buttons_at example_inputs)(70 := example_buttons
       \<lparr>reports := [5, 7, 0, 0, 0, 0, 0, 0], report_count := 2, retransmit_state := 3\<rparr>)\<rparr>) = Ret () s' \<and>
     unacked (buttons_at s' 70) = [7] \<and> ack_count (buttons_at s' 70) = 3 \<and> retransmit_state (buttons_at s' 70) = 3"
proof -
  let ?b = "example_buttons\<lparr>reports := [5, 7, 0, 0, 0, 0, 0, 0], report_count := 2, retransmit_state := 3\<rparr>"
  let ?s = "example_inputs\<lparr>buttons_at := (buttons_at example_inputs)(70 := ?b)\<rparr>"
  have o: "oid_count ?s = 1" "oids ?s = Some [(Some ''command_config_buttons'', 70)]"
    by (simp_all add: inputs_defs)
  have l: "oid_lookup (ucast ([0, 1] ! 0 :: u32)) ''command_config_buttons'' ?s = Ret 70 ?s"
    by (simp add: oid_lookup_def oid_entry_def op_simps o)
  have b: "buttons_wf (buttons_at ?s 70)" "retransmit_state (buttons_at ?s 70) = 3"
    "unacked (buttons_at ?s 70) = [5, 7]" "ack_count (buttons_at ?s 70) = 2"
    by (simp_all add: buttons_wf_def example_buttons_def unacked_def)
  from buttons_ack_correct [OF b(1) l, of 0] show ?thesis unfolding b by auto
qed

text \<open>
  A counter counts the edges of its pin: after any number of timer events the count has grown by the
  number of level changes in the samples, modulo \<open>2 ^ 32\<close>, its lowest bit is the last level, and the
  samples are taken at the poll interval.
\<close>

theorem counter_counts_edges:
  "\<exists>s'. counter_run n c s = Some s' \<and>
     c_count (counter_at s' c) = c_count (counter_at s c) +
       of_nat (edges (bit (c_count (counter_at s c)) 0) (map (\<lambda>k. pin_in s (pin_reads s + k)) [0..<n])) \<and>
     (n \<noteq> 0 \<longrightarrow> bit (c_count (counter_at s' c)) 0 = pin_in s (pin_reads s + (n - 1))) \<and>
     t_wake s' (counter_timer c) = t_wake s (counter_timer c) + of_nat n * poll_ticks (counter_at s c)"
  by (rule counter_run_edges)

theorem counter_counts_edges_witness:
  "\<exists>s'. counter_run 3 90 (example_inputs\<lparr>pin_in := (\<lambda>k. k = 1), pin_reads := 0\<rparr>) = Some s' \<and> c_count (counter_at s' 90) = 2"
proof -
  let ?s = "example_inputs\<lparr>pin_in := (\<lambda>k. k = 1), pin_reads := 0\<rparr>"
  have e: "counter_at ?s 90 = zero_counter\<lparr>poll_ticks := 7\<rparr>" "pin_in ?s = (\<lambda>k. k = 1)" "pin_reads ?s = 0"
    by (simp_all add: inputs_defs)
  from counter_counts_edges [of 3 90 ?s] show ?thesis
    unfolding e by (auto simp: zero_counter_def upt_rec)
qed

text \<open>
  A measurement of an analog input takes \<open>sample_count\<close> samples at the sample interval and reports
  their sum in 16 bits, starting the next one at \<open>next_begin_time + rest_time\<close>. A sum outside the range
  is tolerated until \<open>range_check_count\<close> measurements in a row were; then the firmware shuts down.
\<close>

theorem analog_measurement_correct:
  assumes "x = analog_at s a" "a_state x \<ge> a_sample_count x" "unat (a_sample_count x) = Suc m"
    and "\<forall>k\<le>m. adc_delay s (adc_samples s + k) = 0"
    and "v = adc_sum s (adc_reads s) (Suc m)" "ok \<longleftrightarrow> min_value x \<le> v \<and> v \<le> max_value x"
  shows "\<exists>s1. analog_run m a s = Some (map (\<lambda>k. t_wake s (analog_timer a) + of_nat k * a_sample_time x) [0..<m], s1) \<and>
    t_wake s1 (analog_timer a) = t_wake s (analog_timer a) + of_nat m * a_sample_time x \<and>
    (ok \<or> invalid_count x + 1 < range_check_count x \<longrightarrow>
      (\<exists>s2. analog_in_event a s1 = Ret SF_RESCHEDULE s2 \<and> task_wake s2 ''analog_wake'' \<and>
      t_wake s2 (analog_timer a) = next_begin_time x + a_rest_time x \<and>
      a_value (analog_at s2 a) = v \<and> a_state (analog_at s2 a) = a_sample_count x \<and>
      invalid_count (analog_at s2 a) = (if ok then 0 else invalid_count x + 1))) \<and>
    (\<not> ok \<and> invalid_count x + 1 \<ge> range_check_count x \<and> shutdown_status s = 0 \<longrightarrow>
      (\<exists>s2. analog_in_event a s1 = Shutdown ''ADC out of range'' s2))"
  by (rule analog_measurement [OF assms])

theorem analog_measurement_correct_witness:
  "\<exists>s1 s2. analog_run 1 80 example_inputs = Some ([1000], s1) \<and>
     analog_in_event 80 s1 = Shutdown ''ADC out of range'' s2"
proof -
  define x where "x = analog_at example_inputs 80"
  have x: "a_state x \<ge> a_sample_count x" "unat (a_sample_count x) = Suc 1" "min_value x = 50" "max_value x = 200"
    "invalid_count x = 0" "range_check_count x = 1"
    by (simp_all add: x_def inputs_defs)
  have s: "adc_delay example_inputs = (\<lambda>_. 0)" "adc_value example_inputs = (\<lambda>n. 100 + of_nat n)" "adc_reads example_inputs = 0"
    "shutdown_status example_inputs = 0" "t_wake example_inputs = (\<lambda>_. 1000)"
    by (simp_all add: inputs_defs)
  have v: "adc_sum example_inputs (adc_reads example_inputs) (Suc 1) = 201" by (simp add: adc_sum_def s upt_rec)
  have d: "\<forall>k\<le>1. adc_delay example_inputs (adc_samples example_inputs + k) = 0" by (simp add: s)
  have ok: "False \<longleftrightarrow> min_value x \<le> 201 \<and> 201 \<le> max_value x" by (simp add: x)
  have m: "map (\<lambda>k. t_wake example_inputs (analog_timer 80) + of_nat k * a_sample_time x) [0..<1] = [1000]" by (simp add: s)
  from analog_measurement_correct [OF x_def x(1,2) d v [symmetric] ok] show ?thesis
    unfolding m x(5,6) s(4) by (auto simp del: analog_run.simps)
qed

end
