(* ===== verification/Pollreactor.thy ===== *)
theory Pollreactor
  imports Prelude Complex_Main
begin

text \<open>
  The event loop of the host threads, \<open>pollreactor.c\<close>. The callbacks belong to the module that owns the
  reactor: a callback is a name, and \<open>timer_cb\<close> and \<open>fd_cb\<close> say what the named functions do to the state
  the reactor is part of. \<open>poll()\<close> and the clock are the operating system's: the loop is given the
  results of the polls it makes. Times of type \<open>double\<close> are exact reals.
\<close>

datatype callback = Input_event | Kick_event | Retransmit_event | Command_event

record pollfd =
  p_fd :: int
  p_events :: u16
  p_revents :: u16

record pollreactor_timer =
  pt_waketime :: real
  pt_callback :: "callback option"

record pollreactor =
  must_exit :: bool
  next_timer :: real
  fds :: "pollfd list"
  fd_callbacks :: "callback option list"
  timers :: "pollreactor_timer list"

abbreviation (input) PR_NOW :: real where "PR_NOW \<equiv> 0"
abbreviation (input) PR_NEVER :: real where "PR_NEVER \<equiv> 9999999999999999"
abbreviation (input) POLLIN :: u16 where "POLLIN \<equiv> 1"
abbreviation (input) POLLHUP :: u16 where "POLLHUP \<equiv> 16"

definition pollreactor_alloc :: "nat \<Rightarrow> nat \<Rightarrow> pollreactor" where
  "pollreactor_alloc num_fds num_timers =
     \<lparr>must_exit = False, next_timer = PR_NEVER,
      fds = replicate num_fds \<lparr>p_fd = 0, p_events = 0, p_revents = 0\<rparr>,
      fd_callbacks = replicate num_fds None,
      timers = replicate num_timers \<lparr>pt_waketime = PR_NEVER, pt_callback = None\<rparr>\<rparr>"

definition pollreactor_add_fd :: "nat \<Rightarrow> int \<Rightarrow> callback \<Rightarrow> bool \<Rightarrow> ('a pollreactor_scheme, unit) op" where
  "pollreactor_add_fd pos fd cb write_only =
     bind_op (get_op (\<lambda>s. pos < length (fds s))) (\<lambda>ok.
       if \<not> ok then undef_op
       else
         set_op (\<lambda>s. s\<lparr>fds := (fds s)[pos := \<lparr>p_fd = fd, p_events = POLLHUP OR (if write_only then 0 else POLLIN),
                                              p_revents = 0\<rparr>],
                      fd_callbacks := (fd_callbacks s)[pos := Some cb]\<rparr>))"

definition pollreactor_add_timer :: "nat \<Rightarrow> callback \<Rightarrow> ('a pollreactor_scheme, unit) op" where
  "pollreactor_add_timer pos cb =
     bind_op (get_op (\<lambda>s. pos < length (timers s))) (\<lambda>ok.
       if \<not> ok then undef_op
       else set_op (\<lambda>s. s\<lparr>timers := (timers s)[pos := \<lparr>pt_waketime = PR_NEVER, pt_callback = Some cb\<rparr>]\<rparr>))"

definition pollreactor_get_timer :: "nat \<Rightarrow> ('a pollreactor_scheme, real) op" where
  "pollreactor_get_timer pos =
     bind_op (get_op (\<lambda>s. pos < length (timers s))) (\<lambda>ok.
       if \<not> ok then undef_op else get_op (\<lambda>s. pt_waketime (timers s ! pos)))"

definition pollreactor_update_timer :: "nat \<Rightarrow> real \<Rightarrow> ('a pollreactor_scheme, unit) op" where
  "pollreactor_update_timer pos waketime =
     bind_op (get_op (\<lambda>s. pos < length (timers s))) (\<lambda>ok.
       if \<not> ok then undef_op
       else
         set_op (\<lambda>s. s\<lparr>timers := (timers s)[pos := (timers s ! pos)\<lparr>pt_waketime := waketime\<rparr>],
                      next_timer := (if waketime < next_timer s then waketime else next_timer s)\<rparr>))"

text \<open>The loop of \<open>pollreactor_check_timers\<close>, over the \<open>n\<close> timers from \<open>i\<close> on; the value is \<open>busy\<close>.\<close>

fun check_loop ::
  "(callback \<Rightarrow> real \<Rightarrow> ('a pollreactor_scheme, real) op) \<Rightarrow> real \<Rightarrow> nat \<Rightarrow> nat \<Rightarrow> bool \<Rightarrow> ('a pollreactor_scheme, bool) op" where
  "check_loop timer_cb eventtime 0 i busy = ret busy"
| "check_loop timer_cb eventtime (Suc n) i busy =
     bind_op (get_op (\<lambda>s. timers s ! i)) (\<lambda>timer.
     bind_op
       (if eventtime \<ge> pt_waketime timer then
          bind_op (option_op (pt_callback timer)) (\<lambda>cb.
          bind_op (timer_cb cb eventtime) (\<lambda>t.
          then_op (set_op (\<lambda>s. s\<lparr>timers := (timers s)[i := (timers s ! i)\<lparr>pt_waketime := t\<rparr>]\<rparr>)) (ret (True, t))))
        else ret (busy, pt_waketime timer)) (\<lambda>(busy, t).
     then_op (set_op (\<lambda>s. s\<lparr>next_timer := (if t < next_timer s then t else next_timer s)\<rparr>))
       (check_loop timer_cb eventtime n (Suc i) busy)))"

definition sleep_time :: "real \<Rightarrow> real \<Rightarrow> int" where
  "sleep_time next eventtime =
     (let timeout = \<lceil>(next - eventtime) * 1000\<rceil> in if timeout < 1 then 1 else if timeout > 1000 then 1000 else timeout)"

definition pollreactor_check_timers ::
  "(callback \<Rightarrow> real \<Rightarrow> ('a pollreactor_scheme, real) op) \<Rightarrow> real \<Rightarrow> bool \<Rightarrow> ('a pollreactor_scheme, int) op" where
  "pollreactor_check_timers timer_cb eventtime busy =
     bind_op (get_op (\<lambda>s. eventtime \<ge> next_timer s)) (\<lambda>due.
     bind_op
       (if due then
          then_op (set_op (\<lambda>s. s\<lparr>next_timer := PR_NEVER\<rparr>))
            (bind_op (get_op (\<lambda>s. length (timers s))) (\<lambda>n. check_loop timer_cb eventtime n 0 busy))
        else ret busy) (\<lambda>busy.
     if busy then ret 0 else get_op (\<lambda>s. sleep_time (next_timer s) eventtime)))"

definition pollreactor_do_exit :: "('a pollreactor_scheme, unit) op" where
  "pollreactor_do_exit = set_op (\<lambda>s. s\<lparr>must_exit := True\<rparr>)"

definition pollreactor_is_exit :: "'a pollreactor_scheme \<Rightarrow> bool" where
  "pollreactor_is_exit s = must_exit s"

text \<open>What a call of \<open>poll()\<close> returns, and the time the clock shows after it.\<close>

record poll_result =
  poll_ret :: int
  poll_revents :: "u16 list"
  poll_time :: real

text \<open>The loop over the file descriptors, over the \<open>n\<close> descriptors from \<open>i\<close> on.\<close>

fun fd_loop ::
  "(callback \<Rightarrow> real \<Rightarrow> ('a pollreactor_scheme, unit) op) \<Rightarrow> real \<Rightarrow> nat \<Rightarrow> nat \<Rightarrow> ('a pollreactor_scheme, unit) op" where
  "fd_loop fd_cb eventtime 0 i = ret ()"
| "fd_loop fd_cb eventtime (Suc n) i =
     bind_op (get_op (\<lambda>s. p_revents (fds s ! i))) (\<lambda>revents.
     then_op
       (if revents \<noteq> 0 then
          bind_op (get_op (\<lambda>s. fd_callbacks s ! i)) (\<lambda>c. bind_op (option_op c) (\<lambda>cb. fd_cb cb eventtime))
        else ret ())
       (fd_loop fd_cb eventtime n (Suc i)))"

definition set_revents :: "u16 list \<Rightarrow> ('a pollreactor_scheme, unit) op" where
  "set_revents rs = set_op (\<lambda>s. s\<lparr>fds := map (\<lambda>(f, r). f\<lparr>p_revents := r\<rparr>) (zip (fds s) rs)\<rparr>)"

text \<open>
  \<open>pollreactor_run\<close> from the test of its loop on, for the given results of \<open>poll()\<close>. The value is the list of
  the timeouts that were passed to \<open>poll()\<close>.
\<close>

fun run_loop ::
  "(callback \<Rightarrow> real \<Rightarrow> ('a pollreactor_scheme, real) op) \<Rightarrow> (callback \<Rightarrow> real \<Rightarrow> ('a pollreactor_scheme, unit) op) \<Rightarrow>
   real \<Rightarrow> bool \<Rightarrow> poll_result list \<Rightarrow> ('a pollreactor_scheme, int list) op" where
  "run_loop timer_cb fd_cb eventtime busy [] = ret []"
| "run_loop timer_cb fd_cb eventtime busy (p # ps) =
     bind_op (get_op must_exit) (\<lambda>ex.
       if ex then ret []
       else
         bind_op (pollreactor_check_timers timer_cb eventtime busy) (\<lambda>timeout.
         then_op (set_revents (poll_revents p))
         (then_op
            (if poll_ret p > 0 then bind_op (get_op (\<lambda>s. length (fds s))) (\<lambda>n. fd_loop fd_cb (poll_time p) n 0)
             else if poll_ret p < 0 then pollreactor_do_exit
             else ret ())
         (bind_op (run_loop timer_cb fd_cb (poll_time p) (poll_ret p > 0) ps) (\<lambda>ts. ret (timeout # ts))))))"

definition pollreactor_run ::
  "(callback \<Rightarrow> real \<Rightarrow> ('a pollreactor_scheme, real) op) \<Rightarrow> (callback \<Rightarrow> real \<Rightarrow> ('a pollreactor_scheme, unit) op) \<Rightarrow>
   real \<Rightarrow> poll_result list \<Rightarrow> ('a pollreactor_scheme, int list) op" where
  "pollreactor_run timer_cb fd_cb eventtime polls = run_loop timer_cb fd_cb eventtime True polls"

subsection \<open>No timer is missed\<close>

text \<open>\<open>next_timer\<close> is a lower bound of the wake times.\<close>

definition timers_seen :: "'a pollreactor_scheme \<Rightarrow> bool" where
  "timers_seen s \<longleftrightarrow> (\<forall>i < length (timers s). next_timer s \<le> pt_waketime (timers s ! i))"

text \<open>
  What callbacks may do to the reactor: \<open>next_timer\<close> only goes down, and a wake time that changes is not
  before it. This is what \<open>pollreactor_update_timer\<close> does.
\<close>

definition reactor_step :: "'a pollreactor_scheme \<Rightarrow> 'a pollreactor_scheme \<Rightarrow> bool" where
  "reactor_step s t \<longleftrightarrow> length (timers t) = length (timers s) \<and> next_timer t \<le> next_timer s \<and>
     (\<forall>i < length (timers s). pt_callback (timers t ! i) = pt_callback (timers s ! i) \<and>
        (pt_waketime (timers t ! i) = pt_waketime (timers s ! i) \<or> next_timer t \<le> pt_waketime (timers t ! i)))"

lemma reactor_step_refl: "reactor_step s s"
  by (simp add: reactor_step_def)

lemma reactor_step_trans: "reactor_step s t \<Longrightarrow> reactor_step t u \<Longrightarrow> reactor_step s u"
  unfolding reactor_step_def by (metis order_trans)

lemma reactor_step_update:
  "pollreactor_update_timer pos w s = Ret r t \<Longrightarrow> reactor_step s t"
  by (auto simp: pollreactor_update_timer_def op_simps reactor_step_def nth_list_update split: if_splits)

lemma reactor_step_same:
  "timers t = timers s \<Longrightarrow> next_timer t = next_timer s \<Longrightarrow> reactor_step s t"
  by (simp add: reactor_step_def)

text \<open>The contract between the reactor and the module whose timers it runs.\<close>

locale reactor_client =
  fixes timer_cb :: "callback \<Rightarrow> real \<Rightarrow> ('a pollreactor_scheme, real) op"
  assumes cb_step: "timer_cb cb e s = Ret r t \<Longrightarrow> reactor_step s t"
begin

lemma check_loop_seen:
  assumes "check_loop timer_cb e n i busy s = Ret r t" "i + n = length (timers s)"
    and "\<forall>j<i. next_timer s \<le> pt_waketime (timers s ! j)"
  shows "timers_seen t \<and> length (timers t) = length (timers s) \<and> (busy \<longrightarrow> r)"
  using assms
proof (induction n arbitrary: i busy s)
  case 0
  then show ?case by (simp add: timers_seen_def op_simps)
next
  case (Suc n)
  let ?tm = "timers s ! i"
  show ?case
  proof (cases "e \<ge> pt_waketime ?tm")
    case True
    with Suc.prems(1) obtain cb w s1 where s1: "timer_cb cb e s = Ret w s1"
      "check_loop timer_cb e n (Suc i) True
         (s1\<lparr>timers := (timers s1)[i := (timers s1 ! i)\<lparr>pt_waketime := w\<rparr>],
             next_timer := (if w < next_timer s1 then w else next_timer s1)\<rparr>) = Ret r t"
      by (auto simp: op_simps cong: if_cong split: option.splits outcome.splits)
    note st = cb_step [OF s1(1)]
    have len: "length (timers s1) = length (timers s)" using st by (simp add: reactor_step_def)
    have "next_timer s1 \<le> pt_waketime (timers s1 ! j)" if "j < i" for j
    proof -
      have "j < length (timers s)" using that Suc.prems(2) by simp
      with st have "pt_waketime (timers s1 ! j) = pt_waketime (timers s ! j) \<or> next_timer s1 \<le> pt_waketime (timers s1 ! j)"
        "next_timer s1 \<le> next_timer s" by (auto simp: reactor_step_def)
      with Suc.prems(3) that show ?thesis by force
    qed
    then have "(if w < next_timer s1 then w else next_timer s1)
        \<le> pt_waketime ((timers s1)[i := (timers s1 ! i)\<lparr>pt_waketime := w\<rparr>] ! j)" if "j < Suc i" for j
      using that Suc.prems(2) len by (force simp: less_Suc_eq)
    with Suc.IH [OF s1(2)] Suc.prems(2) len show ?thesis by simp
  next
    case False
    with Suc.prems(1) have "check_loop timer_cb e n (Suc i) busy
        (s\<lparr>next_timer := (if pt_waketime ?tm < next_timer s then pt_waketime ?tm else next_timer s)\<rparr>) = Ret r t"
      by (simp add: op_simps)
    moreover have "(if pt_waketime ?tm < next_timer s then pt_waketime ?tm else next_timer s) \<le> pt_waketime (timers s ! j)"
      if "j < Suc i" for j
      using that Suc.prems(3) by (force simp: less_Suc_eq)
    ultimately show ?thesis
      using Suc.IH [of "Suc i" busy "s\<lparr>next_timer := (if pt_waketime ?tm < next_timer s then pt_waketime ?tm else next_timer s)\<rparr>"]
        Suc.prems(2) by simp
  qed
qed

lemma check_timers_seen:
  assumes "pollreactor_check_timers timer_cb e busy s = Ret r t" "timers_seen s"
  shows "timers_seen t"
proof (cases "e \<ge> next_timer s")
  case True
  then obtain b where "check_loop timer_cb e (length (timers s)) 0 busy (s\<lparr>next_timer := PR_NEVER\<rparr>) = Ret b t"
    using assms(1) by (auto simp: pollreactor_check_timers_def op_simps split: outcome.splits if_splits)
  from check_loop_seen [OF this] show ?thesis by simp
qed (use assms in \<open>auto simp: pollreactor_check_timers_def op_simps split: if_splits\<close>)

end

lemma sleep_time_bounds: "1 \<le> sleep_time nxt e \<and> sleep_time nxt e \<le> 1000"
  by (simp add: sleep_time_def Let_def)

end
