(* ===== verification/Serialqueue.thy ===== *)
theory Serialqueue
  imports Msgblock Pollreactor
begin

text \<open>
  The host end of the serial link, \<open>serialqueue.c\<close>: command queues with a minimum clock and a priority,
  the packing of commands into message blocks, the window of unacknowledged blocks with their
  retransmission, the acknowledgements and responses that come back, and the notification of the
  caller. The lists of \<open>list.h\<close> are HOL lists. Every function that takes \<open>sq->lock\<close> holds it from its first
  to its last access, so that one function is one operation on the state.

  The operating system is an oracle: \<open>monotonic n\<close> is the \<open>n\<close>-th reading of the clock, \<open>serial_in n\<close> the
  result of the \<open>n\<close>-th \<open>read()\<close> of the serial port, \<open>write_fails n\<close> whether the \<open>n\<close>-th \<open>write()\<close> fails;
  \<open>serial_out\<close> and \<open>can_out\<close> are what was handed to \<open>write()\<close>. The function of a fast reader is an argument.
\<close>

datatype fd_type = SQT_UART | SQT_CAN | SQT_DEBUGFILE

datatype read_result = Read_error | Read_eof | Read_bytes "u8 list" | Read_frame int "u8 list"

record command_queue =
  upcoming_queue :: "queue_message list"
  ready_queue :: "queue_message list"

record fastreader =
  fr_func :: nat
  fr_prefix :: "u8 list"

record pull_queue_message =
  pqm_msg :: "u8 list"
  pqm_len :: int
  pqm_sent_time :: real
  pqm_receive_time :: real
  pqm_notify_id :: u64

record serialqueue = pollreactor +
  serial_fd :: int
  serial_fd_type :: fd_type
  client_id :: int
  pipe_fds :: "int \<times> int"
  input_buf :: "u8 list"
  sq_need_sync :: u8
  receive_waiting :: bool
  receive_window :: int
  bittime_adjust :: real
  idle_time :: real
  sq_ce :: clock_estimate
  last_receive_sent_time :: real
  send_seq :: u64
  receive_seq :: u64
  ignore_nak_seq :: u64
  last_ack_seq :: u64
  retransmit_seq :: u64
  rtt_sample_seq :: u64
  sent_queue :: "queue_message list"
  srtt :: real
  rttvar :: real
  rto :: real
  cq_at :: "nat \<Rightarrow> command_queue"
  pending_queues :: "nat list"
  ready_bytes :: int
  upcoming_bytes :: int
  need_ack_bytes :: int
  last_ack_bytes :: int
  need_kick_clock :: u64
  notify_queue :: "queue_message list"
  last_write_fail_time :: real
  receive_queue :: "queue_message list"
  fast_readers :: "fastreader list"
  old_sent :: "queue_message list"
  old_receive :: "queue_message list"
  bytes_write :: u32
  bytes_read :: u32
  bytes_retransmit :: u32
  bytes_invalid :: u32
  monotonic :: "nat \<Rightarrow> real"
  monotonic_reads :: nat
  serial_in :: "nat \<Rightarrow> read_result"
  serial_reads :: nat
  write_fails :: "nat \<Rightarrow> bool"
  writes :: nat
  serial_out :: "u8 list list"
  can_out :: "(int \<times> u8 list) list"
  pipe_kicks :: nat
  wakeups :: nat

abbreviation (input) SQPF_SERIAL :: nat where "SQPF_SERIAL \<equiv> 0"
abbreviation (input) SQPF_PIPE :: nat where "SQPF_PIPE \<equiv> 1"
abbreviation (input) SQPT_RETRANSMIT :: nat where "SQPT_RETRANSMIT \<equiv> 0"
abbreviation (input) SQPT_COMMAND :: nat where "SQPT_COMMAND \<equiv> 1"
abbreviation (input) MIN_RTO :: real where "MIN_RTO \<equiv> 25 / 1000"
abbreviation (input) MAX_RTO :: real where "MAX_RTO \<equiv> 5"
abbreviation (input) MAX_PENDING_BLOCKS :: nat where "MAX_PENDING_BLOCKS \<equiv> 12"
abbreviation (input) MIN_REQTIME_DELTA :: real where "MIN_REQTIME_DELTA \<equiv> 250 / 1000"
abbreviation (input) MIN_BACKGROUND_DELTA :: real where "MIN_BACKGROUND_DELTA \<equiv> 5 / 1000"
abbreviation (input) DEBUG_QUEUE_SENT :: nat where "DEBUG_QUEUE_SENT \<equiv> 100"
abbreviation (input) DEBUG_QUEUE_RECEIVE :: nat where "DEBUG_QUEUE_RECEIVE \<equiv> 100"
abbreviation (input) MAX_CLOCK :: u64 where "MAX_CLOCK \<equiv> 0x7fffffffffffffff"
abbreviation (input) BACKGROUND_PRIORITY_CLOCK :: u64 where "BACKGROUND_PRIORITY_CLOCK \<equiv> 0x7fffffff00000000"

type_synonym 'a sq_op = "(serialqueue, 'a) op"

definition qm_bytes :: "queue_message \<Rightarrow> u8 list" where
  "qm_bytes qm = take (qm_len qm) (qm_msg qm)"

subsection \<open>Helpers\<close>

definition get_monotonic :: "real sq_op" where
  "get_monotonic = (\<lambda>s. Ret (monotonic s (monotonic_reads s)) (s\<lparr>monotonic_reads := Suc (monotonic_reads s)\<rparr>))"

definition debug_queue_alloc :: "nat \<Rightarrow> queue_message list" where
  "debug_queue_alloc count = replicate count message_alloc"

definition debug_queue_add :: "queue_message list \<Rightarrow> queue_message \<Rightarrow> queue_message list" where
  "debug_queue_add q qm = tl (q @ [qm])"

definition check_wake_receive :: "unit sq_op" where
  "check_wake_receive =
     set_op (\<lambda>s. if receive_waiting s then s\<lparr>receive_waiting := False, wakeups := Suc (wakeups s)\<rparr> else s)"

definition kick_bg_thread :: "unit sq_op" where
  "kick_bg_thread = set_op (\<lambda>s. s\<lparr>pipe_kicks := Suc (pipe_kicks s)\<rparr>)"

definition calculate_bittime :: "u32 \<Rightarrow> serialqueue \<Rightarrow> real" where
  "calculate_bittime bytes s =
     (if serial_fd_type s = SQT_CAN then
        (let pkts = (bytes + 7) div 8; bits = bytes * 8 + pkts * 47 - 4
         in bittime_adjust s * real_of_int (uint bits))
      else bittime_adjust s * real_of_int (uint bytes))"

subsection \<open>Acknowledgements\<close>

text \<open>
  The loop of \<open>update_receive_seq\<close>, over the messages that are still in the sent queue; \<open>sent_seq\<close> is
  the sequence number of the first.
\<close>

fun ack_loop :: "u64 \<Rightarrow> u64 \<Rightarrow> queue_message list \<Rightarrow> unit sq_op" where
  "ack_loop rseq sent_seq [] = set_op (\<lambda>s. s\<lparr>sent_queue := [], send_seq := rseq, last_receive_sent_time := 0\<rparr>)"
| "ack_loop rseq sent_seq (snt # rest) =
     then_op (set_op (\<lambda>s. s\<lparr>need_ack_bytes := need_ack_bytes s - int (qm_len snt), sent_queue := rest,
                          old_sent := debug_queue_add (old_sent s) snt\<rparr>))
       (let sent_seq = sent_seq + 1
        in if rseq = sent_seq
           then set_op (\<lambda>s. s\<lparr>last_receive_sent_time := receive_time snt, last_ack_bytes := int (qm_len snt)\<rparr>)
           else ack_loop rseq sent_seq rest)"

text \<open>The RFC 6298 estimate of the round trip time.\<close>

definition rtt_update :: "real \<Rightarrow> unit sq_op" where
  "rtt_update delta =
     set_op (\<lambda>s.
       let (var, avg) =
             (if srtt s = 0 then (delta / 2, delta * 10)
              else ((3 * rttvar s + \<bar>srtt s - delta\<bar>) / 4, (7 * srtt s + delta) / 8));
           rttvar4 = (if var * 4 < 1 / 1000 then 1 / 1000 else var * 4);
           r = avg + rttvar4
       in s\<lparr>rttvar := var, srtt := avg, rto := (if r < MIN_RTO then MIN_RTO else if r > MAX_RTO then MAX_RTO else r),
            rtt_sample_seq := 0\<rparr>)"

definition update_receive_seq :: "real \<Rightarrow> u64 \<Rightarrow> unit sq_op" where
  "update_receive_seq eventtime rseq =
     bind_op (get_op (\<lambda>s. (receive_seq s, sent_queue s))) (\<lambda>(rs, sq).
     then_op (ack_loop rseq rs sq)
     (then_op (set_op (\<lambda>s. s\<lparr>receive_seq := rseq\<rparr>))
     (then_op (pollreactor_update_timer SQPT_COMMAND PR_NOW)
     (then_op
        (bind_op (get_op (\<lambda>s. rtt_sample_seq s \<noteq> 0 \<and> rseq > rtt_sample_seq s \<and> last_receive_sent_time s \<noteq> 0)) (\<lambda>sample.
         bind_op (get_op last_receive_sent_time) (\<lambda>t. if sample then rtt_update (eventtime - t) else ret ())))
     (bind_op (get_op sent_queue) (\<lambda>sq.
        case sq of
          [] \<Rightarrow> pollreactor_update_timer SQPT_RETRANSMIT PR_NEVER
        | snt # _ \<Rightarrow>
            bind_op (get_op (\<lambda>s. eventtime + rto s + calculate_bittime (of_nat (qm_len snt)) s)) (\<lambda>nr.
              pollreactor_update_timer SQPT_RETRANSMIT nr)))))))"

text \<open>
  The messages that wait for a notification: those whose block has been acknowledged move to the
  receive queue. The value is \<open>must_wake\<close>.
\<close>

fun notify_loop :: "real \<Rightarrow> u64 \<Rightarrow> bool \<Rightarrow> queue_message list \<Rightarrow> bool sq_op" where
  "notify_loop eventtime wake_seq must_wake [] = then_op (set_op (\<lambda>s. s\<lparr>notify_queue := []\<rparr>)) (ret must_wake)"
| "notify_loop eventtime wake_seq must_wake (qm # qms) =
     (if req_clock qm > wake_seq then then_op (set_op (\<lambda>s. s\<lparr>notify_queue := qm # qms\<rparr>)) (ret must_wake)
      else
        then_op (set_op (\<lambda>s. s\<lparr>receive_queue := receive_queue s @
             [qm\<lparr>qm_len := 0, sent_time := last_receive_sent_time s, receive_time := eventtime\<rparr>]\<rparr>))
          (notify_loop eventtime wake_seq True qms))"

text \<open>The first fast reader whose prefix matches the payload of the block.\<close>

definition fr_matches :: "u8 list \<Rightarrow> fastreader \<Rightarrow> bool" where
  "fr_matches block fr \<longleftrightarrow>
     \<not> length block < length (fr_prefix fr) + MESSAGE_MIN \<and>
     take (length (fr_prefix fr)) (drop MESSAGE_HEADER_SIZE block) = fr_prefix fr"

text \<open>The rest of \<open>handle_message\<close>, from the accounting of a block that is not out of window on.\<close>

definition handle_accepted :: "(fastreader \<Rightarrow> u8 list \<Rightarrow> unit sq_op) \<Rightarrow> real \<Rightarrow> nat \<Rightarrow> u8 list \<Rightarrow> u64 \<Rightarrow> unit sq_op" where
  "handle_accepted func eventtime len block rseq =
     then_op (set_op (\<lambda>s. s\<lparr>bytes_read := bytes_read s + of_nat len\<rparr>))
     (bind_op (get_op notify_queue) (\<lambda>nq.
      bind_op (notify_loop eventtime (rseq - 1 - (if len > MESSAGE_MIN then 1 else 0)) False nq) (\<lambda>must_wake.
      bind_op
        (if len = MESSAGE_MIN then
           bind_op (get_op (\<lambda>s. (last_ack_seq s < rseq, rseq > ignore_nak_seq s \<and> sent_queue s \<noteq> []))) (\<lambda>(new, nak).
           then_op
             (if new then set_op (\<lambda>s. s\<lparr>last_ack_seq := rseq\<rparr>)
              else if nak then pollreactor_update_timer SQPT_RETRANSMIT PR_NOW
              else ret ())
             (ret must_wake))
         else
           bind_op (option_op (message_fill block)) (\<lambda>qm.
           bind_op (get_op (\<lambda>s. if rseq > retransmit_seq s then last_receive_sent_time s else 0)) (\<lambda>st.
           bind_op get_monotonic (\<lambda>now.
           then_op (set_op (\<lambda>s. s\<lparr>receive_queue := receive_queue s @
                [qm\<lparr>sent_time := st, receive_time := now - calculate_bittime (of_nat len) s\<rparr>]\<rparr>))
             (ret True))))) (\<lambda>must_wake.
      then_op (if must_wake then check_wake_receive else ret ())
        (bind_op (get_op fast_readers) (\<lambda>frs.
           case find (fr_matches block) frs of
             None \<Rightarrow> ret ()
           | Some fr \<Rightarrow> func fr block))))))"

definition handle_message :: "(fastreader \<Rightarrow> u8 list \<Rightarrow> unit sq_op) \<Rightarrow> real \<Rightarrow> nat \<Rightarrow> unit sq_op" where
  "handle_message func eventtime len =
     bind_op (get_op (\<lambda>s. take len (input_buf s))) (\<lambda>block.
     bind_op (get_op receive_seq) (\<lambda>rs.
     bind_op (get_op send_seq) (\<lambda>ss.
     let rseq_delta = ucast ((ucast (block ! MESSAGE_POS_SEQ) - rs) AND MESSAGE_SEQ_MASK) :: u32;
         rseq = rs + ucast rseq_delta
     in if rseq \<noteq> rs \<and> rseq > ss \<and> rs \<noteq> 1
        then set_op (\<lambda>s. s\<lparr>bytes_invalid := bytes_invalid s + of_nat len\<rparr>)
        else
          then_op (if rseq \<noteq> rs then update_receive_seq eventtime rseq else ret ())
            (handle_accepted func eventtime len block rseq))))"

subsection \<open>Input\<close>

text \<open>
  The loop of \<open>input_event\<close>. Every round takes at least one byte from the buffer, so that one round more
  than there are bytes is enough.
\<close>

fun input_loop :: "(fastreader \<Rightarrow> u8 list \<Rightarrow> unit sq_op) \<Rightarrow> real \<Rightarrow> nat \<Rightarrow> unit sq_op" where
  "input_loop func eventtime 0 = undef_op"
| "input_loop func eventtime (Suc n) =
     bind_op (get_op (\<lambda>s. msgblock_check (sq_need_sync s) (input_buf s))) (\<lambda>(len, ns).
     then_op (set_op (\<lambda>s. s\<lparr>sq_need_sync := ns\<rparr>))
       (if len = 0 then ret ()
        else
          then_op
            (if len > 0 then handle_message func eventtime (nat len)
             else set_op (\<lambda>s. s\<lparr>bytes_invalid := bytes_invalid s + of_nat (nat (- len))\<rparr>))
          (then_op (set_op (\<lambda>s. s\<lparr>input_buf := drop (nat \<bar>len\<bar>) (input_buf s)\<rparr>))
            (input_loop func eventtime n))))"

text \<open>\<open>read()\<close> never returns more bytes than there is room for in the 4096 bytes of \<open>input_buf\<close>.\<close>

definition read_serial :: "read_result sq_op" where
  "read_serial = (\<lambda>s. Ret (serial_in s (serial_reads s)) (s\<lparr>serial_reads := Suc (serial_reads s)\<rparr>))"

definition input_event :: "(fastreader \<Rightarrow> u8 list \<Rightarrow> unit sq_op) \<Rightarrow> real \<Rightarrow> unit sq_op" where
  "input_event func eventtime =
     bind_op (get_op serial_fd_type) (\<lambda>ty.
     bind_op read_serial (\<lambda>r.
     bind_op (get_op client_id) (\<lambda>cid.
     let parse = bind_op (get_op (\<lambda>s. Suc (length (input_buf s)))) (\<lambda>n. input_loop func eventtime n)
     in if ty = SQT_CAN then
          (case r of
             Read_frame can_id data \<Rightarrow>
               if can_id \<noteq> cid + 1 then ret ()
               else
                 bind_op (get_op (\<lambda>s. length (input_buf s) + length data > 4096)) (\<lambda>over.
                   if over then undef_op
                   else then_op (set_op (\<lambda>s. s\<lparr>input_buf := input_buf s @ data\<rparr>)) parse)
           | _ \<Rightarrow> pollreactor_do_exit)
        else
          (case r of
             Read_bytes data \<Rightarrow>
               bind_op (get_op (\<lambda>s. 4096 - length (input_buf s))) (\<lambda>room.
                 if data = [] \<or> room = 0 then pollreactor_do_exit
                 else then_op (set_op (\<lambda>s. s\<lparr>input_buf := input_buf s @ take room data\<rparr>)) parse)
           | _ \<Rightarrow> pollreactor_do_exit))))"

definition kick_event :: "real \<Rightarrow> unit sq_op" where
  "kick_event eventtime =
     then_op (set_op (\<lambda>s. s\<lparr>pipe_kicks := pipe_kicks s - 4096\<rparr>)) (pollreactor_update_timer SQPT_COMMAND PR_NOW)"

subsection \<open>Output\<close>

definition write_result :: "bool sq_op" where
  "write_result = (\<lambda>s. Ret (write_fails s (writes s)) (s\<lparr>writes := Suc (writes s)\<rparr>))"

text \<open>The frames of \<open>do_write\<close> on a CAN bus.\<close>

function can_write_loop :: "u8 list \<Rightarrow> unit sq_op" where
  "can_write_loop buf =
     (if buf = [] then ret ()
      else
        bind_op (get_op client_id) (\<lambda>cid.
        bind_op write_result (\<lambda>fails.
          if fails then
            bind_op get_monotonic (\<lambda>curtime.
            bind_op (get_op last_write_fail_time) (\<lambda>t.
              if t = 0 then set_op (\<lambda>s. s\<lparr>last_write_fail_time := curtime\<rparr>)
              else if curtime > t + 10 then pollreactor_do_exit
              else ret ()))
          else
            then_op (set_op (\<lambda>s. s\<lparr>can_out := can_out s @ [(cid, take 8 buf)], last_write_fail_time := 0\<rparr>))
              (can_write_loop (drop 8 buf)))))"
  by pat_completeness auto
termination by (relation "measure length") auto

declare can_write_loop.simps [simp del]

definition do_write :: "u8 list \<Rightarrow> unit sq_op" where
  "do_write buf =
     bind_op (get_op serial_fd_type) (\<lambda>ty.
       if ty \<noteq> SQT_CAN then
         bind_op write_result (\<lambda>fails. if fails then ret () else set_op (\<lambda>s. s\<lparr>serial_out := serial_out s @ [buf]\<rparr>))
       else can_write_loop buf)"

definition max_real :: "real \<Rightarrow> real \<Rightarrow> real" where
  "max_real a b = (if a > b then a else b)"

definition retransmit_event :: "real \<Rightarrow> real sq_op" where
  "retransmit_event eventtime =
     bind_op (get_op sent_queue) (\<lambda>sq.
     let buf = MESSAGE_SYNC # concat (map qm_bytes sq);
         first_buflen = (case sq of [] \<Rightarrow> 0 | qm # _ \<Rightarrow> qm_len qm + 1)
     in if length buf > MESSAGE_MAX * MAX_PENDING_BLOCKS + 1 then undef_op
        else
          then_op (do_write buf)
          (then_op (set_op (\<lambda>s. s\<lparr>bytes_retransmit := bytes_retransmit s + of_nat (length buf)\<rparr>))
          (bind_op (pollreactor_get_timer SQPT_RETRANSMIT) (\<lambda>t.
           then_op
             (if t = PR_NOW then
                set_op (\<lambda>s. s\<lparr>ignore_nak_seq :=
                     (if receive_seq s < retransmit_seq s then retransmit_seq s else receive_seq s)\<rparr>)
              else
                set_op (\<lambda>s. s\<lparr>rto := (if rto s * 2 > MAX_RTO then MAX_RTO else rto s * 2), ignore_nak_seq := send_seq s\<rparr>))
           (then_op
              (set_op (\<lambda>s. s\<lparr>retransmit_seq := send_seq s, rtt_sample_seq := 0,
                           idle_time := eventtime + calculate_bittime (of_nat (length buf)) s\<rparr>))
              (get_op (\<lambda>s. eventtime + rto s + calculate_bittime (of_nat first_buflen) s)))))))"

text \<open>The search of \<open>build_and_send_command\<close>: the first message with the lowest \<open>req_clock\<close> of all ready queues.\<close>

fun pick_ready :: "(nat \<Rightarrow> command_queue) \<Rightarrow> nat list \<Rightarrow> u64 \<Rightarrow> (nat \<times> queue_message) option \<Rightarrow> (nat \<times> queue_message) option" where
  "pick_ready cqs [] min_clk best = best"
| "pick_ready cqs (q # qs) min_clk best =
     (case ready_queue (cqs q) of
        [] \<Rightarrow> pick_ready cqs qs min_clk best
      | m # _ \<Rightarrow>
          if req_clock m < min_clk then pick_ready cqs qs (req_clock m) (Some (q, m))
          else pick_ready cqs qs min_clk best)"

text \<open>\<open>list_del(&qm->node)\<close> for the first message of a ready queue, and of the queue once it is empty.\<close>

definition take_ready :: "nat \<Rightarrow> serialqueue \<Rightarrow> serialqueue" where
  "take_ready q s =
     (let cq = (cq_at s q)\<lparr>ready_queue := tl (ready_queue (cq_at s q))\<rparr>
      in s\<lparr>cq_at := (cq_at s)(q := cq),
           pending_queues := (if ready_queue cq = [] \<and> upcoming_queue cq = [] then remove1 q (pending_queues s)
                              else pending_queues s)\<rparr>)"

text \<open>
  The packing loop: the value is the payload. Every round takes a message from a ready queue, so that
  one round more than there are messages is enough.
\<close>

fun pack_loop :: "nat \<Rightarrow> u8 list \<Rightarrow> u8 list sq_op" where
  "pack_loop 0 payload = undef_op"
| "pack_loop (Suc n) payload =
     bind_op (get_op ready_bytes) (\<lambda>rb.
       if rb = 0 then ret payload
       else
         bind_op (get_op (\<lambda>s. pick_ready (cq_at s) (pending_queues s) MAX_CLOCK None)) (\<lambda>best.
         bind_op (option_op best) (\<lambda>(q, qm).
           if MESSAGE_HEADER_SIZE + length payload + qm_len qm > MESSAGE_MAX - MESSAGE_TRAILER_SIZE then ret payload
           else
             then_op (set_op (take_ready q))
             (then_op (set_op (\<lambda>s. s\<lparr>ready_bytes := ready_bytes s - int (qm_len qm)\<rparr>))
             (then_op
                (if notify_id qm \<noteq> 0
                 then set_op (\<lambda>s. s\<lparr>notify_queue := notify_queue s @ [qm\<lparr>req_clock := send_seq s\<rparr>]\<rparr>)
                 else ret ())
                (pack_loop n (payload @ qm_bytes qm)))))))"

definition ready_count :: "serialqueue \<Rightarrow> nat" where
  "ready_count s = sum_list (map (\<lambda>q. length (ready_queue (cq_at s q))) (pending_queues s))"

text \<open>Header and trailer.\<close>

definition host_block :: "u64 \<Rightarrow> u8 list \<Rightarrow> u8 list" where
  "host_block seq payload =
     (let len = MESSAGE_HEADER_SIZE + length payload + MESSAGE_TRAILER_SIZE;
          buf = [of_nat len, MESSAGE_DEST OR (ucast seq AND MESSAGE_SEQ_MASK)] @ payload;
          crc = msgblock_crc16_ccitt buf (len - MESSAGE_TRAILER_SIZE)
      in buf @ [ucast (drop_bit 8 crc), ucast (crc AND 0xff), MESSAGE_SYNC])"

definition build_and_send_command :: "nat \<Rightarrow> real \<Rightarrow> u8 list sq_op" where
  "build_and_send_command pending eventtime =
     bind_op (get_op (\<lambda>s. Suc (ready_count s))) (\<lambda>n.
     bind_op (pack_loop n []) (\<lambda>payload.
     bind_op (get_op (\<lambda>s. host_block (send_seq s) payload)) (\<lambda>buf.
     bind_op (get_op (\<lambda>s. max_real eventtime (idle_time s) + calculate_bittime (of_nat (pending + length buf)) s)) (\<lambda>idletime.
     bind_op (option_op (message_fill buf)) (\<lambda>out.
     bind_op (get_op sent_queue) (\<lambda>sq.
     bind_op (get_op (\<lambda>s. idletime + rto s)) (\<lambda>rt.
     then_op (if sq = [] then pollreactor_update_timer SQPT_RETRANSMIT rt else ret ())
     (then_op
        (set_op (\<lambda>s. s\<lparr>rtt_sample_seq := (if rtt_sample_seq s = 0 then send_seq s else rtt_sample_seq s),
                      send_seq := send_seq s + 1, need_ack_bytes := need_ack_bytes s + int (length buf),
                      sent_queue := sent_queue s @ [out\<lparr>sent_time := eventtime, receive_time := idletime\<rparr>]\<rparr>))
        (ret buf)))))))))"

text \<open>
  The loop over the upcoming queue of one command queue: the messages whose minimum clock has come, the
  rest, and the clock at which the first of the rest is due.
\<close>

fun split_upcoming :: "u64 \<Rightarrow> queue_message list \<Rightarrow> queue_message list \<times> queue_message list" where
  "split_upcoming ack_clock [] = ([], [])"
| "split_upcoming ack_clock (qm # qms) =
     (if ack_clock < min_clock qm then ([], qm # qms)
      else (let (now, later) = split_upcoming ack_clock qms in (qm # now, later)))"

definition total_len :: "queue_message list \<Rightarrow> int" where
  "total_len qms = int (sum_list (map qm_len qms))"

text \<open>The loop over the command queues; the value is \<open>min_stalled_clock\<close> and \<open>min_ready_clock\<close>.\<close>

fun stalled_loop :: "u64 \<Rightarrow> real \<Rightarrow> nat list \<Rightarrow> u64 \<Rightarrow> u64 \<Rightarrow> (u64 \<times> u64) sq_op" where
  "stalled_loop ack_clock bgtime [] stalled ready = ret (stalled, ready)"
| "stalled_loop ack_clock bgtime (q # qs) stalled ready =
     bind_op (get_op (\<lambda>s. split_upcoming ack_clock (upcoming_queue (cq_at s q)))) (\<lambda>(now, later).
     then_op (set_op (\<lambda>s. s\<lparr>cq_at := (cq_at s)(q := \<lparr>upcoming_queue = later, ready_queue = ready_queue (cq_at s q) @ now\<rparr>),
                          upcoming_bytes := upcoming_bytes s - total_len now,
                          ready_bytes := ready_bytes s + total_len now\<rparr>))
     (bind_op (get_op (\<lambda>s. (ready_queue (cq_at s q), sq_ce s))) (\<lambda>(rq, ce).
      let stalled = (case later of [] \<Rightarrow> stalled | qm # _ \<Rightarrow> if min_clock qm < stalled then min_clock qm else stalled);
          ready = (case rq of
                     [] \<Rightarrow> ready
                   | qm # _ \<Rightarrow>
                       (let rc = (if req_clock qm = BACKGROUND_PRIORITY_CLOCK
                                  then clock_from_time ce (bgtime + (MIN_REQTIME_DELTA + MIN_BACKGROUND_DELTA))
                                  else req_clock qm)
                        in if rc < ready then rc else ready))
      in stalled_loop ack_clock bgtime qs stalled ready)))"

definition check_send_command :: "nat \<Rightarrow> real \<Rightarrow> real sq_op" where
  "check_send_command pending eventtime =
     bind_op (get_op (\<lambda>s. send_seq s - receive_seq s \<ge> of_nat MAX_PENDING_BLOCKS \<and> receive_seq s \<noteq> - 1)) (\<lambda>full.
       if full then ret PR_NEVER
       else
     bind_op (get_op (\<lambda>s. send_seq s > receive_seq s \<and> receive_window s \<noteq> 0 \<and>
          need_ack_bytes s + int MESSAGE_MAX + (if last_ack_seq s < receive_seq s then last_ack_bytes s else 0)
            > receive_window s)) (\<lambda>wait.
       if wait then ret PR_NEVER
       else
     bind_op (get_op (\<lambda>s. max_real eventtime (idle_time s) + calculate_bittime (of_nat (pending + MESSAGE_MIN)) s)) (\<lambda>idletime.
     bind_op (get_op (\<lambda>s. clock_from_time (sq_ce s) idletime)) (\<lambda>ack_clock.
     bind_op (get_op (\<lambda>s. if pending \<noteq> 0 then idletime else idle_time s)) (\<lambda>bgtime.
     bind_op (get_op pending_queues) (\<lambda>qs.
     bind_op (stalled_loop ack_clock bgtime qs MAX_CLOCK MAX_CLOCK) (\<lambda>(stalled, ready).
     bind_op (get_op (\<lambda>s. (ready_bytes s, est_freq (sq_ce s)))) (\<lambda>(rb, freq).
       if rb \<ge> int MESSAGE_PAYLOAD_MAX then ret PR_NOW
       else if freq = 0 then
         (if rb \<noteq> 0 then ret PR_NOW
          else then_op (set_op (\<lambda>s. s\<lparr>need_kick_clock := MAX_CLOCK\<rparr>)) (ret PR_NEVER))
       else
         bind_op (option_op (u64_of_double (MIN_REQTIME_DELTA * freq))) (\<lambda>delta.
           if ready \<le> ack_clock + delta then ret PR_NOW
           else
             (let want = (if stalled < ready - delta then stalled else ready - delta)
              in then_op (set_op (\<lambda>s. s\<lparr>need_kick_clock := want\<rparr>))
                 (ret (idletime + real_of_int (uint (want - ack_clock)) / freq))))))))))))"

text \<open>
  The loop of \<open>command_event\<close> with the blocks \<open>buf\<close> not yet written. Every round builds a block of a sequence
  number of its own; the loop is given \<open>n\<close> rounds.
\<close>

definition write_blocks :: "real \<Rightarrow> u8 list \<Rightarrow> unit sq_op" where
  "write_blocks eventtime buf =
     (if buf = [] then ret ()
      else
        then_op (do_write buf)
        (then_op (set_op (\<lambda>s. s\<lparr>bytes_write := bytes_write s + of_nat (length buf)\<rparr>))
          (set_op (\<lambda>s. s\<lparr>idle_time := max_real eventtime (idle_time s) + calculate_bittime (of_nat (length buf)) s\<rparr>))))"

fun command_loop :: "nat \<Rightarrow> real \<Rightarrow> u8 list \<Rightarrow> real sq_op" where
  "command_loop 0 eventtime buf = undef_op"
| "command_loop (Suc n) eventtime buf =
     bind_op (check_send_command (length buf) eventtime) (\<lambda>waketime.
     bind_op
       (if waketime \<noteq> PR_NOW \<or> length buf + MESSAGE_MAX > MESSAGE_MAX * MAX_PENDING_BLOCKS
        then then_op (write_blocks eventtime buf) (ret []) else ret buf) (\<lambda>buf.
       if waketime \<noteq> PR_NOW then ret waketime
       else bind_op (build_and_send_command (length buf) eventtime) (\<lambda>blk. command_loop n eventtime (buf @ blk))))"

definition command_event :: "nat \<Rightarrow> real \<Rightarrow> real sq_op" where
  "command_event n eventtime = command_loop n eventtime []"

subsection \<open>The background thread\<close>

definition sq_timer_cb :: "nat \<Rightarrow> callback \<Rightarrow> real \<Rightarrow> real sq_op" where
  "sq_timer_cb n cb eventtime =
     (case cb of Retransmit_event \<Rightarrow> retransmit_event eventtime | Command_event \<Rightarrow> command_event n eventtime | _ \<Rightarrow> undef_op)"

definition sq_fd_cb :: "(fastreader \<Rightarrow> u8 list \<Rightarrow> unit sq_op) \<Rightarrow> callback \<Rightarrow> real \<Rightarrow> unit sq_op" where
  "sq_fd_cb func cb eventtime =
     (case cb of Input_event \<Rightarrow> input_event func eventtime | Kick_event \<Rightarrow> kick_event eventtime | _ \<Rightarrow> undef_op)"

definition background_thread ::
  "nat \<Rightarrow> (fastreader \<Rightarrow> u8 list \<Rightarrow> unit sq_op) \<Rightarrow> real \<Rightarrow> poll_result list \<Rightarrow> unit sq_op" where
  "background_thread n func eventtime polls =
     bind_op (pollreactor_run (sq_timer_cb n) (sq_fd_cb func) eventtime polls) (\<lambda>_. check_wake_receive)"

subsection \<open>The interface of the module\<close>

text \<open>
  A new queue, over the operating system of \<open>env\<close>: \<open>pipe_res\<close> is the result of \<open>pipe()\<close>, and \<open>threads_ok\<close> says
  that the mutexes, the condition and the thread could be made.
\<close>

definition serialqueue_alloc :: "serialqueue \<Rightarrow> int \<Rightarrow> fd_type \<Rightarrow> int \<Rightarrow> (int \<times> int) option \<Rightarrow> bool \<Rightarrow> serialqueue option" where
  "serialqueue_alloc env fd ty cid pipe_res threads_ok =
     (case pipe_res of
        None \<Rightarrow> None
      | Some pf \<Rightarrow>
          (let pr = pollreactor_alloc 2 2;
               s = env\<lparr>must_exit := must_exit pr, next_timer := next_timer pr, fds := fds pr,
                       fd_callbacks := fd_callbacks pr, timers := timers pr,
                       serial_fd := fd, serial_fd_type := ty, client_id := cid, pipe_fds := pf,
                       input_buf := [], sq_need_sync := 0, receive_waiting := False, receive_window := 0,
                       bittime_adjust := 0, idle_time := 0,
                       sq_ce := \<lparr>last_clock = 0, conv_clock = 0, conv_time = 0, est_freq = 0\<rparr>,
                       last_receive_sent_time := 0, send_seq := 1,
                       receive_seq := (if ty = SQT_DEBUGFILE then - 1 else 1),
                       ignore_nak_seq := 0, last_ack_seq := 0, retransmit_seq := 0, rtt_sample_seq := 0,
                       sent_queue := [], srtt := 0, rttvar := 0, rto := (if ty = SQT_DEBUGFILE then PR_NEVER else MIN_RTO),
                       pending_queues := [], ready_bytes := 0, upcoming_bytes := 0, need_ack_bytes := 0,
                       last_ack_bytes := 0, need_kick_clock := MAX_CLOCK, notify_queue := [],
                       last_write_fail_time := 0, receive_queue := [], fast_readers := [],
                       old_sent := debug_queue_alloc DEBUG_QUEUE_SENT, old_receive := debug_queue_alloc DEBUG_QUEUE_RECEIVE,
                       bytes_write := 0, bytes_read := 0, bytes_retransmit := 0, bytes_invalid := 0\<rparr>;
               init = then_op (pollreactor_add_fd SQPF_SERIAL fd Input_event (ty = SQT_DEBUGFILE))
                     (then_op (pollreactor_add_fd SQPF_PIPE (fst pf) Kick_event False)
                     (then_op (pollreactor_add_timer SQPT_RETRANSMIT Retransmit_event)
                       (pollreactor_add_timer SQPT_COMMAND Command_event)))
           in case init s of Ret u t \<Rightarrow> if threads_ok then Some t else None | _ \<Rightarrow> None))"

definition serialqueue_exit :: "unit sq_op" where
  "serialqueue_exit = then_op pollreactor_do_exit kick_bg_thread"

definition serialqueue_alloc_commandqueue :: "nat \<Rightarrow> unit sq_op" where
  "serialqueue_alloc_commandqueue q =
     set_op (\<lambda>s. s\<lparr>cq_at := (cq_at s)(q := \<lparr>upcoming_queue = [], ready_queue = []\<rparr>)\<rparr>)"

text \<open>Whether the queue at \<open>q\<close> may be freed.\<close>

definition serialqueue_free_commandqueue :: "nat \<Rightarrow> serialqueue \<Rightarrow> bool" where
  "serialqueue_free_commandqueue q s \<longleftrightarrow> ready_queue (cq_at s q) = [] \<and> upcoming_queue (cq_at s q) = []"

definition serialqueue_add_fastreader :: "fastreader \<Rightarrow> unit sq_op" where
  "serialqueue_add_fastreader fr = set_op (\<lambda>s. s\<lparr>fast_readers := fast_readers s @ [fr]\<rparr>)"

definition serialqueue_rm_fastreader :: "fastreader \<Rightarrow> unit sq_op" where
  "serialqueue_rm_fastreader fr = set_op (\<lambda>s. s\<lparr>fast_readers := remove1 fr (fast_readers s)\<rparr>)"

definition raise_min_clock :: "queue_message \<Rightarrow> queue_message" where
  "raise_min_clock qm =
     (if min_clock qm + 2 ^ 31 < req_clock qm \<and> req_clock qm \<noteq> BACKGROUND_PRIORITY_CLOCK
      then qm\<lparr>min_clock := req_clock qm - 2 ^ 31\<rparr> else qm)"

definition serialqueue_send_batch :: "nat \<Rightarrow> queue_message list \<Rightarrow> unit sq_op" where
  "serialqueue_send_batch q msgs =
     (let msgs = map raise_min_clock msgs
      in if total_len msgs = 0 then ret ()
         else
           then_op (set_op (\<lambda>s. s\<lparr>pending_queues :=
                (if ready_queue (cq_at s q) = [] \<and> upcoming_queue (cq_at s q) = [] then pending_queues s @ [q]
                 else pending_queues s)\<rparr>))
           (then_op (set_op (\<lambda>s. s\<lparr>cq_at := (cq_at s)(q := (cq_at s q)\<lparr>upcoming_queue := upcoming_queue (cq_at s q) @ msgs\<rparr>),
                                upcoming_bytes := upcoming_bytes s + total_len msgs\<rparr>))
           (bind_op (get_op (\<lambda>s. min_clock (hd msgs) < need_kick_clock s)) (\<lambda>mustwake.
              if mustwake then then_op (set_op (\<lambda>s. s\<lparr>need_kick_clock := 0\<rparr>)) kick_bg_thread else ret ()))))"

definition serialqueue_send_one :: "nat \<Rightarrow> queue_message \<Rightarrow> unit sq_op" where
  "serialqueue_send_one q qm = serialqueue_send_batch q [qm]"

definition serialqueue_send :: "nat \<Rightarrow> u8 list \<Rightarrow> u64 \<Rightarrow> u64 \<Rightarrow> u64 \<Rightarrow> unit sq_op" where
  "serialqueue_send q msg minc reqc nid =
     bind_op (option_op (message_fill msg)) (\<lambda>qm.
       serialqueue_send_one q (qm\<lparr>min_clock := minc, req_clock := reqc, notify_id := nid\<rparr>))"

text \<open>
  One pass of the waiting loop of \<open>serialqueue_pull\<close>: \<open>None\<close> when the caller goes to sleep on the condition.
\<close>

definition serialqueue_pull :: "pull_queue_message option sq_op" where
  "serialqueue_pull =
     bind_op (get_op (\<lambda>s. (receive_queue s, pollreactor_is_exit s))) (\<lambda>(rq, ex).
       case rq of
         [] \<Rightarrow>
           if ex then ret (Some \<lparr>pqm_msg = [], pqm_len = - 1, pqm_sent_time = 0, pqm_receive_time = 0, pqm_notify_id = 0\<rparr>)
           else then_op (set_op (\<lambda>s. s\<lparr>receive_waiting := True\<rparr>)) (ret None)
       | qm # qms \<Rightarrow>
           then_op (set_op (\<lambda>s. s\<lparr>receive_queue := qms,
                old_receive := (if qm_len qm \<noteq> 0 then debug_queue_add (old_receive s) qm else old_receive s)\<rparr>))
             (ret (Some \<lparr>pqm_msg = qm_bytes qm, pqm_len = int (qm_len qm), pqm_sent_time = sent_time qm,
                       pqm_receive_time = receive_time qm, pqm_notify_id = notify_id qm\<rparr>)))"

definition serialqueue_set_wire_frequency :: "real \<Rightarrow> unit sq_op" where
  "serialqueue_set_wire_frequency frequency =
     set_op (\<lambda>s. s\<lparr>bittime_adjust := (if serial_fd_type s = SQT_CAN then 1 / frequency else 10 / frequency)\<rparr>)"

definition serialqueue_set_receive_window :: "int \<Rightarrow> unit sq_op" where
  "serialqueue_set_receive_window w = set_op (\<lambda>s. s\<lparr>receive_window := w\<rparr>)"

definition serialqueue_set_clock_est :: "real \<Rightarrow> real \<Rightarrow> u64 \<Rightarrow> u64 \<Rightarrow> unit sq_op" where
  "serialqueue_set_clock_est freq time conv lst =
     set_op (\<lambda>s. s\<lparr>sq_ce := \<lparr>last_clock = lst, conv_clock = conv, conv_time = time, est_freq = freq\<rparr>\<rparr>)"

definition serialqueue_get_clock_est :: "clock_estimate sq_op" where
  "serialqueue_get_clock_est = get_op sq_ce"

text \<open>The messages of a debug queue that are not empty, at most \<open>n\<close>, and the queue reset.\<close>

definition serialqueue_extract_old :: "bool \<Rightarrow> nat \<Rightarrow> queue_message list sq_op" where
  "serialqueue_extract_old sentq n =
     bind_op (get_op (\<lambda>s. if sentq then old_sent s else old_receive s)) (\<lambda>current.
     then_op (set_op (\<lambda>s. if sentq then s\<lparr>old_sent := debug_queue_alloc DEBUG_QUEUE_SENT\<rparr>
                          else s\<lparr>old_receive := debug_queue_alloc DEBUG_QUEUE_RECEIVE\<rparr>))
       (ret (take n (filter (\<lambda>qm. qm_len qm \<noteq> 0) current))))"

end
