(* ===== verification/Serialqueue_Window.thy ===== *)
theory Serialqueue_Window
  imports Serialqueue
begin

text \<open>
  The sliding window of \<open>serialqueue.c\<close>: what each operation of the queue does to \<open>send_seq\<close>, \<open>receive_seq\<close> and the
  unacknowledged blocks, and what it passes to \<open>write()\<close>. All other state of the queue is left out of these lemmas;
  \<open>preserves\<close> says that an operation leaves a part of the state alone.
\<close>

subsection \<open>What the window and the port see\<close>

text \<open>
  The state of the sliding window, and what has been handed to the serial port. \<open>preserves f m\<close> says that
  the operation \<open>m\<close> leaves the value of \<open>f\<close> as it is.
\<close>

definition link_view :: "'a serialqueue_scheme \<Rightarrow> u64 \<times> u64 \<times> queue_message list" where
  "link_view s = (send_seq s, receive_seq s, sent_queue s)"

definition wire_view :: "'a serialqueue_scheme \<Rightarrow> fd_type \<times> (nat \<Rightarrow> bool) \<times> nat \<times> u8 list list" where
  "wire_view s = (serial_fd_type s, write_fails s, writes s, serial_out s)"

definition preserves :: "('s \<Rightarrow> 'b) \<Rightarrow> ('s, 'a) op \<Rightarrow> bool" where
  "preserves f m \<longleftrightarrow> (\<forall>s r t. m s = Ret r t \<longrightarrow> f t = f s)"

lemma preservesD: "preserves f m \<Longrightarrow> m s = Ret r t \<Longrightarrow> f t = f s"
  by (simp add: preserves_def)

lemma preserves_bind: "preserves f m \<Longrightarrow> (\<And>x. preserves f (g x)) \<Longrightarrow> preserves f (bind_op m g)"
  unfolding preserves_def bind_op_Ret_iff by metis

lemma preserves_then: "preserves f m \<Longrightarrow> preserves f n \<Longrightarrow> preserves f (then_op m n)"
  unfolding then_op_def by (rule preserves_bind)

lemma preserves_set: "(\<And>s. f (g s) = f s) \<Longrightarrow> preserves f (set_op g)"
  by (simp add: preserves_def op_simps)

lemma preserves_pure: "preserves f (ret x)" "preserves f (get_op h)" "preserves f undef_op" "preserves f (option_op y)"
  by (auto simp: preserves_def op_simps split: option.splits)

lemmas preserves_intros = preserves_bind preserves_then preserves_set preserves_pure

lemma update_timer_preserves:
  assumes "\<And>s tm n. f (s\<lparr>timers := tm, next_timer := n\<rparr>) = f s"
  shows "preserves f (pollreactor_update_timer pos w)"
  unfolding preserves_def pollreactor_update_timer_def by (auto simp: op_simps assms split: if_splits)

lemma preserves_update_timer: "preserves link_view (pollreactor_update_timer pos w)"
    "preserves wire_view (pollreactor_update_timer pos w)"
  by (rule update_timer_preserves, simp add: link_view_def wire_view_def)+

lemma preserves_get_timer: "preserves f (pollreactor_get_timer pos)"
  unfolding preserves_def pollreactor_get_timer_def by (auto simp: op_simps split: if_splits)

lemma preserves_pack:
  "preserves link_view (pack_loop n p)" "preserves wire_view (pack_loop n p)"
  by (induction n arbitrary: p)
    (auto intro!: preserves_intros simp: take_ready_def link_view_def wire_view_def Let_def split: prod.split)

lemma pack_loop_fits:
  "pack_loop n p s = Ret q t \<Longrightarrow> length p \<le> MESSAGE_PAYLOAD_MAX \<Longrightarrow> length q \<le> MESSAGE_PAYLOAD_MAX"
proof (induction n arbitrary: p s)
  case (Suc n)
  show ?case
  proof (cases "ready_bytes s = 0 \<or> (\<exists>q qm. pick_ready (cq_at s) (pending_queues s) MAX_CLOCK None = Some (q, qm) \<and>
      MESSAGE_HEADER_SIZE + length p + qm_len qm > MESSAGE_MAX - MESSAGE_TRAILER_SIZE)")
    case True
    with Suc.prems show ?thesis by (auto simp: op_simps cong: if_cong split: if_splits)
  next
    case False
    with Suc.prems(1) obtain qm u where "pack_loop n (p @ qm_bytes qm) u = Ret q t"
      "MESSAGE_HEADER_SIZE + length p + qm_len qm \<le> MESSAGE_MAX - MESSAGE_TRAILER_SIZE"
      by (auto simp: op_simps cong: if_cong split: option.splits if_splits outcome.splits)
    with Suc.IH show ?thesis by (simp add: qm_bytes_def)
  qed
qed (simp add: op_simps)

text \<open>The block the host builds is the block format of the link.\<close>

definition seq_byte :: "nat \<Rightarrow> u8" where
  "seq_byte q = MESSAGE_DEST OR (of_nat q AND MESSAGE_SEQ_MASK)"

lemma host_block_eq: "host_block seq payload = mk_block (MESSAGE_DEST OR (ucast seq AND MESSAGE_SEQ_MASK)) payload"
proof -
  have "(ucast (c AND 0xff) :: u8) = ucast c" for c :: u16
    by (rule bit_word_eqI) (simp add: bit_simps)
  then show ?thesis
    by (simp add: host_block_def mk_block_def Let_def msgblock_crc_eq crc_bytes_def add.commute)
qed

lemma host_block_of_nat: "host_block (of_nat q) payload = mk_block (seq_byte q) payload"
proof -
  have "(ucast (of_nat q :: u64) :: u8) AND 0xf = of_nat q AND 0xf"
    by (rule bit_word_eqI) (auto simp: bit_simps bit_of_nat_iff_bit)
  then show ?thesis by (simp add: host_block_eq seq_byte_def)
qed

lemma message_fill_bytes:
  "message_fill data = Some qm \<Longrightarrow> qm_bytes qm = data \<and> qm_len qm = length data \<and> length (qm_msg qm) = MESSAGE_MAX"
  by (auto simp: message_fill_def store_bytes_def message_alloc_def qm_bytes_def split: if_splits)

lemma message_fill_ok: "length data \<le> MESSAGE_MAX \<Longrightarrow> \<exists>qm. message_fill data = Some qm"
  by (auto simp: message_fill_def store_bytes_def message_alloc_def)

lemma build_and_send_effect:
  assumes "build_and_send_command pending e s = Ret blk t"
  obtains payload qm where "length payload \<le> MESSAGE_PAYLOAD_MAX" "blk = host_block (send_seq s) payload"
    "qm_bytes qm = blk" "qm_len qm = length blk"
    "link_view t = (send_seq s + 1, receive_seq s, sent_queue s @ [qm])" "wire_view t = wire_view s"
proof -
  obtain payload s1 where pk: "pack_loop (Suc (ready_count s)) [] s = Ret payload s1"
    using assms by (auto simp: build_and_send_command_def op_simps simp del: pack_loop.simps split: outcome.splits)
  have len: "length payload \<le> MESSAGE_PAYLOAD_MAX" using pack_loop_fits [OF pk] by simp
  have v: "link_view s1 = link_view s" "wire_view s1 = wire_view s"
    using preservesD [OF preserves_pack(1) pk] preservesD [OF preserves_pack(2) pk] by simp_all
  define blk' where "blk' = host_block (send_seq s1) payload"
  obtain out where out: "message_fill blk' = Some out"
    using assms pk by (auto simp: build_and_send_command_def op_simps blk'_def simp del: pack_loop.simps split: option.splits)
  define qm where "qm = out\<lparr>sent_time := e, receive_time := max_real e (idle_time s1) + calculate_bittime (of_nat (pending + length blk')) s1\<rparr>"
  have "qm_bytes qm = blk'" "qm_len qm = length blk'"
    using message_fill_bytes [OF out] by (auto simp: qm_def qm_bytes_def)
  moreover have "blk = blk' \<and> link_view t = (send_seq s1 + 1, receive_seq s1, sent_queue s1 @ [qm]) \<and> wire_view t = wire_view s1"
  proof (cases "sent_queue s1 = []")
    case True
    with assms pk out show ?thesis
      unfolding build_and_send_command_def
      by (auto simp: op_simps blk'_def [symmetric] qm_def link_view_def wire_view_def pollreactor_update_timer_def
          simp del: pack_loop.simps split: if_splits)
  next
    case False
    with assms pk out show ?thesis
      unfolding build_and_send_command_def
      by (auto simp: op_simps blk'_def [symmetric] qm_def link_view_def wire_view_def simp del: pack_loop.simps)
  qed
  ultimately show thesis using that [of payload qm] len v by (simp add: blk'_def link_view_def)
qed

subsection \<open>What is written to the port\<close>

text \<open>The chunks that reach the wire when the writes from number \<open>n\<close> on are made.\<close>

fun port_out :: "(nat \<Rightarrow> bool) \<Rightarrow> nat \<Rightarrow> u8 list list \<Rightarrow> u8 list list" where
  "port_out fails n [] = []"
| "port_out fails n (c # cs) = (if fails n then [] else [c]) @ port_out fails (Suc n) cs"

lemma port_out_append: "port_out f n (a @ b) = port_out f n a @ port_out f (n + length a) b"
  by (induction a arbitrary: n) simp_all

lemma port_out_all: "(\<And>n. \<not> f n) \<Longrightarrow> port_out f n cs = cs"
  by (induction cs arbitrary: n) simp_all

text \<open>\<open>wrote s cs t\<close>: between \<open>s\<close> and \<open>t\<close> the chunks \<open>cs\<close> were passed to \<open>write()\<close>.\<close>

definition wrote :: "'a serialqueue_scheme \<Rightarrow> u8 list list \<Rightarrow> 'a serialqueue_scheme \<Rightarrow> bool" where
  "wrote s cs t \<longleftrightarrow> wire_view t =
     (serial_fd_type s, write_fails s, writes s + length cs, serial_out s @ port_out (write_fails s) (writes s) cs)"

lemma wrote_none: "wire_view t = wire_view s \<Longrightarrow> wrote s [] t"
  by (simp add: wrote_def wire_view_def)

lemma wrote_trans: "wrote s a t \<Longrightarrow> wrote t b u \<Longrightarrow> wrote s (a @ b) u"
  by (simp add: wrote_def wire_view_def port_out_append)

lemma wrote_view:
  "wire_view s' = wire_view s \<Longrightarrow> wrote s' a t \<Longrightarrow> wrote s a t"
  "wire_view t' = wire_view t \<Longrightarrow> wrote s a t' \<Longrightarrow> wrote s a t"
  by (simp_all add: wrote_def wire_view_def)

lemma preserves_link_port:
  "preserves link_view get_monotonic" "preserves link_view write_result" "preserves link_view pollreactor_do_exit"
  by (auto simp: preserves_def get_monotonic_def write_result_def pollreactor_do_exit_def op_simps link_view_def)

lemma preserves_if: "preserves f m \<Longrightarrow> preserves f n \<Longrightarrow> preserves f (if b then m else n)"
  by simp

lemma preserves_prod: "(\<And>a b. preserves f (g a b)) \<Longrightarrow> preserves f (case p of (a, b) \<Rightarrow> g a b)"
  by (cases p) simp

lemma preserves_let: "(\<And>x. preserves f (g x)) \<Longrightarrow> preserves f (let x = y in g x)"
  by simp

lemma preserves_link_can_write: "preserves link_view (can_write_loop buf)"
proof (induction buf rule: can_write_loop.induct)
  case (1 buf)
  show ?case
  proof (cases "buf = []")
    case False
    have "preserves link_view (can_write_loop (drop 8 buf))" using 1 [OF False, of False] by simp
    then show ?thesis
      by (subst can_write_loop.simps, intro preserves_if preserves_bind preserves_then preserves_pure preserves_link_port
          preserves_set) (simp_all add: link_view_def)
  qed (simp add: can_write_loop.simps preserves_pure)
qed

lemma preserves_link_do_write: "preserves link_view (do_write buf)"
  unfolding do_write_def
  by (intro preserves_if preserves_bind preserves_pure preserves_link_port preserves_link_can_write preserves_set)
    (simp_all add: link_view_def)

lemma do_write_wrote:
  "serial_fd_type s \<noteq> SQT_CAN \<Longrightarrow> do_write buf s = Ret r t \<Longrightarrow> wrote s [buf] t"
  by (auto simp: do_write_def write_result_def op_simps wrote_def wire_view_def split: if_splits)

lemma write_blocks_effect:
  assumes "write_blocks e buf s = Ret r t"
  shows "link_view t = link_view s"
    "serial_fd_type s \<noteq> SQT_CAN \<Longrightarrow> wrote s (if buf = [] then [] else [buf]) t"
proof -
  show "link_view t = link_view s"
    using assms preservesD [OF preserves_link_do_write]
    by (auto simp: write_blocks_def op_simps link_view_def split: if_splits outcome.splits)
next
  assume ty: "serial_fd_type s \<noteq> SQT_CAN"
  show "wrote s (if buf = [] then [] else [buf]) t"
  proof (cases "buf = []")
    case True
    with assms show ?thesis by (simp add: write_blocks_def op_simps wrote_none)
  next
    case False
    with assms obtain r u where u: "do_write buf s = Ret r u" "wire_view t = wire_view u"
      unfolding write_blocks_def by (cases "do_write buf s") (auto simp: op_simps wire_view_def)
    from False show ?thesis by (simp add: wrote_view(2) [OF u(2) [symmetric] do_write_wrote [OF ty u(1)]])
  qed
qed

lemma stalled_preserves:
  assumes "\<And>s a b c. f (s\<lparr>cq_at := a, upcoming_bytes := b, ready_bytes := c\<rparr>) = f s"
  shows "preserves f (stalled_loop ack bg qs st rd)"
proof (induction qs arbitrary: st rd)
  case (Cons q qs)
  show ?case
    unfolding stalled_loop.simps Let_def
    by (intro preserves_bind preserves_then preserves_pure preserves_prod preserves_set assms Cons)
qed (simp add: preserves_pure)

lemma preserves_stalled:
  "preserves link_view (stalled_loop ack bg qs st rd)" "preserves wire_view (stalled_loop ack bg qs st rd)"
  by (rule stalled_preserves; simp add: link_view_def wire_view_def)+

lemma check_send_preserves:
  assumes "\<And>s x. f (s\<lparr>need_kick_clock := x\<rparr>) = f s" "\<And>a b qs c d. preserves f (stalled_loop a b qs c d)"
  shows "preserves f (check_send_command p e)"
  unfolding check_send_command_def
  by (intro preserves_if preserves_bind preserves_then preserves_pure preserves_prod preserves_let assms preserves_set)

lemma preserves_check_send:
  "preserves link_view (check_send_command p e)" "preserves wire_view (check_send_command p e)"
  by (rule check_send_preserves; simp add: link_view_def wire_view_def preserves_stalled)+

text \<open>The window: nothing is sent while twelve blocks wait for an acknowledgement.\<close>

definition window_open :: "u64 \<Rightarrow> u64 \<Rightarrow> bool" where
  "window_open sent rcv \<longleftrightarrow> sent - rcv < of_nat MAX_PENDING_BLOCKS \<or> rcv = - 1"

lemma check_send_window:
  assumes "check_send_command p e s = Ret w t" "w = PR_NOW"
  shows "window_open (send_seq s) (receive_seq s)"
  using assms by (auto simp: check_send_command_def op_simps window_open_def split: if_splits)

text \<open>The blocks \<open>qms\<close> carry the sequence numbers from \<open>q\<close> on.\<close>

definition numbered_blocks :: "u64 \<Rightarrow> queue_message list \<Rightarrow> bool" where
  "numbered_blocks q qms \<longleftrightarrow> (\<forall>i < length qms. qm_len (qms ! i) = length (qm_bytes (qms ! i)) \<and>
     (\<exists>payload. length payload \<le> MESSAGE_PAYLOAD_MAX \<and> qm_bytes (qms ! i) = host_block (q + of_nat i) payload))"

lemma numbered_blocks_Nil [simp]: "numbered_blocks q []"
  by (simp add: numbered_blocks_def)

lemma numbered_blocks_Cons:
  "numbered_blocks q (qm # qms) \<longleftrightarrow> qm_len qm = length (qm_bytes qm) \<and>
     (\<exists>payload. length payload \<le> MESSAGE_PAYLOAD_MAX \<and> qm_bytes qm = host_block q payload) \<and> numbered_blocks (q + 1) qms"
  by (auto simp: numbered_blocks_def All_less_Suc2 add.assoc)

lemma numbered_blocks_append:
  "numbered_blocks q (a @ b) \<longleftrightarrow> numbered_blocks q a \<and> numbered_blocks (q + of_nat (length a)) b"
  by (induction a arbitrary: q) (auto simp: numbered_blocks_Cons add.assoc)

lemma length_host_block [simp]: "length (host_block q payload) = length payload + MESSAGE_MIN"
  by (simp add: host_block_def Let_def)

lemma numbered_blocks_len:
  "numbered_blocks q qms \<Longrightarrow> qm \<in> set qms \<Longrightarrow> MESSAGE_MIN \<le> qm_len qm \<and> qm_len qm \<le> MESSAGE_MAX \<and> qm_len qm = length (qm_bytes qm)"
  by (fastforce simp: numbered_blocks_def in_set_conv_nth)

text \<open>What a run of \<open>command_event\<close> does: new blocks behind those sent, within the window.\<close>

definition sends :: "serialqueue \<Rightarrow> queue_message list \<Rightarrow> serialqueue \<Rightarrow> bool" where
  "sends s qms t \<longleftrightarrow>
     link_view t = (send_seq s + of_nat (length qms), receive_seq s, sent_queue s @ qms) \<and>
     numbered_blocks (send_seq s) qms \<and>
     (\<forall>i < length qms. window_open (send_seq s + of_nat i) (receive_seq s))"

lemma sends_none: "link_view t = link_view s \<Longrightarrow> sends s [] t"
  by (simp add: sends_def link_view_def)

lemma sends_view: "link_view s' = link_view s \<Longrightarrow> sends s' qms t \<Longrightarrow> sends s qms t"
  by (simp add: sends_def link_view_def)

lemma sends_trans: "sends s a t \<Longrightarrow> sends t b u \<Longrightarrow> sends s (a @ b) u"
  unfolding sends_def numbered_blocks_append
  by (auto simp: link_view_def add.assoc) (metis add_diff_inverse_nat of_nat_add nat_add_left_cancel_less)

lemma command_loop_effect:
  assumes "command_loop n e buf s = Ret w t" "length buf \<le> MESSAGE_MAX * MAX_PENDING_BLOCKS"
  shows "\<exists>qms. sends s qms t \<and>
    (serial_fd_type s \<noteq> SQT_CAN \<longrightarrow>
      (\<exists>cs. wrote s cs t \<and> concat cs = buf @ concat (map qm_bytes qms) \<and>
         (\<forall>c\<in>set cs. length c \<le> MESSAGE_MAX * MAX_PENDING_BLOCKS)))"
  using assms
proof (induction n arbitrary: buf s)
  case (Suc n)
  obtain wk s1 where chk: "check_send_command (length buf) e s = Ret wk s1"
    using Suc.prems(1) by (auto simp: bind_op_app split: outcome.splits)
  note v1 = preservesD [OF preserves_check_send(1) chk] preservesD [OF preserves_check_send(2) chk]
  define flush where "flush = (wk \<noteq> PR_NOW \<or> length buf + MESSAGE_MAX > MESSAGE_MAX * MAX_PENDING_BLOCKS)"
  obtain buf2 s2 where s2: "(if flush then then_op (write_blocks e buf) (ret []) else ret buf) s1 = Ret buf2 s2"
      "(if wk \<noteq> PR_NOW then ret wk
        else bind_op (build_and_send_command (length buf2) e) (\<lambda>blk. command_loop n e (buf2 @ blk))) s2 = Ret w t"
    using Suc.prems(1) chk unfolding flush_def by (fastforce simp: bind_op_app split: outcome.splits)
  have b2: "buf2 = (if flush then [] else buf)" using s2(1) by (auto simp: op_simps split: if_splits outcome.splits)
  have v2: "link_view s2 = link_view s"
    using s2(1) v1(1) write_blocks_effect(1) by (fastforce simp: op_simps split: if_splits outcome.splits)
  define c1 where "c1 = (if flush \<and> buf \<noteq> [] then [buf] else [])"
  have w2: "wrote s c1 s2" if ty: "serial_fd_type s \<noteq> SQT_CAN"
  proof (cases flush)
    case True
    have ty1: "serial_fd_type s1 \<noteq> SQT_CAN" using ty v1(2) by (simp add: wire_view_def)
    obtain u where "write_blocks e buf s1 = Ret u s2"
      using s2(1) True by (auto simp: op_simps split: outcome.splits)
    from write_blocks_effect(2) [OF this ty1] v1(2) True show ?thesis
      by (auto simp: c1_def intro: wrote_view(1))
  next
    case False
    with s2(1) v1(2) show ?thesis by (auto simp: c1_def op_simps intro: wrote_none)
  qed
  have c1: "\<forall>c\<in>set c1. length c \<le> MESSAGE_MAX * MAX_PENDING_BLOCKS" "concat c1 @ buf2 = buf"
    using Suc.prems(2) by (auto simp: c1_def b2)
  show ?case
  proof (cases "wk = PR_NOW")
    case False
    with s2(2) have t: "t = s2" by (simp add: op_simps)
    have "flush" using False by (simp add: flush_def)
    with c1 b2 have "concat c1 = buf" by simp
    with w2 c1(1) show ?thesis unfolding t
      by (intro exI [of _ "[]"]) (auto intro: sends_none [OF v2])
  next
    case True
    then obtain blk s3 where s3: "build_and_send_command (length buf2) e s2 = Ret blk s3"
        "command_loop n e (buf2 @ blk) s3 = Ret w t"
      using s2(2) by (auto simp: bind_op_app split: outcome.splits)
    from build_and_send_effect [OF s3(1)] obtain payload qm where b: "length payload \<le> MESSAGE_PAYLOAD_MAX"
      "blk = host_block (send_seq s2) payload" "qm_bytes qm = blk" "qm_len qm = length blk"
      "link_view s3 = (send_seq s2 + 1, receive_seq s2, sent_queue s2 @ [qm])" "wire_view s3 = wire_view s2" .
    have open2: "window_open (send_seq s) (receive_seq s)" using check_send_window [OF chk True] .
    have one: "sends s [qm] s3"
      using b open2 v2 by (auto simp: sends_def link_view_def numbered_blocks_Cons)
    have "length (buf2 @ blk) \<le> MESSAGE_MAX * MAX_PENDING_BLOCKS"
      using b(1,2) Suc.prems(2) True by (auto simp: b2 flush_def)
    from Suc.IH [OF s3(2) this] obtain qms where q: "sends s3 qms t"
      "serial_fd_type s3 \<noteq> SQT_CAN \<longrightarrow> (\<exists>cs. wrote s3 cs t \<and> concat cs = (buf2 @ blk) @ concat (map qm_bytes qms) \<and>
         (\<forall>c\<in>set cs. length c \<le> MESSAGE_MAX * MAX_PENDING_BLOCKS))" by blast
    have "\<exists>cs. wrote s cs t \<and> concat cs = buf @ concat (map qm_bytes (qm # qms)) \<and>
         (\<forall>c\<in>set cs. length c \<le> MESSAGE_MAX * MAX_PENDING_BLOCKS)" if ty: "serial_fd_type s \<noteq> SQT_CAN"
    proof -
      note w = w2 [OF ty]
      then have "serial_fd_type s3 \<noteq> SQT_CAN" using ty b(6) by (simp add: wrote_def wire_view_def)
      with q(2) obtain cs where cs: "wrote s3 cs t" "concat cs = (buf2 @ blk) @ concat (map qm_bytes qms)"
        "\<forall>c\<in>set cs. length c \<le> MESSAGE_MAX * MAX_PENDING_BLOCKS" by blast
      have "wrote s (c1 @ cs) t" using wrote_trans [OF w] wrote_view(1) [OF b(6) cs(1)] by blast
      moreover have "concat (c1 @ cs) = buf @ concat (map qm_bytes (qm # qms))"
        using cs(2) c1(2) b(3) by (metis append.assoc concat.simps(2) concat_append list.simps(9))
      ultimately show ?thesis using c1(1) cs(3) by (intro exI [of _ "c1 @ cs"]) auto
    qed
    with sends_trans [OF one q(1)] show ?thesis by (intro exI [of _ "qm # qms"]) auto
  qed
qed (simp add: op_simps)

lemma command_event_effect:
  assumes "command_event n e s = Ret w t"
  obtains qms where "sends s qms t"
    "serial_fd_type s \<noteq> SQT_CAN \<longrightarrow>
      (\<exists>cs. wrote s cs t \<and> concat cs = concat (map qm_bytes qms) \<and>
         (\<forall>c\<in>set cs. length c \<le> MESSAGE_MAX * MAX_PENDING_BLOCKS))"
  using command_loop_effect [of n e "[]" s w t] assms by (auto simp: command_event_def)

text \<open>Retransmission: a SYNC byte and all the unacknowledged blocks, which always fit into the buffer.\<close>

lemma sum_list_le_mult: "\<forall>x\<in>set xs. f x \<le> (k :: nat) \<Longrightarrow> sum_list (map f xs) \<le> length xs * k"
  by (induction xs) auto

lemma retransmit_fits:
  assumes "numbered_blocks q sq" "length sq \<le> MAX_PENDING_BLOCKS"
  shows "length (MESSAGE_SYNC # concat (map qm_bytes sq)) \<le> MESSAGE_MAX * MAX_PENDING_BLOCKS + 1"
proof -
  have "\<forall>qm\<in>set sq. length (qm_bytes qm) \<le> MESSAGE_MAX" using numbered_blocks_len [OF assms(1)] by fastforce
  from sum_list_le_mult [OF this] assms(2) show ?thesis by (simp add: length_concat comp_def)
qed

lemma retransmit_effect:
  assumes "retransmit_event e s = Ret w t"
  shows "link_view t = link_view s"
    "serial_fd_type s \<noteq> SQT_CAN \<Longrightarrow> wrote s [MESSAGE_SYNC # concat (map qm_bytes (sent_queue s))] t"
proof -
  let ?buf = "MESSAGE_SYNC # concat (map qm_bytes (sent_queue s))"
  obtain u v r where u: "do_write ?buf s = Ret u v" "link_view t = link_view v" "wire_view t = wire_view v"
    using assms unfolding retransmit_event_def
    by (cases "do_write ?buf s")
      (auto simp: op_simps pollreactor_get_timer_def link_view_def wire_view_def Let_def split: if_splits)
  show "link_view t = link_view s" using u preservesD [OF preserves_link_do_write u(1)] by simp
  show "wrote s [?buf] t" if "serial_fd_type s \<noteq> SQT_CAN"
    by (rule wrote_view(2) [OF u(3) [symmetric] do_write_wrote [OF that u(1)]])
qed

subsection \<open>Acknowledgements\<close>

text \<open>What an acknowledgement of everything before \<open>rseq\<close> does to the window.\<close>

lemma ack_loop_link:
  assumes "ack_loop rseq q sq s = Ret r t" "sent_queue s = sq"
  shows "(\<forall>k. rseq = q + of_nat k \<longrightarrow> 0 < k \<longrightarrow> k \<le> length sq \<longrightarrow> length sq < 2 ^ 64 \<longrightarrow>
            link_view t = (send_seq s, receive_seq s, drop k sq)) \<and>
         ((\<forall>k. 0 < k \<longrightarrow> k \<le> length sq \<longrightarrow> rseq \<noteq> q + of_nat k) \<longrightarrow>
            link_view t = (rseq, receive_seq s, []))"
  using assms
proof (induction sq arbitrary: q s)
  case Nil
  then show ?case by (auto simp: op_simps link_view_def)
next
  case (Cons m rest)
  define s1 where "s1 = s\<lparr>need_ack_bytes := need_ack_bytes s - int (qm_len m), sent_queue := rest,
                          old_sent := debug_queue_add (old_sent s) m\<rparr>"
  have s1: "send_seq s1 = send_seq s" "receive_seq s1 = receive_seq s" "sent_queue s1 = rest"
    by (simp_all add: s1_def)
  show ?case
  proof (cases "rseq = q + 1")
    case True
    with Cons.prems(1) have lv: "link_view t = (send_seq s, receive_seq s, rest)"
      by (auto simp: op_simps link_view_def)
    have one: "k = 1" if "rseq = q + of_nat k" "0 < k" "k \<le> length (m # rest)" "length (m # rest) < 2 ^ 64" for k
    proof -
      have "(of_nat k :: u64) = of_nat 1" using that(1) True by simp
      then have "unat (of_nat k :: u64) = unat (of_nat 1 :: u64)" by (rule arg_cong)
      with that(3,4) show ?thesis by (simp add: unat_of_nat del: of_nat_1)
    qed
    show ?thesis
    proof (intro conjI allI impI)
      fix k assume "rseq = q + of_nat k" "0 < k" "k \<le> length (m # rest)" "length (m # rest) < 2 ^ 64"
      then have "k = 1" by (rule one)
      with lv show "link_view t = (send_seq s, receive_seq s, drop k (m # rest))" by simp
    next
      assume "\<forall>k. 0 < k \<longrightarrow> k \<le> length (m # rest) \<longrightarrow> rseq \<noteq> q + of_nat k"
      from this [rule_format, of 1] True show "link_view t = (rseq, receive_seq s, [])" by simp
    qed
  next
    case False
    with Cons.prems(1) have "ack_loop rseq (q + 1) rest s1 = Ret r t" by (simp add: op_simps s1_def)
    note IH = Cons.IH [OF this s1(3)]
    show ?thesis
    proof (intro conjI allI impI)
      fix k assume k: "rseq = q + of_nat k" "0 < k" "k \<le> length (m # rest)" "length (m # rest) < 2 ^ 64"
      with False obtain j where j: "k = Suc j" "0 < j" by (cases k; cases "k - 1") auto
      then have "rseq = (q + 1) + of_nat j" using k(1) by (simp add: add.assoc)
      with IH j k show "link_view t = (send_seq s, receive_seq s, drop k (m # rest))" by (simp add: s1)
    next
      assume no: "\<forall>k. 0 < k \<longrightarrow> k \<le> length (m # rest) \<longrightarrow> rseq \<noteq> q + of_nat k"
      have "rseq \<noteq> (q + 1) + of_nat j" if "0 < j" "j \<le> length rest" for j
        using no [rule_format, of "Suc j"] that by (simp add: add.assoc)
      with IH show "link_view t = (rseq, receive_seq s, [])" by (simp add: s1)
    qed
  qed
qed

lemma rtt_update_link: "preserves link_view (rtt_update d)"
  by (auto simp: preserves_def rtt_update_def op_simps link_view_def Let_def split: if_splits)

lemma update_receive_seq_link:
  assumes "update_receive_seq e rseq s = Ret r t"
  obtains u v where "ack_loop rseq (receive_seq s) (sent_queue s) s = Ret u v"
    "link_view t = (send_seq v, rseq, sent_queue v)"
proof -
  obtain u v where v: "ack_loop rseq (receive_seq s) (sent_queue s) s = Ret u v"
    "then_op (set_op (\<lambda>s. s\<lparr>receive_seq := rseq\<rparr>))
     (then_op (pollreactor_update_timer SQPT_COMMAND PR_NOW)
     (then_op
        (bind_op (get_op (\<lambda>s. rtt_sample_seq s \<noteq> 0 \<and> rseq > rtt_sample_seq s \<and> last_receive_sent_time s \<noteq> 0)) (\<lambda>sample.
         bind_op (get_op last_receive_sent_time) (\<lambda>t. if sample then rtt_update (e - t) else ret ())))
     (bind_op (get_op sent_queue) (\<lambda>sq.
        case sq of
          [] \<Rightarrow> pollreactor_update_timer SQPT_RETRANSMIT PR_NEVER
        | snt # _ \<Rightarrow>
            bind_op (get_op (\<lambda>s. e + rto s + calculate_bittime (of_nat (qm_len snt)) s)) (\<lambda>nr.
              pollreactor_update_timer SQPT_RETRANSMIT nr))))) v = Ret r t"
    using assms by (auto simp: update_receive_seq_def bind_op_Ret_iff then_op_Ret_iff get_op_app)
  have "preserves link_view
     (then_op (pollreactor_update_timer SQPT_COMMAND PR_NOW)
     (then_op
        (bind_op (get_op (\<lambda>s. rtt_sample_seq s \<noteq> 0 \<and> rseq > rtt_sample_seq s \<and> last_receive_sent_time s \<noteq> 0)) (\<lambda>sample.
         bind_op (get_op last_receive_sent_time) (\<lambda>t. if sample then rtt_update (e - t) else ret ())))
     (bind_op (get_op sent_queue) (\<lambda>sq.
        case sq of
          [] \<Rightarrow> pollreactor_update_timer SQPT_RETRANSMIT PR_NEVER
        | snt # _ \<Rightarrow>
            bind_op (get_op (\<lambda>s. e + rto s + calculate_bittime (of_nat (qm_len snt)) s)) (\<lambda>nr.
              pollreactor_update_timer SQPT_RETRANSMIT nr)))))"
    by (intro preserves_then preserves_bind preserves_if preserves_pure preserves_update_timer rtt_update_link)
      (auto split: list.split intro!: preserves_bind preserves_pure preserves_update_timer)
  from preservesD [OF this] v(2) have "link_view t = link_view (v\<lparr>receive_seq := rseq\<rparr>)"
    by (auto simp: then_op_app [of "set_op _"] set_op_app)
  with that v(1) show thesis by (simp add: link_view_def)
qed

lemma preserves_notify: "preserves link_view (notify_loop e w mw nq)"
  by (induction nq arbitrary: mw) (auto intro!: preserves_intros simp: link_view_def)

text \<open>A handler of a fast reader takes no part in the protocol: it may take messages and send some.\<close>

lemma preserves_check_wake: "preserves link_view check_wake_receive"
  by (auto simp: preserves_def check_wake_receive_def op_simps link_view_def)

lemma preserves_handle_accepted:
  assumes "\<And>fr b. preserves link_view (func fr b)"
  shows "preserves link_view (handle_accepted func e len block rseq)"
  unfolding handle_accepted_def
  by (intro preserves_then preserves_bind preserves_if preserves_pure preserves_prod preserves_notify preserves_set
      preserves_update_timer preserves_check_wake preserves_link_port)
    (auto simp: link_view_def assms split: option.split intro: preserves_pure)

text \<open>The sequence number a block from the firmware acknowledges, from its low four bits.\<close>

definition acked_seq :: "u64 \<Rightarrow> u8 \<Rightarrow> u64" where
  "acked_seq rs b = rs + ucast (ucast ((ucast b - rs) AND MESSAGE_SEQ_MASK) :: u32)"

lemma handle_message_link:
  assumes "handle_message func e len s = Ret r t" "\<And>fr b. preserves link_view (func fr b)"
    "rs = receive_seq s" "rseq = acked_seq rs (take len (input_buf s) ! 1)"
  shows "if rseq = rs \<or> (rseq > send_seq s \<and> rs \<noteq> 1) then link_view t = link_view s
     else \<exists>u v. ack_loop rseq rs (sent_queue s) s = Ret u v \<and> link_view t = (send_seq v, rseq, sent_queue v)"
proof -
  define block where "block = take len (input_buf s)"
  have hm: "(if rseq \<noteq> rs \<and> rseq > send_seq s \<and> rs \<noteq> 1
        then set_op (\<lambda>s. s\<lparr>bytes_invalid := bytes_invalid s + of_nat len\<rparr>)
        else then_op (if rseq \<noteq> rs then update_receive_seq e rseq else ret ())
            (handle_accepted func e len block rseq)) s = Ret r t"
    using assms(1) unfolding assms(3,4) block_def handle_message_def acked_seq_def bind_op_app get_op_app outcome.case Let_def .
  show ?thesis
  proof (cases "rseq \<noteq> rs \<and> rseq > send_seq s \<and> rs \<noteq> 1")
    case True
    with hm have "link_view t = link_view s" by (auto simp: set_op_app link_view_def)
    with True show ?thesis by auto
  next
    case bad: False
    obtain u v where v: "(if rseq \<noteq> rs then update_receive_seq e rseq else ret ()) s = Ret u v"
        "handle_accepted func e len block rseq v = Ret r t"
      using hm unfolding if_not_P [OF bad] then_op_Ret_iff by blast
    have t: "link_view t = link_view v" by (rule preservesD [OF preserves_handle_accepted [OF assms(2)] v(2)])
    show ?thesis
    proof (cases "rseq = rs")
      case True
      with v(1) t show ?thesis by (auto simp: op_simps)
    next
      case False
      then have "update_receive_seq e rseq s = Ret u v" using v(1) by simp
      then obtain u' v' where "ack_loop rseq (receive_seq s) (sent_queue s) s = Ret u' v'"
        "link_view v = (send_seq v', rseq, sent_queue v')" by (rule update_receive_seq_link)
      with t False bad assms(3) show ?thesis by auto
    qed
  qed
qed

end
