(* ===== verification/Serialqueue_Total.thy ===== *)
theory Serialqueue_Total
  imports Serialqueue_Window
begin

text \<open>
  The operations of \<open>serialqueue.c\<close> return, and do nothing undefined: the invariant \<open>sq_ok\<close> of a queue (timers, window,
  accounts of the command queues, clock estimate), total correctness of every operation with respect to it
  (\<open>returns\<close>, \<open>returns_at\<close>), the queue as a client of the reactor, and the properties of the queue.
\<close>

subsection \<open>No undefined behaviour in the queue\<close>

text \<open>\<open>returns P m\<close>: from a state in \<open>P\<close> the operation returns, and the state is in \<open>P\<close> again.\<close>

definition returns :: "('s \<Rightarrow> bool) \<Rightarrow> ('s, 'a) op \<Rightarrow> bool" where
  "returns P m \<longleftrightarrow> (\<forall>s. P s \<longrightarrow> (\<exists>r t. m s = Ret r t \<and> P t))"

lemma returnsD: "returns P m \<Longrightarrow> P s \<Longrightarrow> \<exists>r t. m s = Ret r t \<and> P t"
  by (simp add: returns_def)

lemma returns_bind: "returns P m \<Longrightarrow> (\<And>x. returns P (f x)) \<Longrightarrow> returns P (bind_op m f)"
  unfolding returns_def bind_op_Ret_iff by meson

lemma returns_then: "returns P m \<Longrightarrow> returns P n \<Longrightarrow> returns P (then_op m n)"
  unfolding then_op_def by (rule returns_bind)

lemma returns_get: "returns P (get_op f)" and returns_ret: "returns P (ret x)"
  and returns_set: "(\<And>s. P s \<Longrightarrow> P (g s)) \<Longrightarrow> returns P (set_op g)"
  by (auto simp: returns_def op_simps)

lemma returns_if: "(b \<Longrightarrow> returns P m) \<Longrightarrow> (\<not> b \<Longrightarrow> returns P n) \<Longrightarrow> returns P (if b then m else n)"
  by simp


text \<open>The same at one state.\<close>

definition returns_at :: "('s \<Rightarrow> bool) \<Rightarrow> ('s, 'a) op \<Rightarrow> 's \<Rightarrow> bool" where
  "returns_at P m s \<longleftrightarrow> (\<exists>r t. m s = Ret r t \<and> P t)"

lemma returns_atI: "returns P m \<Longrightarrow> P s \<Longrightarrow> returns_at P m s"
  by (simp add: returns_at_def returns_def)

lemma returns_at_get: "returns_at P (f (g s)) s \<Longrightarrow> returns_at P (bind_op (get_op g) f) s"
  by (simp add: returns_at_def op_simps)

lemma returns_at_bind:
  "returns_at Q m s \<Longrightarrow> (\<And>r t. m s = Ret r t \<Longrightarrow> Q t \<Longrightarrow> returns_at P (f r) t) \<Longrightarrow> returns_at P (bind_op m f) s"
  unfolding returns_at_def bind_op_Ret_iff by blast

lemma returns_at_then:
  "returns_at Q m s \<Longrightarrow> (\<And>t. Q t \<Longrightarrow> returns_at P n t) \<Longrightarrow> returns_at P (then_op m n) s"
  unfolding then_op_def by (rule returns_at_bind)

lemma returns_at_ret: "P s \<Longrightarrow> returns_at P (ret x) s"
  by (simp add: returns_at_def op_simps)


lemma returns_iff_at: "returns P m \<longleftrightarrow> (\<forall>s. P s \<longrightarrow> returns_at P m s)"
  by (simp add: returns_def returns_at_def)

lemmas returns_intros = returns_bind returns_then returns_get returns_ret returns_set returns_if

text \<open>The accounts of the command queues.\<close>

definition msg_ok :: "queue_message \<Rightarrow> bool" where
  "msg_ok m \<longleftrightarrow> 0 < qm_len m \<and> qm_len m \<le> MESSAGE_PAYLOAD_MAX \<and> length (qm_msg m) = MESSAGE_MAX \<and> req_clock m < MAX_CLOCK"

definition queues_ok :: "(nat \<Rightarrow> command_queue) \<Rightarrow> nat list \<Rightarrow> bool" where
  "queues_ok cqs qs \<longleftrightarrow> distinct qs \<and>
     (\<forall>q. q \<in> set qs \<longleftrightarrow> ready_queue (cqs q) \<noteq> [] \<or> upcoming_queue (cqs q) \<noteq> []) \<and>
     (\<forall>q. \<forall>m \<in> set (ready_queue (cqs q)) \<union> set (upcoming_queue (cqs q)). msg_ok m)"

definition ready_total :: "(nat \<Rightarrow> command_queue) \<Rightarrow> nat list \<Rightarrow> int" where
  "ready_total cqs qs = (\<Sum>q\<leftarrow>qs. total_len (ready_queue (cqs q)))"

definition upcoming_total :: "(nat \<Rightarrow> command_queue) \<Rightarrow> nat list \<Rightarrow> int" where
  "upcoming_total cqs qs = (\<Sum>q\<leftarrow>qs. total_len (upcoming_queue (cqs q)))"

definition accounts_ok :: "'a serialqueue_scheme \<Rightarrow> bool" where
  "accounts_ok s \<longleftrightarrow> queues_ok (cq_at s) (pending_queues s) \<and>
     ready_bytes s = ready_total (cq_at s) (pending_queues s) \<and>
     upcoming_bytes s = upcoming_total (cq_at s) (pending_queues s)"

lemma total_len_simps [simp]: "total_len [] = 0" "total_len (m # ms) = int (qm_len m) + total_len ms"
  "total_len (ms @ ns) = total_len ms + total_len ns"
  by (simp_all add: total_len_def)


lemma sum_list_upd:
  fixes f :: "'q \<Rightarrow> 'b::comm_monoid_add"
  assumes "distinct qs" "q \<in> set qs"
  shows "(\<Sum>x\<leftarrow>qs. (f(q := v)) x) + f q = (\<Sum>x\<leftarrow>qs. f x) + v"
  using assms
proof (induction qs)
  case (Cons a qs)
  have "(\<Sum>x\<leftarrow>qs. (f(a := v)) x) = (\<Sum>x\<leftarrow>qs. f x)" if "a \<notin> set qs"
    using that by (intro arg_cong [where f = sum_list] map_cong) auto
  with Cons show ?case by (auto simp: add.assoc add.commute add.left_commute)
qed simp

lemma sum_list_remove1:
  fixes f :: "'q \<Rightarrow> 'b::comm_monoid_add"
  shows "q \<in> set qs \<Longrightarrow> (\<Sum>x\<leftarrow>remove1 q qs. f x) + f q = (\<Sum>x\<leftarrow>qs. f x)"
  by (induction qs) (auto simp: add.assoc add.commute add.left_commute)

lemma sum_list_zero: "(\<forall>x\<in>set qs. f x = (0 :: int)) \<Longrightarrow> (\<Sum>x\<leftarrow>qs. f x) = 0"
  by (induction qs) auto

text \<open>The message with the lowest \<open>req_clock\<close>.\<close>

lemma pick_ready_some:
  "pick_ready cqs qs mc best = Some (q, m) \<Longrightarrow>
    best = Some (q, m) \<or> (q \<in> set qs \<and> (\<exists>rest. ready_queue (cqs q) = m # rest) \<and> req_clock m < mc)"
proof (induction qs arbitrary: mc best)
  case (Cons a qs)
  then show ?case by (fastforce split: list.splits if_splits)
qed simp

lemma pick_ready_keeps: "pick_ready cqs qs mc (Some b) \<noteq> None"
  by (induction qs arbitrary: mc b) (auto split: list.splits)

lemma pick_ready_none: "pick_ready cqs qs mc None = None \<Longrightarrow> q \<in> set qs \<Longrightarrow> ready_queue (cqs q) = m # rest \<Longrightarrow> mc \<le> req_clock m"
proof (induction qs arbitrary: mc)
  case (Cons a qs)
  then show ?case by (auto split: list.splits if_splits simp: pick_ready_keeps)
qed simp

text \<open>
  The priority order: a message is picked only if no message at the head of a ready queue has a lower \<open>req_clock\<close>.
\<close>

lemma pick_ready_least:
  assumes "pick_ready cqs qs mc best = Some (q, m)" "\<And>b. best = Some b \<Longrightarrow> req_clock (snd b) = mc"
  shows "(req_clock m \<le> mc) \<and> (\<forall>q'\<in>set qs. \<forall>m' rest. ready_queue (cqs q') = m' # rest \<longrightarrow> req_clock m \<le> req_clock m')"
  using assms
proof (induction qs arbitrary: mc best)
  case (Cons a qs)
  show ?case
  proof (cases "\<exists>m' rest. ready_queue (cqs a) = m' # rest \<and> req_clock m' < mc")
    case True
    then obtain m' rest where m': "ready_queue (cqs a) = m' # rest" "req_clock m' < mc" by blast
    with Cons.prems(1) have "pick_ready cqs qs (req_clock m') (Some (a, m')) = Some (q, m)" by simp
    from Cons.IH [OF this] m' show ?thesis by auto
  next
    case False
    with Cons.prems(1) have "pick_ready cqs qs mc best = Some (q, m)" by (auto split: list.splits if_splits)
    from Cons.IH [OF this Cons.prems(2)] False show ?thesis by (fastforce simp: not_less)
  qed
qed auto

lemma accounts_pick:
  assumes "accounts_ok s" "ready_bytes s \<noteq> 0"
  obtains q m rest where "pick_ready (cq_at s) (pending_queues s) MAX_CLOCK None = Some (q, m)"
    "q \<in> set (pending_queues s)" "ready_queue (cq_at s q) = m # rest" "msg_ok m"
proof -
  have qok: "queues_ok (cq_at s) (pending_queues s)" using assms(1) by (simp add: accounts_ok_def)
  have "\<exists>q\<in>set (pending_queues s). ready_queue (cq_at s q) \<noteq> []"
  proof (rule ccontr)
    assume "\<not> ?thesis"
    then have "ready_total (cq_at s) (pending_queues s) = 0"
      unfolding ready_total_def by (intro sum_list_zero) auto
    with assms show False by (simp add: accounts_ok_def)
  qed
  then obtain q0 m0 r0 where q0: "q0 \<in> set (pending_queues s)" "ready_queue (cq_at s q0) = m0 # r0"
    by (meson neq_Nil_conv)
  then have "msg_ok m0" using qok unfolding queues_ok_def by (metis UnCI list.set_intros(1))
  then have "pick_ready (cq_at s) (pending_queues s) MAX_CLOCK None \<noteq> None"
    using pick_ready_none [where cqs = "cq_at s" and mc = MAX_CLOCK, OF _ q0(1) q0(2)]
    unfolding msg_ok_def by (meson leD)
  then obtain q m where qm: "pick_ready (cq_at s) (pending_queues s) MAX_CLOCK None = Some (q, m)" by auto
  from pick_ready_some [OF this] obtain rest where "q \<in> set (pending_queues s)" "ready_queue (cq_at s q) = m # rest" by auto
  moreover from this qok have "msg_ok m" unfolding queues_ok_def by (metis UnCI list.set_intros(1))
  ultimately show thesis using that qm by blast
qed

lemma accounts_take:
  assumes "accounts_ok s" "q \<in> set (pending_queues s)" "ready_queue (cq_at s q) = m # rest"
  shows "accounts_ok ((take_ready q s)\<lparr>ready_bytes := ready_bytes s - int (qm_len m)\<rparr>)"
    "ready_count (take_ready q s) < ready_count s"
proof -
  let ?cq = "(cq_at s q)\<lparr>ready_queue := rest\<rparr>"
  let ?cqs = "(cq_at s)(q := ?cq)"
  let ?ps = "if rest = [] \<and> upcoming_queue (cq_at s q) = [] then remove1 q (pending_queues s) else pending_queues s"
  have t: "take_ready q s = s\<lparr>cq_at := ?cqs, pending_queues := ?ps\<rparr>"
    using assms(3) by (simp add: take_ready_def Let_def)
  have qok: "queues_ok (cq_at s) (pending_queues s)" and dist: "distinct (pending_queues s)"
    and rb: "ready_bytes s = ready_total (cq_at s) (pending_queues s)"
    and ub: "upcoming_bytes s = upcoming_total (cq_at s) (pending_queues s)"
    using assms(1) by (auto simp: accounts_ok_def queues_ok_def)
  have "queues_ok ?cqs ?ps"
    using qok assms(2,3) unfolding queues_ok_def
    by (auto simp: set_remove1_eq split: if_splits) (metis UnCI list.set_intros(2))+
  moreover have "ready_total ?cqs (pending_queues s) = ready_total (cq_at s) (pending_queues s) - int (qm_len m)"
    using sum_list_upd [OF dist assms(2), of "\<lambda>x. total_len (ready_queue (cq_at s x))" "total_len rest"] assms(3)
    unfolding ready_total_def by (simp add: fun_upd_def if_distrib [of ready_queue] if_distrib [of total_len] cong: if_cong)
  moreover have "upcoming_total ?cqs (pending_queues s) = upcoming_total (cq_at s) (pending_queues s)"
    unfolding upcoming_total_def by (intro arg_cong [where f = sum_list] map_cong) auto
  moreover have "ready_total ?cqs ?ps = ready_total ?cqs (pending_queues s)" "upcoming_total ?cqs ?ps = upcoming_total ?cqs (pending_queues s)"
    using sum_list_remove1 [OF assms(2), of "\<lambda>x. total_len (ready_queue (?cqs x))"]
      sum_list_remove1 [OF assms(2), of "\<lambda>x. total_len (upcoming_queue (?cqs x))"]
    by (auto simp: ready_total_def upcoming_total_def)
  ultimately show "accounts_ok ((take_ready q s)\<lparr>ready_bytes := ready_bytes s - int (qm_len m)\<rparr>)"
    using rb ub by (simp add: accounts_ok_def t)
  have "(\<Sum>x\<leftarrow>pending_queues s. length (ready_queue (?cqs x))) + Suc (length rest) =
      (\<Sum>x\<leftarrow>pending_queues s. length (ready_queue (cq_at s x))) + length rest"
    using sum_list_upd [OF dist assms(2), of "\<lambda>x. length (ready_queue (cq_at s x))" "length rest"] assms(3)
    by (simp add: fun_upd_def if_distrib [of ready_queue] if_distrib [of length] cong: if_cong)
  moreover have "(\<Sum>x\<leftarrow>?ps. length (ready_queue (?cqs x))) = (\<Sum>x\<leftarrow>pending_queues s. length (ready_queue (?cqs x)))"
    using sum_list_remove1 [OF assms(2), of "\<lambda>x. length (ready_queue (?cqs x))"] by auto
  ultimately show "ready_count (take_ready q s) < ready_count s" by (simp add: ready_count_def t)
qed

definition reactor_ok :: "'a pollreactor_scheme \<Rightarrow> bool" where
  "reactor_ok s \<longleftrightarrow> map pt_callback (timers s) = [Some Retransmit_event, Some Command_event]"

definition window_ok :: "serialqueue \<Rightarrow> bool" where
  "window_ok s \<longleftrightarrow> unat (send_seq s) = unat (receive_seq s) + length (sent_queue s) \<and>
     length (sent_queue s) \<le> MAX_PENDING_BLOCKS \<and> unat (send_seq s) < 2 ^ 63 \<and>
     numbered_blocks (receive_seq s) (sent_queue s)"

definition clock_ok :: "serialqueue \<Rightarrow> bool" where
  "clock_ok s \<longleftrightarrow> 0 \<le> est_freq (sq_ce s) \<and> est_freq (sq_ce s) < 2 ^ 64"

definition sq_ok :: "serialqueue \<Rightarrow> bool" where
  "sq_ok s \<longleftrightarrow> reactor_ok s \<and> window_ok s \<and> accounts_ok s \<and> clock_ok s"

text \<open>There is room for another window of sequence numbers.\<close>

definition sq_room :: "serialqueue \<Rightarrow> bool" where
  "sq_room s \<longleftrightarrow> send_seq s < 2 ^ 62"

lemmas sq_ok_defs = sq_ok_def reactor_ok_def window_ok_def accounts_ok_def clock_ok_def

lemma u64_of_double_some: "0 \<le> x \<Longrightarrow> x < 2 ^ 64 \<Longrightarrow> \<exists>y. u64_of_double x = Some y"
  by (simp add: u64_of_double_def)

lemma reactor_ok_len: "reactor_ok s \<Longrightarrow> length (timers s) = 2"
  unfolding reactor_ok_def by (metis length_map length_Cons list.size(3) numeral_2_eq_2)

lemma returns_update_timer:
  assumes "\<And>s. P s \<Longrightarrow> pos < length (timers s)"
    "\<And>s n. P s \<Longrightarrow> P (s\<lparr>timers := (timers s)[pos := (timers s ! pos)\<lparr>pt_waketime := w\<rparr>], next_timer := n\<rparr>)"
  shows "returns P (pollreactor_update_timer pos w)"
  unfolding returns_def pollreactor_update_timer_def using assms by (auto simp: op_simps)

lemma reactor_ok_wake: "reactor_ok s \<Longrightarrow> reactor_ok (s\<lparr>timers := (timers s)[i := (timers s ! i)\<lparr>pt_waketime := w\<rparr>], next_timer := n\<rparr>)"
proof (cases "i < length (timers s)")
  case True
  then have "map pt_callback ((timers s)[i := (timers s ! i)\<lparr>pt_waketime := w\<rparr>]) = map pt_callback (timers s)"
    by (simp add: map_update list_update_same_conv)
  moreover assume "reactor_ok s"
  ultimately show ?thesis by (simp add: reactor_ok_def)
qed (simp add: reactor_ok_def list_update_beyond)

lemma sq_ok_timer:
  assumes "i < 2"
  shows "returns (\<lambda>s. sq_ok s \<and> link_view s = v) (pollreactor_update_timer i w)"
  using assms
  by (intro returns_update_timer)
    (auto simp: sq_ok_def reactor_ok_len reactor_ok_wake window_ok_def accounts_ok_def clock_ok_def link_view_def)

text \<open>The port.\<close>

lemma returns_can_write: "returns (\<lambda>s. sq_ok s \<and> link_view s = v) (can_write_loop buf)"
proof (induction buf rule: can_write_loop.induct)
  case (1 buf)
  have io: "returns (\<lambda>s. sq_ok s \<and> link_view s = v) write_result" "returns (\<lambda>s. sq_ok s \<and> link_view s = v) get_monotonic"
    by (auto simp: returns_def write_result_def get_monotonic_def sq_ok_defs link_view_def)
  show ?case
  proof (cases "buf = []")
    case False
    have "returns (\<lambda>s. sq_ok s \<and> link_view s = v) (can_write_loop (drop 8 buf))" using 1 [OF False, of False] by simp
    then show ?thesis
      unfolding can_write_loop.simps [of buf] pollreactor_do_exit_def
      by (intro returns_if returns_bind returns_then returns_get returns_ret io returns_set)
        (simp_all add: sq_ok_defs link_view_def)
  qed (simp add: can_write_loop.simps returns_ret)
qed

lemma returns_do_write: "returns (\<lambda>s. sq_ok s \<and> link_view s = v) (do_write buf)"
  unfolding do_write_def
  by (intro returns_if returns_bind returns_get returns_ret returns_can_write returns_set)
    (auto simp: returns_def write_result_def sq_ok_defs link_view_def)

lemma retransmit_returns:
  assumes "sq_ok s"
  shows "returns_at (\<lambda>t. sq_ok t \<and> link_view t = link_view s) (retransmit_event e) s"
proof -
  let ?P = "\<lambda>t. sq_ok t \<and> link_view t = link_view s"
  have fit: "\<not> length (MESSAGE_SYNC # concat (map qm_bytes (sent_queue s))) > MESSAGE_MAX * MAX_PENDING_BLOCKS + 1"
    using retransmit_fits [of "receive_seq s" "sent_queue s"] assms by (simp add: sq_ok_def window_ok_def)
  have get: "returns ?P (pollreactor_get_timer SQPT_RETRANSMIT)"
    by (auto simp: returns_def pollreactor_get_timer_def op_simps sq_ok_def dest!: reactor_ok_len)
  show ?thesis
    unfolding retransmit_event_def
    by (rule returns_at_get, unfold Let_def if_not_P [OF fit], rule returns_atI,
        intro returns_if returns_bind returns_then returns_get returns_do_write get returns_set)
      (use assms in \<open>simp_all add: sq_ok_defs link_view_def\<close>)
qed

lemma numbered_blocks_of_nat: "numbered_blocks q qms \<Longrightarrow> i < length qms \<Longrightarrow>
    \<exists>p. length p \<le> MESSAGE_PAYLOAD_MAX \<and> qm_bytes (qms ! i) = host_block (q + of_nat i) p"
  by (simp add: numbered_blocks_def)

lemma word_unat_add: "unat (x :: u64) = unat y + n \<Longrightarrow> x = y + of_nat n"
proof -
  assume eq: "unat x = unat y + n"
  have "x = of_nat (unat x)" by simp
  also have "\<dots> = y + of_nat n" unfolding eq by simp
  finally show ?thesis .
qed

lemma sq_ok_link:
  "sq_ok s \<Longrightarrow> link_view t = link_view s \<Longrightarrow> timers t = timers s \<Longrightarrow> sq_ce t = sq_ce s \<Longrightarrow> accounts_ok t \<Longrightarrow> sq_ok t"
  by (simp add: sq_ok_def reactor_ok_def window_ok_def clock_ok_def link_view_def)

lemma pack_loop_returns:
  assumes "sq_ok s" "ready_count s < n" "length p \<le> MESSAGE_PAYLOAD_MAX"
  shows "returns_at (\<lambda>t. sq_ok t \<and> link_view t = link_view s) (pack_loop n p) s"
  using assms
proof (induction n arbitrary: s p)
  case (Suc n)
  show ?case
  proof (cases "ready_bytes s = 0")
    case True
    with Suc.prems(1) show ?thesis by (simp add: returns_at_def op_simps)
  next
    case nz: False
    have acc: "accounts_ok s" using Suc.prems(1) by (simp add: sq_ok_def)
    from accounts_pick [OF acc nz] obtain q m rest where pk: "pick_ready (cq_at s) (pending_queues s) MAX_CLOCK None = Some (q, m)"
      "q \<in> set (pending_queues s)" "ready_queue (cq_at s q) = m # rest" "msg_ok m" .
    show ?thesis
    proof (cases "MESSAGE_HEADER_SIZE + length p + qm_len m > MESSAGE_MAX - MESSAGE_TRAILER_SIZE")
      case True
      with nz pk Suc.prems(1) show ?thesis by (simp add: returns_at_def op_simps)
    next
      case False
      define s1 where "s1 = (take_ready q s)\<lparr>ready_bytes := ready_bytes s - int (qm_len m)\<rparr>"
      define s2 where "s2 = (if notify_id m \<noteq> 0
          then s1\<lparr>notify_queue := notify_queue s1 @ [m\<lparr>req_clock := send_seq s1\<rparr>]\<rparr> else s1)"
      have v: "link_view s2 = link_view s" "timers s2 = timers s" "sq_ce s2 = sq_ce s"
        by (simp_all add: s2_def s1_def take_ready_def Let_def link_view_def)
      have v4: "ready_count s2 = ready_count (take_ready q s)"
        by (simp add: s2_def s1_def ready_count_def)
      have "accounts_ok s1" unfolding s1_def using accounts_take [OF acc pk(2,3)] by simp
      then have "accounts_ok s2" by (auto simp: s2_def accounts_ok_def)
      then have ok: "sq_ok s2" by (rule sq_ok_link [OF Suc.prems(1) v(1-3)])
      have len: "length (p @ qm_bytes m) \<le> MESSAGE_PAYLOAD_MAX" using False by (simp add: qm_bytes_def)
      have cnt: "ready_count s2 < n" using accounts_take(2) [OF acc pk(2,3)] Suc.prems(2) v4 by simp
      have "pack_loop (Suc n) p s = pack_loop n (p @ qm_bytes m) s2"
        using nz pk(1) False by (simp add: op_simps s2_def s1_def take_ready_def Let_def)
      with Suc.IH [OF ok cnt len] v(1) show ?thesis by (simp add: returns_at_def)
    qed
  qed
qed simp

lemma build_returns:
  assumes "sq_ok s" "length (sent_queue s) < MAX_PENDING_BLOCKS" "unat (send_seq s) + 1 < 2 ^ 63"
  shows "returns_at (\<lambda>t. sq_ok t \<and> receive_seq t = receive_seq s \<and> length (sent_queue t) = Suc (length (sent_queue s))) (build_and_send_command pending e) s"
proof -
  let ?P = "\<lambda>t. sq_ok t \<and> link_view t = link_view s"
  let ?Q = "\<lambda>t. sq_ok t \<and> receive_seq t = receive_seq s \<and> length (sent_queue t) = Suc (length (sent_queue s))"
  have fin: "returns_at ?Q (build_and_send_command pending e) s" 
    unfolding build_and_send_command_def
  proof (rule returns_at_get, rule returns_at_bind [where Q = ?P])
    show "returns_at ?P (pack_loop (Suc (ready_count s)) []) s" by (rule pack_loop_returns [OF assms(1)]) simp_all
  next
    fix payload t1
    assume pk: "pack_loop (Suc (ready_count s)) [] s = Ret payload t1" and t1: "?P t1"
    have len: "length payload \<le> MESSAGE_PAYLOAD_MAX" using pack_loop_fits [OF pk] by simp
    define blk where "blk = host_block (send_seq t1) payload"
    have "length blk \<le> MESSAGE_MAX" using len by (simp add: blk_def)
    then obtain out where out: "message_fill blk = Some out" using message_fill_ok by blast
    note mf = message_fill_bytes [OF out]
    have one: "returns ?P (if sent_queue t1 = [] then pollreactor_update_timer SQPT_RETRANSMIT w else ret ())" for w
      by (intro returns_if returns_ret sq_ok_timer) simp
    have last: "sq_ok t2 \<Longrightarrow> link_view t2 = link_view s \<Longrightarrow> ?Q (t2\<lparr>rtt_sample_seq := a, send_seq := send_seq t2 + 1,
        need_ack_bytes := b, sent_queue := sent_queue t2 @ [out\<lparr>sent_time := c, receive_time := d\<rparr>]\<rparr>)" for t2 a b c d
    proof -
      assume t2: "sq_ok t2" "link_view t2 = link_view s"
      have n: "unat (send_seq t2 + 1) = Suc (unat (send_seq t2))"
        using t2 assms(3) by (simp add: link_view_def unat_word_ariths)
      have "send_seq t2 = receive_seq t2 + of_nat (length (sent_queue t2))"
        using t2(1) by (intro word_unat_add) (simp add: sq_ok_def window_ok_def)
      then have nb: "numbered_blocks (receive_seq t2) (sent_queue t2 @ [out\<lparr>sent_time := c, receive_time := d\<rparr>])"
        using t2 len mf t1 by (auto simp: numbered_blocks_append numbered_blocks_Cons sq_ok_def window_ok_def qm_bytes_def blk_def link_view_def)
      show ?thesis using t2 n nb assms(2,3)
        by (auto simp: sq_ok_def reactor_ok_def window_ok_def accounts_ok_def clock_ok_def link_view_def)
    qed
    show "returns_at ?Q
          (bind_op (get_op (\<lambda>s. host_block (send_seq s) payload)) (\<lambda>buf.
             bind_op (get_op (\<lambda>s. max_real e (idle_time s) + calculate_bittime (of_nat (pending + length buf)) s)) (\<lambda>idletime.
             bind_op (option_op (message_fill buf)) (\<lambda>out.
             bind_op (get_op sent_queue) (\<lambda>sq.
             bind_op (get_op (\<lambda>s. idletime + rto s)) (\<lambda>rt.
             then_op (if sq = [] then pollreactor_update_timer SQPT_RETRANSMIT rt else ret ())
             (then_op
                (set_op (\<lambda>s. s\<lparr>rtt_sample_seq := (if rtt_sample_seq s = 0 then send_seq s else rtt_sample_seq s),
                              send_seq := send_seq s + 1, need_ack_bytes := need_ack_bytes s + int (length buf),
                              sent_queue := sent_queue s @ [out\<lparr>sent_time := e, receive_time := idletime\<rparr>]\<rparr>))
                (ret buf)))))))) t1"
      apply (rule returns_at_get, rule returns_at_get, unfold blk_def [symmetric] out)
      apply (rule returns_at_bind [where Q = "\<lambda>t. t = t1"])
       apply (simp add: returns_at_def op_simps)
      apply (simp add: op_simps del: One_nat_def)
      apply (rule returns_at_get, rule returns_at_get)
      apply (rule returns_at_then [OF returns_atI [OF one]], rule t1)
      using last by (auto simp: returns_at_def op_simps)
  qed
  then show ?thesis .
qed

lemma split_upcoming_eq: "split_upcoming c qms = (now, later) \<Longrightarrow> now @ later = qms"
  by (induction qms arbitrary: now later) (auto split: if_splits prod.splits)

lemma split_upcoming_due:
  "split_upcoming c qms = (now, later) \<Longrightarrow> (\<forall>m\<in>set now. min_clock m \<le> c) \<and> (\<forall>m rest. later = m # rest \<longrightarrow> c < min_clock m)"
  by (induction qms arbitrary: now later) (auto split: if_splits prod.splits)

lemma accounts_move:
  assumes "accounts_ok s" "q \<in> set (pending_queues s)" "now @ later = upcoming_queue (cq_at s q)"
  shows "accounts_ok (s\<lparr>cq_at := (cq_at s)(q := \<lparr>upcoming_queue = later, ready_queue = ready_queue (cq_at s q) @ now\<rparr>),
     upcoming_bytes := upcoming_bytes s - total_len now, ready_bytes := ready_bytes s + total_len now\<rparr>)"
proof -
  let ?cq = "\<lparr>upcoming_queue = later, ready_queue = ready_queue (cq_at s q) @ now\<rparr>"
  let ?cqs = "(cq_at s)(q := ?cq)"
  have qok: "queues_ok (cq_at s) (pending_queues s)" and dist: "distinct (pending_queues s)"
    using assms(1) by (auto simp: accounts_ok_def queues_ok_def)
  have up: "upcoming_queue (cq_at s q) = now @ later" using assms(3) by simp
  have "queues_ok ?cqs (pending_queues s)"
    unfolding queues_ok_def
  proof (intro conjI allI ballI)
    fix x
    show "(x \<in> set (pending_queues s)) = (ready_queue (?cqs x) \<noteq> [] \<or> upcoming_queue (?cqs x) \<noteq> [])"
      using qok assms(2) up by (auto simp: queues_ok_def)
    fix m assume "m \<in> set (ready_queue (?cqs x)) \<union> set (upcoming_queue (?cqs x))"
    then have "m \<in> set (ready_queue (cq_at s x)) \<union> set (upcoming_queue (cq_at s x))"
      using up by (auto split: if_splits)
    then show "msg_ok m" using qok unfolding queues_ok_def by blast
  qed (rule dist)
  moreover have "ready_total ?cqs (pending_queues s) = ready_total (cq_at s) (pending_queues s) + total_len now"
    using sum_list_upd [OF dist assms(2), of "\<lambda>x. total_len (ready_queue (cq_at s x))" "total_len (ready_queue ?cq)"]
    unfolding ready_total_def by (simp add: fun_upd_def if_distrib [of ready_queue] if_distrib [of total_len] cong: if_cong)
  moreover have "upcoming_total ?cqs (pending_queues s) = upcoming_total (cq_at s) (pending_queues s) - total_len now"
    using sum_list_upd [OF dist assms(2), of "\<lambda>x. total_len (upcoming_queue (cq_at s x))" "total_len later"] up
    unfolding upcoming_total_def by (simp add: fun_upd_def if_distrib [of upcoming_queue] if_distrib [of total_len] cong: if_cong)
  ultimately show ?thesis using assms(1) by (simp add: accounts_ok_def)
qed

lemma stalled_returns:
  assumes "sq_ok s" "set qs \<subseteq> set (pending_queues s)"
  shows "returns_at (\<lambda>t. sq_ok t \<and> link_view t = link_view s \<and> sq_ce t = sq_ce s) (stalled_loop ack bg qs st rd) s"
  using assms
proof (induction qs arbitrary: s st rd)
  case Nil
  then show ?case by (simp add: returns_at_def op_simps)
next
  case (Cons q qs)
  obtain now later where sp: "split_upcoming ack (upcoming_queue (cq_at s q)) = (now, later)" by fastforce
  define s1 where "s1 = s\<lparr>cq_at := (cq_at s)(q := \<lparr>upcoming_queue = later, ready_queue = ready_queue (cq_at s q) @ now\<rparr>),
     upcoming_bytes := upcoming_bytes s - total_len now, ready_bytes := ready_bytes s + total_len now\<rparr>"
  have "accounts_ok s1" unfolding s1_def
    using accounts_move [OF _ _ split_upcoming_eq [OF sp]] Cons.prems by (simp add: sq_ok_def)
  moreover have v: "link_view s1 = link_view s" "timers s1 = timers s" "sq_ce s1 = sq_ce s" "pending_queues s1 = pending_queues s"
    by (simp_all add: s1_def link_view_def)
  ultimately have ok: "sq_ok s1" by (intro sq_ok_link [OF Cons.prems(1)])
  have "\<exists>st' rd'. stalled_loop ack bg (q # qs) st rd s = stalled_loop ack bg qs st' rd' s1"
    by (simp add: op_simps sp s1_def Let_def) blast
  then obtain st' rd' where "stalled_loop ack bg (q # qs) st rd s = stalled_loop ack bg qs st' rd' s1" by blast
  with Cons.IH [OF ok] Cons.prems(2) v show ?case by (simp add: returns_at_def)
qed

lemma returns_at_if: "(b \<Longrightarrow> returns_at P m s) \<Longrightarrow> (\<not> b \<Longrightarrow> returns_at P n s) \<Longrightarrow> returns_at P (if b then m else n) s"
  by simp

lemma returns_at_prod: "(\<And>a b. p = (a, b) \<Longrightarrow> returns_at P (g a b) s) \<Longrightarrow> returns_at P (case p of (a, b) \<Rightarrow> g a b) s"
  by (cases p) simp

lemma check_send_returns:
  assumes "sq_ok s"
  shows "returns_at (\<lambda>t. sq_ok t \<and> link_view t = link_view s) (check_send_command p e) s"
proof -
  let ?P = "\<lambda>t. sq_ok t \<and> link_view t = link_view s"
  have "returns_at (\<lambda>t. sq_ok t \<and> link_view t = link_view s \<and> sq_ce t = sq_ce s)
      (stalled_loop ack bg (pending_queues s) MAX_CLOCK MAX_CLOCK) s" for ack bg
    by (rule stalled_returns [OF assms]) simp
  note st = this
  have kick: "?P t \<Longrightarrow> ?P (t\<lparr>need_kick_clock := c\<rparr>)" for t c
    using sq_ok_link [of t "t\<lparr>need_kick_clock := c\<rparr>"] by (simp add: link_view_def sq_ok_def accounts_ok_def)
  have delta: "sq_ok t \<Longrightarrow> \<exists>d. u64_of_double (MIN_REQTIME_DELTA * est_freq (sq_ce t)) = Some d" for t
    by (intro u64_of_double_some) (auto simp: sq_ok_def clock_ok_def)
  show ?thesis
    unfolding check_send_command_def
    apply (rule returns_at_get, rule returns_at_if, rule returns_at_ret, simp add: assms)
    apply (rule returns_at_get, rule returns_at_if, rule returns_at_ret, simp add: assms)
    apply (rule returns_at_get, rule returns_at_get, rule returns_at_get, rule returns_at_get)
    apply (rule returns_at_bind [OF st])
    apply (rule returns_at_prod, rule returns_at_get, rule returns_at_prod)
    apply (rule returns_at_if, rule returns_at_ret, simp)
    apply (rule returns_at_if, rule returns_at_if, rule returns_at_ret, simp)
     apply (rule returns_at_then [where Q = ?P], simp add: returns_at_def op_simps kick, rule returns_at_ret, assumption)
    subgoal premises prems for r t stalled ready rb freq
    proof -
      have t: "?P t" using prems by simp
      obtain d where d: "u64_of_double (MIN_REQTIME_DELTA * freq) = Some d" using delta [of t] prems by auto
      show ?thesis unfolding d using t kick by (auto simp: returns_at_def op_simps Let_def)
    qed
    done
qed

text \<open>
  The loop of \<open>command_event\<close> ends: every round fills one more block, and there are twelve.
\<close>

lemma write_blocks_returns: "returns (\<lambda>t. sq_ok t \<and> link_view t = v) (write_blocks e buf)"
  unfolding write_blocks_def
  by (intro returns_if returns_then returns_ret returns_do_write returns_set)
    (simp_all add: sq_ok_defs link_view_def)

lemma command_loop_returns:
  assumes "sq_ok s" "unat (receive_seq s) + MAX_PENDING_BLOCKS < 2 ^ 63" "MAX_PENDING_BLOCKS < n + length (sent_queue s)"
  shows "returns_at sq_ok (command_loop n e buf) s"
  using assms
proof (induction n arbitrary: s buf)
  case 0
  then show ?case by (simp add: sq_ok_def window_ok_def)
next
  case (Suc n)
  let ?P = "\<lambda>t. sq_ok t \<and> link_view t = link_view s"
  show ?case unfolding command_loop.simps
  proof (rule returns_at_bind [OF check_send_returns [OF Suc.prems(1)]])
    fix waketime t
    assume chk: "check_send_command (length buf) e s = Ret waketime t" and t: "?P t"
    have fl: "returns ?P (if waketime \<noteq> PR_NOW \<or> length buf + MESSAGE_MAX > MESSAGE_MAX * MAX_PENDING_BLOCKS
        then then_op (write_blocks e buf) (ret []) else ret buf)"
      by (intro returns_if returns_then returns_ret write_blocks_returns)
    show "returns_at sq_ok
        (bind_op (if waketime \<noteq> PR_NOW \<or> length buf + MESSAGE_MAX > MESSAGE_MAX * MAX_PENDING_BLOCKS
            then then_op (write_blocks e buf) (ret []) else ret buf) (\<lambda>buf.
         if waketime \<noteq> PR_NOW then ret waketime
         else bind_op (build_and_send_command (length buf) e) (\<lambda>blk. command_loop n e (buf @ blk)))) t"
    proof (rule returns_at_bind [OF returns_atI [OF fl t]], rule returns_at_if)
      fix buf2 :: "u8 list" and u :: serialqueue
      assume u: "?P u"
      then show "returns_at sq_ok (ret waketime) u" by (simp add: returns_at_def op_simps)
      assume now: "\<not> waketime \<noteq> PR_NOW"
      have w: "unat (send_seq s) = unat (receive_seq s) + length (sent_queue s)" using Suc.prems(1) by (simp add: sq_ok_def window_ok_def)
      have "window_open (send_seq s) (receive_seq s)" using check_send_window [OF chk] now by simp
      then have "send_seq s - receive_seq s < 12 \<or> receive_seq s = - 1" by (simp add: window_open_def)
      moreover have "receive_seq s \<noteq> - 1"
        using Suc.prems(2) by (auto simp: unsigned_minus_1_eq_mask mask_eq_exp_minus_1)
      moreover have "unat (send_seq s - receive_seq s) = length (sent_queue s)"
        using w by (simp add: unat_sub_if')
      ultimately have room: "length (sent_queue s) < MAX_PENDING_BLOCKS" by (simp add: word_less_nat_alt)
      have ur: "sq_ok u" "length (sent_queue u) = length (sent_queue s)" "receive_seq u = receive_seq s" "send_seq u = send_seq s"
        using u by (auto simp: link_view_def)
      have b: "returns_at (\<lambda>t. sq_ok t \<and> receive_seq t = receive_seq u \<and> length (sent_queue t) = Suc (length (sent_queue u)))
          (build_and_send_command (length buf2) e) u"
        using room ur w Suc.prems(2) by (intro build_returns) simp_all
      show "returns_at sq_ok (bind_op (build_and_send_command (length buf2) e) (\<lambda>blk. command_loop n e (buf2 @ blk))) u"
        by (rule returns_at_bind [OF b], rule Suc.IH) (use ur Suc.prems(2,3) in simp_all)
    qed
  qed
qed

lemma command_event_returns:
  assumes "sq_ok s" "sq_room s" "MAX_PENDING_BLOCKS < n"
  shows "returns_at sq_ok (command_event n e) s"
proof -
  have "unat (send_seq s) = unat (receive_seq s) + length (sent_queue s)" using assms(1) by (simp add: sq_ok_def window_ok_def)
  moreover have "unat (send_seq s) < 2 ^ 62" using assms(2) by (simp add: sq_room_def word_less_nat_alt)
  ultimately show ?thesis unfolding command_event_def using assms(1,3) by (intro command_loop_returns) simp_all
qed

text \<open>\<open>sq_ok\<close> depends on the window and on what \<open>rest_view\<close> shows.\<close>

definition rest_view :: "serialqueue \<Rightarrow> pollreactor_timer list \<times> clock_estimate \<times> u8 list \<times>
    (nat \<Rightarrow> command_queue) \<times> nat list \<times> int \<times> int" where
  "rest_view s = (timers s, sq_ce s, input_buf s, cq_at s, pending_queues s, ready_bytes s, upcoming_bytes s)"



lemma ack_loop_returns: "\<exists>r t. ack_loop rseq q sq s = Ret r t \<and> rest_view t = rest_view s"
proof (induction sq arbitrary: q s)
  case (Cons m rest)
  show ?case
  proof (cases "rseq = q + 1")
    case False
    let ?s = "s\<lparr>need_ack_bytes := need_ack_bytes s - int (qm_len m), sent_queue := rest, old_sent := debug_queue_add (old_sent s) m\<rparr>"
    obtain r t where "ack_loop rseq (q + 1) rest ?s = Ret r t" "rest_view t = rest_view ?s" using Cons by blast
    with False show ?thesis by (simp add: op_simps rest_view_def)
  qed (simp add: op_simps rest_view_def)
qed (simp add: op_simps rest_view_def)









lemma ack_loop_views: "ack_loop rseq q sq s = Ret r t \<Longrightarrow> rest_view t = rest_view s"
  using ack_loop_returns [of rseq q sq s] by auto




definition sq_idle :: "serialqueue \<Rightarrow> bool" where
  "sq_idle s \<longleftrightarrow> sq_ok s \<and> length (input_buf s) < MESSAGE_MAX"

















subsection \<open>The queue as a client of the reactor\<close>

text \<open>Every operation of the queue treats the timers as the reactor demands.\<close>

definition keeps_timers :: "(serialqueue, 'a) op \<Rightarrow> bool" where
  "keeps_timers m \<longleftrightarrow> (\<forall>s r t. m s = Ret r t \<longrightarrow> reactor_step s t)"

lemma keeps_timers_bind: "keeps_timers m \<Longrightarrow> (\<And>x. keeps_timers (f x)) \<Longrightarrow> keeps_timers (bind_op m f)"
  unfolding keeps_timers_def bind_op_Ret_iff by (meson reactor_step_trans)

lemma keeps_timers_then: "keeps_timers m \<Longrightarrow> keeps_timers n \<Longrightarrow> keeps_timers (then_op m n)"
  unfolding then_op_def by (rule keeps_timers_bind)

lemma keeps_timers_same: "preserves (\<lambda>s. (timers s, next_timer s)) m \<Longrightarrow> keeps_timers m"
  unfolding keeps_timers_def preserves_def by (auto intro!: reactor_step_same)

lemma keeps_timers_update: "keeps_timers (pollreactor_update_timer pos w)"
  unfolding keeps_timers_def using reactor_step_update by blast

lemma keeps_timers_if: "keeps_timers m \<Longrightarrow> keeps_timers n \<Longrightarrow> keeps_timers (if b then m else n)"
  by simp

lemma preserves_timers_port:
  "preserves (\<lambda>s. (timers s, next_timer s)) get_monotonic" "preserves (\<lambda>s. (timers s, next_timer s)) write_result"
  "preserves (\<lambda>s. (timers s, next_timer s)) pollreactor_do_exit"
  by (auto simp: preserves_def get_monotonic_def write_result_def pollreactor_do_exit_def op_simps)

lemma preserves_timers_can_write: "preserves (\<lambda>s. (timers s, next_timer s)) (can_write_loop buf)"
proof (induction buf rule: can_write_loop.induct)
  case (1 buf)
  show ?case
  proof (cases "buf = []")
    case False
    have "preserves (\<lambda>s. (timers s, next_timer s)) (can_write_loop (drop 8 buf))" using 1 [OF False, of False] by simp
    then show ?thesis
      by (subst can_write_loop.simps, intro preserves_if preserves_bind preserves_then preserves_pure preserves_timers_port
          preserves_set) simp_all
  qed (simp add: can_write_loop.simps preserves_pure)
qed

lemma preserves_timers_do_write: "preserves (\<lambda>s. (timers s, next_timer s)) (do_write buf)"
  unfolding do_write_def
  by (intro preserves_if preserves_bind preserves_pure preserves_timers_port preserves_timers_can_write preserves_set) simp_all

lemma preserves_timers_pack: "preserves (\<lambda>s. (timers s, next_timer s)) (pack_loop n p)"
  by (induction n arbitrary: p) (auto intro!: preserves_intros simp: take_ready_def Let_def split: prod.split)

lemma keeps_timers_pure: "keeps_timers (ret x)" "keeps_timers (get_op g)" "keeps_timers undef_op" "keeps_timers (option_op y)"
  by (rule keeps_timers_same, rule preserves_pure)+

lemma keeps_timers_set: "(\<And>s. timers (g s) = timers s \<and> next_timer (g s) = next_timer s) \<Longrightarrow> keeps_timers (set_op g)"
  by (rule keeps_timers_same, rule preserves_set) simp

lemma keeps_timers_build: "keeps_timers (build_and_send_command p e)"
  unfolding build_and_send_command_def
  by (intro keeps_timers_if keeps_timers_bind keeps_timers_then keeps_timers_pure keeps_timers_update keeps_timers_set
      keeps_timers_same [OF preserves_timers_pack]) simp

lemma keeps_timers_check: "keeps_timers (check_send_command p e)"
  by (rule keeps_timers_same, rule check_send_preserves) (simp_all add: stalled_preserves)

lemma keeps_timers_command: "keeps_timers (command_loop n e buf)"
proof (induction n arbitrary: buf)
  case (Suc n)
  show ?case
    unfolding command_loop.simps write_blocks_def
    by (intro keeps_timers_if keeps_timers_bind keeps_timers_then keeps_timers_pure keeps_timers_check keeps_timers_build
        keeps_timers_same [OF preserves_timers_do_write] keeps_timers_set Suc) simp_all
qed (simp add: keeps_timers_pure)

lemma keeps_timers_retransmit: "keeps_timers (retransmit_event e)"
  unfolding retransmit_event_def
  by (rule keeps_timers_same, intro preserves_if preserves_bind preserves_then preserves_pure preserves_let
      preserves_timers_do_write preserves_get_timer preserves_set) simp_all

interpretation sq_reactor: reactor_client "sq_timer_cb n" for n
proof
  fix cb e s r t
  assume "sq_timer_cb n cb e s = Ret r t"
  moreover have "keeps_timers (sq_timer_cb n cb e)"
    by (cases cb) (simp_all add: sq_timer_cb_def command_event_def keeps_timers_retransmit keeps_timers_command keeps_timers_pure)
  ultimately show "reactor_step s t" by (simp add: keeps_timers_def)
qed

subsection \<open>A new queue\<close>

lemma serialqueue_alloc_ok:
  assumes "serialqueue_alloc env fd ty cid p th = Some s" "ty \<noteq> SQT_DEBUGFILE"
    "\<forall>q. ready_queue (cq_at env q) = [] \<and> upcoming_queue (cq_at env q) = []"
  shows "sq_idle s" "sq_room s" "link_view s = (1, 1, [])" "timers_seen s"
proof -
  obtain pf where p: "p = Some pf" using assms(1) by (auto simp: serialqueue_alloc_def split: option.splits)
  have "timers s = [\<lparr>pt_waketime = PR_NEVER, pt_callback = Some Retransmit_event\<rparr>, \<lparr>pt_waketime = PR_NEVER, pt_callback = Some Command_event\<rparr>] \<and>
      next_timer s = PR_NEVER \<and> input_buf s = [] \<and> sq_ce s = \<lparr>last_clock = 0, conv_clock = 0, conv_time = 0, est_freq = 0\<rparr> \<and>
      send_seq s = 1 \<and> receive_seq s = 1 \<and> sent_queue s = [] \<and> pending_queues s = [] \<and> ready_bytes s = 0 \<and> upcoming_bytes s = 0 \<and>
      cq_at s = cq_at env"
    using assms(1,2) unfolding p
    by (auto simp: serialqueue_alloc_def pollreactor_alloc_def pollreactor_add_fd_def pollreactor_add_timer_def op_simps Let_def
        numeral_2_eq_2 split: if_splits)
  note f = this
  show "link_view s = (1, 1, [])" "sq_room s" using f by (simp_all add: link_view_def sq_room_def)
  show "timers_seen s" using f by (auto simp: timers_seen_def less_Suc_eq)
  show "sq_idle s" using f assms(3)
    by (simp add: sq_idle_def sq_ok_defs queues_ok_def ready_total_def upcoming_total_def)
qed

subsection \<open>Example\<close>

definition example_msg :: queue_message where
  "example_msg = message_alloc\<lparr>qm_msg := 9 # replicate 63 0, qm_len := 1\<rparr>"

text \<open>A queue on a UART with one message that waits to be sent.\<close>

definition example_sq :: serialqueue where
  "example_sq =
     \<lparr>must_exit = False, next_timer = 10, fds = [], fd_callbacks = [],
      timers = [\<lparr>pt_waketime = 10, pt_callback = Some Retransmit_event\<rparr>, \<lparr>pt_waketime = 12, pt_callback = Some Command_event\<rparr>],
      serial_fd = 3, serial_fd_type = SQT_UART, client_id = 0, pipe_fds = (4, 5), input_buf = [], sq_need_sync = 0,
      receive_waiting = False, receive_window = 0, bittime_adjust = 0, idle_time = 0,
      sq_ce = \<lparr>last_clock = 0, conv_clock = 0, conv_time = 0, est_freq = 0\<rparr>,
      last_receive_sent_time = 0, send_seq = 1, receive_seq = 1, ignore_nak_seq = 0, last_ack_seq = 0, retransmit_seq = 0,
      rtt_sample_seq = 0, sent_queue = [], srtt = 0, rttvar = 0, rto = MIN_RTO,
      cq_at = (\<lambda>q. \<lparr>upcoming_queue = [], ready_queue = (if q = 0 then [example_msg] else [])\<rparr>),
      pending_queues = [0], ready_bytes = 1, upcoming_bytes = 0, need_ack_bytes = 0, last_ack_bytes = 0,
      need_kick_clock = MAX_CLOCK, notify_queue = [], last_write_fail_time = 0, receive_queue = [], fast_readers = [],
      old_sent = [], old_receive = [], bytes_write = 0, bytes_read = 0, bytes_retransmit = 0, bytes_invalid = 0,
      monotonic = (\<lambda>_. 0), monotonic_reads = 0, serial_in = (\<lambda>_. Read_eof), serial_reads = 0,
      write_fails = (\<lambda>_. False), writes = 0, serial_out = [], can_out = [], pipe_kicks = 0, wakeups = 0\<rparr>"

lemma example_msg_ok: "msg_ok example_msg"
  by (simp add: example_msg_def msg_ok_def message_alloc_def)

lemma example_sq_ok: "sq_idle example_sq" "sq_room example_sq" "serial_fd_type example_sq = SQT_UART"
    "timers_seen example_sq" "serial_in example_sq m = Read_eof"
proof -
  show "sq_idle example_sq"
    by (simp add: example_sq_def sq_idle_def sq_ok_defs queues_ok_def ready_total_def upcoming_total_def example_msg_ok)
      (simp add: example_msg_def message_alloc_def)
qed (auto simp: example_sq_def sq_room_def timers_seen_def less_Suc_eq)


subsection \<open>Properties\<close>



text \<open>
  C27: What \<open>command_event\<close> puts on the line. It appends blocks to those waiting for an acknowledgement, numbered on
  from \<open>send_seq\<close>, each well formed for the firmware, none of them beyond the window of twelve; and the bytes it
  passes to \<open>write()\<close> are exactly these blocks, in order, in chunks that fit its buffer.
\<close>

theorem command_event_sends:
  assumes "command_event n e s = Ret w t" "serial_fd_type s \<noteq> SQT_CAN"
  shows "\<exists>qms cs. link_view t = (send_seq s + of_nat (length qms), receive_seq s, sent_queue s @ qms) \<and>
     numbered_blocks (send_seq s) qms \<and>
     (\<forall>i < length qms. window_open (send_seq s + of_nat i) (receive_seq s)) \<and>
     wrote s cs t \<and> concat cs = concat (map qm_bytes qms) \<and> (\<forall>c\<in>set cs. length c \<le> MESSAGE_MAX * MAX_PENDING_BLOCKS)"
  using command_event_effect [OF assms(1)] assms(2) unfolding sends_def by metis

theorem command_event_sends_witness:
  "\<exists>w t qms cs. command_event 13 0 example_sq = Ret w t \<and> sent_queue t = sent_queue example_sq @ qms \<and>
     wrote example_sq cs t \<and> concat cs = concat (map qm_bytes qms)"
proof -
  obtain w t where t: "command_event 13 0 example_sq = Ret w t"
    using command_event_returns [OF _ example_sq_ok(2), of 13 0] example_sq_ok(1) by (auto simp: returns_at_def sq_idle_def)
  from command_event_sends [OF t] example_sq_ok(3) t show ?thesis by (auto simp: link_view_def)
qed

text \<open>
  C28: The retransmission buffer. When the unacknowledged blocks are numbered and at most twelve, \<open>retransmit_event\<close>
  writes one chunk, a SYNC byte and all of them, that fits into its array of 769 bytes, and leaves the window as it is.
\<close>

theorem retransmit_fits_buffer:
  assumes "sq_ok s" "serial_fd_type s \<noteq> SQT_CAN"
  shows "\<exists>w t buf. retransmit_event e s = Ret w t \<and> sq_ok t \<and> link_view t = link_view s \<and> wrote s [buf] t \<and>
     buf = MESSAGE_SYNC # concat (map qm_bytes (sent_queue s)) \<and> length buf \<le> MESSAGE_MAX * MAX_PENDING_BLOCKS + 1"
proof -
  obtain w t where t: "retransmit_event e s = Ret w t" "sq_ok t" "link_view t = link_view s"
    using retransmit_returns [OF assms(1), of e] by (auto simp: returns_at_def)
  moreover have "length (MESSAGE_SYNC # concat (map qm_bytes (sent_queue s))) \<le> MESSAGE_MAX * MAX_PENDING_BLOCKS + 1"
    using assms(1) retransmit_fits [of "receive_seq s" "sent_queue s"] by (simp add: sq_ok_def window_ok_def)
  ultimately show ?thesis using retransmit_effect(2) [OF t(1) assms(2)] by blast
qed

theorem retransmit_fits_buffer_witness:
  "\<exists>w t. retransmit_event 0 example_sq = Ret w t \<and> wrote example_sq [[MESSAGE_SYNC]] t"
  using retransmit_fits_buffer [of example_sq 0] example_sq_ok(1,3)
  by (auto simp: sq_idle_def) (auto simp: example_sq_def)

text \<open>
  The reactor runs no timer late. After a pass over the timers of a queue, \<open>next_timer\<close> is not behind any of
  them, whatever the callbacks have rescheduled; and the timeout for \<open>poll()\<close> is zero or at most the time to the
  earliest of them, rounded up to milliseconds and at least one, and never more than a second.
\<close>

theorem reactor_misses_no_timer:
  assumes "timers_seen s" "pollreactor_check_timers (sq_timer_cb n) e busy s = Ret timeout t"
  shows "timers_seen t \<and> 0 \<le> timeout \<and> timeout \<le> 1000 \<and>
     (\<forall>tm\<in>set (timers t). timeout \<le> max 1 \<lceil>(pt_waketime tm - e) * 1000\<rceil>)"
proof -
  have seen: "timers_seen t" by (rule sq_reactor.check_timers_seen [OF assms(2,1)])
  consider "timeout = 0" | "timeout = sleep_time (next_timer t) e"
    using assms(2) by (auto simp: pollreactor_check_timers_def op_simps split: outcome.splits if_splits)
  then show ?thesis
  proof cases
    case 2
    have "sleep_time (next_timer t) e \<le> max 1 \<lceil>(pt_waketime tm - e) * 1000\<rceil>" if "tm \<in> set (timers t)" for tm
    proof -
      have "next_timer t \<le> pt_waketime tm" using seen that by (auto simp: timers_seen_def in_set_conv_nth)
      then have "\<lceil>(next_timer t - e) * 1000\<rceil> \<le> \<lceil>(pt_waketime tm - e) * 1000\<rceil>" by (intro ceiling_mono) simp
      moreover have "(if a < 1 then 1 else if a > 1000 then 1000 else a) \<le> max 1 b" if "a \<le> b" for a b :: int
        using that by auto
      ultimately show ?thesis unfolding sleep_time_def Let_def by blast
    qed
    with 2 seen sleep_time_bounds [of "next_timer t" e] show ?thesis by auto
  qed (use seen in \<open>auto simp: le_max_iff_disj\<close>)
qed

theorem reactor_misses_no_timer_witness:
  "pollreactor_check_timers (sq_timer_cb 13) (19 / 2) False example_sq = Ret 500 example_sq \<and> timers_seen example_sq"
proof -
  have "pollreactor_check_timers (sq_timer_cb 13) (19 / 2) False example_sq = Ret 500 example_sq"
    by (simp add: pollreactor_check_timers_def op_simps sleep_time_def) (simp add: example_sq_def)
  from this reactor_misses_no_timer [OF example_sq_ok(4) this] show ?thesis by simp
qed

end
