(* ===== verification/Gobackn.thy ===== *)
theory Gobackn
  imports Prelude
begin

text \<open>
  The protocol of the serial link without its encodings: a sliding window of twelve frames over channels
  that lose frames, with unbounded sequence numbers. The host starts at 1 and the firmware expects 16
  (0 in four bits), so that the first answer of the firmware tells the host where to start.
\<close>

type_synonym frame = "nat \<times> u8 list"

record gbn =
  g_acked :: nat
  g_next :: nat
  g_window :: "frame list"
  g_expect :: nat
  g_to_mcu :: "frame list"
  g_to_host :: "nat list"
  g_built :: "frame list"
  g_taken :: "frame list"

text \<open>The first number of the synchronised protocol, and what has been built from there on.\<close>

abbreviation (input) SYNC_SEQ :: nat where "SYNC_SEQ \<equiv> 16"
abbreviation (input) WINDOW :: nat where "WINDOW \<equiv> 12"

definition g_synced :: "gbn \<Rightarrow> frame list" where
  "g_synced g = filter (\<lambda>f. SYNC_SEQ \<le> fst f) (g_built g)"

definition gbn_send :: "frame list \<Rightarrow> gbn \<Rightarrow> gbn" where
  "gbn_send fs g = g\<lparr>g_next := g_next g + length fs, g_window := g_window g @ fs, g_to_mcu := g_to_mcu g @ fs,
                     g_built := g_built g @ fs\<rparr>"

definition gbn_ack :: "nat \<Rightarrow> gbn \<Rightarrow> gbn" where
  "gbn_ack a g =
     (if a = g_acked g \<or> (g_next g < a \<and> g_acked g \<noteq> 1) then g
      else g\<lparr>g_acked := a, g_next := max (g_next g) a, g_window := drop (a - g_acked g) (g_window g)\<rparr>)"

inductive gbn_step :: "gbn \<Rightarrow> gbn \<Rightarrow> bool" where
  send: "map fst fs = [g_next g ..< g_next g + length fs] \<Longrightarrow> g_next g + length fs \<le> g_acked g + WINDOW \<Longrightarrow>
    gbn_step g (gbn_send fs g)"
| resend: "gbn_step g (g\<lparr>g_to_mcu := g_to_mcu g @ g_window g\<rparr>)"
| lose_frame: "g_to_mcu g = a @ f # b \<Longrightarrow> gbn_step g (g\<lparr>g_to_mcu := a @ b\<rparr>)"
| lose_answer: "g_to_host g = a @ q # b \<Longrightarrow> gbn_step g (g\<lparr>g_to_host := a @ b\<rparr>)"
| accept: "g_to_mcu g = f # b \<Longrightarrow> fst f = g_expect g \<Longrightarrow>
    gbn_step g (g\<lparr>g_to_mcu := b, g_expect := Suc (g_expect g), g_taken := g_taken g @ [f]\<rparr>)"
| answer: "gbn_step g (g\<lparr>g_to_host := g_to_host g @ [g_expect g]\<rparr>)"
| ack: "g_to_host g = a # b \<Longrightarrow> gbn_step g (gbn_ack a (g\<lparr>g_to_host := b\<rparr>))"

definition gbn_start :: gbn where
  "gbn_start = \<lparr>g_acked = 1, g_next = 1, g_window = [], g_expect = SYNC_SEQ, g_to_mcu = [], g_to_host = [],
                g_built = [], g_taken = []\<rparr>"

subsection \<open>The invariant\<close>

definition gbn_phase :: "gbn \<Rightarrow> bool" where
  "gbn_phase g \<longleftrightarrow>
     (g_acked g = 1 \<and> 1 \<le> g_next g \<and> g_next g \<le> 1 + WINDOW \<and> g_expect g = SYNC_SEQ) \<or>
     (SYNC_SEQ \<le> g_acked g \<and> g_acked g \<le> g_expect g \<and> g_expect g \<le> g_next g \<and> g_next g \<le> g_acked g + WINDOW)"

definition gbn_window :: "gbn \<Rightarrow> bool" where
  "gbn_window g \<longleftrightarrow> map fst (g_window g) = [g_acked g ..< g_next g] \<and> (\<exists>gone. g_built g = gone @ g_window g)"

definition gbn_frames :: "gbn \<Rightarrow> bool" where
  "gbn_frames g \<longleftrightarrow> set (g_to_mcu g) \<subseteq> set (g_built g) \<and>
     (\<forall>f\<in>set (g_to_mcu g). g_expect g < fst f + 16) \<and>
     sorted_wrt (\<lambda>e f. fst e + 1 < fst f + 16) (g_to_mcu g)"

definition gbn_answers :: "gbn \<Rightarrow> bool" where
  "gbn_answers g \<longleftrightarrow> sorted (g_to_host g) \<and>
     (\<forall>a\<in>set (g_to_host g). SYNC_SEQ \<le> a \<and> g_acked g \<le> a \<and> a \<le> g_expect g)"

definition gbn_log :: "gbn \<Rightarrow> bool" where
  "gbn_log g \<longleftrightarrow> map fst (g_synced g) = [SYNC_SEQ ..< g_next g] \<and>
     (\<forall>f\<in>set (g_built g). 1 \<le> fst f \<and> fst f < g_next g) \<and>
     (\<exists>k \<le> WINDOW. k \<le> length (g_built g) \<and> g_synced g = drop k (g_built g) \<and>
        (g_acked g = 1 \<longrightarrow> k = length (g_built g) \<and> g_next g = 1 + k)) \<and>
     g_taken g = take (g_expect g - SYNC_SEQ) (g_synced g)"

definition gbn_inv :: "gbn \<Rightarrow> bool" where
  "gbn_inv g \<longleftrightarrow> gbn_phase g \<and> gbn_window g \<and> gbn_frames g \<and> gbn_answers g \<and> gbn_log g"

lemma gbn_inv_start: "gbn_inv gbn_start"
  by (simp add: gbn_inv_def gbn_start_def gbn_phase_def gbn_window_def gbn_frames_def gbn_answers_def gbn_log_def
      g_synced_def)

lemma gbn_acked_le: "gbn_phase g \<Longrightarrow> g_acked g \<le> g_next g" and
  gbn_next_le: "gbn_phase g \<Longrightarrow> g_next g \<le> g_acked g + WINDOW"
  by (auto simp: gbn_phase_def)

lemma sorted_wrt_append_sym:
  "sorted_wrt P xs \<Longrightarrow> sorted_wrt P ys \<Longrightarrow> (\<And>x y. x \<in> set xs \<Longrightarrow> y \<in> set ys \<Longrightarrow> P x y) \<Longrightarrow> sorted_wrt P (xs @ ys)"
  by (simp add: sorted_wrt_append)

lemma sorted_wrt_upt_frames:
  assumes "map fst fs = [n ..< n + length fs]"
  shows "sorted_wrt (\<lambda>e f. fst e < fst f) (fs :: frame list)"
proof -
  have "sorted_wrt (<) (map fst fs)" unfolding assms by simp
  then show ?thesis by (simp add: sorted_wrt_map)
qed

lemma frames_fst: "map fst fs = [m ..< n] \<Longrightarrow> f \<in> set fs \<Longrightarrow> m \<le> fst f \<and> fst f < n"
  by (metis atLeastLessThan_iff imageI list.set_map set_upt)

lemma gbn_inv_send:
  assumes "gbn_inv g" "map fst fs = [g_next g ..< g_next g + length fs]" "g_next g + length fs \<le> g_acked g + WINDOW"
  shows "gbn_inv (gbn_send fs g)"
proof -
  have ph: "gbn_phase g" and wi: "gbn_window g" and fr: "gbn_frames g" and an: "gbn_answers g" and lo: "gbn_log g"
    using assms(1) by (auto simp: gbn_inv_def)
  have fs: "g_next g \<le> fst f" "fst f < g_next g + length fs" if "f \<in> set fs" for f
    using frames_fst [OF assms(2) that] by auto
  then have fsb: "\<forall>f\<in>set fs. 1 \<le> fst f \<and> g_next g \<le> fst f \<and> fst f < g_next g + length fs"
    using ph by (fastforce simp: gbn_phase_def)
  have old: "fst f < g_next g" if "f \<in> set (g_to_mcu g)" for f
    using fr lo that by (auto simp: gbn_frames_def gbn_log_def)
  have "gbn_phase (gbn_send fs g)" using ph assms(3) by (auto simp: gbn_phase_def gbn_send_def)
  moreover have "gbn_window (gbn_send fs g)"
  proof -
    have "map fst (g_window g @ fs) = [g_acked g ..< g_next g] @ [g_next g ..< g_next g + length fs]"
      using wi unfolding map_append assms(2) gbn_window_def by blast
    also have "\<dots> = [g_acked g ..< g_next g + length fs]"
      by (rule upt_add_eq_append [OF gbn_acked_le [OF ph], symmetric])
    finally show ?thesis using wi by (auto simp: gbn_window_def gbn_send_def)
  qed
  moreover have "gbn_frames (gbn_send fs g)"
  proof -
    have "sorted_wrt (\<lambda>e f. fst e + 1 < fst f + 16) fs"
      by (rule sorted_wrt_mono_rel [OF _ sorted_wrt_upt_frames [OF assms(2)]]) auto
    moreover have "g_expect g < fst f + 16" if "f \<in> set fs" for f
      using ph fs(1) [OF that] gbn_acked_le [OF ph] by (auto simp: gbn_phase_def)
    moreover have "fst e + 1 < fst f + 16" if "e \<in> set (g_to_mcu g)" "f \<in> set fs" for e f
      using old [OF that(1)] fs(1) [OF that(2)] by simp
    ultimately show ?thesis using fr by (auto simp: gbn_frames_def gbn_send_def sorted_wrt_append)
  qed
  moreover have "gbn_answers (gbn_send fs g)" using an by (simp add: gbn_answers_def gbn_send_def)
  moreover have "gbn_log (gbn_send fs g)"
  proof -
    obtain k where k: "k \<le> WINDOW" "k \<le> length (g_built g)" "g_synced g = drop k (g_built g)"
      "g_acked g = 1 \<longrightarrow> k = length (g_built g) \<and> g_next g = 1 + k" using lo by (auto simp: gbn_log_def)
    show ?thesis
    proof (cases "g_acked g = 1")
      case True
      have low: "fst f < SYNC_SEQ" if "f \<in> set fs" for f using fs [OF that] assms(3) True by simp
      have syn: "g_synced (gbn_send fs g) = []"
        using k True by (auto simp: g_synced_def gbn_send_def filter_empty_conv dest!: low)
      have "g_next g + length fs \<le> 13" "g_expect g = SYNC_SEQ" using assms(3) True ph by (auto simp: gbn_phase_def)
      with lo fsb syn k(4) True show ?thesis
        by (fastforce simp: gbn_log_def gbn_send_def intro!: exI [of _ "k + length fs"])
    next
      case False
      then have n: "SYNC_SEQ \<le> g_next g" using ph by (auto simp: gbn_phase_def)
      have syn: "g_synced (gbn_send fs g) = g_synced g @ fs"
        using fs(1) n by (auto simp: g_synced_def gbn_send_def intro!: filter_True dest!: fs(1))
      have "length (map fst (g_synced g)) = g_next g - SYNC_SEQ" using lo unfolding gbn_log_def by (metis length_upt)
      then have ln: "length (g_synced g) = g_next g - SYNC_SEQ" by simp
      moreover have "map fst (g_synced g @ fs) = [SYNC_SEQ ..< g_next g + length fs]"
        using lo unfolding map_append assms(2) upt_add_eq_append [OF n] by (simp add: gbn_log_def)
      moreover have "1 \<le> fst f \<and> fst f < g_next g + length fs" if "f \<in> set (g_built g @ fs)" for f
        using that lo fsb by (fastforce simp: gbn_log_def)
      moreover have "g_taken g = take (g_expect g - SYNC_SEQ) (g_synced g @ fs)"
        using lo ph False ln by (auto simp: gbn_log_def gbn_phase_def)
      ultimately show ?thesis using syn k False
        unfolding gbn_log_def syn by (auto simp: gbn_send_def intro!: exI [of _ k])
    qed
  qed
  ultimately show ?thesis by (simp add: gbn_inv_def)
qed

lemma gbn_inv_ack:
  assumes "gbn_inv g" "g_to_host g = a # b"
  shows "gbn_inv (gbn_ack a (g\<lparr>g_to_host := b\<rparr>))"
proof -
  have ph: "gbn_phase g" and wi: "gbn_window g" and fr: "gbn_frames g" and an: "gbn_answers g" and lo: "gbn_log g"
    using assms(1) by (auto simp: gbn_inv_def)
  have a: "SYNC_SEQ \<le> a" "g_acked g \<le> a" "a \<le> g_expect g" "\<forall>x\<in>set b. a \<le> x"
    using an assms(2) by (auto simp: gbn_answers_def)
  let ?h = "gbn_ack a (g\<lparr>g_to_host := b\<rparr>)"
  have len: "length (g_window g) = g_next g - g_acked g"
    using wi by (metis gbn_window_def length_map length_upt)
  show ?thesis
  proof (cases "a = g_acked g")
    case True
    then show ?thesis using ph wi fr an lo assms(2)
      by (auto simp: gbn_inv_def gbn_ack_def gbn_phase_def gbn_window_def gbn_frames_def gbn_answers_def gbn_log_def g_synced_def)
  next
    case neq: False
    show ?thesis
    proof (cases "g_acked g = 1")
      case True
      then have e: "g_expect g = SYNC_SEQ" "g_next g \<le> 13" using ph by (auto simp: gbn_phase_def)
      with a have a16: "a = SYNC_SEQ" by simp
      have h: "?h = g\<lparr>g_acked := SYNC_SEQ, g_next := SYNC_SEQ, g_window := [], g_to_host := b\<rparr>"
        using neq True e len a16 by (simp add: gbn_ack_def)
      show ?thesis unfolding h using ph wi fr an lo e assms(2) a True
        by (auto simp: gbn_inv_def gbn_phase_def gbn_window_def gbn_frames_def gbn_answers_def gbn_log_def g_synced_def)
    next
      case False
      then have p: "SYNC_SEQ \<le> g_acked g" "g_expect g \<le> g_next g" "g_next g \<le> g_acked g + WINDOW"
        using ph by (auto simp: gbn_phase_def)
      have h: "?h = g\<lparr>g_acked := a, g_window := drop (a - g_acked g) (g_window g), g_to_host := b\<rparr>"
        using neq False p a by (simp add: gbn_ack_def max_def)
      have w: "map fst (drop (a - g_acked g) (g_window g)) = [a ..< g_next g]"
        using wi a(2) by (simp add: gbn_window_def drop_map [symmetric])
      show ?thesis unfolding h using ph wi fr an lo assms(2) a False p w
        by (auto simp: gbn_inv_def gbn_phase_def gbn_window_def gbn_frames_def gbn_answers_def gbn_log_def g_synced_def
            dest: in_set_dropD) (metis append.assoc append_take_drop_id)
    qed
  qed
qed

lemma gbn_inv_accept:
  assumes "gbn_inv g" "g_to_mcu g = f # b" "fst f = g_expect g"
  shows "gbn_inv (g\<lparr>g_to_mcu := b, g_expect := Suc (g_expect g), g_taken := g_taken g @ [f]\<rparr>)"
proof -
  have ph: "gbn_phase g" and wi: "gbn_window g" and fr: "gbn_frames g" and an: "gbn_answers g" and lo: "gbn_log g"
    using assms(1) by (auto simp: gbn_inv_def)
  have e: "SYNC_SEQ \<le> g_expect g" using ph by (auto simp: gbn_phase_def)
  have f: "f \<in> set (g_built g)" using fr assms(2) by (auto simp: gbn_frames_def)
  then have n: "g_expect g < g_next g" using lo assms(3) by (auto simp: gbn_log_def)
  have fst: "map fst (g_synced g) = [SYNC_SEQ ..< g_next g]" using lo by (simp add: gbn_log_def)
  have "f \<in> set (g_synced g)" using f e assms(3) by (simp add: g_synced_def)
  then obtain i where i: "i < length (g_synced g)" "g_synced g ! i = f" by (auto simp: in_set_conv_nth)
  then have "map fst (g_synced g) ! i = g_expect g" using assms(3) by simp
  with fst i(1) have "i = g_expect g - SYNC_SEQ"
    by (metis add_diff_cancel_left' length_map length_upt nth_upt less_diff_conv add.commute)
  moreover have "Suc (g_expect g) - SYNC_SEQ = Suc (g_expect g - SYNC_SEQ)" using e by simp
  ultimately have tk: "take (Suc (g_expect g) - SYNC_SEQ) (g_synced g) = take (g_expect g - SYNC_SEQ) (g_synced g) @ [f]"
    using i by (simp only: take_Suc_conv_app_nth)
  have ord: "g_expect g + 1 < fst x + 16" if "x \<in> set b" for x
    using fr assms(2,3) that by (auto simp: gbn_frames_def)
  show ?thesis using ph wi fr an lo n e tk ord assms(2)
    by (auto simp: gbn_inv_def gbn_phase_def gbn_window_def gbn_frames_def gbn_answers_def gbn_log_def g_synced_def)
qed

lemma gbn_step_inv: "gbn_step g h \<Longrightarrow> gbn_inv g \<Longrightarrow> gbn_inv h"
proof (induction rule: gbn_step.induct)
  case (resend g)
  have ph: "gbn_phase g" and wi: "gbn_window g" and fr: "gbn_frames g" and lo: "gbn_log g"
    using resend by (auto simp: gbn_inv_def)
  have w: "g_acked g \<le> fst f" "fst f < g_next g" if "f \<in> set (g_window g)" for f
    using frames_fst [OF _ that] wi by (auto simp: gbn_window_def)
  have old: "fst f < g_next g" if "f \<in> set (g_to_mcu g)" for f
    using fr lo that by (auto simp: gbn_frames_def gbn_log_def)
  have "sorted_wrt (<) (map fst (g_window g))" using wi by (simp add: gbn_window_def)
  then have "sorted_wrt (\<lambda>e f. fst e + 1 < fst f + 16) (g_window g)"
    unfolding sorted_wrt_map by (rule sorted_wrt_mono_rel [rotated]) auto
  moreover have "fst e + 1 < fst f + 16" if "e \<in> set (g_to_mcu g)" "f \<in> set (g_window g)" for e f
    using old [OF that(1)] w(1) [OF that(2)] gbn_next_le [OF ph] by simp
  moreover have "g_expect g < fst f + 16" if "f \<in> set (g_window g)" for f
    using w [OF that] ph by (auto simp: gbn_phase_def)
  ultimately have "gbn_frames (g\<lparr>g_to_mcu := g_to_mcu g @ g_window g\<rparr>)"
    using fr wi by (auto simp: gbn_frames_def gbn_window_def sorted_wrt_append)
  with resend show ?case
    by (auto simp: gbn_inv_def gbn_phase_def gbn_window_def gbn_answers_def gbn_log_def g_synced_def)
next
  case (lose_frame g a f b)
  then show ?case
    by (auto simp: gbn_inv_def gbn_phase_def gbn_window_def gbn_frames_def gbn_answers_def gbn_log_def g_synced_def
        sorted_wrt_append)
next
  case (lose_answer g a q b)
  then show ?case
    by (auto simp: gbn_inv_def gbn_phase_def gbn_window_def gbn_frames_def gbn_answers_def gbn_log_def g_synced_def
        sorted_append)
next
  case (answer g)
  then show ?case
    by (auto simp: gbn_inv_def gbn_phase_def gbn_window_def gbn_frames_def gbn_answers_def gbn_log_def g_synced_def
        sorted_append)
qed (auto intro: gbn_inv_send gbn_inv_ack gbn_inv_accept)

lemma gbn_reach_inv: "gbn_step\<^sup>*\<^sup>* gbn_start g \<Longrightarrow> gbn_inv g"
  by (induction rule: rtranclp_induct) (auto intro: gbn_inv_start gbn_step_inv)

text \<open>
  What the invariant says of the frames: what has been taken is a prefix of what has been built since the
  two ends agreed, and it includes all that is not in the window any more.
\<close>

lemma gbn_delivery:
  assumes "gbn_inv g"
  obtains k gone where "k \<le> WINDOW" "drop k (g_built g) = gone @ g_window g"
    "g_taken g = take (length (g_taken g)) (drop k (g_built g))" "length gone \<le> length (g_taken g)"
proof -
  have ph: "gbn_phase g" and wi: "gbn_window g" and lo: "gbn_log g"
    using assms by (auto simp: gbn_inv_def)
  obtain gone where gone: "g_built g = gone @ g_window g" using wi by (auto simp: gbn_window_def)
  obtain k where k: "k \<le> WINDOW" "k \<le> length (g_built g)" "g_synced g = drop k (g_built g)"
      "g_acked g = 1 \<longrightarrow> k = length (g_built g) \<and> g_next g = 1 + k" using lo by (auto simp: gbn_log_def)
  have len: "length (g_window g) = g_next g - g_acked g" "length (g_synced g) = g_next g - SYNC_SEQ"
    using wi lo by (metis gbn_window_def gbn_log_def length_map length_upt)+
  have tk: "g_taken g = take (g_expect g - SYNC_SEQ) (g_synced g)" using lo by (simp add: gbn_log_def)
  show thesis
  proof (cases "g_acked g = 1")
    case True
    then have "g_taken g = []" using tk ph by (auto simp: gbn_phase_def)
    moreover have "gone = []" using gone len(1) k(4) True by simp
    ultimately show thesis using that [of 0 "[]"] gone by simp
  next
    case False
    then have p: "SYNC_SEQ \<le> g_acked g" "g_acked g \<le> g_expect g" "g_expect g \<le> g_next g" using ph by (auto simp: gbn_phase_def)
    have "length (g_window g) \<le> length (drop k (g_built g))" using len p k(3) by simp
    then have kg: "k \<le> length gone" using gone k(2) by simp
    have tl: "length (g_taken g) = g_expect g - SYNC_SEQ" using tk len(2) p by simp
    have "length (drop k gone) = g_acked g - SYNC_SEQ" using len p k(3) gone kg by (simp add: gone)
    with tl p have le: "length (drop k gone) \<le> length (g_taken g)" by simp
    have "g_taken g = take (length (g_taken g)) (drop k (g_built g))" unfolding tl k(3) [symmetric] by (rule tk)
    moreover have "drop k (g_built g) = drop k gone @ g_window g" using gone kg by simp
    ultimately show thesis using le by (intro that [OF k(1)])
  qed
qed

end
