(* ===== verification/Link.thy ===== *)
theory Link
  imports Command Serialqueue_Total Gobackn "HOL-Library.Sublist"
begin

text \<open>
  The two ends of the serial link together: the host's queue (\<open>serialqueue.c\<close>) and the firmware's command layer
  (\<open>command.c\<close>) over two channels that lose blocks and carry noise. A state of the link holds both ends, the blocks in
  flight in both directions, and two logs: the payloads the host has built blocks of, and the payloads the
  firmware has taken. The link implements the go-back-N protocol of \<open>Gobackn\<close>, whose sequence numbers are unbounded;
  four bits of them are enough.

  The host's steps are its own operations. The firmware's are \<open>command_find_block\<close> on what the channel delivers;
  what it sends at any time is a block with its current \<open>next_sequence\<close> (\<open>mcu_talks\<close>: acknowledgements and responses,
  see \<open>response_reaches_host\<close>). Noise is any input that does not begin with a well formed block, such as the SYNC byte in
  front of a retransmission. Sequence numbers are assumed to stay below \<open>2 ^ 62\<close>.
\<close>

subsection \<open>Four bits of a sequence number\<close>

lemma take_bit_seq_byte: "take_bit 4 (seq_byte q) = take_bit 4 (of_nat q)"
  unfolding seq_byte_def and_0f_take_bit by (rule bit_word_eqI) (auto simp: bit_simps)

lemma seq_byte_take_bit: "seq_byte q = 0x10 OR take_bit 4 (of_nat q)"
  by (simp add: seq_byte_def and_0f_take_bit)

lemma seq_byte_ok: "seq_ok (seq_byte q)"
  unfolding seq_ok_def seq_byte_take_bit by (rule bit_word_eqI) (auto simp: bit_simps)

lemma unat_take_bit_4: "unat (take_bit 4 (of_nat q :: 'a::len word)) = take_bit (min LENGTH('a) 4) q"
  by (simp add: unsigned_take_bit_eq unsigned_of_nat min.commute)

lemma seq_byte_inj:
  assumes "seq_byte q = seq_byte r" "q < r + 16" "r < q + 16"
  shows "q = r"
proof -
  have "take_bit 4 (of_nat q :: u8) = take_bit 4 (of_nat r :: u8)"
    using assms(1) by (metis take_bit_seq_byte)
  then have "take_bit 4 q = take_bit 4 r"
    using unat_take_bit_4 [where 'a = 8, of q] unat_take_bit_4 [where 'a = 8, of r] by simp
  then have eq: "q mod 16 = r mod 16" by (simp add: take_bit_eq_mod)
  have le: "x = y" if "x mod 16 = y mod 16" "y \<le> x" "x < y + 16" for x y :: nat
  proof -
    have "16 dvd x - y" using that(1,2) by (simp add: mod_eq_dvd_iff_nat)
    with that(2,3) show ?thesis by (cases "x = y") (auto dest: dvd_imp_le)
  qed
  show ?thesis using le [of q r] le [of r q] eq assms(2,3) by (cases "r \<le> q") simp_all
qed

lemma uint_of_nat_mod: "uint (of_nat n :: 'a::len word) mod 16 = int n mod 16" if "4 \<le> LENGTH('a)"
proof -
  have mod: "x mod 16 = take_bit 4 x" for x :: int by (simp add: take_bit_eq_mod)
  show ?thesis using that unfolding mod by (simp add: unsigned_of_nat of_nat_take_bit min_def)
qed

lemma uint_seq_byte_mod: "uint (seq_byte q) mod 16 = int q mod 16"
proof -
  have "seq_byte q AND 0xf = of_nat q AND 0xf" by (simp add: and_0f_take_bit take_bit_seq_byte)
  then have "uint (seq_byte q AND 0xf) = uint (of_nat q AND 0xf :: u8)" by (rule arg_cong)
  then show ?thesis by (simp add: uint_and_0f uint_of_nat_mod)
qed

lemma seq_byte_cong: "q mod 16 = r mod 16 \<Longrightarrow> seq_byte q = seq_byte r"
proof -
  assume eq: "q mod 16 = r mod 16"
  then have "int q mod 16 = int r mod 16" by (metis of_nat_mod of_nat_numeral)
  then have "uint (of_nat q AND 0xf :: u8) = uint (of_nat r AND 0xf :: u8)" by (simp add: uint_and_0f uint_of_nat_mod)
  then have "(of_nat q AND 0xf :: u8) = of_nat r AND 0xf" by (rule unsigned_word_eqI)
  then show ?thesis by (simp add: seq_byte_def)
qed

lemma next_seq_byte: "next_seq (seq_byte q) = seq_byte (Suc q)"
proof -
  have "uint ((seq_byte q + 1) AND 0xf) = (uint (seq_byte q) + 1) mod 16"
    by (simp add: uint_and_0f uint_word_ariths mod_mod_cancel)
  also have "\<dots> = int (Suc q) mod 16" using uint_seq_byte_mod [of q] by (metis mod_add_left_eq of_nat_Suc add.commute)
  also have "\<dots> = uint (of_nat (Suc q) AND 0xf :: u8)"
    by (simp add: uint_and_0f uint_of_nat_mod del: of_nat_Suc)
  finally have "(seq_byte q + 1) AND 0xf = of_nat (Suc q) AND 0xf" by (rule unsigned_word_eqI)
  then show ?thesis unfolding next_seq_def seq_byte_def by (simp add: or.commute)
qed

lemma acked_seq_byte:
  assumes "r \<le> a" "a < r + 16"
  shows "acked_seq (of_nat r) (seq_byte a) = of_nat a"
proof -
  have "uint (ucast (seq_byte a) :: u64) = uint (seq_byte a)"
    by (simp add: unsigned_ucast_eq take_bit_int_eq_self_iff uint_bounded [where 'a = 8, simplified] order_less_le_trans [OF uint_bounded])
  then have "uint ((ucast (seq_byte a) - of_nat r :: u64) AND 0xf) = (uint (seq_byte a) - uint (of_nat r :: u64)) mod 16"
    by (simp add: uint_and_0f uint_word_ariths mod_mod_cancel)
  also have "\<dots> = (int a - int r) mod 16"
    using uint_seq_byte_mod [of a] uint_of_nat_mod [where 'a = 64, of r] by (intro mod_diff_cong) simp_all
  also have "\<dots> = int (a - r)" using assms by simp
  also have "\<dots> = uint (of_nat (a - r) :: u64)"
    using assms by (subst unsigned_of_nat) (simp add: take_bit_nat_eq_self del: of_nat_diff)
  finally have d: "(ucast (seq_byte a) - of_nat r :: u64) AND 0xf = of_nat (a - r)" by (rule unsigned_word_eqI)
  have "(ucast (ucast (of_nat d :: u64) :: u32) :: u64) = of_nat d" if "d < 16" for d
    using that by (intro unsigned_word_eqI [where 'a = int])
      (simp add: unsigned_ucast_eq unsigned_of_nat take_bit_nat_eq_self take_bit_int_eq_self)
  then have "(ucast (ucast (of_nat (a - r) :: u64) :: u32) :: u64) = of_nat (a - r)"
    using assms by (simp del: of_nat_diff)
  with assms(1) show ?thesis unfolding acked_seq_def d by (simp add: of_nat_diff)
qed

record link =
  host :: serialqueue
  mcu :: console
  to_mcu :: "u8 list list"
  to_host :: "u8 list list"
  built :: "u8 list list"
  accepted :: "u8 list list"

definition block_payload :: "u8 list \<Rightarrow> u8 list" where
  "block_payload b = take (length b - MESSAGE_MIN) (drop MESSAGE_HEADER_SIZE b)"

inductive link_step :: "link \<Rightarrow> link \<Rightarrow> bool" where
  host_sends:
    "command_event n e (host l) = Ret w h \<Longrightarrow> send_seq (host l) < 2 ^ 62 \<Longrightarrow>
     new = map qm_bytes (drop (length (sent_queue (host l))) (sent_queue h)) \<Longrightarrow>
     link_step l (l\<lparr>host := h, to_mcu := to_mcu l @ new, built := built l @ map block_payload new\<rparr>)"
| host_resends:
    "retransmit_event e (host l) = Ret w h \<Longrightarrow>
     link_step l (l\<lparr>host := h, to_mcu := to_mcu l @ map qm_bytes (sent_queue (host l))\<rparr>)"
| host_receives:
    "to_host l = b # rest \<Longrightarrow> \<forall>fr x. preserves link_view (func fr x) \<Longrightarrow>
     handle_message func e (length b) ((host l)\<lparr>input_buf := b @ tail\<rparr>) = Ret r h \<Longrightarrow>
     link_step l (l\<lparr>host := h, to_host := rest\<rparr>)"
| host_other: "link_view h = link_view (host l) \<Longrightarrow> link_step l (l\<lparr>host := h\<rparr>)"
| mcu_receives:
    "to_mcu l = b # rest \<Longrightarrow> command_find_block (b @ tail) (mcu l) = Ret (r, n) m \<Longrightarrow>
     link_step l (l\<lparr>mcu := m, to_mcu := rest,
                   accepted := accepted l @ (if r = 1 then [block_payload (take n (b @ tail))] else [])\<rparr>)"
| mcu_noise:
    "\<not> (\<exists>b rest. noise = b @ rest \<and> valid_block b) \<Longrightarrow> command_find_block noise (mcu l) = Ret (r, n) m \<Longrightarrow>
     link_step l (l\<lparr>mcu := m, accepted := accepted l @ (if r = 1 then [block_payload (take n noise)] else [])\<rparr>)"
| mcu_talks:
    "length payload \<le> MESSAGE_PAYLOAD_MAX \<Longrightarrow>
     link_step l (l\<lparr>to_host := to_host l @ [mk_block (next_sequence (mcu l)) payload]\<rparr>)"
| mcu_other:
    "next_sequence m = next_sequence (mcu l) \<Longrightarrow> tx_ok m \<Longrightarrow> in_sendf m = 0 \<Longrightarrow> link_step l (l\<lparr>mcu := m\<rparr>)"
| lose_to_mcu: "to_mcu l = a @ b # c \<Longrightarrow> link_step l (l\<lparr>to_mcu := a @ c\<rparr>)"
| lose_to_host: "to_host l = a @ b # c \<Longrightarrow> link_step l (l\<lparr>to_host := a @ c\<rparr>)"

definition link_start :: "link \<Rightarrow> bool" where
  "link_start l \<longleftrightarrow> link_view (host l) = (1, 1, []) \<and>
     next_sequence (mcu l) = MESSAGE_DEST \<and> tx_ok (mcu l) \<and> in_sendf (mcu l) = 0 \<and>
     to_mcu l = [] \<and> to_host l = [] \<and> built l = [] \<and> accepted l = []"

subsection \<open>The link implements the protocol\<close>

definition frame_block :: "frame \<Rightarrow> u8 list" where
  "frame_block f = mk_block (seq_byte (fst f)) (snd f)"

definition answer_block :: "nat \<Rightarrow> u8 list \<Rightarrow> bool" where
  "answer_block a b \<longleftrightarrow> (\<exists>payload. length payload \<le> MESSAGE_PAYLOAD_MAX \<and> b = mk_block (seq_byte a) payload)"

definition host_rel :: "gbn \<Rightarrow> serialqueue \<Rightarrow> bool" where
  "host_rel g h \<longleftrightarrow> send_seq h = of_nat (g_next g) \<and> receive_seq h = of_nat (g_acked g) \<and>
     map qm_bytes (sent_queue h) = map frame_block (g_window g) \<and> g_next g \<le> 2 ^ 62 + WINDOW"

definition mcu_rel :: "gbn \<Rightarrow> console \<Rightarrow> bool" where
  "mcu_rel g m \<longleftrightarrow> next_sequence m = seq_byte (g_expect g) \<and> tx_ok m \<and> in_sendf m = 0"

definition chan_rel :: "gbn \<Rightarrow> link \<Rightarrow> bool" where
  "chan_rel g l \<longleftrightarrow> to_mcu l = map frame_block (g_to_mcu g) \<and> list_all2 answer_block (g_to_host g) (to_host l) \<and>
     built l = map snd (g_built g) \<and> accepted l = map snd (g_taken g) \<and>
     (\<forall>f\<in>set (g_built g). length (snd f) \<le> MESSAGE_PAYLOAD_MAX)"

definition link_rel :: "gbn \<Rightarrow> link \<Rightarrow> bool" where
  "link_rel g l \<longleftrightarrow> host_rel g (host l) \<and> mcu_rel g (mcu l) \<and> chan_rel g l"

lemma block_payload_mk: "length p \<le> MESSAGE_PAYLOAD_MAX \<Longrightarrow> block_payload (mk_block q p) = p"
  by (simp add: block_payload_def mk_block_def Let_def)

lemma frame_block_valid: "length (snd f) \<le> MESSAGE_PAYLOAD_MAX \<Longrightarrow> valid_block (frame_block f)"
  by (simp add: frame_block_def valid_mk_block seq_byte_ok)

lemma mk_block_seq: "mk_block q p ! 1 = q" "mk_block q p ! Suc 0 = q"
  by (simp_all add: mk_block_def Let_def)

lemma of_nat_u64_eq: "a < 2 ^ 64 \<Longrightarrow> b < 2 ^ 64 \<Longrightarrow> (of_nat a :: u64) = of_nat b \<longleftrightarrow> a = b"
  by (metis unat_of_nat_u64)

lemma of_nat_u64_less: "a < 2 ^ 64 \<Longrightarrow> b < 2 ^ 64 \<Longrightarrow> (of_nat a :: u64) < of_nat b \<longleftrightarrow> a < b"
  by (simp add: word_less_nat_alt unat_of_nat_u64)

text \<open>Sending.\<close>

lemma sends_within_window:
  assumes "sends s qms t" "send_seq s = of_nat n" "receive_seq s = of_nat a" "a \<le> n" "n \<le> a + WINDOW" "n \<le> 2 ^ 63"
  shows "n + length qms \<le> a + WINDOW"
proof (rule ccontr)
  assume no: "\<not> ?thesis"
  define i where "i = a + WINDOW - n"
  have i: "i < length qms" "n + i = a + WINDOW" using no assms(4,5) by (auto simp: i_def)
  have "window_open (send_seq s + of_nat i) (receive_seq s)" using assms(1) i(1) by (auto simp: sends_def)
  moreover have "send_seq s + of_nat i = of_nat a + of_nat WINDOW" using i(2) assms(2) by (metis of_nat_add)
  moreover have "(of_nat a :: u64) \<noteq> - 1"
  proof -
    have "unat (of_nat a :: u64) = a" using assms(4,6) by (intro unat_of_nat_u64) simp
    moreover have "unat (- 1 :: u64) = 2 ^ 64 - 1" by (simp add: unsigned_minus_1_eq_mask mask_eq_exp_minus_1)
    ultimately show ?thesis using assms(4,6) by auto
  qed
  ultimately show False using assms(3) by (simp add: window_open_def)
qed

lemma numbered_frames:
  assumes "numbered_blocks (of_nat n) qms"
  obtains fs where "map fst fs = [n ..< n + length fs]" "length fs = length qms" "map qm_bytes qms = map frame_block fs"
    "\<forall>f\<in>set fs. length (snd f) \<le> MESSAGE_PAYLOAD_MAX"
proof -
  have "\<forall>i<length qms. \<exists>p. length p \<le> MESSAGE_PAYLOAD_MAX \<and> qm_bytes (qms ! i) = host_block (of_nat (n + i)) p"
    using assms by (simp add: numbered_blocks_def)
  then obtain p where p: "length (p i) \<le> MESSAGE_PAYLOAD_MAX" "qm_bytes (qms ! i) = host_block (of_nat (n + i)) (p i)"
    if "i < length qms" for i by metis
  let ?fs = "map (\<lambda>i. (n + i, p i)) [0 ..< length qms]"
  have "map fst ?fs = [n ..< n + length qms]" by (simp add: comp_def map_add_upt add.commute)
  moreover have "map qm_bytes qms = map frame_block ?fs"
    by (rule nth_equalityI) (simp_all add: p(2) frame_block_def host_block_of_nat del: of_nat_add)
  ultimately show thesis using that [of ?fs] p(1) by auto
qed

lemma map_qm_bytes_payload:
  "\<forall>f\<in>set fs. length (snd f) \<le> MESSAGE_PAYLOAD_MAX \<Longrightarrow> map block_payload (map frame_block fs) = map snd fs"
  by (induction fs) (auto simp: frame_block_def block_payload_mk)

lemma link_sends:
  assumes "link_rel g l" "gbn_inv g" "command_event n e (host l) = Ret w h" "send_seq (host l) < 2 ^ 62"
    "new = map qm_bytes (drop (length (sent_queue (host l))) (sent_queue h))"
  shows "\<exists>g'. gbn_step g g' \<and>
    link_rel g' (l\<lparr>host := h, to_mcu := to_mcu l @ new, built := built l @ map block_payload new\<rparr>)"
proof -
  have hr: "host_rel g (host l)" and mr: "mcu_rel g (mcu l)" and cr: "chan_rel g l" using assms(1) by (auto simp: link_rel_def)
  have ph: "gbn_phase g" using assms(2) by (simp add: gbn_inv_def)
  obtain qms where q: "sends (host l) qms h" using command_event_effect [OF assms(3)] by blast
  have nx: "g_next g < 2 ^ 62"
    using assms(4) hr by (simp add: host_rel_def word_less_nat_alt unat_of_nat_u64)
  have win: "g_next g + length qms \<le> g_acked g + WINDOW"
    using sends_within_window [OF q, of "g_next g" "g_acked g"] hr nx gbn_acked_le [OF ph] gbn_next_le [OF ph]
    by (simp add: host_rel_def)
  have "numbered_blocks (of_nat (g_next g)) qms" using q hr by (simp add: sends_def host_rel_def)
  then obtain fs where fs: "map fst fs = [g_next g ..< g_next g + length fs]" "length fs = length qms"
    "map qm_bytes qms = map frame_block fs" "\<forall>f\<in>set fs. length (snd f) \<le> MESSAGE_PAYLOAD_MAX"
    by (rule numbered_frames)
  have st: "gbn_step g (gbn_send fs g)" using fs(1,2) win by (intro gbn_step.send) simp_all
  have h: "send_seq h = of_nat (g_next g + length fs)" "receive_seq h = of_nat (g_acked g)"
      "sent_queue h = sent_queue (host l) @ qms"
    using q hr fs(2) by (simp_all add: sends_def host_rel_def link_view_def)
  have new: "new = map frame_block fs" unfolding assms(5) h(3) using fs(3) by simp
  have "host_rel (gbn_send fs g) h" unfolding host_rel_def h
    using hr fs(2,3) win nx gbn_acked_le [OF ph] by (simp add: gbn_send_def host_rel_def)
  moreover have "mcu_rel (gbn_send fs g) (mcu l)" using mr by (simp add: mcu_rel_def gbn_send_def)
  moreover have "chan_rel (gbn_send fs g) (l\<lparr>host := h, to_mcu := to_mcu l @ new, built := built l @ map block_payload new\<rparr>)"
    using cr fs(4) unfolding new map_qm_bytes_payload [OF fs(4)] by (auto simp: chan_rel_def gbn_send_def)
  ultimately show ?thesis using st by (auto simp: link_rel_def)
qed

lemma link_resends:
  assumes "link_rel g l" "retransmit_event e (host l) = Ret w h"
  shows "\<exists>g'. gbn_step g g' \<and> link_rel g' (l\<lparr>host := h, to_mcu := to_mcu l @ map qm_bytes (sent_queue (host l))\<rparr>)"
proof -
  have hr: "host_rel g (host l)" and mr: "mcu_rel g (mcu l)" and cr: "chan_rel g l" using assms(1) by (auto simp: link_rel_def)
  let ?g = "g\<lparr>g_to_mcu := g_to_mcu g @ g_window g\<rparr>"
  have "host_rel ?g h"
    using hr retransmit_effect(1) [OF assms(2)] by (simp add: host_rel_def link_view_def)
  moreover have "mcu_rel ?g (mcu l)" using mr by (simp add: mcu_rel_def)
  moreover have "chan_rel ?g (l\<lparr>host := h, to_mcu := to_mcu l @ map qm_bytes (sent_queue (host l))\<rparr>)"
    using cr hr by (simp add: chan_rel_def host_rel_def)
  ultimately show ?thesis using gbn_step.resend [of g] by (auto simp: link_rel_def)
qed

text \<open>Acknowledging: the host finds the frame number from four bits.\<close>

lemma link_receives:
  assumes "link_rel g l" "gbn_inv g" "to_host l = b # rest" "\<forall>fr x. preserves link_view (func fr x)"
    "handle_message func e (length b) ((host l)\<lparr>input_buf := b @ tail\<rparr>) = Ret r h"
  shows "\<exists>a as. g_to_host g = a # as \<and> link_rel (gbn_ack a (g\<lparr>g_to_host := as\<rparr>)) (l\<lparr>host := h, to_host := rest\<rparr>)"
proof -
  have hr: "host_rel g (host l)" and mr: "mcu_rel g (mcu l)" and cr: "chan_rel g l" using assms(1) by (auto simp: link_rel_def)
  have ph: "gbn_phase g" and wi: "gbn_window g" and an: "gbn_answers g" using assms(2) by (auto simp: gbn_inv_def)
  obtain a as where ga: "g_to_host g = a # as" "answer_block a b" "list_all2 answer_block as rest"
    using cr assms(3) by (auto simp: chan_rel_def list_all2_Cons2)
  have b1: "b ! 1 = seq_byte a" using ga(2) by (auto simp: answer_block_def mk_block_seq)
  have a: "SYNC_SEQ \<le> a" "g_acked g \<le> a" "a \<le> g_expect g" using an ga(1) by (auto simp: gbn_answers_def)
  have near: "a < g_acked g + 16" using a ph by (auto simp: gbn_phase_def)
  have bounds: "a < 2 ^ 63" "g_next g < 2 ^ 63" "g_acked g < 2 ^ 63"
    using hr a near gbn_acked_le [OF ph] ph by (auto simp: host_rel_def gbn_phase_def)
  let ?s = "(host l)\<lparr>input_buf := b @ tail\<rparr>"
  have s: "send_seq ?s = of_nat (g_next g)" "receive_seq ?s = of_nat (g_acked g)" "sent_queue ?s = sent_queue (host l)"
    "link_view ?s = link_view (host l)"
    using hr by (simp_all add: host_rel_def link_view_def)
  have rseq: "acked_seq (receive_seq ?s) (take (length b) (input_buf ?s) ! 1) = of_nat a"
    using acked_seq_byte [OF a(2) near] s(2) b1 by simp
  have words: "((of_nat a :: u64) = of_nat (g_acked g)) = (a = g_acked g)"
      "((of_nat (g_next g) :: u64) < of_nat a) = (g_next g < a)" "((of_nat (g_acked g) :: u64) \<noteq> 1) = (g_acked g \<noteq> 1)"
    using bounds of_nat_u64_eq [of a "g_acked g"] of_nat_u64_less [of "g_next g" a] of_nat_u64_eq [of "g_acked g" 1] by simp_all
  let ?g = "gbn_ack a (g\<lparr>g_to_host := as\<rparr>)"
  note hm = handle_message_link [OF assms(5) assms(4) [rule_format] refl refl, unfolded rseq, unfolded s(1,2,3,4) words]
  have "host_rel ?g h"
  proof (cases "a = g_acked g \<or> (g_next g < a \<and> g_acked g \<noteq> 1)")
    case True
    with hm have "link_view h = link_view (host l)" by auto
    with hr True show ?thesis by (auto simp: host_rel_def gbn_ack_def link_view_def)
  next
    case False
    with hm obtain u v where v: "ack_loop (of_nat a) (of_nat (g_acked g)) (sent_queue (host l)) ?s = Ret u v"
      "link_view h = (send_seq v, of_nat a, sent_queue v)" by (auto simp: not_less)
    have len: "length (sent_queue (host l)) = g_next g - g_acked g"
      using hr wi by (metis host_rel_def gbn_window_def length_map length_upt)
    then have len12: "length (sent_queue (host l)) \<le> WINDOW" using gbn_next_le [OF ph] by simp
    have d: "(of_nat a :: u64) = of_nat (g_acked g) + of_nat (a - g_acked g)" using a(2) by simp
    note al = ack_loop_link [OF v(1)]
    show ?thesis
    proof (cases "a \<le> g_next g")
      case True
      have k: "0 < a - g_acked g" "a - g_acked g \<le> length (sent_queue (host l))" using False True a(2) len by auto
      have "link_view v = (of_nat (g_next g), of_nat (g_acked g), drop (a - g_acked g) (sent_queue (host l)))"
        using al [THEN conjunct1, rule_format, OF _ d k] len12 s by simp
      with v(2) True False hr show ?thesis
        by (auto simp: host_rel_def gbn_ack_def link_view_def max_def simp flip: drop_map)
    next
      case beyond: False
      have no: "(of_nat a :: u64) \<noteq> of_nat (g_acked g) + of_nat k" if "k \<le> length (sent_queue (host l))" for k
      proof -
        have "g_acked g + k \<noteq> a" using beyond that len gbn_acked_le [OF ph] by auto
        moreover have "g_acked g + k < 2 ^ 64" using that len12 bounds(3) by simp
        ultimately show ?thesis using of_nat_u64_eq [of a "g_acked g + k"] bounds(1) by simp
      qed
      then have "link_view v = (of_nat a, of_nat (g_acked g), [])"
        using al [THEN conjunct2] s by simp
      moreover have "g_window g = [] \<or> length (g_window g) \<le> a - g_acked g"
        using beyond len wi gbn_acked_le [OF ph] by (metis diff_le_mono gbn_window_def length_map length_upt nat_le_linear)
      moreover have "a \<le> 2 ^ 62 + WINDOW" using False beyond ph a by (auto simp: gbn_phase_def)
      ultimately show ?thesis using v(2) beyond False
        by (auto simp: host_rel_def gbn_ack_def link_view_def max_def)
    qed
  qed
  moreover have "mcu_rel ?g (mcu l)" using mr by (simp add: mcu_rel_def gbn_ack_def)
  moreover have "chan_rel ?g (l\<lparr>host := h, to_host := rest\<rparr>)"
    using cr ga(3) by (auto simp: chan_rel_def gbn_ack_def)
  ultimately show ?thesis using ga(1) by (auto simp: link_rel_def)
qed

text \<open>The firmware takes a frame if and only if it is the one it expects.\<close>

lemma mcu_finds:
  assumes "mcu_rel g m" "command_find_block buf m = Ret (r, n) m'"
  shows "tx_ok m'" "in_sendf m' = 0" "next_sequence m' = (if r = 1 then seq_byte (Suc (g_expect g)) else seq_byte (g_expect g))"
    "r = 1 \<Longrightarrow> valid_block (take n buf) \<and> take n buf ! 1 = seq_byte (g_expect g)"
proof -
  have m: "tx_ok m" "in_sendf m = 0" "next_sequence m = seq_byte (g_expect g)" using assms(1) by (auto simp: mcu_rel_def)
  note sp = command_find_block_spec [OF m(1,2), of buf, unfolded assms(2)]
  show "tx_ok m'" "in_sendf m' = 0" "next_sequence m' = (if r = 1 then seq_byte (Suc (g_expect g)) else seq_byte (g_expect g))"
    using sp m(3) by (auto simp: next_seq_byte split: if_splits)
  assume r: "r = 1"
  with sp obtain blk rest where blk: "buf = blk @ rest" "valid_block blk" "blk ! 1 = next_sequence m"
    and tk: "valid_block (take n buf)" by auto
  have "take n buf = blk"
    by (rule valid_block_unique [OF tk blk(2), of "drop n buf" rest]) (simp only: append_take_drop_id blk(1))
  with blk m(3) tk show "valid_block (take n buf) \<and> take n buf ! 1 = seq_byte (g_expect g)" by simp
qed

lemma link_mcu_receives:
  assumes "link_rel g l" "gbn_inv g" "to_mcu l = b # rest" "command_find_block (b @ tail) (mcu l) = Ret (r, n) m"
  shows "\<exists>f fs. g_to_mcu g = f # fs \<and> (r = 1 \<longrightarrow> fst f = g_expect g) \<and>
     link_rel (if r = 1 then g\<lparr>g_to_mcu := fs, g_expect := Suc (g_expect g), g_taken := g_taken g @ [f]\<rparr> else g\<lparr>g_to_mcu := fs\<rparr>)
       (l\<lparr>mcu := m, to_mcu := rest, accepted := accepted l @ (if r = 1 then [block_payload (take n (b @ tail))] else [])\<rparr>)"
proof -
  have hr: "host_rel g (host l)" and mr: "mcu_rel g (mcu l)" and cr: "chan_rel g l" using assms(1) by (auto simp: link_rel_def)
  have ph: "gbn_phase g" and fr: "gbn_frames g" and lo: "gbn_log g" using assms(2) by (auto simp: gbn_inv_def)
  obtain f fs where gf: "g_to_mcu g = f # fs" "b = frame_block f" "rest = map frame_block fs"
    using cr assms(3) by (auto simp: chan_rel_def)
  have fb: "f \<in> set (g_built g)" using fr gf(1) by (auto simp: gbn_frames_def)
  then have len: "length (snd f) \<le> MESSAGE_PAYLOAD_MAX" using cr by (auto simp: chan_rel_def)
  note vb = frame_block_valid [OF len]
  note m = mcu_finds [OF mr assms(4)]
  show ?thesis
  proof (cases "r = 1")
    case True
    have tk: "take n (b @ tail) = frame_block f"
      by (rule valid_block_unique [OF conjunct1 [OF m(4) [OF True]] vb, of "drop n (b @ tail)" tail]) (simp only: append_take_drop_id gf(2))
    then have "seq_byte (fst f) = seq_byte (g_expect g)"
      using m(4) [OF True] by (simp add: frame_block_def mk_block_seq)
    moreover have "fst f < g_expect g + 16"
      using lo fb ph by (auto simp: gbn_log_def gbn_phase_def)
    moreover have "g_expect g < fst f + 16" using fr gf(1) by (auto simp: gbn_frames_def)
    ultimately have eq: "fst f = g_expect g" by (rule seq_byte_inj)
    let ?g = "g\<lparr>g_to_mcu := fs, g_expect := Suc (g_expect g), g_taken := g_taken g @ [f]\<rparr>"
    have "host_rel ?g (host l)" using hr by (simp add: host_rel_def)
    moreover have "mcu_rel ?g m" using m(1,2,3) True by (simp add: mcu_rel_def)
    moreover have "block_payload (take n (b @ tail)) = snd f" unfolding tk frame_block_def using len by (rule block_payload_mk)
    then have "chan_rel ?g (l\<lparr>mcu := m, to_mcu := rest, accepted := accepted l @ [block_payload (take n (b @ tail))]\<rparr>)"
      using cr gf(3) by (simp add: chan_rel_def)
    ultimately show ?thesis using gf(1) eq True by (auto simp: link_rel_def)
  next
    case False
    let ?g = "g\<lparr>g_to_mcu := fs\<rparr>"
    have "host_rel ?g (host l)" using hr by (simp add: host_rel_def)
    moreover have "mcu_rel ?g m" using m(1,2,3) False by (simp add: mcu_rel_def)
    moreover have "chan_rel ?g (l\<lparr>mcu := m, to_mcu := rest\<rparr>)" using cr gf(3) by (simp add: chan_rel_def)
    ultimately show ?thesis using gf(1) False by (auto simp: link_rel_def)
  qed
qed

lemma link_step_simulated:
  assumes "link_step l l'" "link_rel g l" "gbn_inv g"
  shows "\<exists>g'. gbn_step\<^sup>*\<^sup>* g g' \<and> link_rel g' l'"
  using assms
proof (cases rule: link_step.cases)
  case host_sends
  with link_sends assms(2,3) show ?thesis by blast
next
  case host_resends
  with link_resends assms(2) show ?thesis by blast
next
  case (host_receives b rest func e tail r h)
  from link_receives [OF assms(2,3) host_receives(2-4)] host_receives(1) gbn_step.ack show ?thesis by blast
next
  case (host_other h)
  with assms(2) have "link_rel g l'" by (auto simp: link_rel_def host_rel_def link_view_def mcu_rel_def chan_rel_def)
  then show ?thesis by blast
next
  case (mcu_receives b rest tail r n m)
  from link_mcu_receives [OF assms(2,3) mcu_receives(2,3)] obtain f fs where g: "g_to_mcu g = f # fs" "r = 1 \<longrightarrow> fst f = g_expect g"
    "link_rel (if r = 1 then g\<lparr>g_to_mcu := fs, g_expect := Suc (g_expect g), g_taken := g_taken g @ [f]\<rparr> else g\<lparr>g_to_mcu := fs\<rparr>) l'"
    unfolding mcu_receives(1) by blast
  have "gbn_step g (if r = 1 then g\<lparr>g_to_mcu := fs, g_expect := Suc (g_expect g), g_taken := g_taken g @ [f]\<rparr> else g\<lparr>g_to_mcu := fs\<rparr>)"
    using gbn_step.accept [OF g(1)] gbn_step.lose_frame [of g "[]" f fs] g(1,2) by simp
  with g(3) show ?thesis by blast
next
  case (mcu_noise noise r n m)
  have mr: "mcu_rel g (mcu l)" using assms(2) by (simp add: link_rel_def)
  note m = mcu_finds [OF mr mcu_noise(3)]
  have r: "r \<noteq> 1"
    using m(4) mcu_noise(2) by (metis append_take_drop_id)
  have "link_rel g l'" unfolding mcu_noise(1) using assms(2) m(1,2,3) r
    by (auto simp: link_rel_def mcu_rel_def chan_rel_def)
  then show ?thesis by blast
next
  case (mcu_talks payload)
  let ?g = "g\<lparr>g_to_host := g_to_host g @ [g_expect g]\<rparr>"
  have "answer_block (g_expect g) (mk_block (next_sequence (mcu l)) payload)"
    using assms(2) mcu_talks(2) by (auto simp: link_rel_def mcu_rel_def answer_block_def)
  then have "link_rel ?g l'" unfolding mcu_talks(1) using assms(2)
    by (auto simp: link_rel_def host_rel_def mcu_rel_def chan_rel_def intro: list_all2_appendI)
  with gbn_step.answer [of g] show ?thesis by blast
next
  case (mcu_other m)
  with assms(2) have "link_rel g l'" by (auto simp: link_rel_def mcu_rel_def chan_rel_def)
  then show ?thesis by blast
next
  case (lose_to_mcu a b c)
  have cr: "chan_rel g l" using assms(2) by (simp add: link_rel_def)
  then have "map frame_block (g_to_mcu g) = a @ b # c" using lose_to_mcu(2) by (simp add: chan_rel_def)
  then obtain fa f fc where gf: "g_to_mcu g = fa @ f # fc" "a = map frame_block fa" "c = map frame_block fc"
    by (auto simp: map_eq_append_conv map_eq_Cons_conv)
  have "link_rel (g\<lparr>g_to_mcu := fa @ fc\<rparr>) l'" unfolding lose_to_mcu(1) using assms(2) gf
    by (auto simp: link_rel_def host_rel_def mcu_rel_def chan_rel_def)
  with gbn_step.lose_frame [OF gf(1)] show ?thesis by blast
next
  case (lose_to_host a b c)
  have cr: "chan_rel g l" using assms(2) by (simp add: link_rel_def)
  then obtain fa f fc where gf: "g_to_host g = fa @ f # fc" "list_all2 answer_block fa a" "list_all2 answer_block fc c"
    using lose_to_host(2) by (auto simp: chan_rel_def list_all2_append2 list_all2_Cons2)
  have "link_rel (g\<lparr>g_to_host := fa @ fc\<rparr>) l'" unfolding lose_to_host(1) using assms(2) gf
    by (auto simp: link_rel_def host_rel_def mcu_rel_def chan_rel_def intro: list_all2_appendI)
  with gbn_step.lose_answer [OF gf(1)] show ?thesis by blast
qed

lemma link_reach_simulated:
  assumes "link_start l" "link_step\<^sup>*\<^sup>* l l'"
  obtains g where "gbn_inv g" "link_rel g l'"
proof -
  have "link_rel gbn_start l"
    using assms(1) seq_byte_cong [of 0 SYNC_SEQ]
    by (auto simp: link_start_def link_rel_def host_rel_def mcu_rel_def chan_rel_def gbn_start_def link_view_def seq_byte_def)
  with assms(2) have "\<exists>g. gbn_step\<^sup>*\<^sup>* gbn_start g \<and> link_rel g l'"
  proof (induction rule: rtranclp_induct)
    case (step y z)
    then obtain g where g: "gbn_step\<^sup>*\<^sup>* gbn_start g" "link_rel g y" by blast
    from link_step_simulated [OF step(2) g(2) gbn_reach_inv [OF g(1)]] g(1) show ?case
      by (meson rtranclp_trans)
  qed blast
  with that gbn_reach_inv show thesis by blast
qed

lemma link_delivery:
  assumes "link_rel g l" "gbn_inv g"
  shows "\<exists>k \<le> WINDOW. \<exists>acknowledged.
     drop k (built l) = acknowledged @ map block_payload (map qm_bytes (sent_queue (host l))) \<and>
     prefix acknowledged (accepted l) \<and> prefix (accepted l) (drop k (built l))"
proof -
  obtain k gone where k: "k \<le> WINDOW" "drop k (g_built g) = gone @ g_window g"
    "g_taken g = take (length (g_taken g)) (drop k (g_built g))" "length gone \<le> length (g_taken g)"
    using gbn_delivery [OF assms(2)] by blast
  have cr: "built l = map snd (g_built g)" "accepted l = map snd (g_taken g)"
    "\<forall>f\<in>set (g_built g). length (snd f) \<le> MESSAGE_PAYLOAD_MAX"
    and hr: "map qm_bytes (sent_queue (host l)) = map frame_block (g_window g)"
    using assms(1) by (auto simp: link_rel_def chan_rel_def host_rel_def)
  have "set (g_window g) \<subseteq> set (g_built g)"
    using k(2) by (metis Un_upper2 order_trans set_append set_drop_subset)
  then have w: "map block_payload (map qm_bytes (sent_queue (host l))) = map snd (g_window g)"
    unfolding hr using cr(3) by (intro map_qm_bytes_payload) auto
  have d: "drop k (built l) = map snd gone @ map snd (g_window g)"
    using k(2) by (simp add: cr(1) drop_map)
  have "prefix (g_taken g) (gone @ g_window g)" using k(2,3) by (metis take_is_prefix)
  then have "prefix (accepted l) (drop k (built l))" unfolding d cr(2) by (metis map_append map_mono_prefix)
  moreover have "prefix gone (g_taken g)"
    using \<open>prefix (g_taken g) (gone @ g_window g)\<close> k(4) by (metis prefixI prefix_length_prefix)
  then have "prefix (map snd gone) (accepted l)" unfolding cr(2) by (rule map_mono_prefix)
  ultimately show ?thesis using k(1) d w by auto
qed

subsection \<open>Recovery\<close>








subsection \<open>Properties\<close>

definition example_link :: link where
  "example_link = \<lparr>host = example_sq, mcu = example_console, to_mcu = [], to_host = [], built = [], accepted = []\<rparr>"

lemma example_link_start: "link_start example_link" "sq_ok (host example_link)" "sq_room (host example_link)"
  using example_sq_ok(1,2) example_console_ok(1,3,4)
  by (auto simp: link_start_def example_link_def sq_idle_def link_view_def) (simp_all add: example_sq_def)

lemma example_link_sends:
  obtains w h where "command_event 13 0 example_sq = Ret w h" "sq_ok h"
  using command_event_returns [OF _ example_sq_ok(2), of 13 0] example_sq_ok(1) by (auto simp: returns_at_def sq_idle_def)

text \<open>
  C4: Commands are executed in order and exactly once. Whatever is lost in either direction, however the two ends
  interleave, and whatever noise the firmware hears: after at most twelve blocks that the host sent before it knew
  where the firmware stands, the payloads the firmware has taken are a prefix of those the host has built, in the
  order they were built, with none missing and none twice; and the firmware has taken everything that
  the host regards as acknowledged, which is all but the blocks in its sent queue.
\<close>

theorem link_delivers_in_order:
  assumes "link_start l" "link_step\<^sup>*\<^sup>* l l'"
  shows "\<exists>k \<le> WINDOW. \<exists>acknowledged.
     drop k (built l') = acknowledged @ map block_payload (map qm_bytes (sent_queue (host l'))) \<and>
     prefix acknowledged (accepted l') \<and> prefix (accepted l') (drop k (built l'))"
  using link_reach_simulated [OF assms] link_delivery by metis

theorem link_delivers_in_order_witness:
  "\<exists>w h new. command_event 13 0 example_sq = Ret w h \<and> new = map qm_bytes (sent_queue h) \<and>
     (\<exists>k \<le> WINDOW. \<exists>acknowledged. drop k (map block_payload new) = acknowledged @ map block_payload new \<and>
        prefix acknowledged [] \<and> prefix [] (drop k (map block_payload new)))"
proof -
  obtain w h where h: "command_event 13 0 example_sq = Ret w h" by (rule example_link_sends)
  let ?new = "map qm_bytes (drop (length (sent_queue (host example_link))) (sent_queue h))"
  have "link_step example_link (example_link\<lparr>host := h, to_mcu := to_mcu example_link @ ?new,
      built := built example_link @ map block_payload ?new\<rparr>)"
    using h by (intro link_step.host_sends) (simp_all add: example_link_def example_sq_def)
  from link_delivers_in_order [OF example_link_start(1) r_into_rtranclp [of link_step, OF this]] h
  show ?thesis by (auto simp: example_link_def example_sq_def)
qed



end
