(* ===== verification/Trdispatch.thy ===== *)
theory Trdispatch
  imports Serialqueue_Total
begin

text \<open>
  Homing over several micro-controllers, \<open>trdispatch.c\<close>: while a homing move runs, the host listens to the
  \<open>trsync_state\<close> reports of every micro-controller that takes part. A report of a trigger is passed on to all of
  them; a report that all is well extends the timeouts of the \<open>others\<close>, so that a micro-controller that
  falls silent makes the rest run into their timeouts.

  The state is the host process: the serial queues, the \<open>trdispatch\<close> and the \<open>trdispatch_mcu\<close> objects by their
  addresses. The function of the fast reader of an object is \<open>handle_trsync_state\<close>, and \<open>fr_func\<close> is the address of
  the object that contains it (\<open>container_of\<close>). It is called with \<open>sq->lock\<close> released, and holds \<open>td->lock\<close> throughout.
\<close>

record trdispatch =
  tdm_list :: "nat list"
  td_is_active :: u32
  td_can_trigger :: u32
  dispatch_reason :: u32

record trdispatch_mcu =
  tdm_fr :: fastreader
  tdm_td :: nat
  tdm_sq :: nat
  tdm_cq :: nat
  trsync_oid :: u32
  set_timeout_msgtag :: u32
  trigger_msgtag :: u32
  last_status_clock :: u64
  expire_clock :: u64
  expire_ticks :: u64
  min_extend_ticks :: u64
  tdm_ce :: clock_estimate

record host_process =
  sqs :: "nat \<Rightarrow> serialqueue"
  tds :: "nat \<Rightarrow> trdispatch"
  tdms :: "nat \<Rightarrow> trdispatch_mcu"

type_synonym 'a tr_op = "(host_process, 'a) op"

text \<open>An operation of the serial queue at address \<open>i\<close>.\<close>

definition on_sq :: "nat \<Rightarrow> 'a sq_op \<Rightarrow> 'a tr_op" where
  "on_sq i m = (\<lambda>w.
     case m (sqs w i) of
       Ret x t \<Rightarrow> Ret x (w\<lparr>sqs := (sqs w)(i := t)\<rparr>)
     | Shutdown e t \<Rightarrow> Shutdown e (w\<lparr>sqs := (sqs w)(i := t)\<rparr>)
     | Undef \<Rightarrow> Undef)"

definition td_upd :: "nat \<Rightarrow> (trdispatch \<Rightarrow> trdispatch) \<Rightarrow> unit tr_op" where
  "td_upd d f = set_op (\<lambda>w. w\<lparr>tds := (tds w)(d := f (tds w d))\<rparr>)"

definition tdm_upd :: "nat \<Rightarrow> (trdispatch_mcu \<Rightarrow> trdispatch_mcu) \<Rightarrow> unit tr_op" where
  "tdm_upd m f = set_op (\<lambda>w. w\<lparr>tdms := (tdms w)(m := f (tdms w m))\<rparr>)"

subsection \<open>Messages to a micro-controller\<close>

text \<open>The words of \<open>trsync_trigger oid=%c reason=%c\<close> and of \<open>trsync_set_timeout oid=%c clock=%u\<close>.\<close>

definition trigger_words :: "host_process \<Rightarrow> nat \<Rightarrow> u32 list" where
  "trigger_words w m = [trigger_msgtag (tdms w m), trsync_oid (tdms w m), dispatch_reason (tds w (tdm_td (tdms w m)))]"

definition send_trsync_trigger :: "nat \<Rightarrow> unit tr_op" where
  "send_trsync_trigger m =
     bind_op (get_op (\<lambda>w. trigger_words w m)) (\<lambda>msg.
     bind_op (option_op (message_alloc_and_encode msg)) (\<lambda>qm.
     bind_op (get_op (\<lambda>w. tdms w m)) (\<lambda>tdm.
       on_sq (tdm_sq tdm) (serialqueue_send_one (tdm_cq tdm) qm))))"

definition timeout_words :: "trdispatch_mcu \<Rightarrow> u32 list" where
  "timeout_words tdm = [set_timeout_msgtag tdm, trsync_oid tdm, ucast (expire_clock tdm)]"

definition send_trsync_set_timeout :: "nat \<Rightarrow> unit tr_op" where
  "send_trsync_set_timeout m =
     bind_op (get_op (\<lambda>w. tdms w m)) (\<lambda>tdm.
     bind_op (option_op (message_alloc_and_encode (timeout_words tdm))) (\<lambda>qm.
       on_sq (tdm_sq tdm) (serialqueue_send_one (tdm_cq tdm) (qm\<lparr>req_clock := expire_clock tdm\<rparr>))))"

subsection \<open>A report of a micro-controller\<close>

text \<open>The acknowledged time of a micro-controller.\<close>

definition status_time :: "trdispatch_mcu \<Rightarrow> real" where
  "status_time tdm = clock_to_time (tdm_ce tdm) (last_status_clock tdm)"

text \<open>
  The loop that finds the least and the next to least of the acknowledged times, and who has the least.
\<close>

fun min_scan :: "(nat \<times> real) list \<Rightarrow> real \<Rightarrow> real \<Rightarrow> nat option \<Rightarrow> real \<times> real \<times> nat option" where
  "min_scan [] min_time next_min min_tdm = (min_time, next_min, min_tdm)"
| "min_scan ((m, t) # xs) min_time next_min min_tdm =
     (if t < next_min then
        (if t < min_time then min_scan xs t min_time (Some m)
         else min_scan xs min_time t min_tdm)
      else min_scan xs min_time next_min min_tdm)"

text \<open>
  One round of the loop that extends the timeouts. The cast to \<open>int64_t\<close> in the comparison has no effect, for the
  other side is a \<open>uint64_t\<close>: the comparison is unsigned.
\<close>

definition extend_timeout :: "real \<Rightarrow> real \<Rightarrow> nat option \<Rightarrow> nat \<Rightarrow> unit tr_op" where
  "extend_timeout min_time next_min min_tdm m =
     bind_op (get_op (\<lambda>w. tdms w m)) (\<lambda>tdm.
       let status = (if min_tdm = Some m then next_min else min_time);
           expire = clock_from_time (tdm_ce tdm) status + expire_ticks tdm
       in if expire - expire_clock tdm \<ge> min_extend_ticks tdm
          then then_op (tdm_upd m (\<lambda>x. x\<lparr>expire_clock := expire\<rparr>)) (send_trsync_set_timeout m)
          else ret ())"

definition extend_timeouts :: "nat list \<Rightarrow> unit tr_op" where
  "extend_timeouts ms =
     bind_op (get_op (\<lambda>w. min_scan (map (\<lambda>m. (m, status_time (tdms w m))) ms) PR_NEVER PR_NEVER None))
       (\<lambda>(min_time, next_min, min_tdm).
          each_op (extend_timeout min_time (if next_min = PR_NEVER then min_time else next_min) min_tdm) ms)"

definition handle_trsync_state :: "nat \<Rightarrow> u8 list \<Rightarrow> unit tr_op" where
  "handle_trsync_state m data =
     bind_op (option_op (msgblock_decode 5 data)) (\<lambda>(r, fields).
     bind_op (get_op (\<lambda>w. tdms w m)) (\<lambda>tdm.
       if r \<noteq> 0 \<or> fields ! 1 \<noteq> trsync_oid tdm then ret ()
       else
         (let can_trigger = fields ! 2; clock = fields ! 4
          in bind_op (get_op (\<lambda>w. tds w (tdm_td tdm))) (\<lambda>td.
             if td_can_trigger td = 0 then ret ()
             else if can_trigger = 0 then
               then_op (td_upd (tdm_td tdm) (\<lambda>d. d\<lparr>td_can_trigger := 0\<rparr>))
                 (each_op send_trsync_trigger (tdm_list td))
             else
               bind_op (on_sq (tdm_sq tdm) serialqueue_get_clock_est) (\<lambda>ce.
               then_op (tdm_upd m (\<lambda>x. x\<lparr>tdm_ce := ce, last_status_clock := clock_from_clock32 ce clock\<rparr>))
                 (extend_timeouts (tdm_list td)))))))"

subsection \<open>The interface\<close>

definition trdispatch_start :: "nat \<Rightarrow> u32 \<Rightarrow> unit tr_op" where
  "trdispatch_start d reason =
     bind_op (get_op (\<lambda>w. tds w d)) (\<lambda>td.
       if td_is_active td \<noteq> 0 \<or> tdm_list td = [] then ret ()
       else
         then_op (td_upd d (\<lambda>x. x\<lparr>dispatch_reason := reason, td_is_active := 1, td_can_trigger := 1\<rparr>))
           (each_op (\<lambda>m. bind_op (get_op (\<lambda>w. tdms w m)) (\<lambda>tdm.
              on_sq (tdm_sq tdm) (serialqueue_add_fastreader (tdm_fr tdm)))) (tdm_list td)))"

definition trdispatch_stop :: "nat \<Rightarrow> unit tr_op" where
  "trdispatch_stop d =
     bind_op (get_op (\<lambda>w. tds w d)) (\<lambda>td.
       if td_is_active td = 0 then ret ()
       else
         then_op (td_upd d (\<lambda>x. x\<lparr>td_is_active := 0\<rparr>))
           (each_op (\<lambda>m. bind_op (get_op (\<lambda>w. tdms w m)) (\<lambda>tdm.
              on_sq (tdm_sq tdm) (serialqueue_rm_fastreader (tdm_fr tdm)))) (tdm_list td)))"

text \<open>A new object at the address \<open>d\<close>.\<close>

definition trdispatch_alloc :: "nat \<Rightarrow> unit tr_op" where
  "trdispatch_alloc d = td_upd d (\<lambda>_. \<lparr>tdm_list = [], td_is_active = 0, td_can_trigger = 0, dispatch_reason = 0\<rparr>)"

text \<open>
  A new object at the address \<open>m\<close>. The fast reader matches the payloads that begin with the words
  of \<open>state_prefix\<close>.
\<close>

definition trdispatch_mcu_alloc :: "nat \<Rightarrow> nat \<Rightarrow> nat \<Rightarrow> nat \<Rightarrow> u32 \<Rightarrow> u32 \<Rightarrow> u32 \<Rightarrow> u32 \<Rightarrow> unit tr_op" where
  "trdispatch_mcu_alloc m d sq cq oid set_timeout trigger state =
     bind_op (option_op (message_alloc_and_encode [state, oid])) (\<lambda>dummy.
     then_op (tdm_upd m (\<lambda>_.
        \<lparr>tdm_fr = \<lparr>fr_func = m, fr_prefix = qm_bytes dummy\<rparr>, tdm_td = d, tdm_sq = sq, tdm_cq = cq, trsync_oid = oid,
         set_timeout_msgtag = set_timeout, trigger_msgtag = trigger, last_status_clock = 0, expire_clock = 0,
         expire_ticks = 0, min_extend_ticks = 0,
         tdm_ce = \<lparr>last_clock = 0, conv_clock = 0, conv_time = 0, est_freq = 0\<rparr>\<rparr>))
       (td_upd d (\<lambda>x. x\<lparr>tdm_list := tdm_list x @ [m]\<rparr>)))"

definition trdispatch_mcu_setup :: "nat \<Rightarrow> u64 \<Rightarrow> u64 \<Rightarrow> u64 \<Rightarrow> u64 \<Rightarrow> unit tr_op" where
  "trdispatch_mcu_setup m status expire ticks new_extend =
     bind_op (get_op (\<lambda>w. tdms w m)) (\<lambda>tdm.
     bind_op (on_sq (tdm_sq tdm) serialqueue_get_clock_est) (\<lambda>ce.
       tdm_upd m (\<lambda>x. x\<lparr>last_status_clock := status, expire_clock := expire, expire_ticks := ticks,
                          min_extend_ticks := new_extend, tdm_ce := ce\<rparr>)))"

subsection \<open>What the operations do\<close>

lemma on_sq_app [op_simps]:
  "on_sq i m w = (case m (sqs w i) of Ret x t \<Rightarrow> Ret x (w\<lparr>sqs := (sqs w)(i := t)\<rparr>)
     | Shutdown e t \<Rightarrow> Shutdown e (w\<lparr>sqs := (sqs w)(i := t)\<rparr>) | Undef \<Rightarrow> Undef)"
  by (simp add: on_sq_def)

lemmas tr_upd_app [op_simps] = td_upd_def tdm_upd_def

lemma send_one_effect:
  assumes "0 < qm_len qm"
  shows "\<exists>t. serialqueue_send_one q qm s = Ret () t \<and> cq_at t = (cq_at s)(q := (cq_at s q)\<lparr>upcoming_queue := upcoming_queue (cq_at s q) @ [raise_min_clock qm]\<rparr>) \<and>
    sq_ce t = sq_ce s"
proof -
  have "qm_len (raise_min_clock qm) = qm_len qm" by (simp add: raise_min_clock_def)
  with assms show ?thesis
    by (auto simp: serialqueue_send_one_def serialqueue_send_batch_def op_simps kick_bg_thread_def total_len_def Let_def)
qed

lemma message_encode_loop_req: "message_encode_loop vs qm p = Some qm' \<Longrightarrow> req_clock qm' = req_clock qm"
  by (induction vs qm p rule: message_encode_loop.induct) (auto simp: Let_def split: option.splits if_splits)

lemma encode_words:
  assumes "length vs \<le> 11" "vs \<noteq> []"
  obtains qm where "message_alloc_and_encode vs = Some qm" "0 < qm_len qm" "qm_bytes qm = concat (map host_encode_int vs)"
    "req_clock qm = 0"
proof -
  obtain qm where qm: "message_alloc_and_encode vs = Some qm" "encodes [] vs qm"
    using message_alloc_and_encode_spec by blast
  have "length (concat (map host_encode_int vs)) \<le> 5 * length vs"
    by (induction vs) (use host_int.enc_len(2) in \<open>auto simp: add_mono\<close>)
  then have len: "length (concat (map host_encode_int vs)) \<le> MESSAGE_PAYLOAD_MAX" using assms(1) by simp
  have "0 < length (concat (map host_encode_int vs))"
    using assms(2) host_int.enc_len(1) [of "hd vs"] by (cases vs) auto
  moreover have "req_clock qm = 0"
    using qm(1) message_encode_loop_req unfolding message_alloc_and_encode_def by (fastforce simp: message_alloc_def)
  ultimately show thesis using that [OF qm(1)] qm(2) len
    by (auto simp: encodes_def qm_bytes_def Let_def simp del: length_greater_0_conv)
qed

lemma raise_min_clock_keeps: "qm_bytes (raise_min_clock qm) = qm_bytes qm" "req_clock (raise_min_clock qm) = req_clock qm"
  by (simp_all add: raise_min_clock_def qm_bytes_def)

text \<open>The command queue of a micro-controller, and the messages in it that have not become ready yet.\<close>

definition chan :: "host_process \<Rightarrow> nat \<Rightarrow> nat \<times> nat" where
  "chan w m = (tdm_sq (tdms w m), tdm_cq (tdms w m))"

definition outbox :: "host_process \<Rightarrow> nat \<times> nat \<Rightarrow> queue_message list" where
  "outbox w c = upcoming_queue (cq_at (sqs w (fst c)) (snd c))"

text \<open>
  \<open>touched M w w'\<close>: of all that the module looks at, only the timeouts of the micro-controllers \<open>M\<close> and what waits in
  their command queues has changed.
\<close>

definition touched :: "nat set \<Rightarrow> host_process \<Rightarrow> host_process \<Rightarrow> bool" where
  "touched M w w' \<longleftrightarrow> tds w' = tds w \<and>
     (\<forall>x. tdms w' x = (tdms w x)\<lparr>expire_clock := expire_clock (tdms w' x)\<rparr> \<and> (x \<notin> M \<longrightarrow> tdms w' x = tdms w x)) \<and>
     (\<forall>i. sq_ce (sqs w' i) = sq_ce (sqs w i)) \<and> (\<forall>c. c \<notin> chan w ` M \<longrightarrow> outbox w' c = outbox w c)"

lemma touched_none: "touched {} w w"
  by (simp add: touched_def)

lemma touched_const:
  assumes "touched M w w'"
  shows "chan w' x = chan w x" "status_time (tdms w' x) = status_time (tdms w x)" "tds w' = tds w"
    "tdm_ce (tdms w' x) = tdm_ce (tdms w x)" "expire_ticks (tdms w' x) = expire_ticks (tdms w x)"
    "tdm_td (tdms w' x) = tdm_td (tdms w x)" "min_extend_ticks (tdms w' x) = min_extend_ticks (tdms w x)"
    "last_status_clock (tdms w' x) = last_status_clock (tdms w x)" "sq_ce (sqs w' i) = sq_ce (sqs w i)"
proof -
  have eq: "tdms w' x = (tdms w x)\<lparr>expire_clock := expire_clock (tdms w' x)\<rparr>" using assms by (auto simp: touched_def)
  show "chan w' x = chan w x" by (subst chan_def, subst (1 2) eq) (simp add: chan_def)
  show "status_time (tdms w' x) = status_time (tdms w x)" by (subst eq) (simp add: status_time_def)
  show "tdm_ce (tdms w' x) = tdm_ce (tdms w x)" by (subst eq) simp
  show "expire_ticks (tdms w' x) = expire_ticks (tdms w x)" by (subst eq) simp
  show "tdm_td (tdms w' x) = tdm_td (tdms w x)" by (subst eq) simp
  show "min_extend_ticks (tdms w' x) = min_extend_ticks (tdms w x)" by (subst eq) simp
  show "last_status_clock (tdms w' x) = last_status_clock (tdms w x)" by (subst eq) simp
qed (use assms in \<open>auto simp: touched_def\<close>)

lemma touched_trans:
  assumes "touched M w w1" "touched N w1 w2"
  shows "touched (M \<union> N) w w2"
proof -
  have chan: "chan w1 = chan w" using touched_const(1) [OF assms(1)] by (rule ext)
  have upd: "tdms w2 x = (tdms w x)\<lparr>expire_clock := expire_clock (tdms w2 x)\<rparr>" for x
  proof -
    have "tdms w2 x = (tdms w1 x)\<lparr>expire_clock := expire_clock (tdms w2 x)\<rparr>"
      "tdms w1 x = (tdms w x)\<lparr>expire_clock := expire_clock (tdms w1 x)\<rparr>"
      using assms by (auto simp: touched_def)
    then show ?thesis by (cases "tdms w x", cases "tdms w1 x", cases "tdms w2 x") simp
  qed
  show ?thesis
    using assms upd unfolding touched_def chan by (simp del: split_paired_All add: image_Un)
qed

text \<open>What belongs to one micro-controller: its object and the messages for it.\<close>

definition own :: "host_process \<Rightarrow> nat \<Rightarrow> trdispatch_mcu \<times> queue_message list" where
  "own w m = (tdms w m, outbox w (chan w m))"

lemma own_untouched: "touched M w w' \<Longrightarrow> m \<notin> M \<Longrightarrow> chan w m \<notin> chan w ` M \<Longrightarrow> own w' m = own w m"
  using touched_const(1) [of M w w' m] by (simp add: own_def touched_def del: split_paired_All)

lemma each_touched:
  assumes "\<And>m w. m \<in> set ms \<Longrightarrow> tds w = ds \<Longrightarrow>
      \<exists>w'. f m w = Ret () w' \<and> touched {m} w w' \<and> Q m (own w m) (own w' m)"
    and "tds w = ds" "distinct (map (chan w) ms)"
  shows "\<exists>w'. each_op f ms w = Ret () w' \<and> touched (set ms) w w' \<and> (\<forall>m\<in>set ms. Q m (own w m) (own w' m))"
  using assms
proof (induction ms arbitrary: w)
  case Nil
  then show ?case by (auto simp: op_simps touched_none)
next
  case (Cons m ms)
  obtain w1 where w1: "f m w = Ret () w1" "touched {m} w w1" "Q m (own w m) (own w1 m)"
    using Cons.prems(1) [of m w] Cons.prems(2) by auto
  have chan: "chan w1 = chan w" using touched_const(1) [OF w1(2)] by (rule ext)
  have d: "distinct (map (chan w1) ms)" using Cons.prems(3) unfolding chan by simp
  have "tds w1 = ds" using touched_const(3) [OF w1(2)] Cons.prems(2) by simp
  from Cons.IH [OF Cons.prems(1) this d]
  obtain w2 where w2: "each_op f ms w1 = Ret () w2" "touched (set ms) w1 w2" "\<forall>m\<in>set ms. Q m (own w1 m) (own w2 m)"
    by auto
  have fresh: "chan w m \<notin> chan w ` set ms" "m \<notin> set ms" using Cons.prems(3) by auto
  have "own w2 m = own w1 m" using own_untouched [OF w2(2) fresh(2)] fresh(1) unfolding chan by simp
  moreover have "own w1 x = own w x" if "x \<in> set ms" for x
    using own_untouched [OF w1(2), of x] that fresh by (metis (no_types, lifting) image_empty image_insert image_eqI singletonD)
  ultimately show ?case
    using w1 w2 touched_trans [OF w1(2) w2(2)] by (auto simp: op_simps)
qed

text \<open>A message handed to the serial queue.\<close>

definition says :: "u32 list \<Rightarrow> u64 \<Rightarrow> queue_message \<Rightarrow> bool" where
  "says vs clock qm \<longleftrightarrow> qm_bytes qm = concat (map host_encode_int vs) \<and> req_clock qm = clock"

lemma send_effect:
  assumes "0 < qm_len qm" "chan w m = (i, q)"
  shows "\<exists>w'. on_sq i (serialqueue_send_one q qm) w = Ret () w' \<and> touched {m} w w' \<and> tdms w' = tdms w \<and>
    outbox w' (chan w m) = outbox w (chan w m) @ [raise_min_clock qm]"
proof -
  obtain t where t: "serialqueue_send_one q qm (sqs w i) = Ret () t"
    "cq_at t = (cq_at (sqs w i))(q := (cq_at (sqs w i) q)\<lparr>upcoming_queue := upcoming_queue (cq_at (sqs w i) q) @ [raise_min_clock qm]\<rparr>)"
    "sq_ce t = sq_ce (sqs w i)"
    using send_one_effect [OF assms(1), of q "sqs w i"] by blast
  then show ?thesis
    using assms(2) by (auto simp: op_simps touched_def outbox_def)
qed

lemma send_trigger_effect:
  "\<exists>w'. send_trsync_trigger m w = Ret () w' \<and> touched {m} w w' \<and> tdms w' = tdms w \<and>
     (\<exists>qm. says (trigger_words w m) 0 qm \<and> outbox w' (chan w m) = outbox w (chan w m) @ [qm])"
proof -
  obtain qm where qm: "message_alloc_and_encode (trigger_words w m) = Some qm" "0 < qm_len qm"
    "qm_bytes qm = concat (map host_encode_int (trigger_words w m))" "req_clock qm = 0"
    by (rule encode_words [of "trigger_words w m"]) (simp_all add: trigger_words_def)
  obtain w' where "on_sq (tdm_sq (tdms w m)) (serialqueue_send_one (tdm_cq (tdms w m)) qm) w = Ret () w'"
    "touched {m} w w'" "tdms w' = tdms w" "outbox w' (chan w m) = outbox w (chan w m) @ [raise_min_clock qm]"
    using send_effect [OF qm(2)] unfolding chan_def by blast
  then show ?thesis
    using qm by (auto simp: send_trsync_trigger_def bind_op_app get_op_app option_op_app says_def raise_min_clock_keeps)
qed

lemma send_timeout_effect:
  "\<exists>w'. send_trsync_set_timeout m w = Ret () w' \<and> touched {m} w w' \<and> tdms w' = tdms w \<and>
     (\<exists>qm. says (timeout_words (tdms w m)) (expire_clock (tdms w m)) qm \<and> outbox w' (chan w m) = outbox w (chan w m) @ [qm])"
proof -
  obtain qm where qm: "message_alloc_and_encode (timeout_words (tdms w m)) = Some qm" "0 < qm_len qm"
    "qm_bytes qm = concat (map host_encode_int (timeout_words (tdms w m)))"
    by (rule encode_words [of "timeout_words (tdms w m)"]) (simp_all add: timeout_words_def)
  let ?qm = "qm\<lparr>req_clock := expire_clock (tdms w m)\<rparr>"
  have pos: "0 < qm_len ?qm" using qm(2) by simp
  obtain w' where "on_sq (tdm_sq (tdms w m)) (serialqueue_send_one (tdm_cq (tdms w m)) ?qm) w = Ret () w'"
    "touched {m} w w'" "tdms w' = tdms w" "outbox w' (chan w m) = outbox w (chan w m) @ [raise_min_clock ?qm]"
    using send_effect [OF pos] unfolding chan_def by blast
  then show ?thesis
    using qm by (auto simp: send_trsync_set_timeout_def bind_op_app get_op_app option_op_app says_def raise_min_clock_keeps)
      (auto simp: qm_bytes_def)
qed

subsection \<open>The least acknowledged times\<close>

text \<open>What the loop has found after the entries \<open>ys\<close>.\<close>

definition scanned :: "(nat \<times> real) list \<Rightarrow> real \<times> real \<times> nat option \<Rightarrow> bool" where
  "scanned ys r = (case r of (a, b, k) \<Rightarrow>
     a \<le> b \<and> b \<le> PR_NEVER \<and>
     (\<forall>(m, t)\<in>set ys. t < PR_NEVER \<longrightarrow> a \<le> t \<and> (k \<noteq> Some m \<longrightarrow> b \<le> t)) \<and>
     (a < PR_NEVER \<longrightarrow> (\<exists>m0. k = Some m0 \<and> (m0, a) \<in> set ys)) \<and>
     (b < PR_NEVER \<longrightarrow> (\<exists>m. k \<noteq> Some m \<and> (m, b) \<in> set ys)) \<and>
     (\<forall>m0. k = Some m0 \<longrightarrow> a < PR_NEVER \<and> m0 \<in> fst ` set ys))"

lemma min_scan_scanned:
  assumes "scanned ys (a, b, k)" "distinct (map fst (ys @ xs))"
  shows "scanned (ys @ xs) (min_scan xs a b k)"
  using assms
proof (induction xs arbitrary: ys a b k)
  case (Cons p xs)
  obtain m t where p: "p = (m, t)" by (cases p)
  define r where "r = (if t < b then if t < a then (t, a, Some m) else (a, t, k) else (a, b, k))"
  obtain a' b' k' where r': "r = (a', b', k')" by (cases r)
  have new: "m \<notin> fst ` set ys" using Cons.prems(2) p by (auto simp: image_iff)
  have k: "k \<noteq> Some m" using Cons.prems(1) new by (auto simp: scanned_def)
  have "scanned (ys @ [p]) (a', b', k')"
  proof (cases "t < b")
    case False
    then show ?thesis using Cons.prems(1) r' k by (fastforce simp: r_def scanned_def p)
  next
    case tb: True
    show ?thesis
    proof (cases "t < a")
      case True
      then show ?thesis using Cons.prems(1) r' tb new by (fastforce simp: r_def scanned_def p image_iff)
    next
      case False
      then show ?thesis using Cons.prems(1) r' tb new k by (fastforce simp: r_def scanned_def p image_iff)
    qed
  qed
  moreover have "min_scan (p # xs) a b k = min_scan xs a' b' k'" using r' by (auto simp: p r_def)
  ultimately show ?case using Cons.IH [of "ys @ [p]" a' b' k'] Cons.prems(2) by simp
qed simp

lemma min_scan_ok: "distinct (map fst xs) \<Longrightarrow> scanned xs (min_scan xs PR_NEVER PR_NEVER None)"
  using min_scan_scanned [of "[]" PR_NEVER PR_NEVER None xs] by (simp add: scanned_def)

text \<open>
  The time a micro-controller's timeout follows: the least acknowledged time of the others, its own when there are
  no others.
\<close>

definition time_of_others :: "(nat \<Rightarrow> real) \<Rightarrow> nat list \<Rightarrow> nat \<Rightarrow> real" where
  "time_of_others st ms j = Min (st ` (if set ms = {j} then {j} else set ms - {j}))"

text \<open>The time the code uses.\<close>

definition scan_time :: "(nat \<Rightarrow> real) \<Rightarrow> nat list \<Rightarrow> nat \<Rightarrow> real" where
  "scan_time st ms j =
     (case min_scan (map (\<lambda>m. (m, st m)) ms) PR_NEVER PR_NEVER None of
        (a, b, k) \<Rightarrow> if k = Some j then if b = PR_NEVER then a else b else a)"

lemma scan_time_le:
  assumes "distinct ms" "k \<in> set ms" "j \<noteq> k" "st k < PR_NEVER"
  shows "scan_time st ms j \<le> st k"
proof -
  obtain a b h where r: "min_scan (map (\<lambda>m. (m, st m)) ms) PR_NEVER PR_NEVER None = (a, b, h)" by (rule prod_cases3)
  have "scanned (map (\<lambda>m. (m, st m)) ms) (a, b, h)"
    using min_scan_ok [of "map (\<lambda>m. (m, st m)) ms"] assms(1) unfolding r by (simp add: o_def)
  then have "a \<le> st k \<and> (h \<noteq> Some k \<longrightarrow> b \<le> st k)" using assms(2,4) by (auto simp: scanned_def)
  then show ?thesis using assms(3,4) by (auto simp: scan_time_def r)
qed

lemma scan_time_others:
  assumes "distinct ms" "j \<in> set ms" "\<forall>k\<in>set ms. st k < PR_NEVER"
  shows "scan_time st ms j = time_of_others st ms j"
proof -
  obtain a b h where r: "min_scan (map (\<lambda>m. (m, st m)) ms) PR_NEVER PR_NEVER None = (a, b, h)" by (rule prod_cases3)
  have s: "scanned (map (\<lambda>m. (m, st m)) ms) (a, b, h)"
    using min_scan_ok [of "map (\<lambda>m. (m, st m)) ms"] assms(1) unfolding r by (simp add: o_def)
  have a: "\<forall>k\<in>set ms. a \<le> st k" and b: "\<forall>k\<in>set ms. h \<noteq> Some k \<longrightarrow> b \<le> st k"
    using s assms(3) by (auto simp: scanned_def)
  have "a < PR_NEVER" using a assms(2,3) by fastforce
  then obtain m0 where m0: "h = Some m0" "m0 \<in> set ms" "a = st m0" using s by (auto simp: scanned_def)
  show ?thesis
  proof (cases "set ms = {j}")
    case True
    have le: "b \<le> PR_NEVER" and w: "b < PR_NEVER \<longrightarrow> (\<exists>m. h \<noteq> Some m \<and> m \<in> set ms)" using s by (auto simp: scanned_def)
    have "\<not> b < PR_NEVER" using w m0(1,2) True by simp
    with le have "b = PR_NEVER" by simp
    with True m0 show ?thesis by (simp add: scan_time_def r time_of_others_def)
  next
    case False
    then obtain k where k: "k \<in> set ms" "k \<noteq> j" using assms(2) by blast
    show ?thesis
    proof (cases "m0 = j")
      case True
      then have lt: "b < PR_NEVER" using b k m0(1) assms(3) by fastforce
      then obtain m where m: "m \<in> set ms" "m \<noteq> j" "b = st m" using s m0(1) True by (auto simp: scanned_def)
      have "Min (st ` (set ms - {j})) = b"
        by (rule Min_eqI) (use b m m0(1) True in auto)
      then show ?thesis using False lt m0(1) True by (simp add: scan_time_def r time_of_others_def)
    next
      case ne: False
      have "Min (st ` (set ms - {j})) = a"
        by (rule Min_eqI) (use a m0 ne in auto)
      then show ?thesis using False m0(1) ne by (simp add: scan_time_def r time_of_others_def)
    qed
  qed
qed

subsection \<open>Extending the timeouts\<close>

text \<open>What one round of the loop does to a micro-controller, given the time \<open>T\<close> its timeout follows.\<close>

definition extended :: "real \<Rightarrow> trdispatch_mcu \<times> queue_message list \<Rightarrow> trdispatch_mcu \<times> queue_message list \<Rightarrow> bool" where
  "extended T o1 o2 = (case (o1, o2) of ((x, out), (y, out')) \<Rightarrow>
     (let e = clock_from_time (tdm_ce x) T + expire_ticks x
      in if min_extend_ticks x \<le> e - expire_clock x
         then expire_clock y = e \<and> (\<exists>qm. says (timeout_words y) e qm \<and> out' = out @ [qm])
         else expire_clock y = expire_clock x \<and> out' = out))"

lemma extend_timeout_effect:
  assumes "T = (if k = Some m then b else a)"
  shows "\<exists>w'. extend_timeout a b k m w = Ret () w' \<and> touched {m} w w' \<and> extended T (own w m) (own w' m)"
proof -
  let ?x = "tdms w m"
  let ?e = "clock_from_time (tdm_ce ?x) T + expire_ticks ?x"
  show ?thesis
  proof (cases "min_extend_ticks ?x \<le> ?e - expire_clock ?x")
    case True
    define w1 where "w1 = w\<lparr>tdms := (tdms w)(m := ?x\<lparr>expire_clock := ?e\<rparr>)\<rparr>"
    have t1: "touched {m} w w1" by (auto simp: touched_def w1_def outbox_def)
    have c1: "chan w1 m = chan w m" "outbox w1 (chan w m) = outbox w (chan w m)" by (simp_all add: w1_def chan_def outbox_def)
    obtain w' qm where w': "send_trsync_set_timeout m w1 = Ret () w'" "touched {m} w1 w'" "tdms w' = tdms w1"
      "says (timeout_words (tdms w1 m)) (expire_clock (tdms w1 m)) qm" "outbox w' (chan w1 m) = outbox w1 (chan w1 m) @ [qm]"
      using send_timeout_effect by blast
    have "extend_timeout a b k m w = send_trsync_set_timeout m w1"
      using True assms by (simp add: extend_timeout_def op_simps Let_def w1_def)
    moreover have "touched {m} w w'" using touched_trans [OF t1 w'(2)] by simp
    moreover have "own w' m = (tdms w1 m, outbox w (chan w m) @ [qm])"
      using w'(3,5) c1 by (simp add: own_def chan_def)
    ultimately show ?thesis
      using w'(1,4) True by (auto simp: extended_def own_def Let_def w1_def)
  next
    case False
    then show ?thesis
      using assms by (auto simp: extend_timeout_def op_simps Let_def extended_def own_def touched_def)
  qed
qed

text \<open>The micro-controllers of a dispatch have command queues of their own.\<close>

definition tr_group :: "host_process \<Rightarrow> nat \<Rightarrow> bool" where
  "tr_group w d \<longleftrightarrow> distinct (map (chan w) (tdm_list (tds w d))) \<and> (\<forall>m\<in>set (tdm_list (tds w d)). tdm_td (tdms w m) = d)"

lemma extend_timeouts_effect:
  assumes "distinct (map (chan w) ms)"
  shows "\<exists>w'. extend_timeouts ms w = Ret () w' \<and> touched (set ms) w w' \<and>
    (\<forall>j\<in>set ms. extended (scan_time (\<lambda>m. status_time (tdms w m)) ms j) (own w j) (own w' j))"
proof -
  obtain a b k where r: "min_scan (map (\<lambda>m. (m, status_time (tdms w m))) ms) PR_NEVER PR_NEVER None = (a, b, k)"
    by (rule prod_cases3)
  let ?b = "if b = PR_NEVER then a else b"
  have T: "scan_time (\<lambda>m. status_time (tdms w m)) ms j = (if k = Some j then ?b else a)" for j
    by (simp add: scan_time_def r)
  have eq: "extend_timeouts ms w = each_op (extend_timeout a ?b k) ms w"
    by (simp add: extend_timeouts_def op_simps r)
  show ?thesis
    unfolding eq
    by (rule each_touched [where Q = "\<lambda>j. extended (scan_time (\<lambda>m. status_time (tdms w m)) ms j)" and ds = "tds w"])
      (use extend_timeout_effect T assms in auto)
qed

text \<open>The state once the report of a status has been noted.\<close>

definition noted :: "nat \<Rightarrow> u32 \<Rightarrow> host_process \<Rightarrow> host_process" where
  "noted m clock w =
     (let ce = sq_ce (sqs w (tdm_sq (tdms w m)))
      in w\<lparr>tdms := (tdms w)(m := (tdms w m)\<lparr>tdm_ce := ce, last_status_clock := clock_from_clock32 ce clock\<rparr>)\<rparr>)"

lemma noted_simps [simp]:
  "sqs (noted m c w) = sqs w" "tds (noted m c w) = tds w" "x \<noteq> m \<Longrightarrow> tdms (noted m c w) x = tdms w x"
  "tdm_td (tdms (noted m c w) x) = tdm_td (tdms w x)" "expire_clock (tdms (noted m c w) x) = expire_clock (tdms w x)"
  "expire_ticks (tdms (noted m c w) x) = expire_ticks (tdms w x)"
  "min_extend_ticks (tdms (noted m c w) x) = min_extend_ticks (tdms w x)" "chan (noted m c w) = chan w"
  "tdm_ce (tdms (noted m c w) m) = sq_ce (sqs w (tdm_sq (tdms w m)))" "outbox (noted m c w) = outbox w"
  by (auto simp: noted_def Let_def chan_def outbox_def fun_eq_iff)

lemma handle_status:
  assumes "msgblock_decode 5 data = Some (0, [tag, trsync_oid (tdms w m), can, reason, clock])" "can \<noteq> 0"
    "td_can_trigger (tds w (tdm_td (tdms w m))) \<noteq> 0"
  shows "handle_trsync_state m data w = extend_timeouts (tdm_list (tds w (tdm_td (tdms w m)))) (noted m clock w)"
  using assms by (simp add: handle_trsync_state_def op_simps numeral_2_eq_2 numeral_eq_Suc serialqueue_get_clock_est_def noted_def Let_def)

lemma handle_trigger:
  assumes "msgblock_decode 5 data = Some (0, [tag, trsync_oid (tdms w m), 0, reason, clock])"
    "td_can_trigger (tds w d) \<noteq> 0" "tdm_td (tdms w m) = d"
  shows "handle_trsync_state m data w =
    each_op send_trsync_trigger (tdm_list (tds w d)) (w\<lparr>tds := (tds w)(d := (tds w d)\<lparr>td_can_trigger := 0\<rparr>)\<rparr>)"
  using assms by (simp add: handle_trsync_state_def op_simps numeral_2_eq_2 numeral_eq_Suc)

lemma handle_idle:
  assumes "valid_block data" "td_can_trigger (tds w (tdm_td (tdms w m))) = 0"
  shows "handle_trsync_state m data w = Ret () w"
  using assms(2) msgblock_decode_total [OF assms(1), of 5]
  by (auto simp: handle_trsync_state_def op_simps Let_def split: option.split)

definition tr_ok :: "host_process \<Rightarrow> bool" where
  "tr_ok w \<longleftrightarrow> (\<forall>d. tr_group w d)"

lemma tr_ok_cong:
  assumes "tr_ok w" "\<And>d. tdm_list (tds w' d) = tdm_list (tds w d)" "\<And>x. chan w' x = chan w x"
    "\<And>x. tdm_td (tdms w' x) = tdm_td (tdms w x)"
  shows "tr_ok w'"
proof -
  have "chan w' = chan w" using assms(3) by (rule ext)
  with assms show ?thesis by (simp add: tr_ok_def tr_group_def)
qed

lemma tr_okD: "tr_ok w \<Longrightarrow> distinct (map (chan w) (tdm_list (tds w d)))"
    "tr_ok w \<Longrightarrow> m \<in> set (tdm_list (tds w d)) \<Longrightarrow> tdm_td (tdms w m) = d"
  by (simp_all add: tr_ok_def tr_group_def)

text \<open>What a call of \<open>handle_trsync_state\<close> amounts to.\<close>

lemma handle_trsync_cases:
  assumes "handle_trsync_state m data w = Ret u w'"
  obtains (same) "w' = w"
  | (trigger) d where "d = tdm_td (tdms w m)" "td_can_trigger (tds w d) \<noteq> 0"
      "each_op send_trsync_trigger (tdm_list (tds w d)) (w\<lparr>tds := (tds w)(d := (tds w d)\<lparr>td_can_trigger := 0\<rparr>)\<rparr>) = Ret () w'"
  | (status) clock where "extend_timeouts (tdm_list (tds w (tdm_td (tdms w m)))) (noted m clock w) = Ret () w'"
  using assms
  by (auto simp: handle_trsync_state_def op_simps Let_def noted_def serialqueue_get_clock_est_def
      split: option.splits prod.splits if_splits)

lemma triggers_effect:
  assumes "distinct (map (chan w) ms)"
  shows "\<exists>w'. each_op send_trsync_trigger ms w = Ret () w' \<and> touched (set ms) w w' \<and>
    (\<forall>j\<in>set ms. tdms w' j = tdms w j \<and> (\<exists>qm. says (trigger_words w j) 0 qm \<and>
       outbox w' (chan w j) = outbox w (chan w j) @ [qm]))"
proof -
  let ?Q = "\<lambda>j x y. fst y = fst x \<and> (\<exists>qm. says [trigger_msgtag (fst x), trsync_oid (fst x),
      dispatch_reason (tds w (tdm_td (fst x)))] 0 qm \<and> snd y = snd x @ [qm])"
  have step: "\<exists>w2. send_trsync_trigger m w1 = Ret () w2 \<and> touched {m} w1 w2 \<and> ?Q m (own w1 m) (own w2 m)"
    if "tds w1 = tds w" for m w1
  proof -
    obtain w2 qm where w2: "send_trsync_trigger m w1 = Ret () w2" "touched {m} w1 w2" "tdms w2 = tdms w1"
      "says (trigger_words w1 m) 0 qm" "outbox w2 (chan w1 m) = outbox w1 (chan w1 m) @ [qm]"
      using send_trigger_effect [of m w1] by blast
    then have "?Q m (own w1 m) (own w2 m)"
      using touched_const(1) [OF w2(2), of m] that by (auto simp: own_def trigger_words_def)
    with w2(1,2) show ?thesis by blast
  qed
  obtain w' where w': "each_op send_trsync_trigger ms w = Ret () w'" "touched (set ms) w w'"
    "\<forall>j\<in>set ms. ?Q j (own w j) (own w' j)"
    using each_touched [where Q = ?Q and ds = "tds w", of ms send_trsync_trigger w] step assms by blast
  then show ?thesis
    using touched_const(1) [OF w'(2)] by (auto simp: own_def trigger_words_def)
qed

subsection \<open>A micro-controller that falls silent\<close>

text \<open>
  A step of the host while nothing is heard of the micro-controller \<open>k\<close>: a report of another one, or anything the
  serial queues do, including new clock estimates, which are among \<open>ces\<close>.
\<close>
inductive silent_step :: "nat \<Rightarrow> clock_estimate set \<Rightarrow> host_process \<Rightarrow> host_process \<Rightarrow> bool" for k ces where
  silent_report: "m \<noteq> k \<Longrightarrow> handle_trsync_state m data w = Ret () w' \<Longrightarrow> silent_step k ces w w'"
| silent_queues: "\<forall>i. sq_ce (f i) \<in> ces \<Longrightarrow> silent_step k ces w (w\<lparr>sqs := f\<rparr>)"

text \<open>A timeout that has been extended by at most the time \<open>S\<close>.\<close>

definition bounded_by :: "real \<Rightarrow> clock_estimate set \<Rightarrow> trdispatch_mcu \<Rightarrow> bool" where
  "bounded_by S ces x \<longleftrightarrow> (\<exists>ce\<in>ces. \<exists>T\<le>S. expire_clock x = clock_from_time ce T + expire_ticks x)"

definition silent_inv :: "nat \<Rightarrow> nat \<Rightarrow> real \<Rightarrow> clock_estimate set \<Rightarrow> u64 \<Rightarrow> nat \<Rightarrow> host_process \<Rightarrow> bool" where
  "silent_inv d k S ces c j w \<longleftrightarrow> tr_ok w \<and> k \<in> set (tdm_list (tds w d)) \<and> j \<in> set (tdm_list (tds w d)) \<and>
     status_time (tdms w k) = S \<and> (\<forall>i. sq_ce (sqs w i) \<in> ces) \<and> tdm_ce (tdms w j) \<in> ces \<and>
     (expire_clock (tdms w j) = c \<or> bounded_by S ces (tdms w j))"

lemma silent_inv_touched:
  assumes "silent_inv d k S ces c j w" "touched M w w'"
    "expire_clock (tdms w' j) = expire_clock (tdms w j) \<or> bounded_by S ces (tdms w' j)"
  shows "silent_inv d k S ces c j w'"
proof -
  note c = touched_const [OF assms(2)]
  have ok: "tr_ok w" using assms(1) by (simp add: silent_inv_def)
  have "tr_ok w'" by (rule tr_ok_cong [OF ok]) (simp_all add: c)
  moreover have "bounded_by S ces (tdms w j) \<Longrightarrow> expire_clock (tdms w' j) = expire_clock (tdms w j) \<Longrightarrow> bounded_by S ces (tdms w' j)"
    by (simp add: bounded_by_def c)
  ultimately show ?thesis using assms(1,3) by (auto simp: silent_inv_def c)
qed

lemma silent_inv_noted:
  assumes "silent_inv d k S ces c j w" "m \<noteq> k"
  shows "silent_inv d k S ces c j (noted m clock w)"
proof -
  have ok: "tr_ok w" using assms(1) by (simp add: silent_inv_def)
  have "tr_ok (noted m clock w)" by (rule tr_ok_cong [OF ok]) simp_all
  moreover have "tdm_ce (tdms (noted m clock w) j) \<in> ces"
    using assms(1) by (cases "j = m") (simp_all add: silent_inv_def)
  ultimately show ?thesis using assms by (simp add: silent_inv_def bounded_by_def)
qed

lemma silent_step_inv:
  assumes "silent_step k ces w w'" "silent_inv d k S ces c j w" "j \<noteq> k" "S < PR_NEVER"
  shows "silent_inv d k S ces c j w'"
  using assms(1)
proof cases
  case (silent_queues f)
  then show ?thesis
    using assms(2) tr_ok_cong [of w w'] by (simp add: silent_inv_def chan_def)
next
  case (silent_report m data)
  from silent_report(2) show ?thesis
  proof (cases rule: handle_trsync_cases)
    case same
    with assms(2) show ?thesis by simp
  next
    case (trigger d')
    define w1 where "w1 = w\<lparr>tds := (tds w)(d' := (tds w d')\<lparr>td_can_trigger := 0\<rparr>)\<rparr>"
    have ok: "tr_ok w" using assms(2) by (simp add: silent_inv_def)
    have "tr_ok w1" by (rule tr_ok_cong [OF ok]) (simp_all add: w1_def chan_def)
    then have inv: "silent_inv d k S ces c j w1"
      using assms(2) by (simp add: silent_inv_def) (auto simp: w1_def)
    have "chan w1 = chan w" by (simp add: w1_def chan_def fun_eq_iff)
    then have d: "distinct (map (chan w1) (tdm_list (tds w d')))" using tr_okD(1) [OF ok, of d'] by simp
    from triggers_effect [OF d] trigger(3) have t: "touched (set (tdm_list (tds w d'))) w1 w'"
      and e: "\<forall>j\<in>set (tdm_list (tds w d')). tdms w' j = tdms w1 j" by (auto simp: w1_def)
    have "tdms w' j = tdms w1 j" using e t by (cases "j \<in> set (tdm_list (tds w d'))") (auto simp: touched_def)
    then show ?thesis using silent_inv_touched [OF inv t] by simp
  next
    case (status clock)
    define w1 where "w1 = noted m clock w"
    have inv: "silent_inv d k S ces c j w1" using silent_inv_noted [OF assms(2) silent_report(1)] by (simp add: w1_def)
    then have ok: "tr_ok w1" by (simp add: silent_inv_def)
    let ?d = "tdm_td (tdms w m)" let ?st = "\<lambda>m. status_time (tdms w1 m)"
    let ?ms = "tdm_list (tds w1 ?d)"
    have eq: "extend_timeouts ?ms w1 = Ret () w'" using status by (simp add: w1_def)
    from extend_timeouts_effect [OF tr_okD(1) [OF ok, of ?d]] eq have t: "touched (set ?ms) w1 w'"
      and e: "\<forall>j\<in>set ?ms. extended (scan_time ?st ?ms j) (own w1 j) (own w' j)" by auto
    have "expire_clock (tdms w' j) = expire_clock (tdms w1 j) \<or> bounded_by S ces (tdms w' j)"
    proof (cases "j \<in> set ?ms")
      case False
      with t show ?thesis by (auto simp: touched_def)
    next
      case True
      have "j \<in> set (tdm_list (tds w1 d))" using inv by (simp add: silent_inv_def)
      then have dd: "?d = d" using tr_okD(2) [OF ok, of j d] tr_okD(2) [OF ok True] by simp
      have dm: "distinct ?ms" using tr_okD(1) [OF ok] by (simp add: distinct_map)
      have "scan_time ?st ?ms j \<le> S"
        using scan_time_le [OF dm, of k j ?st] inv assms(3,4) dd by (auto simp: silent_inv_def)
      moreover have "expire_ticks (tdms w' j) = expire_ticks (tdms w1 j)" by (rule touched_const(5) [OF t])
      ultimately show ?thesis
        using e True inv by (auto simp: extended_def own_def bounded_by_def silent_inv_def Let_def split: if_splits)
    qed
    then show ?thesis by (rule silent_inv_touched [OF inv t])
  qed
qed

lemma silent_run_inv:
  assumes "(silent_step k ces)\<^sup>*\<^sup>* w w'" "silent_inv d k S ces c j w" "j \<noteq> k" "S < PR_NEVER"
  shows "silent_inv d k S ces c j w'"
  using assms(1,2) by (induction rule: rtranclp_induct) (auto intro: silent_step_inv [OF _ _ assms(3,4)])

subsection \<open>An example\<close>

definition example_tdm :: "nat \<Rightarrow> trdispatch_mcu" where
  "example_tdm m =
     \<lparr>tdm_fr = \<lparr>fr_func = m, fr_prefix = [5, of_nat m]\<rparr>, tdm_td = 0, tdm_sq = m, tdm_cq = 3, trsync_oid = of_nat m,
      set_timeout_msgtag = 11, trigger_msgtag = 12, last_status_clock = 1000, expire_clock = 0,
      expire_ticks = 250, min_extend_ticks = 100,
      tdm_ce = \<lparr>last_clock = 0, conv_clock = 0, conv_time = 0, est_freq = 1000\<rparr>\<rparr>"

definition example_host :: host_process where
  "example_host =
     \<lparr>sqs = (\<lambda>i. example_sq\<lparr>sq_ce := \<lparr>last_clock = 0, conv_clock = 0, conv_time = 0, est_freq = 1000\<rparr>\<rparr>),
      tds = (\<lambda>d. \<lparr>tdm_list = (if d = 0 then [0, 1] else []), td_is_active = 1, td_can_trigger = 1, dispatch_reason = 7\<rparr>),
      tdms = example_tdm\<rparr>"

text \<open>A report of the first micro-controller: all is well at its clock 2000; and one of a trigger.\<close>

definition example_report :: "u32 \<Rightarrow> u8 list" where
  "example_report can = mk_block 0x10 (concat (map host_encode_int [5, 0, can, 0, 2000]))"

lemma example_report_decode: "msgblock_decode 5 (example_report can) = Some (0, [5, 0, can, 0, 2000])"
  using msgblock_decode_block [where vs = "[5, 0, can, 0, 2000]" and seq = "0x10"] by (simp add: example_report_def eval_nat_numeral)

lemma example_host_ok: "tr_ok example_host"
  by (simp add: tr_ok_def tr_group_def example_host_def chan_def example_tdm_def)

lemma example_host_simps:
  "td_can_trigger (tds example_host 0) \<noteq> 0" "tdm_list (tds example_host 0) = [0, 1]"
  "trsync_oid (tdms example_host m) = of_nat m" "expire_clock (tdms example_host m) = 0"
  "expire_ticks (tdms example_host m) = 250" "dispatch_reason (tds example_host 0) = 7"
  "tdm_ce (tdms example_host m) = \<lparr>last_clock = 0, conv_clock = 0, conv_time = 0, est_freq = 1000\<rparr>"
  "sq_ce (sqs example_host i) = \<lparr>last_clock = 0, conv_clock = 0, conv_time = 0, est_freq = 1000\<rparr>"
  "min_extend_ticks (tdms example_host m) = 100" "tdm_td (tdms example_host m) = 0"
  by (simp_all add: example_host_def example_tdm_def)

lemma example_status:
  "status_time (tdms example_host m) = 1" "status_time (tdms (noted 0 2000 example_host) 0) = 2"
  "status_time (tdms (noted 0 2000 example_host) (Suc 0)) = 1"
  by (simp_all add: status_time_def clock_to_time_def noted_def Let_def clock_from_clock32_def example_host_def example_tdm_def)

subsection \<open>The reports reach the handler\<close>

text \<open>A report with the words that the firmware sends matches the fast reader of its micro-controller.\<close>

lemma report_matches_reader:
  assumes "trdispatch_mcu_alloc m d sq cq oid set_timeout trigger state w = Ret u w'"
  shows "fr_matches (mk_block seq (concat (map host_encode_int (state # oid # words)))) (tdm_fr (tdms w' m)) \<and>
    fr_func (tdm_fr (tdms w' m)) = m \<and> m \<in> set (tdm_list (tds w' d))"
proof -
  obtain qm where qm: "message_alloc_and_encode [state, oid] = Some qm"
    "qm_bytes qm = concat (map host_encode_int [state, oid])"
    by (rule encode_words [of "[state, oid]"]) simp_all
  from assms qm(1) have "tdm_fr (tdms w' m) = \<lparr>fr_func = m, fr_prefix = qm_bytes qm\<rparr>" "m \<in> set (tdm_list (tds w' d))"
    by (auto simp: trdispatch_mcu_alloc_def op_simps)
  with qm(2) show ?thesis by (simp add: fr_matches_def length_mk_block) (simp add: mk_block_def Let_def)
qed

text \<open>The unsigned comparison moves a timeout back as well as forth.\<close>

lemma timeout_moves_back:
  assumes "extended T (x, out) (y, out')" "expire_clock x = clock_from_time (tdm_ce x) T + expire_ticks x + back"
    "min_extend_ticks x \<le> - back"
  shows "expire_clock y = expire_clock x - back"
  using assms by (simp add: extended_def Let_def)

subsection \<open>Properties\<close>

text \<open>
  C10: Timeouts follow the other micro-controllers. A report that all is well is noted, and every micro-controller of the
  dispatch has its timeout moved to the least time that the \<open>others\<close> have acknowledged (its own, if there
  are no others) plus its \<open>expire_ticks\<close>, provided that this moves it by \<open>min_extend_ticks\<close> at least, counted as an
  unsigned number; exactly then one \<open>trsync_set_timeout\<close> message with the low bits of the new timeout is queued for it, and nothing
  else is sent.
\<close>

theorem timeouts_follow_other_mcus:
  fixes w :: host_process and d :: nat
  defines "ms \<equiv> tdm_list (tds w d)"
  assumes "tr_ok w" "m \<in> set ms" "td_can_trigger (tds w d) \<noteq> 0"
    and "msgblock_decode 5 data = Some (0, [tag, trsync_oid (tdms w m), can, reason, clock])" "can \<noteq> 0"
    and "\<forall>k\<in>set ms. status_time (tdms (noted m clock w) k) < PR_NEVER"
  shows "\<exists>w'. handle_trsync_state m data w = Ret () w' \<and>
    (\<forall>j\<in>set ms. extended (time_of_others (\<lambda>k. status_time (tdms (noted m clock w) k)) ms j)
       (own (noted m clock w) j) (own w' j))"
proof -
  have d: "tdm_td (tdms w m) = d" using tr_okD(2) [OF assms(2)] assms(3) by (simp add: ms_def)
  have dm: "distinct (map (chan (noted m clock w)) ms)" "distinct ms"
    using tr_okD(1) [OF assms(2), of d] by (simp_all add: ms_def distinct_map)
  have "handle_trsync_state m data w = extend_timeouts ms (noted m clock w)"
    using handle_status [OF assms(5,6)] assms(4) d by (simp add: ms_def)
  with extend_timeouts_effect [OF dm(1)] scan_time_others [OF dm(2) _ assms(7)] show ?thesis by auto
qed

theorem timeouts_follow_other_mcus_witness:
  "\<exists>w'. handle_trsync_state 0 (example_report 1) example_host = Ret () w' \<and>
     expire_clock (tdms w' 0) = 1250 \<and> expire_clock (tdms w' 1) = 2250"
proof -
  from timeouts_follow_other_mcus [OF example_host_ok, of 0 0 "example_report 1" 5 1 0 2000]
  obtain w' where "handle_trsync_state 0 (example_report 1) example_host = Ret () w'"
    "\<forall>j\<in>{0, Suc 0}. extended (time_of_others (\<lambda>k. status_time (tdms (noted 0 2000 example_host) k)) [0, Suc 0] j)
       (own (noted 0 2000 example_host) j) (own w' j)"
    by (auto simp: example_host_simps example_status example_report_decode)
  then show ?thesis
    by (auto simp: time_of_others_def insert_Diff_if example_status extended_def own_def Let_def example_host_simps
        clock_from_time_def c_trunc_def)
qed

text \<open>
  C11: A trigger reaches every micro-controller, once. When a micro-controller of an active dispatch reports a trigger or a
  timeout, one \<open>trsync_trigger\<close> message with the reason of the dispatch is queued for each of them, with the highest priority,
  and the dispatch is over: whatever well formed blocks come in after that, for any of them, nothing more is sent.
\<close>

theorem trigger_reaches_every_mcu:
  fixes w :: host_process and d :: nat
  defines "ms \<equiv> tdm_list (tds w d)"
  assumes "tr_ok w" "m \<in> set ms" "td_can_trigger (tds w d) \<noteq> 0"
    and "msgblock_decode 5 data = Some (0, [tag, trsync_oid (tdms w m), 0, reason, clock])"
  shows "\<exists>w'. handle_trsync_state m data w = Ret () w' \<and>
    (\<forall>j\<in>set ms. \<exists>qm. says [trigger_msgtag (tdms w j), trsync_oid (tdms w j), dispatch_reason (tds w d)] 0 qm \<and>
       outbox w' (chan w j) = outbox w (chan w j) @ [qm]) \<and>
    (\<forall>j\<in>set ms. \<forall>block. valid_block block \<longrightarrow> handle_trsync_state j block w' = Ret () w')"
proof -
  have d: "tdm_td (tdms w j) = d" if "j \<in> set ms" for j using tr_okD(2) [OF assms(2)] that by (simp add: ms_def)
  define w1 where "w1 = w\<lparr>tds := (tds w)(d := (tds w d)\<lparr>td_can_trigger := 0\<rparr>)\<rparr>"
  have w1: "chan w1 = chan w" "tdms w1 = tdms w" "outbox w1 = outbox w" "td_can_trigger (tds w1 d) = 0"
    "dispatch_reason (tds w1 d) = dispatch_reason (tds w d)"
    by (simp_all add: w1_def chan_def outbox_def fun_eq_iff)
  have "distinct (map (chan w1) ms)" using tr_okD(1) [OF assms(2), of d] by (simp add: w1 ms_def)
  from triggers_effect [OF this] obtain w' where w': "each_op send_trsync_trigger ms w1 = Ret () w'" "touched (set ms) w1 w'"
    "\<forall>j\<in>set ms. \<exists>qm. says (trigger_words w1 j) 0 qm \<and> outbox w' (chan w1 j) = outbox w1 (chan w1 j) @ [qm]" by blast
  have "handle_trsync_state m data w = Ret () w'"
    using handle_trigger [OF assms(5,4) d [OF assms(3)]] w'(1) by (simp add: ms_def w1_def)
  moreover have "handle_trsync_state j block w' = Ret () w'" if "j \<in> set ms" "valid_block block" for j block
    using that(2) by (rule handle_idle) (use touched_const [OF w'(2)] d [OF that(1)] w1 in simp)
  ultimately show ?thesis using w'(3) d by (auto simp: trigger_words_def w1)
qed

theorem trigger_reaches_every_mcu_witness:
  "\<exists>w' qm. handle_trsync_state 0 (example_report 0) example_host = Ret () w' \<and> says [12, 1, 7] 0 qm \<and>
     outbox w' (chan example_host 1) = outbox example_host (chan example_host 1) @ [qm]"
proof -
  have tag: "trigger_msgtag (tdms example_host m) = 12" for m by (simp add: example_host_def example_tdm_def)
  from trigger_reaches_every_mcu [OF example_host_ok, of 0 0 "example_report 0" 5 0 2000]
  show ?thesis by (auto simp: example_host_simps example_report_decode tag)
qed

text \<open>
  C12: A silent micro-controller stops the others. While nothing is heard of the micro-controller \<open>k\<close>, whatever the others
  report and whatever the serial queues do, the timeout of any other micro-controller of the dispatch stays where it was, or is
  at most its \<open>expire_ticks\<close> after the last time that \<open>k\<close> has acknowledged, in one of the clock estimates
  of that period: so it runs out, and the firmware stops its steppers.
\<close>

theorem silent_mcu_stops_others:
  assumes "(silent_step k ces)\<^sup>*\<^sup>* w w'" "tr_ok w" "k \<in> set (tdm_list (tds w d))" "j \<in> set (tdm_list (tds w d))" "j \<noteq> k"
    "\<forall>i. sq_ce (sqs w i) \<in> ces" "tdm_ce (tdms w j) \<in> ces" "status_time (tdms w k) < PR_NEVER"
  shows "expire_clock (tdms w' j) = expire_clock (tdms w j) \<or>
    (\<exists>ce\<in>ces. \<exists>T \<le> status_time (tdms w k). expire_clock (tdms w' j) = clock_from_time ce T + expire_ticks (tdms w' j))"
proof -
  have "silent_inv d k (status_time (tdms w k)) ces (expire_clock (tdms w j)) j w"
    using assms(2-4,6,7) by (simp add: silent_inv_def)
  from silent_run_inv [OF assms(1) this assms(5,8)] show ?thesis
    unfolding silent_inv_def bounded_by_def by blast
qed

theorem silent_mcu_stops_others_witness:
  "\<exists>w'. handle_trsync_state 0 (example_report 1) example_host = Ret () w' \<and>
    (expire_clock (tdms w' 0) = 0 \<or>
      (\<exists>T\<le>1. expire_clock (tdms w' 0) =
         clock_from_time \<lparr>last_clock = 0, conv_clock = 0, conv_time = 0, est_freq = 1000\<rparr> T + expire_ticks (tdms w' 0)))"
proof -
  let ?ce = "\<lparr>last_clock = 0, conv_clock = 0, conv_time = 0, est_freq = 1000 :: real\<rparr> :: clock_estimate"
  have d: "distinct (map (chan (noted 0 2000 example_host)) [0, 1])"
    by (simp add: chan_def example_host_def example_tdm_def)
  have "handle_trsync_state 0 (example_report 1) example_host = extend_timeouts [0, 1] (noted 0 2000 example_host)"
    using handle_status [of "example_report 1" 5 example_host 0 1 0 2000]
    by (simp add: example_host_simps example_report_decode)
  with extend_timeouts_effect [OF d] obtain w' where w': "handle_trsync_state 0 (example_report 1) example_host = Ret () w'" by auto
  have "silent_step 1 {?ce} example_host w'" by (rule silent_report [OF _ w']) simp
  then have "(silent_step 1 {?ce})\<^sup>*\<^sup>* example_host w'" by blast
  from silent_mcu_stops_others [OF this example_host_ok, of 0 0] w' show ?thesis
    by (simp add: example_host_simps example_status)
qed

end
