(* ===== verification/Linkedlist.thy ===== *)
theory Linkedlist
  imports Prelude
begin

text \<open>
  The doubly linked lists of \<open>list.h\<close>, over which the queues of the host library are built and which the other
  theories hold as HOL lists. A list is a ring of nodes through its root; a node is an address, and the store has
  the two pointers of every node. The container of a node is found by an offset from its address and back, so
  that addresses of nodes stand for their containers.

  The lemmas show that the operations on the pointers are the operations on HOL lists, for any number of disjoint
  lists in one store.
\<close>

record list_store =
  nd_next :: "nat \<Rightarrow> nat"
  nd_prev :: "nat \<Rightarrow> nat"

definition set_next :: "nat \<Rightarrow> nat \<Rightarrow> list_store \<Rightarrow> list_store" where
  "set_next n v s = s\<lparr>nd_next := (nd_next s)(n := v)\<rparr>"

definition set_prev :: "nat \<Rightarrow> nat \<Rightarrow> list_store \<Rightarrow> list_store" where
  "set_prev n v s = s\<lparr>nd_prev := (nd_prev s)(n := v)\<rparr>"

subsection \<open>The operations\<close>

text \<open>The root of a list is the node at the address of the list.\<close>

definition list_init :: "nat \<Rightarrow> list_store \<Rightarrow> list_store" where
  "list_init h s = set_prev h h (set_next h h s)"

definition list_empty :: "nat \<Rightarrow> list_store \<Rightarrow> bool" where
  "list_empty h s \<longleftrightarrow> nd_next s h = h"

definition list_is_first :: "nat \<Rightarrow> nat \<Rightarrow> list_store \<Rightarrow> bool" where
  "list_is_first n h s \<longleftrightarrow> nd_prev s n = h"

definition list_is_last :: "nat \<Rightarrow> nat \<Rightarrow> list_store \<Rightarrow> bool" where
  "list_is_last n h s \<longleftrightarrow> nd_next s n = h"

definition list_del :: "nat \<Rightarrow> list_store \<Rightarrow> list_store" where
  "list_del n s = (let p = nd_prev s n; q = nd_next s n in set_next p q (set_prev q p s))"

text \<open>\<open>__list_add\<close>.\<close>

definition list_add :: "nat \<Rightarrow> nat \<Rightarrow> nat \<Rightarrow> list_store \<Rightarrow> list_store" where
  "list_add n p q s = set_next p n (set_prev n p (set_next n q (set_prev q n s)))"

definition list_add_after :: "nat \<Rightarrow> nat \<Rightarrow> list_store \<Rightarrow> list_store" where
  "list_add_after n p s = list_add n p (nd_next s p) s"

definition list_add_before :: "nat \<Rightarrow> nat \<Rightarrow> list_store \<Rightarrow> list_store" where
  "list_add_before n q s = list_add n (nd_prev s q) q s"

definition list_add_head :: "nat \<Rightarrow> nat \<Rightarrow> list_store \<Rightarrow> list_store" where
  "list_add_head n h = list_add_after n h"

definition list_add_tail :: "nat \<Rightarrow> nat \<Rightarrow> list_store \<Rightarrow> list_store" where
  "list_add_tail n h = list_add_before n h"

definition list_join_tail :: "nat \<Rightarrow> nat \<Rightarrow> list_store \<Rightarrow> list_store" where
  "list_join_tail a h s =
     (if list_empty a s then s
      else (let p = nd_prev s h; q = h; f = nd_next s a; l = nd_prev s a
            in set_prev q l (set_next l q (set_next p f (set_prev f p s)))))"

definition list_first_entry :: "nat \<Rightarrow> list_store \<Rightarrow> nat" where
  "list_first_entry h s = nd_next s h"

definition list_last_entry :: "nat \<Rightarrow> list_store \<Rightarrow> nat" where
  "list_last_entry h s = nd_prev s h"

text \<open>
  The nodes that \<open>list_for_each_entry\<close> visits from \<open>pos\<close> on when its body changes no list, in at most \<open>n\<close>
  rounds; \<open>None\<close> when it needs more.
\<close>

fun list_for_each :: "nat \<Rightarrow> nat \<Rightarrow> nat \<Rightarrow> list_store \<Rightarrow> nat list option" where
  "list_for_each 0 pos h s = (if pos = h then Some [] else None)"
| "list_for_each (Suc n) pos h s =
     (if pos = h then Some [] else map_option ((#) pos) (list_for_each n (nd_next s pos) h s))"

lemma set_ptr_simps [simp]:
  "nd_next (set_next n v s) = (nd_next s)(n := v)" "nd_prev (set_next n v s) = nd_prev s"
  "nd_prev (set_prev n v s) = (nd_prev s)(n := v)" "nd_next (set_prev n v s) = nd_next s"
  by (simp_all add: set_next_def set_prev_def)

subsection \<open>Chains of nodes\<close>

text \<open>\<open>chain s a xs b\<close>: from \<open>a\<close> the forward pointers lead through \<open>xs\<close> to \<open>b\<close>, and the backward pointers back.\<close>

fun chain :: "list_store \<Rightarrow> nat \<Rightarrow> nat list \<Rightarrow> nat \<Rightarrow> bool" where
  "chain s a [] b \<longleftrightarrow> nd_next s a = b \<and> nd_prev s b = a"
| "chain s a (x # xs) b \<longleftrightarrow> nd_next s a = x \<and> nd_prev s x = a \<and> chain s x xs b"

lemma chain_cong:
  assumes "chain s a xs b" "\<And>y. y \<in> set (a # xs) \<Longrightarrow> nd_next t y = nd_next s y"
    "\<And>y. y \<in> set (xs @ [b]) \<Longrightarrow> nd_prev t y = nd_prev s y"
  shows "chain t a xs b"
  using assms by (induction xs arbitrary: a) simp_all

lemma chain_next: "chain s a (as @ bs) b \<Longrightarrow> nd_next s (last (a # as)) = hd (bs @ [b])"
  by (induction as arbitrary: a) (cases bs; auto)+

lemma chain_prev: "chain s a (as @ bs) b \<Longrightarrow> nd_prev s (hd (bs @ [b])) = last (a # as)"
  by (induction as arbitrary: a) (cases bs; auto)+

lemma chain_add:
  assumes "chain s a (as @ bs) b" "distinct (a # as @ bs)" "b \<notin> set (as @ bs)" "n \<notin> {a, b} \<union> set (as @ bs)"
  shows "chain (list_add n (last (a # as)) (hd (bs @ [b])) s) a (as @ n # bs) b"
  using assms
proof (induction as arbitrary: a)
  case Nil
  show ?case
  proof (cases bs)
    case (Cons q bs')
    have "chain s q bs' b" using Nil.prems(1) Cons by simp
    then have "chain (list_add n a q s) q bs' b"
      by (rule chain_cong) (use Nil.prems Cons in \<open>auto simp: list_add_def\<close>)
    then show ?thesis using Nil.prems Cons by (auto simp: list_add_def)
  qed (use Nil.prems in \<open>auto simp: list_add_def\<close>)
next
  case (Cons x as)
  let ?s = "list_add n (last (x # as)) (hd (bs @ [b])) s"
  have p: "last (x # as) \<in> set (x # as)" by (rule last_in_set) simp
  have q: "hd (bs @ [b]) \<in> set bs \<union> {b}" by (cases bs) auto
  have "chain ?s x (as @ n # bs) b" by (rule Cons.IH) (use Cons.prems in auto)
  moreover have "a \<noteq> last (x # as)" "x \<noteq> hd (bs @ [b])" using p q Cons.prems(2,3) by auto
  ultimately show ?case using Cons.prems by (auto simp: list_add_def)
qed

lemma chain_del:
  assumes "chain s a (as @ x # bs) b" "distinct (a # as @ x # bs)" "b \<notin> set (as @ x # bs)"
  shows "chain (list_del x s) a (as @ bs) b"
  using assms
proof (induction as arbitrary: a)
  case Nil
  show ?case
  proof (cases bs)
    case (Cons q bs')
    have "chain s q bs' b" using Nil.prems(1) Cons by simp
    then have "chain (list_del x s) q bs' b"
      by (rule chain_cong) (use Nil.prems Cons in \<open>auto simp: list_del_def Let_def\<close>)
    then show ?thesis using Nil.prems Cons by (auto simp: list_del_def Let_def)
  qed (use Nil.prems in \<open>auto simp: list_del_def Let_def\<close>)
next
  case (Cons y as)
  have l: "nd_prev s x = last (y # as)" and r: "nd_next s x = hd (bs @ [b])"
    using chain_prev [of s y as "x # bs" b] chain_next [of s y "as @ [x]" bs b] Cons.prems(1) by simp_all
  have p: "last (y # as) \<in> set (y # as)" by (rule last_in_set) simp
  have q: "hd (bs @ [b]) \<in> set bs \<union> {b}" by (cases bs) auto
  have "chain (list_del x s) y (as @ bs) b" by (rule Cons.IH) (use Cons.prems in auto)
  moreover have "a \<noteq> last (y # as)" "y \<noteq> hd (bs @ [b])" using p q Cons.prems(2,3) by auto
  ultimately show ?case using Cons.prems l r by (auto simp: list_del_def Let_def)
qed

text \<open>A chain led to another end.\<close>

lemma chain_redirect:
  assumes "chain s a xs b" "distinct (a # xs)" "c \<notin> set xs" "nd_next t (last (a # xs)) = c" "nd_prev t c = last (a # xs)"
    "\<And>y. y \<in> set (a # xs) \<Longrightarrow> y \<noteq> last (a # xs) \<Longrightarrow> nd_next t y = nd_next s y"
    "\<And>y. y \<in> set xs \<Longrightarrow> nd_prev t y = nd_prev s y"
  shows "chain t a xs c"
  using assms
proof (induction xs arbitrary: a)
  case (Cons x xs)
  have "last (x # xs) \<in> set (x # xs)" by (rule last_in_set) simp
  then have "a \<noteq> last (x # xs)" using Cons.prems(2) by auto
  moreover have "chain t x xs c" by (rule Cons.IH) (use Cons.prems in auto)
  ultimately show ?case using Cons.prems by auto
qed simp

lemma chain_append: "chain s a (as @ x # bs) b \<longleftrightarrow> chain s a as x \<and> chain s x bs b"
  by (induction as arbitrary: a) auto

lemma chain_for_each: "chain s a xs h \<Longrightarrow> h \<notin> set xs \<Longrightarrow> length xs \<le> n \<Longrightarrow> list_for_each n (nd_next s a) h s = Some xs"
proof (induction xs arbitrary: a n)
  case Nil
  then show ?case by (cases n) auto
next
  case (Cons x xs)
  then show ?case by (cases n) auto
qed

subsection \<open>Many lists in one store\<close>

definition ring :: "list_store \<Rightarrow> nat \<Rightarrow> nat list \<Rightarrow> bool" where
  "ring s h xs \<longleftrightarrow> distinct (h # xs) \<and> chain s h xs h"

text \<open>The nodes of the lists \<open>L\<close>, a map from the roots to what is in them; and the store holds just these lists.\<close>

definition list_nodes :: "(nat \<rightharpoonup> nat list) \<Rightarrow> nat set" where
  "list_nodes L = {n. \<exists>h xs. L h = Some xs \<and> n \<in> set (h # xs)}"

definition lists_at :: "list_store \<Rightarrow> (nat \<rightharpoonup> nat list) \<Rightarrow> bool" where
  "lists_at s L \<longleftrightarrow> (\<forall>h xs. L h = Some xs \<longrightarrow> ring s h xs) \<and>
     (\<forall>h k xs ys. L h = Some xs \<and> L k = Some ys \<and> h \<noteq> k \<longrightarrow> set (h # xs) \<inter> set (k # ys) = {})"

text \<open>Two stores that agree outside the nodes \<open>N\<close>.\<close>

definition same_outside :: "nat set \<Rightarrow> list_store \<Rightarrow> list_store \<Rightarrow> bool" where
  "same_outside N s t \<longleftrightarrow> (\<forall>y. y \<notin> N \<longrightarrow> nd_next t y = nd_next s y \<and> nd_prev t y = nd_prev s y)"

lemma ring_frame: "ring s h xs \<Longrightarrow> same_outside N s t \<Longrightarrow> set (h # xs) \<inter> N = {} \<Longrightarrow> ring t h xs"
  unfolding ring_def same_outside_def by (intro conjI chain_cong [of s h xs h t]) auto

lemma lists_at_change:
  assumes "lists_at s L" "same_outside N s t" "ring t h ys"
    "\<And>k zs. k \<noteq> h \<Longrightarrow> L k = Some zs \<Longrightarrow> set (k # zs) \<inter> (N \<union> set (h # ys)) = {}"
  shows "lists_at t (L(h \<mapsto> ys))"
proof -
  have "ring t k zs" if "k \<noteq> h" "L k = Some zs" for k zs
    using ring_frame [OF _ assms(2)] assms(1) assms(4) [OF that] that(2) by (fastforce simp: lists_at_def)
  with assms(1,3,4) show ?thesis unfolding lists_at_def by (auto split: if_splits)
qed

lemma lists_atD:
  assumes "lists_at s L" "L h = Some xs"
  shows "ring s h xs" "\<And>k zs. k \<noteq> h \<Longrightarrow> L k = Some zs \<Longrightarrow> set (k # zs) \<inter> set (h # xs) = {}"
  using assms by (auto simp: lists_at_def)

lemma last_cons_in: "last (h # as) \<in> insert h (set as)"
  using last_in_set [of "h # as"] by simp

lemma hd_snoc_in: "hd (bs @ [b]) \<in> insert b (set bs)"
  by (cases bs) auto

lemma add_outside: "same_outside {n, p, q} s (list_add n p q s)"
  by (simp add: same_outside_def list_add_def)

lemma same_outside_mono: "same_outside M s t \<Longrightarrow> M \<subseteq> N \<Longrightarrow> same_outside N s t"
  by (auto simp: same_outside_def)

lemma add_refines:
  assumes "lists_at s L" "L h = Some (as @ bs)" "n \<notin> list_nodes L"
  shows "lists_at (list_add n (last (h # as)) (hd (bs @ [h])) s) (L(h \<mapsto> as @ n # bs))"
proof (rule lists_at_change [OF assms(1)])
  note r = lists_atD [OF assms(1,2)]
  have n: "n \<notin> insert h (set (as @ bs))" using assms(2,3) unfolding list_nodes_def mem_Collect_eq by fastforce
  show "ring (list_add n (last (h # as)) (hd (bs @ [h])) s) h (as @ n # bs)"
    using r(1) n chain_add [of s h as bs h n] by (auto simp: ring_def)
  show "same_outside (insert n (insert h (set (as @ bs)))) s (list_add n (last (h # as)) (hd (bs @ [h])) s)"
    by (rule same_outside_mono [OF add_outside]) (use last_cons_in [of h as] hd_snoc_in [of bs h] in auto)
  show "set (k # zs) \<inter> (insert n (insert h (set (as @ bs))) \<union> set (h # as @ n # bs)) = {}" if "k \<noteq> h" "L k = Some zs" for k zs
    using r(2) [OF that] that assms(3) by (auto simp: list_nodes_def)
qed

lemma ring_ends: "ring s h (as @ bs) \<Longrightarrow> nd_next s (last (h # as)) = hd (bs @ [h]) \<and> nd_prev s (hd (bs @ [h])) = last (h # as)"
  unfolding ring_def using chain_next chain_prev by blast

lemma del_refines:
  assumes "lists_at s L" "L h = Some (as @ x # bs)"
  shows "lists_at (list_del x s) (L(h \<mapsto> as @ bs))"
proof (rule lists_at_change [OF assms(1)])
  note r = lists_atD [OF assms(1,2)]
  show "ring (list_del x s) h (as @ bs)"
    using r(1) chain_del [of s h as x bs h] by (auto simp: ring_def)
  have p: "nd_prev s x = last (h # as)" "nd_next s x = hd (bs @ [h])"
    using ring_ends [of s h as "x # bs"] ring_ends [of s h "as @ [x]" bs] r(1) by simp_all
  show "same_outside (insert h (set (as @ x # bs))) s (list_del x s)"
    using last_cons_in [of h as] hd_snoc_in [of bs h] p by (auto simp: same_outside_def list_del_def Let_def)
  show "set (k # zs) \<inter> (insert h (set (as @ x # bs)) \<union> set (h # as @ bs)) = {}" if "k \<noteq> h" "L k = Some zs" for k zs
    using r(2) [OF that] by auto
qed

lemma join_refines:
  assumes "lists_at s L" "L h = Some xs" "L k = Some ys" "h \<noteq> k"
  shows "lists_at (list_join_tail k h s) ((L(k := None))(h \<mapsto> xs @ ys))"
proof -
  note rh = lists_atD [OF assms(1,2)] and rk = lists_atD [OF assms(1,3)]
  have some: "L h' = Some zs" if "(L(k := None)) h' = Some zs" for h' zs using that by (simp split: if_splits)
  have sub: "lists_at s (L(k := None))" using assms(1) some unfolding lists_at_def by meson
  have dis: "set (h # xs) \<inter> set (k # ys) = {}" using rk(2) [OF assms(4,2)] .
  have ends: "nd_prev s h = last (h # xs)" "nd_next s k = hd (ys @ [k])" "nd_prev s k = last (k # ys)"
    using ring_ends [of s h xs "[]"] ring_ends [of s k "[]" ys] ring_ends [of s k ys "[]"] rh(1) rk(1) by simp_all
  show ?thesis
  proof (cases ys)
    case Nil
    then have e: "list_join_tail k h s = s" using ends by (simp add: list_join_tail_def list_empty_def)
    have "lists_at s ((L(k := None))(h \<mapsto> xs))"
    proof (rule lists_at_change [OF sub _ rh(1)])
      show "same_outside {} s s" by (simp add: same_outside_def)
      show "set (k' # zs) \<inter> ({} \<union> set (h # xs)) = {}" if "k' \<noteq> h" "(L(k := None)) k' = Some zs" for k' zs
        using rh(2) [OF that(1) some [OF that(2)]] by simp
    qed
    then show ?thesis using Nil e by simp
  next
    case (Cons y zs)
    define t where "t = list_join_tail k h s"
    have ne: "y \<noteq> k" using rk(1) Cons by (auto simp: ring_def)
    have l: "last (h # xs) \<in> insert h (set xs)" "last ys \<in> set ys" using last_cons_in [of h xs] Cons by auto
    have t: "t = set_prev h (last ys) (set_next (last ys) h (set_next (last (h # xs)) y (set_prev y (last (h # xs)) s)))"
      using ends Cons ne by (simp add: t_def list_join_tail_def list_empty_def Let_def)
    have y: "y \<notin> insert h (set xs)" "last ys \<notin> insert h (set xs)" "y \<in> set ys" "h \<notin> set ys" using dis Cons l(2) by auto
    have c1: "chain t h xs y"
    proof (rule chain_redirect)
      show "chain s h xs h" "distinct (h # xs)" using rh(1) by (simp_all add: ring_def)
      show "y \<notin> set xs" using y(1) by simp
      show "nd_next t (last (h # xs)) = y" "nd_prev t y = last (h # xs)" using l y unfolding t by auto
      show "nd_next t z = nd_next s z" if "z \<in> set (h # xs)" "z \<noteq> last (h # xs)" for z using that y unfolding t by auto
      show "nd_prev t z = nd_prev s z" if "z \<in> set xs" for z
        using that y rh(1) unfolding t by (auto simp: ring_def)
    qed
    have c2: "chain t y zs h"
    proof (rule chain_redirect)
      show "chain s y zs k" "distinct (y # zs)" using rk(1) Cons by (simp_all add: ring_def)
      show "h \<notin> set zs" using y(4) Cons by simp
      show "nd_next t (last (y # zs)) = h" "nd_prev t h = last (y # zs)"
        using y Cons unfolding t by auto
      show "nd_next t z = nd_next s z" if "z \<in> set (y # zs)" "z \<noteq> last (y # zs)" for z
        using that y l Cons dis unfolding t by auto
      show "nd_prev t z = nd_prev s z" if "z \<in> set zs" for z
        using that y rk(1) Cons dis unfolding t by (auto simp: ring_def)
    qed
    have "chain t h (xs @ ys) h" using c1 c2 Cons chain_append [of t h xs y zs h] by simp
    then have ring: "ring t h (xs @ ys)" using rh(1) rk(1) dis by (auto simp: ring_def)
    have out: "same_outside (insert h (set xs) \<union> set ys) s t"
      using l y unfolding t by (auto simp: same_outside_def)
    show ?thesis
      unfolding t_def [symmetric]
    proof (rule lists_at_change [OF sub out ring])
      show "set (k' # zs) \<inter> (insert h (set xs) \<union> set ys \<union> set (h # xs @ ys)) = {}"
        if "k' \<noteq> h" "(L(k := None)) k' = Some zs" for k' zs
        using rh(2) [of k' zs] rk(2) [of k' zs] that by (auto split: if_splits)
    qed
  qed
qed

lemma init_refines:
  assumes "lists_at s L" "h \<notin> list_nodes L"
  shows "lists_at (list_init h s) (L(h \<mapsto> []))"
proof (rule lists_at_change [OF assms(1)])
  show "same_outside {h} s (list_init h s)" by (simp add: same_outside_def list_init_def)
  show "ring (list_init h s) h []" by (simp add: ring_def list_init_def)
  show "set (k # zs) \<inter> ({h} \<union> set [h]) = {}" if "k \<noteq> h" "L k = Some zs" for k zs
    using assms(2) that by (auto simp: list_nodes_def)
qed

lemma reads_refine:
  assumes "lists_at s L" "L h = Some xs"
  shows "list_empty h s \<longleftrightarrow> xs = []" "list_for_each (length xs) (list_first_entry h s) h s = Some xs"
    "xs \<noteq> [] \<Longrightarrow> list_first_entry h s = hd xs" "xs \<noteq> [] \<Longrightarrow> list_last_entry h s = last xs"
proof -
  have r: "ring s h xs" by (rule lists_atD(1) [OF assms])
  then show "list_for_each (length xs) (list_first_entry h s) h s = Some xs"
    by (auto simp: ring_def list_first_entry_def intro: chain_for_each)
  show "list_empty h s \<longleftrightarrow> xs = []" "xs \<noteq> [] \<Longrightarrow> list_first_entry h s = hd xs" "xs \<noteq> [] \<Longrightarrow> list_last_entry h s = last xs"
    using ring_ends [of s h "[]" xs] ring_ends [of s h xs "[]"] r
    by (cases xs; auto simp: ring_def list_empty_def list_first_entry_def list_last_entry_def)+
qed

lemma ends_refine:
  assumes "lists_at s L" "L h = Some xs" "n \<in> set xs"
  shows "list_is_first n h s \<longleftrightarrow> n = hd xs" "list_is_last n h s \<longleftrightarrow> n = last xs"
proof -
  have r: "ring s h xs" by (rule lists_atD(1) [OF assms(1,2)])
  obtain as bs where xs: "xs = as @ n # bs" using split_list [OF assms(3)] by auto
  have p: "nd_prev s n = last (h # as)" and q: "nd_next s n = hd (bs @ [h])"
    using ring_ends [of s h as "n # bs"] ring_ends [of s h "as @ [n]" bs] r xs by simp_all
  have d: "h \<notin> set xs" "distinct xs" using r by (simp_all add: ring_def)
  show "list_is_first n h s \<longleftrightarrow> n = hd xs"
    using d xs p last_in_set [of as] by (cases as) (auto simp: list_is_first_def)
  show "list_is_last n h s \<longleftrightarrow> n = last xs"
    using d xs q by (cases bs) (auto simp: list_is_last_def split: if_splits)
qed

text \<open>
  C13: The linked lists are lists. Whatever lists a store holds, disjoint from one another: adding a node that is in none of
  them, at the head, at the tail, before or behind a node; taking a node out; joining two lists; and making a new one changes
  exactly the lists concerned, as the operation on HOL lists does; and the traversal, the first and the last
  entry and the test for emptiness read them as such.
\<close>

theorem linked_lists_are_lists:
  assumes "lists_at s L" "L h = Some xs"
  shows "(n \<notin> list_nodes L \<longrightarrow>
      lists_at (list_init n s) (L(n \<mapsto> [])) \<and> lists_at (list_add_head n h s) (L(h \<mapsto> n # xs)) \<and>
      lists_at (list_add_tail n h s) (L(h \<mapsto> xs @ [n]))) \<and>
    (\<forall>as x bs. xs = as @ x # bs \<longrightarrow>
      lists_at (list_del x s) (L(h \<mapsto> as @ bs)) \<and>
      (n \<notin> list_nodes L \<longrightarrow> lists_at (list_add_before n x s) (L(h \<mapsto> as @ n # x # bs)) \<and>
                            lists_at (list_add_after n x s) (L(h \<mapsto> as @ x # n # bs)))) \<and>
    (\<forall>k ys. k \<noteq> h \<and> L k = Some ys \<longrightarrow> lists_at (list_join_tail k h s) ((L(k := None))(h \<mapsto> xs @ ys))) \<and>
    (list_empty h s \<longleftrightarrow> xs = []) \<and> list_for_each (length xs) (list_first_entry h s) h s = Some xs \<and>
    (xs \<noteq> [] \<longrightarrow> list_first_entry h s = hd xs \<and> list_last_entry h s = last xs) \<and>
    (\<forall>x\<in>set xs. (list_is_first x h s \<longleftrightarrow> x = hd xs) \<and> (list_is_last x h s \<longleftrightarrow> x = last xs))"
proof (intro conjI impI allI)
  have ring: "ring s h xs" by (rule lists_atD(1) [OF assms])
  show "lists_at (list_init n s) (L(n \<mapsto> []))" if "n \<notin> list_nodes L" by (rule init_refines [OF assms(1) that])
  show "lists_at (list_add_head n h s) (L(h \<mapsto> n # xs))" if "n \<notin> list_nodes L"
    using add_refines [of s L h "[]" xs n] that assms ring_ends [of s h "[]" xs] ring
    by (simp add: list_add_head_def list_add_after_def)
  show "lists_at (list_add_tail n h s) (L(h \<mapsto> xs @ [n]))" if "n \<notin> list_nodes L"
    using add_refines [of s L h xs "[]" n] that assms ring_ends [of s h xs "[]"] ring
    by (simp add: list_add_tail_def list_add_before_def)
  fix as x bs
  assume xs: "xs = as @ x # bs"
  show "lists_at (list_del x s) (L(h \<mapsto> as @ bs))" using del_refines [of s L h as x bs] assms xs by simp
  assume n: "n \<notin> list_nodes L"
  show "lists_at (list_add_before n x s) (L(h \<mapsto> as @ n # x # bs))"
    using add_refines [of s L h as "x # bs" n] n assms ring_ends [of s h as "x # bs"] ring xs
    by (simp add: list_add_before_def)
  show "lists_at (list_add_after n x s) (L(h \<mapsto> as @ x # n # bs))"
    using add_refines [of s L h "as @ [x]" bs n] n assms ring_ends [of s h "as @ [x]" bs] ring xs
    by (simp add: list_add_after_def)
qed (use reads_refine [OF assms] ends_refine [OF assms] join_refines [OF assms] in auto)

theorem linked_lists_are_lists_witness:
  "lists_at (list_add_tail 5 1 (list_init 1 \<lparr>nd_next = id, nd_prev = id\<rparr>)) [1 \<mapsto> [5]]"
proof -
  have "lists_at (list_init 1 \<lparr>nd_next = id, nd_prev = id\<rparr>) [1 \<mapsto> []]"
    by (rule init_refines) (simp_all add: lists_at_def list_nodes_def)
  from linked_lists_are_lists [OF this, of 1 "[]" 5] show ?thesis by (simp add: list_nodes_def)
qed

end
