(* ===== verification/Trapq.thy ===== *)
theory Trapq
  imports Prelude Complex_Main
begin

text \<open>
  The queue of trapezoidal moves, \<open>klippy/chelper/trapq.c\<close>: the moves that the planner has handed over, each with a
  constant acceleration, between two sentinels, and the history of those that are over. The lists of \<open>list.h\<close> are
  HOL lists from their first node on; \<open>double\<close> is an exact real.
\<close>

record coord =
  coord_x :: real
  coord_y :: real
  coord_z :: real

record move =
  print_time :: real
  move_t :: real
  start_v :: real
  half_accel :: real
  start_pos :: coord
  axes_r :: coord

record trapq =
  moves :: "move list"
  history :: "move list"

record pull_move =
  pm_print_time :: real
  pm_move_t :: real
  pm_start_v :: real
  pm_accel :: real
  pm_start :: coord
  pm_axes_r :: coord

abbreviation (input) NEVER_TIME :: real where "NEVER_TIME \<equiv> 99999999999999999 / 10"
abbreviation (input) MAX_NULL_MOVE :: real where "MAX_NULL_MOVE \<equiv> 1"

definition zero_coord :: coord where
  "zero_coord = \<lparr>coord_x = 0, coord_y = 0, coord_z = 0\<rparr>"

definition zero_move :: move where
  "zero_move = \<lparr>print_time = 0, move_t = 0, start_v = 0, half_accel = 0, start_pos = zero_coord, axes_r = zero_coord\<rparr>"

definition move_get_distance :: "move \<Rightarrow> real \<Rightarrow> real" where
  "move_get_distance m move_time = (start_v m + half_accel m * move_time) * move_time"

definition move_get_coord :: "move \<Rightarrow> real \<Rightarrow> coord" where
  "move_get_coord m move_time =
     (let move_dist = move_get_distance m move_time
      in \<lparr>coord_x = coord_x (start_pos m) + coord_x (axes_r m) * move_dist,
          coord_y = coord_y (start_pos m) + coord_y (axes_r m) * move_dist,
          coord_z = coord_z (start_pos m) + coord_z (axes_r m) * move_dist\<rparr>)"

definition trapq_alloc :: trapq where
  "trapq_alloc = \<lparr>moves = [zero_move, zero_move\<lparr>print_time := NEVER_TIME, move_t := NEVER_TIME\<rparr>], history = []\<rparr>"

text \<open>
  The sentinels are the first and the last move of the list; the list always has both, and they are never
  taken out. A move \<open>m\<close> in front of the tail is the head when there are just the two.
\<close>

definition set_tail :: "(move \<Rightarrow> move) \<Rightarrow> trapq \<Rightarrow> trapq" where
  "set_tail f tq = tq\<lparr>moves := butlast (moves tq) @ [f (last (moves tq))]\<rparr>"

definition trapq_check_sentinels :: "trapq \<Rightarrow> trapq" where
  "trapq_check_sentinels tq =
     (if print_time (last (moves tq)) \<noteq> 0 then tq
      else (let m = last (butlast (moves tq))
            in if length (moves tq) = 2 then set_tail (\<lambda>t. t\<lparr>print_time := NEVER_TIME\<rparr>) tq
               else set_tail (\<lambda>t. t\<lparr>print_time := print_time m + move_t m, start_pos := move_get_coord m (move_t m)\<rparr>) tq))"

definition list_add_before_tail :: "move \<Rightarrow> trapq \<Rightarrow> trapq" where
  "list_add_before_tail m tq = tq\<lparr>moves := butlast (moves tq) @ [m, last (moves tq)]\<rparr>"

definition null_move :: "move \<Rightarrow> move \<Rightarrow> move" where
  "null_move prev m =
     (let pt = (if print_time prev = 0 \<and> print_time m > MAX_NULL_MOVE then print_time m - MAX_NULL_MOVE
                else print_time prev + move_t prev)
      in zero_move\<lparr>start_pos := start_pos m, print_time := pt, move_t := print_time m - pt\<rparr>)"

definition trapq_add_move :: "move \<Rightarrow> trapq \<Rightarrow> trapq" where
  "trapq_add_move m tq =
     (let prev = last (butlast (moves tq));
          tq = (if print_time prev + move_t prev < print_time m then list_add_before_tail (null_move prev m) tq else tq)
      in set_tail (\<lambda>t. t\<lparr>print_time := 0\<rparr>) (list_add_before_tail m tq))"

text \<open>One of the three parts of \<open>trapq_append\<close>: the queue, the time and the position after it.\<close>

definition append_part ::
  "real \<Rightarrow> real \<Rightarrow> real \<Rightarrow> coord \<Rightarrow> trapq \<times> real \<times> coord \<Rightarrow> trapq \<times> real \<times> coord" where
  "append_part t v ha r = (\<lambda>(tq, pt, pos).
     if t \<noteq> 0 then
       (let m = \<lparr>print_time = pt, move_t = t, start_v = v, half_accel = ha, start_pos = pos, axes_r = r\<rparr>
        in (trapq_add_move m tq, pt + t, move_get_coord m t))
     else (tq, pt, pos))"

definition trapq_append ::
  "trapq \<Rightarrow> real \<Rightarrow> real \<Rightarrow> real \<Rightarrow> real \<Rightarrow> coord \<Rightarrow> coord \<Rightarrow> real \<Rightarrow> real \<Rightarrow> real \<Rightarrow> trapq" where
  "trapq_append tq pt accel_t cruise_t decel_t pos r sv cv accel =
     fst (append_part decel_t cv (- (1 / 2) * accel) r
       (append_part cruise_t cv 0 r
         (append_part accel_t sv (1 / 2 * accel) r (tq, pt, pos))))"

text \<open>
  The loop of \<open>trapq_finalize_moves\<close>, over the moves between the sentinels: the moves that are left, and the history.
\<close>

fun expire_loop :: "real \<Rightarrow> move list \<Rightarrow> move list \<Rightarrow> move list \<times> move list" where
  "expire_loop pt [] hist = ([], hist)"
| "expire_loop pt (m # ms) hist =
     (if print_time m + move_t m > pt then (m # ms, hist)
      else expire_loop pt ms (if start_v m \<noteq> 0 \<or> half_accel m \<noteq> 0 then m # hist else hist))"

text \<open>The loop that frees the oldest moves of the history, all but the latest.\<close>

function free_old :: "real \<Rightarrow> move list \<Rightarrow> move list" where
  "free_old clear hist =
     (if length hist \<le> 1 \<or> print_time (last hist) + move_t (last hist) > clear then hist
      else free_old clear (butlast hist))"
  by auto
termination by (relation "measure (length \<circ> snd)") auto

declare free_old.simps [simp del]

definition trapq_finalize_moves :: "real \<Rightarrow> real \<Rightarrow> trapq \<Rightarrow> trapq" where
  "trapq_finalize_moves pt clear tq =
     (let (ms, hist) = expire_loop pt (butlast (tl (moves tq))) (history tq);
          tq = tq\<lparr>moves := hd (moves tq) # ms @ [last (moves tq)], history := hist\<rparr>;
          tq = (if ms = [] then set_tail (\<lambda>t. t\<lparr>print_time := NEVER_TIME\<rparr>) tq else tq)
      in if hist = [] then tq else tq\<lparr>history := free_old clear hist\<rparr>)"

text \<open>The loop of \<open>trapq_set_position\<close> over the history.\<close>

fun prune_history :: "real \<Rightarrow> move list \<Rightarrow> move list" where
  "prune_history pt [] = []"
| "prune_history pt (m # ms) =
     (if print_time m < pt
      then (if print_time m + move_t m > pt then m\<lparr>move_t := pt - print_time m\<rparr> else m) # ms
      else prune_history pt ms)"

definition trapq_set_position :: "real \<Rightarrow> coord \<Rightarrow> trapq \<Rightarrow> trapq" where
  "trapq_set_position pt pos tq =
     (let tq = trapq_finalize_moves NEVER_TIME 0 tq
      in tq\<lparr>history := zero_move\<lparr>print_time := pt, start_pos := pos\<rparr> # prune_history pt (history tq)\<rparr>)"

definition pull_of :: "move \<Rightarrow> pull_move" where
  "pull_of m = \<lparr>pm_print_time = print_time m, pm_move_t = move_t m, pm_start_v = start_v m, pm_accel = 2 * half_accel m,
     pm_start = start_pos m, pm_axes_r = axes_r m\<rparr>"

text \<open>\<open>extract_loop n\<close>: at most \<open>n\<close> more moves.\<close>

fun extract_loop :: "nat \<Rightarrow> real \<Rightarrow> real \<Rightarrow> move list \<Rightarrow> pull_move list" where
  "extract_loop n start_time end_time [] = []"
| "extract_loop n start_time end_time (m # ms) =
     (if start_time \<ge> print_time m + move_t m \<or> n = 0 then []
      else if end_time \<le> print_time m then extract_loop n start_time end_time ms
      else pull_of m # extract_loop (n - 1) start_time end_time ms)"

definition trapq_extract_old :: "trapq \<Rightarrow> nat \<Rightarrow> real \<Rightarrow> real \<Rightarrow> pull_move list" where
  "trapq_extract_old tq mx start_time end_time = extract_loop mx start_time end_time (history tq)"

subsection \<open>The invariant of the queue\<close>

definition ends :: "move \<Rightarrow> real" where
  "ends m = print_time m + move_t m"

definition moving :: "move \<Rightarrow> bool" where
  "moving m \<longleftrightarrow> start_v m \<noteq> 0 \<or> half_accel m \<noteq> 0"

text \<open>Every move of the queue begins when the one before it ends.\<close>

fun contiguous :: "move list \<Rightarrow> bool" where
  "contiguous (a # b # ms) \<longleftrightarrow> print_time b = ends a \<and> contiguous (b # ms)"
| "contiguous _ \<longleftrightarrow> True"

definition queue_ok :: "move list \<Rightarrow> bool" where
  "queue_ok ms \<longleftrightarrow> contiguous ms \<and> (\<forall>m\<in>set ms. 0 < move_t m \<and> 0 \<le> print_time m) \<and> (ms \<noteq> [] \<longrightarrow> 0 < print_time (last ms))"

text \<open>The tail says where the last move ends, or is marked by a print time of zero to be brought up to date.\<close>

definition tail_ok :: "move list \<Rightarrow> move \<Rightarrow> bool" where
  "tail_ok ms t \<longleftrightarrow> move_t t = NEVER_TIME \<and> start_v t = 0 \<and> half_accel t = 0 \<and>
     (print_time t = 0 \<or>
      (if ms = [] then print_time t = NEVER_TIME
       else print_time t = ends (last ms) \<and> start_pos t = move_get_coord (last ms) (move_t (last ms))))"

text \<open>The history, the latest first, and before all moves of the queue that move.\<close>

definition history_ok :: "move list \<Rightarrow> move list \<Rightarrow> bool" where
  "history_ok hist ms \<longleftrightarrow> sorted_wrt (\<lambda>a b. ends b \<le> print_time a) hist \<and> (\<forall>h\<in>set hist. 0 \<le> move_t h) \<and>
     (\<forall>h\<in>set hist. \<forall>m\<in>set ms. moving m \<longrightarrow> ends h \<le> print_time m)"

definition trapq_is :: "trapq \<Rightarrow> move list \<Rightarrow> move \<Rightarrow> bool" where
  "trapq_is tq ms t \<longleftrightarrow> moves tq = zero_move # ms @ [t]"

definition trapq_ok :: "trapq \<Rightarrow> bool" where
  "trapq_ok tq \<longleftrightarrow> (\<exists>ms t. trapq_is tq ms t \<and> queue_ok ms \<and> tail_ok ms t \<and> history_ok (history tq) ms)"

text \<open>The moves between the sentinels, and when the last of them ends.\<close>

definition queued_moves :: "trapq \<Rightarrow> move list" where
  "queued_moves tq = butlast (tl (moves tq))"

definition queue_end :: "move list \<Rightarrow> real" where
  "queue_end ms = ends (last (zero_move # ms))"

text \<open>A move may be added at the time \<open>pt\<close>.\<close>

definition can_add :: "trapq \<Rightarrow> real \<Rightarrow> bool" where
  "can_add tq pt \<longleftrightarrow> 0 < pt \<and> queue_end (queued_moves tq) \<le> pt \<and> (\<forall>h\<in>set (history tq). ends h \<le> pt)"

lemma trapq_is_simps:
  assumes "trapq_is tq ms t"
  shows "queued_moves tq = ms" "last (moves tq) = t" "butlast (moves tq) = zero_move # ms" "hd (moves tq) = zero_move"
    "tl (moves tq) = ms @ [t]" "length (moves tq) = 2 \<longleftrightarrow> ms = []"
  using assms by (simp_all add: trapq_is_def queued_moves_def butlast_append)

lemma trapq_okE:
  assumes "trapq_ok tq"
  obtains ms t where "trapq_is tq ms t" "queue_ok ms" "tail_ok ms t" "history_ok (history tq) ms"
  using assms by (auto simp: trapq_ok_def)

lemma queue_end_simps [simp]: "queue_end [] = 0" "queue_end (ms @ [m]) = ends m"
  by (simp_all add: queue_end_def ends_def zero_move_def)

lemma contiguous_append:
  "contiguous (xs @ [m]) \<longleftrightarrow> contiguous xs \<and> (xs \<noteq> [] \<longrightarrow> print_time m = ends (last xs))"
  by (induction xs rule: contiguous.induct) auto

lemma contiguous_tl: "contiguous (m # ms) \<Longrightarrow> contiguous ms"
  by (cases ms) auto

lemma queue_ok_tl: "queue_ok (m # ms) \<Longrightarrow> queue_ok ms"
  using contiguous_tl by (auto simp: queue_ok_def)

lemma queue_ok_snoc:
  assumes "queue_ok ms" "0 < print_time m" "0 < move_t m" "ms \<noteq> [] \<longrightarrow> print_time m = queue_end ms"
  shows "queue_ok (ms @ [m])"
  using assms by (auto simp: queue_ok_def contiguous_append queue_end_def)

lemma queue_end_pos: "queue_ok ms \<Longrightarrow> ms \<noteq> [] \<Longrightarrow> 0 < queue_end ms \<and> print_time (last ms) \<noteq> 0"
  by (fastforce simp: queue_ok_def queue_end_def ends_def intro: add_pos_pos)

subsection \<open>Adding moves\<close>

definition gap :: "move list \<Rightarrow> move \<Rightarrow> move list" where
  "gap ms m = (if queue_end ms < print_time m then [null_move (last (zero_move # ms)) m] else [])"

lemma add_move_is:
  assumes "trapq_is tq ms t"
  shows "trapq_is (trapq_add_move m tq) (ms @ gap ms m @ [m]) (t\<lparr>print_time := 0\<rparr>) \<and> history (trapq_add_move m tq) = history tq"
proof -
  note s = trapq_is_simps [OF assms]
  have "last (butlast (moves tq)) = last (zero_move # ms)" using s by simp
  then show ?thesis
    using assms s by (auto simp: trapq_add_move_def Let_def list_add_before_tail_def set_tail_def trapq_is_def gap_def queue_end_def
        ends_def butlast_append)
qed

lemma null_move_fields:
  "ends (null_move p m) = print_time m" "\<not> moving (null_move p m)" "start_pos (null_move p m) = start_pos m"
  by (simp_all add: null_move_def Let_def ends_def moving_def zero_move_def)

lemma gap_ok:
  assumes "queue_ok ms" "0 < print_time m" "queue_end ms \<le> print_time m"
  shows "contiguous (ms @ gap ms m @ [m])" "\<forall>g\<in>set (gap ms m). 0 < move_t g \<and> 0 \<le> print_time g \<and> \<not> moving g \<and> ends g = print_time m"
proof -
  let ?p = "last (zero_move # ms)"
  have c: "contiguous ms" using assms(1) by (simp add: queue_ok_def)
  have first: "ms \<noteq> [] \<Longrightarrow> print_time ?p \<noteq> 0" using queue_end_pos [OF assms(1)] by auto
  have pt: "print_time (null_move ?p m) = queue_end ms" if "ms \<noteq> []"
    using first [OF that] by (simp add: null_move_def Let_def zero_move_def queue_end_def ends_def)
  show "contiguous (ms @ gap ms m @ [m])"
  proof (cases "queue_end ms < print_time m")
    case True
    have "contiguous (ms @ [null_move ?p m])"
      using c pt by (auto simp: contiguous_append queue_end_def)
    then have "contiguous ((ms @ [null_move ?p m]) @ [m])"
      using null_move_fields(1) by (subst contiguous_append) simp
    then show ?thesis using True by (simp add: gap_def)
  next
    case False
    then have "ms \<noteq> [] \<Longrightarrow> print_time m = ends (last ms)" using assms(3) by (auto simp: queue_end_def)
    with c False show ?thesis by (simp add: gap_def contiguous_append)
  qed
  have "0 < move_t (null_move ?p m) \<and> 0 \<le> print_time (null_move ?p m)" if "queue_end ms < print_time m"
  proof (cases "ms = []")
    case True
    with that show ?thesis by (simp add: null_move_def Let_def zero_move_def)
  next
    case False
    have "move_t (null_move ?p m) = print_time m - queue_end ms"
      using first [OF False] False by (simp add: null_move_def Let_def zero_move_def queue_end_def ends_def)
    with that pt [OF False] queue_end_pos [OF assms(1) False] show ?thesis by simp
  qed
  then show "\<forall>g\<in>set (gap ms m). 0 < move_t g \<and> 0 \<le> print_time g \<and> \<not> moving g \<and> ends g = print_time m"
    using null_move_fields by (auto simp: gap_def)
qed

lemma queue_ok_add:
  assumes "queue_ok ms" "0 < print_time m" "0 < move_t m" "queue_end ms \<le> print_time m"
  shows "queue_ok (ms @ gap ms m @ [m])"
proof -
  note g = gap_ok [OF assms(1,2,4)]
  show ?thesis using assms(1-3) g by (auto simp: queue_ok_def)
qed

lemma history_ok_add:
  assumes "history_ok hist ms" "\<forall>h\<in>set hist. ends h \<le> print_time m" "\<forall>g\<in>set gs. \<not> moving g"
  shows "history_ok hist (ms @ gs @ [m])"
  using assms by (auto simp: history_ok_def)

lemma add_move_ok:
  assumes "trapq_is tq ms t" "queue_ok ms" "tail_ok ms t" "history_ok (history tq) ms"
    "0 < print_time m" "0 < move_t m" "queue_end ms \<le> print_time m" "\<forall>h\<in>set (history tq). ends h \<le> print_time m"
  shows "trapq_ok (trapq_add_move m tq)" "queued_moves (trapq_add_move m tq) = ms @ gap ms m @ [m]"
    "history (trapq_add_move m tq) = history tq"
proof -
  note a = add_move_is [OF assms(1), of m]
  have "queue_ok (ms @ gap ms m @ [m])" by (rule queue_ok_add [OF assms(2,5,6,7)])
  moreover have "history_ok (history tq) (ms @ gap ms m @ [m])"
    by (rule history_ok_add [OF assms(4,8)]) (use gap_ok(2) [OF assms(2,5,7)] in auto)
  moreover have "tail_ok (ms @ gap ms m @ [m]) (t\<lparr>print_time := 0\<rparr>)" using assms(3) by (simp add: tail_ok_def)
  ultimately show "trapq_ok (trapq_add_move m tq)" using a by (auto simp: trapq_ok_def)
  show "queued_moves (trapq_add_move m tq) = ms @ gap ms m @ [m]" "history (trapq_add_move m tq) = history tq"
    using a trapq_is_simps(1) by auto
qed

subsection \<open>Positions\<close>

text \<open>
  Where the tool is at the time \<open>t\<close>: in the first move that ends after \<open>t\<close>, which is how the code looks a time up.
\<close>

definition position_at :: "trapq \<Rightarrow> real \<Rightarrow> coord option" where
  "position_at tq t = map_option (\<lambda>m. move_get_coord m (t - print_time m)) (find (\<lambda>m. t < ends m) (moves tq))"

text \<open>The point at the distance \<open>d\<close> from \<open>p\<close> in the direction \<open>r\<close>.\<close>

definition coord_along :: "coord \<Rightarrow> coord \<Rightarrow> real \<Rightarrow> coord" where
  "coord_along p r d = \<lparr>coord_x = coord_x p + coord_x r * d, coord_y = coord_y p + coord_y r * d, coord_z = coord_z p + coord_z r * d\<rparr>"

lemma move_get_coord_along: "move_get_coord m t = coord_along (start_pos m) (axes_r m) (move_get_distance m t)"
  by (simp add: move_get_coord_def coord_along_def Let_def)

lemma coord_along_0 [simp]: "coord_along p r 0 = p"
  by (simp add: coord_along_def)

lemma coord_along_add: "coord_along (coord_along p r d) r e = coord_along p r (d + e)"
  by (simp add: coord_along_def algebra_simps)

lemma find_append: "find P (xs @ ys) = (case find P xs of None \<Rightarrow> find P ys | Some x \<Rightarrow> Some x)"
  by (induction xs) auto

lemma find_skip: "\<forall>x\<in>set xs. \<not> P x \<Longrightarrow> find P (xs @ ys) = find P ys"
  by (induction xs) auto

text \<open>The distance after the time \<open>t\<close> with trapezoidal velocity.\<close>

definition trapezoid :: "real \<Rightarrow> real \<Rightarrow> real \<Rightarrow> real \<Rightarrow> real \<Rightarrow> real \<Rightarrow> real" where
  "trapezoid accel_t cruise_t sv cv accel t =
     (let d1 = (sv + accel / 2 * accel_t) * accel_t; d2 = d1 + cv * cruise_t; u = t - accel_t - cruise_t
      in if t < accel_t then (sv + accel / 2 * t) * t
         else if t < accel_t + cruise_t then d1 + cv * (t - accel_t)
         else d2 + (cv - accel / 2 * u) * u)"

text \<open>\<open>appended tq pt tq' pt' ps\<close>: the moves \<open>ps\<close> have been added from the time \<open>pt\<close> to the time \<open>pt'\<close>.\<close>

definition appended :: "trapq \<Rightarrow> real \<Rightarrow> trapq \<Rightarrow> real \<Rightarrow> move list \<Rightarrow> bool" where
  "appended tq pt tq' pt' ps \<longleftrightarrow> trapq_ok tq' \<and> can_add tq' pt' \<and> history tq' = history tq \<and>
     (\<exists>gs. queued_moves tq' = queued_moves tq @ gs @ ps \<and> (\<forall>g\<in>set gs. ends g = pt) \<and>
        (queue_end (queued_moves tq) = pt \<longrightarrow> gs = [])) \<and>
     (ps = [] \<longrightarrow> tq' = tq \<and> pt' = pt) \<and> (ps \<noteq> [] \<longrightarrow> queue_end (queued_moves tq') = pt')"

lemma appended_trans:
  assumes "appended tq pt tq1 pt1 ps" "appended tq1 pt1 tq2 pt2 qs"
  shows "appended tq pt tq2 pt2 (ps @ qs)"
proof (cases "ps = []")
  case True
  with assms show ?thesis by (auto simp: appended_def)
next
  case False
  from assms(2) obtain gs where gs: "queued_moves tq2 = queued_moves tq1 @ gs @ qs"
    "queue_end (queued_moves tq1) = pt1 \<longrightarrow> gs = []" by (auto simp: appended_def)
  moreover have "queue_end (queued_moves tq1) = pt1" using assms(1) False by (simp add: appended_def)
  ultimately show ?thesis using assms False by (auto simp: appended_def)
qed

definition part :: "real \<Rightarrow> real \<Rightarrow> real \<Rightarrow> coord \<Rightarrow> real \<Rightarrow> coord \<Rightarrow> move list" where
  "part t v ha r pt pos =
     (if t = 0 then []
      else [\<lparr>print_time = pt, move_t = t, start_v = v, half_accel = ha, start_pos = pos, axes_r = r\<rparr>])"

lemma append_part_appended:
  assumes "trapq_ok tq" "can_add tq pt" "0 \<le> t"
  shows "\<exists>tq'. append_part t v ha r (tq, pt, pos) = (tq', pt + t, coord_along pos r ((v + ha * t) * t)) \<and>
    appended tq pt tq' (pt + t) (part t v ha r pt pos)"
proof (cases "t = 0")
  case True
  with assms show ?thesis by (simp add: append_part_def appended_def part_def)
next
  case False
  let ?m = "\<lparr>print_time = pt, move_t = t, start_v = v, half_accel = ha, start_pos = pos, axes_r = r\<rparr>"
  obtain ms tl where tq: "trapq_is tq ms tl" "queue_ok ms" "tail_ok ms tl" "history_ok (history tq) ms"
    by (rule trapq_okE [OF assms(1)])
  have q: "queued_moves tq = ms" by (rule trapq_is_simps(1) [OF tq(1)])
  have c: "0 < print_time ?m" "0 < move_t ?m" "queue_end ms \<le> print_time ?m" "\<forall>h\<in>set (history tq). ends h \<le> print_time ?m"
    using assms(2,3) False by (simp_all add: can_add_def q)
  note a = add_move_ok [OF tq c]
  have qe: "queue_end (queued_moves (trapq_add_move ?m tq)) = pt + t"
    unfolding a(2) by (simp add: ends_def flip: append_assoc)
  have "can_add (trapq_add_move ?m tq) (pt + t)"
    using c qe a(3) by (auto simp: can_add_def)
  moreover have "\<forall>g\<in>set (gap ms ?m). ends g = pt" "queue_end ms = pt \<longrightarrow> gap ms ?m = []"
    using gap_ok(2) [OF tq(2) c(1,3)] by (auto simp: gap_def)
  ultimately have "appended tq pt (trapq_add_move ?m tq) (pt + t) [?m]"
    using a qe q by (auto simp: appended_def)
  then show ?thesis
    using False by (simp add: append_part_def part_def move_get_coord_along move_get_distance_def)
qed

lemma trapq_append_appended:
  assumes "trapq_ok tq" "can_add tq pt" "0 \<le> t1" "0 \<le> t2" "0 \<le> t3"
  shows "appended tq pt (trapq_append tq pt t1 t2 t3 pos r sv cv accel) (pt + t1 + t2 + t3)
    (part t1 sv (1 / 2 * accel) r pt pos @
     part t2 cv 0 r (pt + t1) (coord_along pos r ((sv + accel / 2 * t1) * t1)) @
     part t3 cv (- (1 / 2) * accel) r (pt + t1 + t2) (coord_along pos r ((sv + accel / 2 * t1) * t1 + cv * t2)))"
proof -
  obtain tq1 where 1: "append_part t1 sv (1 / 2 * accel) r (tq, pt, pos) =
      (tq1, pt + t1, coord_along pos r ((sv + 1 / 2 * accel * t1) * t1))"
    "appended tq pt tq1 (pt + t1) (part t1 sv (1 / 2 * accel) r pt pos)"
    using append_part_appended [OF assms(1,2,3)] by blast
  define p1 where "p1 = coord_along pos r ((sv + accel / 2 * t1) * t1)"
  have ok1: "trapq_ok tq1" "can_add tq1 (pt + t1)" using 1(2) by (simp_all add: appended_def)
  obtain tq2 where 2: "append_part t2 cv 0 r (tq1, pt + t1, p1) = (tq2, pt + t1 + t2, coord_along p1 r ((cv + 0 * t2) * t2))"
    "appended tq1 (pt + t1) tq2 (pt + t1 + t2) (part t2 cv 0 r (pt + t1) p1)"
    using append_part_appended [OF ok1 assms(4)] by blast
  define p2 where "p2 = coord_along pos r ((sv + accel / 2 * t1) * t1 + cv * t2)"
  have p2: "coord_along p1 r ((cv + 0 * t2) * t2) = p2" by (simp add: p1_def p2_def coord_along_add)
  have ok2: "trapq_ok tq2" "can_add tq2 (pt + t1 + t2)" using 2(2) by (simp_all add: appended_def)
  obtain tq3 where 3: "fst (append_part t3 cv (- (1 / 2) * accel) r (tq2, pt + t1 + t2, p2)) = tq3"
    "appended tq2 (pt + t1 + t2) tq3 (pt + t1 + t2 + t3) (part t3 cv (- (1 / 2) * accel) r (pt + t1 + t2) p2)"
    using append_part_appended [OF ok2 assms(5), of cv "- (1 / 2) * accel" r p2] by auto
  have "trapq_append tq pt t1 t2 t3 pos r sv cv accel = tq3"
  proof -
    have "append_part t1 sv (1 / 2 * accel) r (tq, pt, pos) = (tq1, pt + t1, p1)" using 1(1) by (simp add: p1_def)
    then show ?thesis by (simp only: trapq_append_def 2(1) p2 3(1))
  qed
  then show ?thesis
    using appended_trans [OF 1(2) appended_trans [OF 2(2) 3(2)]] unfolding p1_def p2_def by simp
qed

lemma position_appended:
  assumes "trapq_ok tq" "can_add tq pt" "appended tq pt tq' pt' ps" "pt \<le> t"
  shows "find (\<lambda>m. t < ends m) (moves tq') = find (\<lambda>m. t < ends m) (ps @ [last (moves tq')])"
proof -
  from assms(3) obtain gs where gs: "queued_moves tq' = queued_moves tq @ gs @ ps" "\<forall>g\<in>set gs. ends g = pt"
    and ok': "trapq_ok tq'" by (auto simp: appended_def)
  obtain ms tl where tq: "trapq_is tq ms tl" "queue_ok ms" "tail_ok ms tl" "history_ok (history tq) ms"
    by (rule trapq_okE [OF assms(1)])
  obtain ms' tl' where tq': "trapq_is tq' ms' tl'" using trapq_okE [OF ok'] by blast
  have q: "queued_moves tq = ms" "queued_moves tq' = ms'" "last (moves tq') = tl'"
    using trapq_is_simps [OF tq(1)] trapq_is_simps [OF tq'] by auto
  have le: "ends m \<le> queue_end ms" if "m \<in> set ms" for m
    using tq(2) that
  proof (induction ms arbitrary: m)
    case (Cons a ms)
    then show ?case
    proof (cases ms)
      case (Cons b bs)
      have ok: "queue_ok ms" by (rule queue_ok_tl [OF Cons.prems(1)])
      have qe: "queue_end (a # ms) = queue_end ms" using Cons by (simp add: queue_end_def)
      show ?thesis
      proof (cases "m = a")
        case True
        have "ends b \<le> queue_end ms" by (rule Cons.IH [OF ok]) (simp add: Cons)
        moreover have "print_time b = ends a" "0 < move_t b" using Cons.prems(1) Cons by (auto simp: queue_ok_def)
        ultimately show ?thesis using True qe by (simp add: ends_def)
      next
        case False
        then show ?thesis using Cons.IH [OF ok] Cons.prems(2) qe by simp
      qed
    qed (auto simp: queue_end_def)
  qed simp
  have "\<forall>m\<in>set (zero_move # ms @ gs). \<not> t < ends m"
    using le gs(2) assms(2,4) q by (force simp: can_add_def zero_move_def ends_def)
  then have "find (\<lambda>m. t < ends m) ((zero_move # ms @ gs) @ ps @ [tl']) = find (\<lambda>m. t < ends m) (ps @ [tl'])"
    by (rule find_skip)
  moreover have "moves tq' = (zero_move # ms @ gs) @ ps @ [tl']"
    using tq' gs(1) q by (simp add: trapq_is_def)
  ultimately show ?thesis using q by simp
qed

lemma position_kept:
  assumes "trapq_ok tq" "appended tq pt tq' pt' ps" "t < queue_end (queued_moves tq)"
  shows "position_at tq' t = position_at tq t"
proof -
  from assms(2) obtain gs where gs: "queued_moves tq' = queued_moves tq @ gs @ ps" and ok': "trapq_ok tq'"
    by (auto simp: appended_def)
  obtain ms tl where tq: "trapq_is tq ms tl" using trapq_okE [OF assms(1)] by blast
  obtain ms' tl' where tq': "trapq_is tq' ms' tl'" using trapq_okE [OF ok'] by blast
  have q: "queued_moves tq = ms" "queued_moves tq' = ms'"
    using trapq_is_simps [OF tq] trapq_is_simps [OF tq'] by auto
  have "\<exists>m\<in>set (zero_move # ms). t < ends m"
    using assms(3) last_in_set [of "zero_move # ms"] unfolding q queue_end_def by blast
  then obtain m where "find (\<lambda>m. t < ends m) (zero_move # ms) = Some m"
    by (metis find_None_iff not_None_eq)
  then have "find (\<lambda>m. t < ends m) ((zero_move # ms) @ ys) = Some m" for ys by (simp only: find_append option.simps)
  moreover have "moves tq = (zero_move # ms) @ [tl]" "moves tq' = (zero_move # ms) @ gs @ ps @ [tl']"
    using tq tq' gs q by (auto simp: trapq_is_def)
  ultimately show ?thesis by (simp only: position_at_def)
qed

subsection \<open>Moves that are over\<close>

lemma trapq_okI: "trapq_is tq ms t \<Longrightarrow> queue_ok ms \<Longrightarrow> tail_ok ms t \<Longrightarrow> history_ok (history tq) ms \<Longrightarrow> trapq_ok tq"
  by (auto simp: trapq_ok_def)

lemma queue_sorted: "queue_ok ms \<Longrightarrow> sorted_wrt (\<lambda>a b. ends a \<le> print_time b) ms"
proof (induction ms)
  case (Cons a ms)
  have ok: "queue_ok ms" by (rule queue_ok_tl [OF Cons.prems])
  note s = Cons.IH [OF ok]
  have "ends a \<le> print_time b" if "b \<in> set ms" for b
  proof (cases ms)
    case (Cons c cs)
    have c: "print_time c = ends a" "0 < move_t c" using Cons.prems Cons by (auto simp: queue_ok_def)
    show ?thesis
    proof (cases "b = c")
      case False
      then have "ends c \<le> print_time b" using s that Cons by auto
      with c show ?thesis by (simp add: ends_def)
    qed (simp add: c)
  qed (use that in simp)
  with s show ?case by simp
qed simp

lemma expire_loop_eq:
  "expire_loop pt ms hist =
     (dropWhile (\<lambda>m. ends m \<le> pt) ms, rev (filter moving (takeWhile (\<lambda>m. ends m \<le> pt) ms)) @ hist)"
  by (induction ms arbitrary: hist) (auto simp: ends_def moving_def)

lemma free_old_split: "\<exists>old. hist = free_old clear hist @ old \<and> (\<forall>h\<in>set old. ends h \<le> clear) \<and> (hist \<noteq> [] \<longrightarrow> free_old clear hist \<noteq> [])"
proof (induction "length hist" arbitrary: hist rule: less_induct)
  case less
  show ?case
  proof (cases "length hist \<le> 1 \<or> print_time (last hist) + move_t (last hist) > clear")
    case True
    then show ?thesis by (subst (1 2) free_old.simps) simp
  next
    case False
    then have ne: "hist \<noteq> []" "butlast hist \<noteq> []" by (cases hist; auto)+
    obtain old where old: "butlast hist = free_old clear (butlast hist) @ old" "\<forall>h\<in>set old. ends h \<le> clear"
      "free_old clear (butlast hist) \<noteq> []"
      using less [of "butlast hist"] ne by auto
    have "free_old clear hist = free_old clear (butlast hist)" using False by (subst free_old.simps) simp
    moreover have "hist = free_old clear (butlast hist) @ old @ [last hist]"
      using old(1) ne append_butlast_last_id [of hist] by (metis append_assoc)
    ultimately show ?thesis using old False by (intro exI [of _ "old @ [last hist]"]) (auto simp: ends_def)
  qed
qed

lemma queue_ok_dropWhile: "queue_ok ms \<Longrightarrow> queue_ok (dropWhile P ms)"
  by (induction ms) (auto dest: queue_ok_tl)

lemma last_dropWhile: "dropWhile P ms \<noteq> [] \<Longrightarrow> last (dropWhile P ms) = last ms"
  by (metis dropWhile_eq_Nil_conv last_appendR takeWhile_dropWhile_id)

lemma history_ok_expire:
  assumes "queue_ok ms" "history_ok hist ms"
  shows "history_ok (rev (filter moving (takeWhile P ms)) @ hist) (dropWhile P ms)"
proof -
  have s: "sorted_wrt (\<lambda>a b. ends a \<le> print_time b) (takeWhile P ms @ dropWhile P ms)"
    using queue_sorted [OF assms(1)] by simp
  then have st: "sorted_wrt (\<lambda>a b. ends a \<le> print_time b) (takeWhile P ms)"
    and across: "\<forall>a\<in>set (takeWhile P ms). \<forall>b\<in>set (dropWhile P ms). ends a \<le> print_time b"
    unfolding sorted_wrt_append by blast+
  have "sorted_wrt (\<lambda>a b. ends b \<le> print_time a) (rev (filter moving (takeWhile P ms)))"
    using st by (simp add: sorted_wrt_rev sorted_wrt_filter)
  moreover have "m \<in> set ms" if "m \<in> set (takeWhile P ms)" for m using that by (rule set_takeWhileD [THEN conjunct1])
  moreover have "m \<in> set ms" if "m \<in> set (dropWhile P ms)" for m using that by (rule set_dropWhileD)
  ultimately show ?thesis
    using assms across unfolding history_ok_def queue_ok_def sorted_wrt_append
    by (auto intro: less_imp_le)
qed

lemma history_ok_prefix: "history_ok (xs @ ys) ms \<Longrightarrow> history_ok xs ms"
  by (auto simp: history_ok_def sorted_wrt_append)

lemma finalize_is:
  assumes "trapq_is tq ms t" "queue_ok ms" "tail_ok ms t" "history_ok (history tq) ms"
  obtains t' where "trapq_is (trapq_finalize_moves pt clear tq) (dropWhile (\<lambda>m. ends m \<le> pt) ms) t'"
    "tail_ok (dropWhile (\<lambda>m. ends m \<le> pt) ms) t'" "start_pos t' = start_pos t"
    "history (trapq_finalize_moves pt clear tq) =
       (let h = rev (filter moving (takeWhile (\<lambda>m. ends m \<le> pt) ms)) @ history tq in if h = [] then [] else free_old clear h)"
proof -
  let ?ms = "dropWhile (\<lambda>m. ends m \<le> pt) ms"
  let ?h = "rev (filter moving (takeWhile (\<lambda>m. ends m \<le> pt) ms)) @ history tq"
  let ?t = "if ?ms = [] then t\<lparr>print_time := NEVER_TIME\<rparr> else t"
  note s = trapq_is_simps [OF assms(1)]
  have "butlast (tl (moves tq)) = ms" using s by simp
  then have f: "trapq_is (trapq_finalize_moves pt clear tq) ?ms ?t \<and>
      history (trapq_finalize_moves pt clear tq) = (if ?h = [] then [] else free_old clear ?h)"
    using s assms(1)
    by (simp add: trapq_finalize_moves_def expire_loop_eq Let_def trapq_is_def set_tail_def)
  moreover have "tail_ok ?ms ?t"
  proof (cases "?ms = []")
    case True
    with assms(3) show ?thesis by (simp add: tail_ok_def)
  next
    case False
    then have "ms \<noteq> []" by auto
    with assms(3) False last_dropWhile [OF False] show ?thesis by (simp only: tail_ok_def if_False)
  qed
  ultimately show thesis using that [of ?t] by (simp add: Let_def)
qed

lemma finalize_ok:
  assumes "trapq_ok tq"
  shows "trapq_ok (trapq_finalize_moves pt clear tq)"
    "queued_moves (trapq_finalize_moves pt clear tq) = dropWhile (\<lambda>m. ends m \<le> pt) (queued_moves tq)"
proof -
  obtain ms t where tq: "trapq_is tq ms t" "queue_ok ms" "tail_ok ms t" "history_ok (history tq) ms"
    by (rule trapq_okE [OF assms])
  obtain t' where f: "trapq_is (trapq_finalize_moves pt clear tq) (dropWhile (\<lambda>m. ends m \<le> pt) ms) t'"
    "tail_ok (dropWhile (\<lambda>m. ends m \<le> pt) ms) t'"
    "history (trapq_finalize_moves pt clear tq) =
       (let h = rev (filter moving (takeWhile (\<lambda>m. ends m \<le> pt) ms)) @ history tq in if h = [] then [] else free_old clear h)"
    using finalize_is [OF tq, where pt = pt and clear = clear] by metis
  let ?h = "rev (filter moving (takeWhile (\<lambda>m. ends m \<le> pt) ms)) @ history tq"
  have "history_ok (free_old clear ?h) (dropWhile (\<lambda>m. ends m \<le> pt) ms)"
    using history_ok_expire [OF tq(2,4)] history_ok_prefix free_old_split [of ?h clear] by metis
  then have "history_ok (history (trapq_finalize_moves pt clear tq)) (dropWhile (\<lambda>m. ends m \<le> pt) ms)"
    using f(3) by (auto simp: Let_def history_ok_def)
  then show "trapq_ok (trapq_finalize_moves pt clear tq)"
    by (rule trapq_okI [OF f(1) queue_ok_dropWhile [OF tq(2)] f(2)])
  show "queued_moves (trapq_finalize_moves pt clear tq) = dropWhile (\<lambda>m. ends m \<le> pt) (queued_moves tq)"
    using trapq_is_simps(1) [OF f(1)] trapq_is_simps(1) [OF tq(1)] by simp
qed

lemma tail_position: "tail_ok ms t \<Longrightarrow> move_get_coord t u = start_pos t"
  by (simp add: tail_ok_def move_get_coord_along move_get_distance_def)

lemma tail_ends:
  assumes "queue_ok ms" "tail_ok ms t" "u < NEVER_TIME"
  shows "u < ends t"
proof -
  have "0 \<le> print_time t"
    using assms(1,2) queue_end_pos [OF assms(1)] by (auto simp: tail_ok_def queue_end_def split: if_splits)
  with assms(2,3) show ?thesis by (simp add: tail_ok_def ends_def)
qed

lemma finalize_positions:
  assumes "trapq_ok tq" "pt \<le> u" "0 \<le> u" "u < NEVER_TIME"
  shows "position_at (trapq_finalize_moves pt clear tq) u = position_at tq u"
proof -
  obtain ms t where tq: "trapq_is tq ms t" "queue_ok ms" "tail_ok ms t" "history_ok (history tq) ms"
    by (rule trapq_okE [OF assms(1)])
  obtain t' where f: "trapq_is (trapq_finalize_moves pt clear tq) (dropWhile (\<lambda>m. ends m \<le> pt) ms) t'"
    "tail_ok (dropWhile (\<lambda>m. ends m \<le> pt) ms) t'" "start_pos t' = start_pos t"
    using finalize_is [OF tq, where pt = pt and clear = clear] by metis
  have skip: "\<forall>m\<in>set (zero_move # takeWhile (\<lambda>m. ends m \<le> pt) ms). \<not> u < ends m"
    using assms(2,3) by (fastforce simp: zero_move_def ends_def dest: set_takeWhileD)
  have e: "u < ends t" "u < ends t'"
    using tail_ends [OF tq(2,3) assms(4)] tail_ends [OF queue_ok_dropWhile [OF tq(2)] f(2) assms(4)] by auto
  have "find (\<lambda>m. u < ends m) (moves tq) =
      find (\<lambda>m. u < ends m) ((zero_move # takeWhile (\<lambda>m. ends m \<le> pt) ms) @ dropWhile (\<lambda>m. ends m \<le> pt) ms @ [t])"
    using tq(1) by (simp add: trapq_is_def flip: append_assoc)
  also have "\<dots> = find (\<lambda>m. u < ends m) (dropWhile (\<lambda>m. ends m \<le> pt) ms @ [t])" by (rule find_skip [OF skip])
  finally have 1: "find (\<lambda>m. u < ends m) (moves tq) = find (\<lambda>m. u < ends m) (dropWhile (\<lambda>m. ends m \<le> pt) ms @ [t])" .
  have "find (\<lambda>m. u < ends m) (moves (trapq_finalize_moves pt clear tq)) =
      find (\<lambda>m. u < ends m) (dropWhile (\<lambda>m. ends m \<le> pt) ms @ [t'])"
    using f(1) skip by (simp add: trapq_is_def)
  with 1 e show ?thesis
    using tail_position [OF tq(3)] tail_position [OF f(2)] f(3)
    by (simp add: position_at_def find_append split: option.split)
qed

lemma prune_history_ok:
  assumes "history_ok hist ms"
  shows "history_ok (prune_history pt hist) [] \<and> (\<forall>h\<in>set (prune_history pt hist). ends h \<le> pt)"
  using assms
proof (induction hist)
  case (Cons h hist)
  show ?case
  proof (cases "print_time h < pt")
    case True
    then show ?thesis using Cons.prems by (fastforce simp: history_ok_def ends_def)
  next
    case False
    then show ?thesis using Cons by (auto simp: history_ok_def)
  qed
qed (simp add: history_ok_def)

lemma set_position_ok:
  assumes "trapq_ok tq" "queue_end (queued_moves tq) \<le> NEVER_TIME"
  shows "trapq_ok (trapq_set_position pt pos tq)" "queued_moves (trapq_set_position pt pos tq) = []"
    "\<forall>h\<in>set (history (trapq_set_position pt pos tq)). ends h \<le> pt"
proof -
  let ?tq = "trapq_finalize_moves NEVER_TIME 0 tq"
  obtain ms t where tq: "trapq_is tq ms t" "queue_ok ms" "tail_ok ms t" "history_ok (history tq) ms"
    by (rule trapq_okE [OF assms(1)])
  have q: "queued_moves tq = ms" by (rule trapq_is_simps(1) [OF tq(1)])
  have "ends m \<le> NEVER_TIME" if m: "m \<in> set ms" for m
  proof -
    obtain as bs where ms: "ms = as @ m # bs" using split_list [OF m] by auto
    show ?thesis
    proof (cases "bs = []")
      case True
      then show ?thesis using assms(2) unfolding q ms by (simp add: queue_end_def)
    next
      case False
      then have "ends m \<le> print_time (last bs)" "0 < move_t (last bs)"
        using queue_sorted [OF tq(2)] tq(2) unfolding ms by (auto simp: sorted_wrt_append queue_ok_def)
      then have "ends m \<le> ends (last bs)" by (simp add: ends_def)
      then show ?thesis using assms(2) False unfolding q ms by (simp add: queue_end_def)
    qed
  qed
  then have e: "queued_moves ?tq = []" using finalize_ok(2) [OF assms(1)] q by simp
  obtain ms' t' where tq': "trapq_is ?tq ms' t'" "queue_ok ms'" "tail_ok ms' t'" "history_ok (history ?tq) ms'"
    by (rule trapq_okE [OF finalize_ok(1) [OF assms(1)]])
  have ms': "ms' = []" using e trapq_is_simps(1) [OF tq'(1)] by simp
  note p = prune_history_ok [OF tq'(4), of pt]
  let ?m = "zero_move\<lparr>print_time := pt, start_pos := pos\<rparr>"
  have m: "ends ?m = pt" "print_time ?m = pt" "move_t ?m = 0" by (simp_all add: ends_def zero_move_def)
  have "history_ok (?m # prune_history pt (history ?tq)) []" using p m by (auto simp: history_ok_def)
  then show "trapq_ok (trapq_set_position pt pos tq)"
    using tq' ms' by (auto simp: trapq_ok_def trapq_set_position_def Let_def trapq_is_def)
  show "queued_moves (trapq_set_position pt pos tq) = []"
    using e by (simp add: trapq_set_position_def Let_def queued_moves_def)
  show "\<forall>h\<in>set (history (trapq_set_position pt pos tq)). ends h \<le> pt"
    using p m by (simp add: trapq_set_position_def Let_def)
qed

lemma check_sentinels_ok:
  assumes "trapq_ok tq"
  shows "trapq_ok (trapq_check_sentinels tq)" "queued_moves (trapq_check_sentinels tq) = queued_moves tq"
    "print_time (last (moves (trapq_check_sentinels tq))) \<noteq> 0"
proof -
  obtain ms t where tq: "trapq_is tq ms t" "queue_ok ms" "tail_ok ms t" "history_ok (history tq) ms"
    by (rule trapq_okE [OF assms])
  note s = trapq_is_simps [OF tq(1)]
  define t' where "t' = (if print_time t \<noteq> 0 then t else if ms = [] then t\<lparr>print_time := NEVER_TIME\<rparr>
    else t\<lparr>print_time := ends (last ms), start_pos := move_get_coord (last ms) (move_t (last ms))\<rparr>)"
  have rep: "trapq_is (trapq_check_sentinels tq) ms t' \<and> history (trapq_check_sentinels tq) = history tq"
    using tq(1) s by (auto simp: trapq_check_sentinels_def trapq_is_def set_tail_def t'_def ends_def Let_def butlast_append)
  moreover have "tail_ok ms t'" using tq(3) by (auto simp: tail_ok_def t'_def)
  ultimately show "trapq_ok (trapq_check_sentinels tq)" using tq by (auto simp: trapq_ok_def)
  show "queued_moves (trapq_check_sentinels tq) = queued_moves tq" using rep s trapq_is_simps(1) by auto
  have "print_time t' \<noteq> 0"
    using queue_end_pos [OF tq(2)] by (auto simp: t'_def queue_end_def split: if_splits)
  then show "print_time (last (moves (trapq_check_sentinels tq))) \<noteq> 0" using rep trapq_is_simps(2) by metis
qed

lemma trapq_alloc_ok: "trapq_ok trapq_alloc" "queued_moves trapq_alloc = []" "history trapq_alloc = []"
  by (auto simp: trapq_ok_def trapq_alloc_def trapq_is_def queue_ok_def tail_ok_def history_ok_def queued_moves_def zero_move_def)

lemma dropWhile_ended: "queue_ok ms \<Longrightarrow> dropWhile (\<lambda>m. ends m \<le> pt) ms = filter (\<lambda>m. pt < ends m) ms"
proof (induction ms)
  case (Cons a ms)
  have ok: "queue_ok ms" by (rule queue_ok_tl [OF Cons.prems])
  show ?case
  proof (cases "ends a \<le> pt")
    case False
    have "pt < ends b" if "b \<in> set ms" for b
    proof -
      have "ends a \<le> print_time b" using queue_sorted [OF Cons.prems] that by simp
      moreover have "0 < move_t b" using Cons.prems that by (simp add: queue_ok_def)
      ultimately show ?thesis using False by (simp add: ends_def)
    qed
    then show ?thesis using False by simp
  qed (use Cons.IH [OF ok] in auto)
qed simp

lemma extract_loop_eq:
  assumes "history_ok hist ms"
  shows "extract_loop n a b hist = map pull_of (take n (filter (\<lambda>m. a < ends m \<and> print_time m < b) hist))"
  using assms
proof (induction hist arbitrary: n)
  case (Cons m hist)
  have ok: "history_ok hist ms" using Cons.prems by (simp add: history_ok_def)
  show ?case
  proof (cases "a \<ge> ends m")
    case True
    have "\<not> a < ends h" if "h \<in> set hist" for h
      using Cons.prems that True by (fastforce simp: history_ok_def ends_def)
    then have "filter (\<lambda>m. a < ends m \<and> print_time m < b) (m # hist) = []" using True by (auto simp: filter_empty_conv)
    then show ?thesis using True by (simp only: extract_loop.simps) (simp add: ends_def)
  next
    case False
    then show ?thesis using Cons.IH [OF ok] by (cases n) (auto simp: ends_def)
  qed
qed simp

lemma part_positions:
  assumes "0 \<le> t1" "0 \<le> t2" "0 \<le> t3" "0 \<le> u" "u < t1 + t2 + t3"
  shows "map_option (\<lambda>m. move_get_coord m (pt + u - print_time m)) (find (\<lambda>m. pt + u < ends m)
     ((part t1 sv (1 / 2 * accel) r pt pos @
       part t2 cv 0 r (pt + t1) (coord_along pos r ((sv + accel / 2 * t1) * t1)) @
       part t3 cv (- (1 / 2) * accel) r (pt + t1 + t2) (coord_along pos r ((sv + accel / 2 * t1) * t1 + cv * t2))) @ rest)) =
    Some (coord_along pos r (trapezoid t1 t2 sv cv accel u))"
proof -
  have p: "find (\<lambda>m. pt + u < ends m) (part t v ha r p q @ xs) =
      (if t \<noteq> 0 \<and> pt + u < p + t then Some (hd (part t v ha r p q)) else find (\<lambda>m. pt + u < ends m) xs)" for t v ha p q xs
    by (simp add: part_def ends_def)
  consider "u < t1" | "t1 \<le> u" "u < t1 + t2" | "t1 + t2 \<le> u" by linarith
  then show ?thesis
  proof cases
    case 1
    with assms show ?thesis
      by (simp only: append_assoc p) (simp add: trapezoid_def Let_def part_def move_get_coord_along move_get_distance_def)
  next
    case 2
    with assms show ?thesis
      by (simp only: append_assoc p) (simp add: trapezoid_def Let_def part_def move_get_coord_along move_get_distance_def coord_along_add)
  next
    case 3
    have e: "u + (- t1 - t2) = u - t1 - t2" by simp
    from 3 assms show ?thesis
      by (simp only: append_assoc p) (simp add: trapezoid_def Let_def part_def move_get_coord_along move_get_distance_def coord_along_add, simp only: e)
  qed
qed

subsection \<open>Properties\<close>

text \<open>
  C14: The queue holds the plan. Appending a trapezoid at a time when the queue is free keeps the invariant (moves that
  follow one another without a gap between the sentinels, a history in order), lets the next one be
  appended when this one ends, and does not change where the tool is before; and for every time of the trapezoid the
  position that a look up finds, whichever of the up to three moves holds it, is the one of the velocity profile.
\<close>

theorem trapq_append_follows_plan:
  fixes tq :: trapq and pt t1 t2 t3 sv cv accel :: real and pos r :: coord
  defines "tq' \<equiv> trapq_append tq pt t1 t2 t3 pos r sv cv accel"
  assumes "trapq_ok tq" "can_add tq pt" "0 \<le> t1" "0 \<le> t2" "0 \<le> t3"
  shows "trapq_ok tq' \<and> can_add tq' (pt + t1 + t2 + t3) \<and>
    (\<forall>u. 0 \<le> u \<and> u < t1 + t2 + t3 \<longrightarrow>
       position_at tq' (pt + u) = Some (coord_along pos r (trapezoid t1 t2 sv cv accel u))) \<and>
    (\<forall>u < queue_end (queued_moves tq). position_at tq' u = position_at tq u)"
proof -
  note a = trapq_append_appended [OF assms(2-6), of pos r sv cv accel, folded tq'_def]
  have "position_at tq' (pt + u) = Some (coord_along pos r (trapezoid t1 t2 sv cv accel u))"
    if "0 \<le> u" "u < t1 + t2 + t3" for u
    using position_appended [OF assms(2,3) a, of "pt + u"] that part_positions [OF assms(4-6) that]
    by (simp only: position_at_def)
  with a position_kept [OF assms(2) a] show ?thesis by (simp add: appended_def)
qed

theorem trapq_append_follows_plan_witness:
  "position_at (trapq_append trapq_alloc 5 1 2 1 zero_coord \<lparr>coord_x = 3 / 5, coord_y = 4 / 5, coord_z = 0\<rparr> 0 10 10) (5 + 2) =
     Some \<lparr>coord_x = 9, coord_y = 12, coord_z = 0\<rparr>"
proof -
  have "can_add trapq_alloc 5" by (simp add: can_add_def trapq_alloc_ok)
  note f = trapq_append_follows_plan [OF trapq_alloc_ok(1) this, of 1 2 1, THEN conjunct2, THEN conjunct2, THEN conjunct1,
      rule_format, of 2 zero_coord "\<lparr>coord_x = 3 / 5, coord_y = 4 / 5, coord_z = 0\<rparr>" 0 10 10]
  have "position_at (trapq_append trapq_alloc 5 1 2 1 zero_coord \<lparr>coord_x = 3 / 5, coord_y = 4 / 5, coord_z = 0\<rparr> 0 10 10) (5 + 2) =
     Some (coord_along zero_coord \<lparr>coord_x = 3 / 5, coord_y = 4 / 5, coord_z = 0\<rparr> (trapezoid 1 2 0 10 10 2))"
    by (rule f) simp_all
  then show ?thesis by (simp add: trapezoid_def Let_def coord_along_def zero_coord_def)
qed

text \<open>
  C15: Expiring moves loses nothing. \<open>trapq_finalize_moves\<close> keeps the invariant; exactly the moves that have not ended stay
  in the queue, and the tool is where it was at every time from then on; a move that has ended and that moved, and anything
  that was in the history, is in the history afterwards unless it is older than the time up to which the history may be
  cleared.
\<close>

theorem trapq_finalize_loses_nothing:
  fixes tq :: trapq and pt clear :: real
  defines "tq' \<equiv> trapq_finalize_moves pt clear tq"
  assumes "trapq_ok tq" "0 \<le> pt"
  shows "trapq_ok tq' \<and> queued_moves tq' = filter (\<lambda>m. pt < ends m) (queued_moves tq) \<and>
    (\<forall>u. pt \<le> u \<and> u < NEVER_TIME \<longrightarrow> position_at tq' u = position_at tq u) \<and>
    (\<forall>m \<in> set (history tq) \<union> {m \<in> set (queued_moves tq). moving m \<and> ends m \<le> pt}. clear < ends m \<longrightarrow> m \<in> set (history tq'))"
proof -
  obtain ms t where tq: "trapq_is tq ms t" "queue_ok ms" "tail_ok ms t" "history_ok (history tq) ms"
    by (rule trapq_okE [OF assms(2)])
  have q: "queued_moves tq = ms" by (rule trapq_is_simps(1) [OF tq(1)])
  have kept: "m \<in> set (history tq')"
    if m: "m \<in> set (history tq) \<union> {m \<in> set (queued_moves tq). moving m \<and> ends m \<le> pt}" "clear < ends m" for m
  proof -
    let ?h = "rev (filter moving (takeWhile (\<lambda>m. ends m \<le> pt) ms)) @ history tq"
    have h': "history tq' = (if ?h = [] then [] else free_old clear ?h)"
      by (rule finalize_is [OF tq, where pt = pt and clear = clear]) (simp add: tq'_def Let_def)
    obtain old where old: "?h = free_old clear ?h @ old" "\<forall>h\<in>set old. ends h \<le> clear" using free_old_split by blast
    have "m \<in> set (takeWhile (\<lambda>m. ends m \<le> pt) ms)" if "m \<in> set ms" "ends m \<le> pt"
    proof -
      have "m \<notin> set (dropWhile (\<lambda>m. ends m \<le> pt) ms)" using dropWhile_ended [OF tq(2), of pt] that(2) by auto
      then show ?thesis using that(1) by (metis Un_iff set_append takeWhile_dropWhile_id)
    qed
    then have in_h: "m \<in> set ?h" using m(1) q by auto
    then have "m \<in> set (free_old clear ?h)" using old m(2) by (metis Un_iff not_less set_append)
    moreover have "?h \<noteq> []" using in_h by (metis empty_iff empty_set)
    ultimately show ?thesis unfolding h' by (simp only: if_False)
  qed
  have "trapq_ok tq'" "queued_moves tq' = filter (\<lambda>m. pt < ends m) (queued_moves tq)"
    using finalize_ok [OF assms(2)] dropWhile_ended [OF tq(2)] q unfolding tq'_def by simp_all
  moreover have "position_at tq' u = position_at tq u" if "pt \<le> u \<and> u < NEVER_TIME" for u
    using finalize_positions [OF assms(2), of pt u] that assms(3) unfolding tq'_def by simp
  ultimately show ?thesis using kept by blast
qed

theorem trapq_finalize_loses_nothing_witness:
  "trapq_ok (trapq_finalize_moves 7 6 (trapq_append trapq_alloc 5 1 2 1 zero_coord zero_coord 0 10 10)) \<and>
   queued_moves (trapq_finalize_moves 7 6 (trapq_append trapq_alloc 5 1 2 1 zero_coord zero_coord 0 10 10)) =
     filter (\<lambda>m. 7 < ends m) (queued_moves (trapq_append trapq_alloc 5 1 2 1 zero_coord zero_coord 0 10 10))"
proof -
  have c: "can_add trapq_alloc 5" by (simp add: can_add_def trapq_alloc_ok)
  have "trapq_ok (trapq_append trapq_alloc 5 1 2 1 zero_coord zero_coord 0 10 10)"
    using trapq_append_appended [OF trapq_alloc_ok(1) c, of 1 2 1] by (simp add: appended_def)
  from trapq_finalize_loses_nothing [OF this, of 7 6] show ?thesis by simp
qed

text \<open>
  The history is complete and in order. \<open>trapq_extract_old\<close> returns the moves of the history that overlap the given
  period, the latest first, and if there are too many, the latest of them; and noting a change of the position
  empties the queue, cuts off what is behind the given time, keeps the invariant and lets moves be appended from then on.
\<close>

theorem trapq_history_correct:
  assumes "trapq_ok tq"
  shows "trapq_extract_old tq n a b = map pull_of (take n (filter (\<lambda>m. a < ends m \<and> print_time m < b) (history tq))) \<and>
    (queue_end (queued_moves tq) \<le> NEVER_TIME \<and> 0 < pt \<longrightarrow>
       trapq_ok (trapq_set_position pt pos tq) \<and> can_add (trapq_set_position pt pos tq) pt)"
proof -
  obtain ms t where "history_ok (history tq) ms" by (rule trapq_okE [OF assms])
  then have "trapq_extract_old tq n a b = map pull_of (take n (filter (\<lambda>m. a < ends m \<and> print_time m < b) (history tq)))"
    by (simp add: trapq_extract_old_def extract_loop_eq)
  with set_position_ok [OF assms] show ?thesis by (auto simp: can_add_def)
qed

theorem trapq_history_correct_witness:
  "trapq_ok (trapq_set_position 5 zero_coord trapq_alloc) \<and> can_add (trapq_set_position 5 zero_coord trapq_alloc) 5"
  using trapq_history_correct [OF trapq_alloc_ok(1), of 0 0 0 5 zero_coord] trapq_alloc_ok(2) by simp

end
