(* ===== verification/Itersolve.thy ===== *)
theory Itersolve
  imports Trapq Stepcompress
begin

text \<open>
  The iterative solver, \<open>klippy/chelper/itersolve.c\<close>: the times at which a stepper has to step so that its position follows
  the kinematic position of the tool. A step is due when the kinematic position is half a step beyond the
  commanded one; the solver looks for these times by the secant method, with a bracket and bisection
  to fall back on, and hands them to the step compression.

  A stepper holds its \<open>struct stepcompress\<close> and the trapezoidal queue it is set to. A move is an index into the list of moves of
  that queue, since the functions that calculate a position may look at the neighbours of a move. They are values
  of \<open>calc_position_cb\<close>, functions of \<open>commanded_pos\<close>, the moves, the index and the time. The direction of a step is a
  truth value.
\<close>

record timepos =
  tp_time :: real
  tp_position :: real

record stepper_kinematics =
  step_dist :: real
  commanded_pos :: real
  sk_sc :: stepcompress
  last_flush_time :: real
  last_move_time :: real
  sk_tq :: "trapq option"
  active_flags :: u32
  gen_steps_pre_active :: real
  gen_steps_post_active :: real
  calc_position_cb :: "real \<Rightarrow> move list \<Rightarrow> nat \<Rightarrow> real \<Rightarrow> real"
  post_cb :: "(real \<Rightarrow> real) option"

text \<open>The local variables of \<open>itersolve_gen_steps_range\<close>.\<close>

record seek =
  old_guess :: timepos
  guess :: timepos
  seek_dir :: bool
  is_dir_change :: bool
  have_bracket :: bool
  check_oscillate :: bool
  target :: real
  last_time :: real
  low_time :: real
  high_time :: real

abbreviation (input) SEEK_TIME_RESET :: real where "SEEK_TIME_RESET \<equiv> 1 / 10000"
abbreviation (input) SEEK_EPS :: real where "SEEK_EPS \<equiv> 1 / 1000000000"
abbreviation (input) AF_X :: u32 where "AF_X \<equiv> 1"
abbreviation (input) AF_Y :: u32 where "AF_Y \<equiv> 2"
abbreviation (input) AF_Z :: u32 where "AF_Z \<equiv> 4"

type_synonym 'a sk_op = "(stepper_kinematics, 'a) op"

subsection \<open>The search for the next step\<close>

definition seek_start :: "real \<Rightarrow> real \<Rightarrow> real \<Rightarrow> real \<Rightarrow> bool \<Rightarrow> seek" where
  "seek_start half_step start end commanded dir =
     (let g = \<lparr>tp_time = start, tp_position = commanded\<rparr>; high = start + SEEK_TIME_RESET
      in \<lparr>old_guess = g, guess = g, seek_dir = dir, is_dir_change = False, have_bracket = False, check_oscillate = False,
          target = commanded + (if dir then half_step else - half_step), last_time = start, low_time = start,
          high_time = (if high > end then end else high)\<rparr>)"

text \<open>
  The time of the next guess; \<open>None\<close> when there are no more steps in the range. The quotient of the secant method is NaN or
  infinite when the divisor is zero, and fails the test then.
\<close>

definition secant_time :: "seek \<Rightarrow> real" where
  "secant_time k =
     (let guess_dist = tp_position (guess k) - target k; og_dist = tp_position (old_guess k) - target k
      in (tp_time (old_guess k) * guess_dist - tp_time (guess k) * og_dist) / (guess_dist - og_dist))"

definition secant_ok :: "seek \<Rightarrow> bool" where
  "secant_ok k \<longleftrightarrow> tp_position (guess k) \<noteq> tp_position (old_guess k) \<and>
     secant_time k > low_time k \<and> secant_time k < high_time k"

definition next_guess :: "real \<Rightarrow> seek \<Rightarrow> (real \<times> seek) option" where
  "next_guess end k =
     (if secant_ok k then Some (secant_time k, k)
      else if have_bracket k then Some ((low_time k + high_time k) * (1 / 2), k\<lparr>check_oscillate := False\<rparr>)
      else if tp_time (guess k) \<ge> end then None
      else (let high = 2 * high_time k - last_time k
            in Some (high_time k, k\<lparr>high_time := (if high > end then end else high)\<rparr>)))"

text \<open>The update of the bounds by a guess that is not close enough.\<close>

definition seek_past :: "seek \<Rightarrow> seek" where
  "seek_past k =
     (let k = (if have_bracket k \<and> tp_time (old_guess k) \<le> low_time k
               then k\<lparr>old_guess := (if check_oscillate k then guess k else old_guess k), check_oscillate := True\<rparr> else k)
      in k\<lparr>high_time := tp_time (guess k), have_bracket := True\<rparr>)"

definition seek_turn :: "real \<Rightarrow> seek \<Rightarrow> seek" where
  "seek_turn half_step k =
     (let dir = (\<not> seek_dir k)
      in k\<lparr>seek_dir := dir, target := (if dir then target k + half_step + half_step else target k - half_step - half_step),
          low_time := last_time k, high_time := tp_time (guess k), is_dir_change := True, have_bracket := True,
          check_oscillate := False\<rparr>)"

definition seek_bounds :: "real \<Rightarrow> real \<Rightarrow> seek \<Rightarrow> seek" where
  "seek_bounds half_step rel_dist k =
     (if rel_dist > 0 then seek_past k
      else if rel_dist < - (half_step + half_step + 1 / 100000000) then seek_turn half_step k
      else k\<lparr>low_time := tp_time (guess k)\<rparr>)"

text \<open>
  One round of the loop: no more steps, another round (with or without committing the pending step), or a step at the
  time of the guess.
\<close>

datatype seek_result = Seek_end | Seek_again bool seek | Seek_step seek

definition seek_round :: "real \<Rightarrow> real \<Rightarrow> (real \<Rightarrow> real) \<Rightarrow> seek \<Rightarrow> seek_result" where
  "seek_round half_step end pos k =
     (case next_guess end k of
        None \<Rightarrow> Seek_end
      | Some (t, k) \<Rightarrow>
          (let k = k\<lparr>old_guess := guess k, guess := \<lparr>tp_time = t, tp_position = pos t\<rparr>\<rparr>;
               guess_dist = pos t - target k
           in if \<bar>guess_dist\<bar> > SEEK_EPS then
                (let rel_dist = (if seek_dir k then guess_dist else - guess_dist);
                     k = seek_bounds half_step rel_dist k
                 in if \<not> have_bracket k \<or> high_time k - low_time k > SEEK_EPS
                    then Seek_again (\<not> is_dir_change k \<and> rel_dist \<ge> - half_step) k
                    else Seek_step k)
              else Seek_step k))"

definition seek_delta :: "seek \<Rightarrow> real" where
  "seek_delta k =
     (let d = 3 / 2 * (tp_time (guess k) - last_time k);
          d = (if d < SEEK_EPS then SEEK_EPS else d)
      in if is_dir_change k \<and> d > SEEK_TIME_RESET then SEEK_TIME_RESET else d)"

definition seek_next :: "real \<Rightarrow> real \<Rightarrow> seek \<Rightarrow> seek" where
  "seek_next half_step end k =
     (let high = tp_time (guess k) + seek_delta k
      in k\<lparr>target := (if seek_dir k then target k + half_step + half_step else target k - half_step - half_step),
          last_time := tp_time (guess k), low_time := tp_time (guess k), high_time := (if high > end then end else high),
          is_dir_change := False, have_bracket := False, check_oscillate := False\<rparr>)"

text \<open>
  The loop of \<open>itersolve_gen_steps_range\<close> on the step compression, for \<open>n\<close> rounds. It is still running after them, or has returned an
  error code, or is done with the local variables \<open>k\<close>. The functions that use the loop give \<open>None\<close> when it is still running, and
  their return value otherwise.
\<close>

datatype loop_result = Running | Failed int | Finished seek

fun gen_loop :: "nat \<Rightarrow> real \<Rightarrow> real \<Rightarrow> real \<Rightarrow> (real \<Rightarrow> real) \<Rightarrow> seek \<Rightarrow> loop_result sc_op" where
  "gen_loop 0 half_step end pt pos k = ret Running"
| "gen_loop (Suc n) half_step end pt pos k =
     (case seek_round half_step end pos k of
        Seek_end \<Rightarrow> ret (Finished k)
      | Seek_again commit k' \<Rightarrow>
          then_op (if commit then stepcompress_commit else ret 0) (gen_loop n half_step end pt pos k')
      | Seek_step k' \<Rightarrow>
          bind_op (stepcompress_append (if seek_dir k' then 1 else 0) pt (tp_time (guess k'))) (\<lambda>r.
            if r \<noteq> 0 then ret (Failed r) else gen_loop n half_step end pt pos (seek_next half_step end k')))"

definition on_sc :: "'a sc_op \<Rightarrow> 'a sk_op" where
  "on_sc m = (\<lambda>sk.
     case m (sk_sc sk) of
       Ret x t \<Rightarrow> Ret x (sk\<lparr>sk_sc := t\<rparr>) | Shutdown e t \<Rightarrow> Shutdown e (sk\<lparr>sk_sc := t\<rparr>) | Undef \<Rightarrow> Undef)"

text \<open>Step times for the part of the move \<open>i\<close> between two times.\<close>

definition itersolve_gen_steps_range :: "nat \<Rightarrow> move list \<Rightarrow> nat \<Rightarrow> real \<Rightarrow> real \<Rightarrow> int option sk_op" where
  "itersolve_gen_steps_range n ms i abs_start abs_end =
     bind_op (get_op (\<lambda>sk. sk)) (\<lambda>sk.
     let m = ms ! i;
         half_step = 1 / 2 * step_dist sk;
         start = (if abs_start - print_time m < 0 then 0 else abs_start - print_time m);
         end = (if abs_end - print_time m > move_t m then move_t m else abs_end - print_time m);
         pos = calc_position_cb sk (commanded_pos sk) ms i;
         k = seek_start half_step start end (commanded_pos sk) (stepcompress_get_step_dir (sk_sc sk) \<noteq> 0)
     in bind_op (on_sc (gen_loop n half_step end (print_time m) pos k)) (\<lambda>r.
        case r of
          Running \<Rightarrow> ret None
        | Failed e \<Rightarrow> ret (Some e)
        | Finished k \<Rightarrow>
            then_op (set_op (\<lambda>sk.
              let c = target k - (if seek_dir k then half_step else - half_step)
              in sk\<lparr>commanded_pos := (case post_cb sk of None \<Rightarrow> c | Some f \<Rightarrow> f c)\<rparr>)) (ret (Some 0))))"

subsection \<open>The interface\<close>

definition check_active :: "stepper_kinematics \<Rightarrow> move \<Rightarrow> bool" where
  "check_active sk m \<longleftrightarrow>
     active_flags sk AND AF_X \<noteq> 0 \<and> coord_x (axes_r m) \<noteq> 0 \<or>
     active_flags sk AND AF_Y \<noteq> 0 \<and> coord_y (axes_r m) \<noteq> 0 \<or>
     active_flags sk AND AF_Z \<noteq> 0 \<and> coord_z (axes_r m) \<noteq> 0"

text \<open>The first move from \<open>i\<close> on that ends after \<open>t\<close>; \<open>None\<close> when the walk leaves the list.\<close>

function first_move :: "real \<Rightarrow> move list \<Rightarrow> nat \<Rightarrow> nat option" where
  "first_move t ms i =
     (if i \<ge> length ms then None
      else if t \<ge> print_time (ms ! i) + move_t (ms ! i) then first_move t ms (Suc i)
      else Some i)"
  by auto
termination by (relation "measure (\<lambda>(t, ms, i). length ms - i)") auto

text \<open>The move to begin with when the moves before one that is active have been skipped.\<close>

fun pre_move :: "nat \<Rightarrow> real \<Rightarrow> move list \<Rightarrow> nat \<Rightarrow> nat option" where
  "pre_move 0 abs_start ms pm = None"
| "pre_move (Suc skip) abs_start ms pm =
     (if skip \<noteq> 0 \<and> print_time (ms ! pm) > abs_start
      then (if pm = 0 then None else pre_move skip abs_start ms (pm - 1))
      else Some pm)"

definition try_sk :: "int option sk_op \<Rightarrow> int option sk_op \<Rightarrow> int option sk_op" where
  "try_sk m k = bind_op m (\<lambda>r. if r \<noteq> Some 0 then ret r else k)"

fun gen_each :: "nat \<Rightarrow> move list \<Rightarrow> nat list \<Rightarrow> real \<Rightarrow> real \<Rightarrow> int option sk_op" where
  "gen_each n ms [] abs_start abs_end = ret (Some 0)"
| "gen_each n ms (i # js) abs_start abs_end =
     try_sk (itersolve_gen_steps_range n ms i abs_start abs_end) (gen_each n ms js abs_start abs_end)"

definition max_of :: "real \<Rightarrow> real \<Rightarrow> real" where
  "max_of a b = (if a < b then b else a)"

text \<open>The loop of \<open>itersolve_generate_steps\<close> from the move \<open>i\<close> on.\<close>

function gen_moves :: "nat \<Rightarrow> move list \<Rightarrow> real \<Rightarrow> real \<Rightarrow> nat \<Rightarrow> nat \<Rightarrow> real \<Rightarrow> int option sk_op" where
  "gen_moves n ms last_flush flush i skip force =
     (if i \<ge> length ms then undef_op
      else bind_op (get_op (\<lambda>sk. sk)) (\<lambda>sk.
        let m = ms ! i; move_start = print_time m; move_end = move_start + move_t m
        in if check_active sk m then
             try_sk
               (if skip \<noteq> 0 \<and> gen_steps_pre_active sk \<noteq> 0 then
                  (let abs_start = max_of (max_of (move_start - gen_steps_pre_active sk) last_flush) force
                   in if i = 0 then undef_op
                      else bind_op (option_op (pre_move skip abs_start ms (i - 1))) (\<lambda>pm.
                           gen_each n ms [pm..<i] abs_start flush))
                else ret (Some 0))
             (try_sk (itersolve_gen_steps_range n ms i last_flush flush)
               (if move_end \<ge> flush then then_op (set_op (\<lambda>sk. sk\<lparr>last_move_time := flush\<rparr>)) (ret (Some 0))
                else then_op (set_op (\<lambda>sk. sk\<lparr>last_move_time := move_end\<rparr>))
                       (gen_moves n ms last_flush flush (Suc i) 0 (move_end + gen_steps_post_active sk))))
           else
             bind_op
               (if move_start < force
                then bind_op (itersolve_gen_steps_range n ms i last_flush (if force > flush then flush else force))
                       (\<lambda>r. ret (r, Suc 0))
                else ret (Some 0, Suc skip)) (\<lambda>(r, skip').
             if r \<noteq> Some 0 then ret r
             else if flush + gen_steps_pre_active sk \<le> move_end then ret (Some 0)
             else gen_moves n ms last_flush flush (Suc i) skip' force)))"
  by auto
termination by (relation "measure (\<lambda>(n, ms, last_flush, flush, i, skip, force). length ms - i)") auto

declare first_move.simps [simp del] gen_moves.simps [simp del]

definition itersolve_generate_steps :: "nat \<Rightarrow> real \<Rightarrow> int option sk_op" where
  "itersolve_generate_steps n flush =
     bind_op (get_op last_flush_time) (\<lambda>last_flush.
     then_op (set_op (\<lambda>sk. sk\<lparr>last_flush_time := flush\<rparr>))
     (bind_op (get_op sk_tq) (\<lambda>q.
        case q of
          None \<Rightarrow> ret (Some 0)
        | Some tq \<Rightarrow>
            (let tq = trapq_check_sentinels tq
             in then_op (set_op (\<lambda>sk. sk\<lparr>sk_tq := Some tq\<rparr>))
                (bind_op (option_op (first_move last_flush (moves tq) 0)) (\<lambda>i.
                 bind_op (get_op (\<lambda>sk. last_move_time sk + gen_steps_post_active sk)) (\<lambda>force.
                   gen_moves n (moves tq) last_flush flush i 0 force)))))))"

function find_active :: "stepper_kinematics \<Rightarrow> move list \<Rightarrow> real \<Rightarrow> nat \<Rightarrow> real option" where
  "find_active sk ms flush i =
     (if i \<ge> length ms then None
      else if check_active sk (ms ! i) then Some (print_time (ms ! i))
      else if flush \<le> print_time (ms ! i) + move_t (ms ! i) then Some 0
      else find_active sk ms flush (Suc i))"
  by auto
termination by (relation "measure (\<lambda>(sk, ms, flush, i). length ms - i)") auto

declare find_active.simps [simp del]

definition itersolve_check_active :: "real \<Rightarrow> real sk_op" where
  "itersolve_check_active flush =
     bind_op (get_op sk_tq) (\<lambda>q.
       case q of
         None \<Rightarrow> ret 0
       | Some tq \<Rightarrow>
           (let tq = trapq_check_sentinels tq
            in then_op (set_op (\<lambda>sk. sk\<lparr>sk_tq := Some tq\<rparr>))
               (bind_op (get_op (\<lambda>sk. sk)) (\<lambda>sk.
                bind_op (option_op (first_move (last_flush_time sk) (moves tq) 0)) (\<lambda>i.
                  option_op (find_active sk (moves tq) flush i))))))"

definition itersolve_is_active_axis :: "stepper_kinematics \<Rightarrow> char \<Rightarrow> bool" where
  "itersolve_is_active_axis sk axis =
     (let a = of_char axis :: nat; x = of_char (CHR ''x''); z = of_char (CHR ''z'')
      in if a < x \<or> a > z then False else active_flags sk AND push_bit (a - x) AF_X \<noteq> 0)"

definition itersolve_set_trapq :: "trapq option \<Rightarrow> unit sk_op" where
  "itersolve_set_trapq tq = set_op (\<lambda>sk. sk\<lparr>sk_tq := tq\<rparr>)"

definition itersolve_set_stepcompress :: "stepcompress \<Rightarrow> real \<Rightarrow> unit sk_op" where
  "itersolve_set_stepcompress sc sdist = set_op (\<lambda>sk. sk\<lparr>sk_sc := sc, step_dist := sdist\<rparr>)"

definition itersolve_calc_position_from_coord :: "stepper_kinematics \<Rightarrow> coord \<Rightarrow> real" where
  "itersolve_calc_position_from_coord sk c =
     calc_position_cb sk (commanded_pos sk) [zero_move\<lparr>start_pos := c, move_t := 1000\<rparr>] 0 500"

definition itersolve_set_position :: "coord \<Rightarrow> unit sk_op" where
  "itersolve_set_position c = set_op (\<lambda>sk. sk\<lparr>commanded_pos := itersolve_calc_position_from_coord sk c\<rparr>)"

definition itersolve_get_commanded_pos :: "stepper_kinematics \<Rightarrow> real" where
  "itersolve_get_commanded_pos sk = commanded_pos sk"

end
