(* ===== verification/Itersolve_Search.thy ===== *)
theory Itersolve_Search
  imports Itersolve
begin

text \<open>
  The iterative solver is right: the steps it finds follow a motion of bounded speed, and every one of its searches ends. The search
  is proved in the locale \<open>motion\<close>, over any position function with a Lipschitz bound.
\<close>

subsection \<open>Accuracy of the steps\<close>

text \<open>
  The position of a move as a function of the time, as the solver needs it: it does not change faster than \<open>L\<close>,
  and a step is large against the way covered in the nanosecond the solver works with.
\<close>

locale motion =
  fixes pos :: "real \<Rightarrow> real" and start_time end_time L half :: real
  assumes interval: "start_time \<le> end_time"
    and lipschitz: "\<And>s t. start_time \<le> s \<Longrightarrow> s \<le> end_time \<Longrightarrow> start_time \<le> t \<Longrightarrow> t \<le> end_time \<Longrightarrow> \<bar>pos s - pos t\<bar> \<le> L * \<bar>s - t\<bar>"
    and speed: "0 < L"
    and step_large: "1 / 100000000 + SEEK_EPS + 2 * L * SEEK_EPS < 2 * half"

text \<open>The tolerance for the position of a stepper, and the sign of a direction.\<close>

definition seek_tol :: "real \<Rightarrow> real" where
  "seek_tol L = 1 / 100000000 + L * SEEK_EPS"

definition dir_sign :: "bool \<Rightarrow> real" where
  "dir_sign d = (if d then 1 else - 1)"

lemma dir_sign_mult [simp]: "dir_sign d * (dir_sign d * x) = x" "dir_sign (\<not> d) = - dir_sign d"
  by (simp_all add: dir_sign_def)

lemma dir_sign_abs: "\<bar>dir_sign d * x\<bar> = \<bar>x\<bar>"
  by (simp add: dir_sign_def)

text \<open>
  How far a position is beyond the target that half a step in the direction \<open>d\<close> from the commanded position \<open>c\<close> makes.
\<close>

definition beyond :: "real \<Rightarrow> real \<Rightarrow> bool \<Rightarrow> real \<Rightarrow> real" where
  "beyond half c d x = dir_sign d * (x - c) - half"

context motion begin

definition timely :: "real \<Rightarrow> bool" where
  "timely t \<longleftrightarrow> start_time \<le> t \<and> t \<le> end_time"

text \<open>
  The invariant of a search with the commanded position \<open>c\<close>.
\<close>

definition seek_ok :: "real \<Rightarrow> seek \<Rightarrow> bool" where
  "seek_ok c k \<longleftrightarrow> target k = c + dir_sign (seek_dir k) * half \<and>
     start_time \<le> last_time k \<and> last_time k \<le> low_time k \<and> low_time k \<le> high_time k \<and> high_time k \<le> end_time \<and>
     \<bar>pos (last_time k) - c\<bar> \<le> half + seek_tol L \<and>
     beyond half c (seek_dir k) (pos (low_time k)) \<le> seek_tol L \<and>
     (have_bracket k \<longrightarrow> low_time k < high_time k \<and> 0 < beyond half c (seek_dir k) (pos (high_time k))) \<and>
     (\<not> have_bracket k \<longrightarrow> tp_time (guess k) = low_time k \<and> \<bar>pos (low_time k) - c\<bar> \<le> half + seek_tol L \<and>
        (low_time k = end_time \<or> low_time k < high_time k)) \<and>
     timely (tp_time (guess k))"

lemma tol_pos: "0 < seek_tol L" "0 < half" "L * SEEK_EPS \<le> seek_tol L" "SEEK_EPS \<le> seek_tol L" "L * SEEK_EPS < 2 * half"
proof -
  have "0 < L * SEEK_EPS" using speed by simp
  then show "0 < seek_tol L" "0 < half" "L * SEEK_EPS \<le> seek_tol L" "SEEK_EPS \<le> seek_tol L" "L * SEEK_EPS < 2 * half"
    using step_large unfolding seek_tol_def by linarith+
qed

lemma seek_okD:
  assumes "seek_ok c k"
  shows "timely (last_time k)" "timely (low_time k)" "timely (high_time k)" "timely (tp_time (guess k))"
  using assms by (auto simp: seek_ok_def timely_def)

lemma beyond_target: "dir_sign d * (x - (c + dir_sign d * half)) = beyond half c d x"
  by (simp add: beyond_def dir_sign_def)

lemma beyond_lipschitz:
  assumes "timely s" "timely t"
  shows "\<bar>beyond half c d (pos s) - beyond half c d (pos t)\<bar> \<le> L * \<bar>s - t\<bar>"
  using lipschitz [of s t] assms by (simp add: timely_def beyond_def dir_sign_def abs_minus_commute split: if_splits)

text \<open>A part of a motion is one.\<close>

lemma motion_part:
  assumes "start_time \<le> s" "s \<le> e" "e \<le> end_time"
  shows "motion pos s e L half"
  using assms lipschitz speed step_large by unfold_locales auto

lemma motion_faster:
  assumes "L \<le> L'" "1 / 100000000 + SEEK_EPS + 2 * L' * SEEK_EPS < 2 * half"
  shows "motion pos start_time end_time L' half"
proof
  fix s t assume st: "start_time \<le> s" "s \<le> end_time" "start_time \<le> t" "t \<le> end_time"
  have "L * \<bar>s - t\<bar> \<le> L' * \<bar>s - t\<bar>" using assms(1) by (rule mult_right_mono) simp
  with lipschitz [OF st] show "\<bar>pos s - pos t\<bar> \<le> L' * \<bar>s - t\<bar>" by (rule order_trans)
qed (use assms interval speed in auto)

text \<open>The guess of a round.\<close>

definition same_search :: "seek \<Rightarrow> seek \<Rightarrow> bool" where
  "same_search k k' \<longleftrightarrow> guess k' = guess k \<and> old_guess k' = old_guess k \<and> seek_dir k' = seek_dir k \<and> target k' = target k \<and>
     last_time k' = last_time k \<and> low_time k' = low_time k \<and> have_bracket k' = have_bracket k \<and>
     is_dir_change k' = is_dir_change k"

lemma next_guess_cases:
  assumes "next_guess end_time k = Some (t, k')"
  obtains (secant) "secant_ok k" "t = secant_time k" "k' = k"
    | (bisect) "\<not> secant_ok k" "have_bracket k" "t = (low_time k + high_time k) * (1 / 2)" "k' = k\<lparr>check_oscillate := False\<rparr>"
    | (expand) "\<not> secant_ok k" "\<not> have_bracket k" "tp_time (guess k) < end_time" "t = high_time k"
        "k' = k\<lparr>high_time := (if 2 * high_time k - last_time k > end_time then end_time else 2 * high_time k - last_time k)\<rparr>"
proof (cases "secant_ok k")
  case True
  with assms have "t = secant_time k" "k' = k" by (auto simp: next_guess_def)
  with True show thesis by (rule secant)
next
  case no: False
  show thesis
  proof (cases "have_bracket k")
    case True
    with no assms have "t = (low_time k + high_time k) * (1 / 2)" "k' = k\<lparr>check_oscillate := False\<rparr>"
      by (auto simp: next_guess_def)
    with no True show thesis by (rule bisect)
  next
    case False
    have g: "\<not> tp_time (guess k) \<ge> end_time" using no False assms by (auto simp: next_guess_def)
    with no False assms have "t = high_time k"
      "k' = k\<lparr>high_time := (if 2 * high_time k - last_time k > end_time then end_time else 2 * high_time k - last_time k)\<rparr>"
      by (auto simp: next_guess_def Let_def)
    with no False g show thesis by (intro expand) simp_all
  qed
qed

lemma next_guess_ok:
  assumes "seek_ok c k" "next_guess end_time k = Some (t, k')"
  shows "same_search k k'" "low_time k < t" "t \<le> high_time k" "timely t" "have_bracket k \<Longrightarrow> t < high_time k"
    "high_time k \<le> high_time k'" "high_time k' \<le> end_time" "have_bracket k \<Longrightarrow> high_time k' = high_time k"
    "\<not> have_bracket k \<Longrightarrow> t = end_time \<or> t < high_time k'"
proof -
  have b: "low_time k \<le> high_time k" "have_bracket k \<Longrightarrow> low_time k < high_time k" "high_time k \<le> end_time"
    "start_time \<le> low_time k" "last_time k \<le> low_time k"
    "\<not> have_bracket k \<Longrightarrow> tp_time (guess k) = low_time k \<and> (low_time k = end_time \<or> low_time k < high_time k)"
    using assms(1) by (auto simp: seek_ok_def)
  from assms(2) have "same_search k k' \<and> low_time k < t \<and> t \<le> high_time k \<and> (have_bracket k \<longrightarrow> t < high_time k) \<and>
    high_time k \<le> high_time k' \<and> high_time k' \<le> end_time \<and> (have_bracket k \<longrightarrow> high_time k' = high_time k) \<and>
    (\<not> have_bracket k \<longrightarrow> t = end_time \<or> t < high_time k')"
  proof (cases rule: next_guess_cases)
    case secant
    then show ?thesis using b by (auto simp: secant_ok_def same_search_def)
  next
    case bisect
    have "low_time k < t" "t < high_time k" using b(2) [OF bisect(2)] unfolding bisect(3) by simp_all
    then show ?thesis using b bisect by (simp add: same_search_def)
  next
    case expand
    then show ?thesis using b by (auto simp: same_search_def)
  qed
  then show "same_search k k'" "low_time k < t" "t \<le> high_time k" "timely t" "have_bracket k \<Longrightarrow> t < high_time k"
    "high_time k \<le> high_time k'" "high_time k' \<le> end_time" "have_bracket k \<Longrightarrow> high_time k' = high_time k"
    "\<not> have_bracket k \<Longrightarrow> t = end_time \<or> t < high_time k'"
    using b by (simp_all add: timely_def)
qed

text \<open>The bounds after a guess at the time \<open>t\<close>.\<close>

definition sampled :: "real \<Rightarrow> seek \<Rightarrow> seek" where
  "sampled t k = k\<lparr>old_guess := guess k, guess := \<lparr>tp_time = t, tp_position = pos t\<rparr>\<rparr>"

lemma sampled_simps [simp]:
  "guess (sampled t k) = \<lparr>tp_time = t, tp_position = pos t\<rparr>" "old_guess (sampled t k) = guess k"
  "seek_dir (sampled t k) = seek_dir k" "target (sampled t k) = target k" "last_time (sampled t k) = last_time k"
  "low_time (sampled t k) = low_time k" "high_time (sampled t k) = high_time k" "have_bracket (sampled t k) = have_bracket k"
  "is_dir_change (sampled t k) = is_dir_change k" "check_oscillate (sampled t k) = check_oscillate k"
  by (simp_all add: sampled_def)

lemma seek_past_simps [simp]:
  "guess (seek_past k) = guess k" "seek_dir (seek_past k) = seek_dir k" "target (seek_past k) = target k"
  "last_time (seek_past k) = last_time k" "low_time (seek_past k) = low_time k"
  "high_time (seek_past k) = tp_time (guess k)" "have_bracket (seek_past k)" "is_dir_change (seek_past k) = is_dir_change k"
  by (simp_all add: seek_past_def Let_def)

lemma seek_turn_simps [simp]:
  "guess (seek_turn h k) = guess k" "seek_dir (seek_turn h k) = (\<not> seek_dir k)" "old_guess (seek_turn h k) = old_guess k"
  "target (seek_turn h k) = target k - dir_sign (seek_dir k) * (h + h)"
  "last_time (seek_turn h k) = last_time k" "low_time (seek_turn h k) = last_time k"
  "high_time (seek_turn h k) = tp_time (guess k)" "have_bracket (seek_turn h k)" "is_dir_change (seek_turn h k)"
  "check_oscillate (seek_turn h k) = False"
  by (simp_all add: seek_turn_def Let_def dir_sign_def)

lemma beyond_turn: "beyond half c (\<not> d) x = - beyond half c d x - 2 * half"
  by (simp add: beyond_def)

lemma beyond_commanded: "\<bar>x - c\<bar> \<le> half + b \<longleftrightarrow> - 2 * half - b \<le> beyond half c d x \<and> beyond half c d x \<le> b"
  by (auto simp: beyond_def dir_sign_def)

text \<open>A round that does not end the search.\<close>

lemma seek_bounds_ok:
  assumes "seek_ok c k" "next_guess end_time k = Some (t, k1)" "rel = beyond half c (seek_dir k) (pos t)" "SEEK_EPS < \<bar>rel\<bar>"
  shows "seek_ok c (seek_bounds half rel (sampled t k1))"
    "have_bracket (seek_bounds half rel (sampled t k1)) \<Longrightarrow>
       tp_time (guess (seek_bounds half rel (sampled t k1))) = low_time (seek_bounds half rel (sampled t k1)) \<or>
       tp_time (guess (seek_bounds half rel (sampled t k1))) = high_time (seek_bounds half rel (sampled t k1))"
proof -
  note g = next_guess_ok [OF assms(1,2)]
  have f: "seek_dir k1 = seek_dir k" "target k1 = target k" "last_time k1 = last_time k" "low_time k1 = low_time k"
    "have_bracket k1 = have_bracket k" "guess k1 = guess k"
    using g(1) by (auto simp: same_search_def)
  have k: "target k = c + dir_sign (seek_dir k) * half" "start_time \<le> last_time k" "last_time k \<le> low_time k"
    "\<bar>pos (last_time k) - c\<bar> \<le> half + seek_tol L" "beyond half c (seek_dir k) (pos (low_time k)) \<le> seek_tol L"
    "have_bracket k \<Longrightarrow> 0 < beyond half c (seek_dir k) (pos (high_time k))"
    using assms(1) by (auto simp: seek_ok_def)
  have tol: "1 / 100000000 \<le> seek_tol L" using speed by (simp add: seek_tol_def)
  note lasts = k(4) [unfolded beyond_commanded [of _ c "seek_tol L" "seek_dir k"]]
  consider (past) "0 < rel" | (turn) "rel < - (half + half + 1 / 100000000)"
    | (before) "\<not> 0 < rel" "\<not> rel < - (half + half + 1 / 100000000)" by blast
  then have "seek_ok c (seek_bounds half rel (sampled t k1)) \<and>
    (have_bracket (seek_bounds half rel (sampled t k1)) \<longrightarrow>
       tp_time (guess (seek_bounds half rel (sampled t k1))) = low_time (seek_bounds half rel (sampled t k1)) \<or>
       tp_time (guess (seek_bounds half rel (sampled t k1))) = high_time (seek_bounds half rel (sampled t k1)))"
  proof cases
    case past
    with assms(3) g(2,4) k f show ?thesis by (simp add: seek_bounds_def seek_ok_def timely_def)
  next
    case turn
    have "0 < beyond half c (\<not> seek_dir k) (pos t)" using turn assms(3) unfolding beyond_turn by simp
    moreover have "beyond half c (\<not> seek_dir k) (pos (last_time k)) \<le> seek_tol L" using lasts unfolding beyond_turn by simp
    moreover have "target k - dir_sign (seek_dir k) * (half + half) = c + dir_sign (\<not> seek_dir k) * half"
      using k(1) by (simp add: algebra_simps)
    moreover have "last_time k < t" "\<not> 0 < rel" using k(3) g(2) turn tol_pos(2) by linarith+
    ultimately show ?thesis using turn g(4) k(2,4) f by (simp add: seek_bounds_def seek_ok_def timely_def)
  next
    case before
    have "\<bar>pos t - c\<bar> \<le> half + seek_tol L" "rel \<le> seek_tol L"
      using before assms(3) tol tol_pos(1) by (simp_all add: beyond_commanded [of _ c _ "seek_dir k"])
    moreover have "t \<le> high_time k1" using g(3,6) by linarith
    moreover have "have_bracket k \<Longrightarrow> t < high_time k1 \<and> 0 < beyond half c (seek_dir k) (pos (high_time k1))" using g(5,8) k(6) by simp
    ultimately show ?thesis
      using before assms(3) g(2,4,7,9) k(1-4) f by (simp add: seek_bounds_def seek_ok_def timely_def)
  qed
  then show "seek_ok c (seek_bounds half rel (sampled t k1))"
    "have_bracket (seek_bounds half rel (sampled t k1)) \<Longrightarrow>
       tp_time (guess (seek_bounds half rel (sampled t k1))) = low_time (seek_bounds half rel (sampled t k1)) \<or>
       tp_time (guess (seek_bounds half rel (sampled t k1))) = high_time (seek_bounds half rel (sampled t k1))"
    by auto
qed

end

text \<open>
  A run of the loop: the steps that it has handed over, each with its direction and its time, and the local
  variables it has come to.
\<close>
inductive seek_run :: "real \<Rightarrow> real \<Rightarrow> (real \<Rightarrow> real) \<Rightarrow> seek \<Rightarrow> (bool \<times> real) list \<Rightarrow> seek \<Rightarrow> bool" for half fin pos k0 where
  run_start: "seek_run half fin pos k0 [] k0"
| run_again: "seek_run half fin pos k0 tr k \<Longrightarrow> seek_round half fin pos k = Seek_again b k' \<Longrightarrow> seek_run half fin pos k0 tr k'"
| run_step: "seek_run half fin pos k0 tr k \<Longrightarrow> seek_round half fin pos k = Seek_step k' \<Longrightarrow>
    seek_run half fin pos k0 (tr @ [(seek_dir k', tp_time (guess k'))]) (seek_next half fin k')"

text \<open>The commanded position after the steps \<open>tr\<close>.\<close>

definition stepped :: "real \<Rightarrow> real \<Rightarrow> (bool \<times> real) list \<Rightarrow> real" where
  "stepped half c tr = c + 2 * half * sum_list (map (\<lambda>p. dir_sign (fst p)) tr)"

lemma stepped_simps [simp]: "stepped half c [] = c"
  "stepped half c (tr @ [(d, t)]) = stepped half c tr + dir_sign d * (2 * half)"
  by (simp_all add: stepped_def algebra_simps)

text \<open>Every step is taken where the position is half a step beyond the commanded one, up to \<open>tol\<close>.\<close>

definition steps_at :: "real \<Rightarrow> (real \<Rightarrow> real) \<Rightarrow> real \<Rightarrow> real \<Rightarrow> (bool \<times> real) list \<Rightarrow> bool" where
  "steps_at half pos tol c tr \<longleftrightarrow>
     (\<forall>i < length tr. \<bar>pos (snd (tr ! i)) - (stepped half c (take i tr) + dir_sign (fst (tr ! i)) * half)\<bar> \<le> tol)"

lemma steps_at_snoc:
  "steps_at half pos tol c (tr @ [(d, t)]) \<longleftrightarrow>
     steps_at half pos tol c tr \<and> \<bar>pos t - (stepped half c tr + dir_sign d * half)\<bar> \<le> tol"
  by (auto simp: steps_at_def nth_append less_Suc_eq)

context motion begin

lemma next_guess_None:
  "next_guess end_time k = None \<longleftrightarrow> \<not> secant_ok k \<and> \<not> have_bracket k \<and> end_time \<le> tp_time (guess k)"
  by (cases "secant_ok k"; cases "have_bracket k") (simp_all add: next_guess_def Let_def)

lemma seek_delta_ge: "SEEK_EPS \<le> seek_delta k"
  by (simp add: seek_delta_def Let_def)

lemma seek_rel:
  assumes "seek_ok c k" "next_guess end_time k = Some (t, k1)"
  shows "(if seek_dir k1 then pos t - target k1 else - (pos t - target k1)) = beyond half c (seek_dir k) (pos t)"
    "\<bar>pos t - target k1\<bar> = \<bar>beyond half c (seek_dir k) (pos t)\<bar>"
  using next_guess_ok(1) [OF assms] assms(1) by (auto simp: same_search_def seek_ok_def beyond_def dir_sign_def)

lemma seek_bounds_last: "last_time (seek_bounds h r k) = last_time k" "tp_time (guess (seek_bounds h r k)) = tp_time (guess k)"
  by (simp_all add: seek_bounds_def)

lemma seek_round_eq:
  assumes "next_guess end_time k = Some (t, k1)"
  shows "seek_round half end_time pos k =
    (if \<bar>pos t - target k1\<bar> > SEEK_EPS then
       (let rel = (if seek_dir k1 then pos t - target k1 else - (pos t - target k1)); k' = seek_bounds half rel (sampled t k1)
        in if \<not> have_bracket k' \<or> high_time k' - low_time k' > SEEK_EPS
           then Seek_again (\<not> is_dir_change k' \<and> rel \<ge> - half) k' else Seek_step k')
     else Seek_step (sampled t k1))"
  by (simp only: seek_round_def assms option.case prod.case Let_def sampled_def [symmetric] sampled_simps)

lemma seek_round_cases:
  assumes "seek_ok c k"
  obtains (finished) "seek_round half end_time pos k = Seek_end" "\<bar>pos end_time - c\<bar> \<le> half + seek_tol L"
  | (again) b t k1 rel where "seek_round half end_time pos k = Seek_again b (seek_bounds half rel (sampled t k1))"
      "next_guess end_time k = Some (t, k1)" "rel = beyond half c (seek_dir k) (pos t)" "SEEK_EPS < \<bar>rel\<bar>"
      "seek_ok c (seek_bounds half rel (sampled t k1))"
      "have_bracket (seek_bounds half rel (sampled t k1)) \<longrightarrow>
         SEEK_EPS < high_time (seek_bounds half rel (sampled t k1)) - low_time (seek_bounds half rel (sampled t k1)) \<and>
         (t = low_time (seek_bounds half rel (sampled t k1)) \<or> t = high_time (seek_bounds half rel (sampled t k1)))"
  | (step) k' where "seek_round half end_time pos k = Seek_step k'" "target k' = c + dir_sign (seek_dir k') * half"
      "last_time k \<le> tp_time (guess k')" "last_time k' = last_time k" "timely (tp_time (guess k'))"
      "tp_position (guess k') = pos (tp_time (guess k'))"
      "- seek_tol L \<le> beyond half c (seek_dir k') (pos (tp_time (guess k')))"
      "beyond half c (seek_dir k') (pos (tp_time (guess k'))) \<le> seek_tol L + L * SEEK_EPS"
proof (cases "next_guess end_time k")
  case None
  then have n: "\<not> have_bracket k" "tp_time (guess k) \<ge> end_time" by (simp_all add: next_guess_None)
  have "tp_time (guess k) = end_time" using n(2) seek_okD(4) [OF assms] by (simp add: timely_def)
  moreover have "tp_time (guess k) = low_time k \<and> \<bar>pos (low_time k) - c\<bar> \<le> half + seek_tol L"
    using assms n(1) by (simp only: seek_ok_def simp_thms)
  ultimately have "\<bar>pos end_time - c\<bar> \<le> half + seek_tol L" by simp
  then show thesis using None by (intro finished) (simp add: seek_round_def)
next
  case (Some p)
  obtain t k1 where p: "next_guess end_time k = Some (t, k1)" using Some by (cases p) simp
  note g = next_guess_ok [OF assms p]
  have f: "seek_dir k1 = seek_dir k" "target k1 = target k" "last_time k1 = last_time k"
    using g(1) by (auto simp: same_search_def)
  have last: "last_time k \<le> t" using g(2) assms by (simp add: seek_ok_def)
  define rel where "rel = beyond half c (seek_dir k) (pos t)"
  define k' where "k' = seek_bounds half rel (sampled t k1)"
  have eq: "seek_round half end_time pos k =
    (if \<bar>rel\<bar> > SEEK_EPS then
       if \<not> have_bracket k' \<or> high_time k' - low_time k' > SEEK_EPS
       then Seek_again (\<not> is_dir_change k' \<and> rel \<ge> - half) k' else Seek_step k'
     else Seek_step (sampled t k1))"
    unfolding seek_round_eq [OF p] seek_rel [OF assms p] k'_def rel_def by (simp add: Let_def)
  show thesis
  proof (cases "\<bar>rel\<bar> > SEEK_EPS")
    case True
    have ok: "seek_ok c k'" and at_end: "have_bracket k' \<Longrightarrow> t = low_time k' \<or> t = high_time k'"
      using seek_bounds_ok [OF assms p rel_def True] by (auto simp: k'_def seek_bounds_last)
    show thesis
    proof (cases "\<not> have_bracket k' \<or> high_time k' - low_time k' > SEEK_EPS")
      case cont: True
      show thesis by (rule again [OF _ p rel_def True]) (use eq True cont ok at_end in \<open>auto simp: k'_def\<close>)
    next
      case stop: False
      have t: "tp_time (guess k') = t" "tp_position (guess k') = pos t" "last_time k' = last_time k"
        using f by (simp_all add: k'_def seek_bounds_def)
      have w: "\<bar>beyond half c (seek_dir k') (pos (low_time k')) - beyond half c (seek_dir k') (pos (high_time k'))\<bar> \<le> L * SEEK_EPS"
      proof -
        have "low_time k' < high_time k'" using ok stop by (simp add: seek_ok_def)
        then have "L * \<bar>low_time k' - high_time k'\<bar> \<le> L * SEEK_EPS" using stop speed by (intro mult_left_mono) auto
        then show ?thesis using beyond_lipschitz seek_okD(2,3) [OF ok] by (meson order_trans)
      qed
      have b: "beyond half c (seek_dir k') (pos (low_time k')) \<le> seek_tol L" "0 < beyond half c (seek_dir k') (pos (high_time k'))"
        using ok stop by (auto simp: seek_ok_def)
      have "- seek_tol L \<le> beyond half c (seek_dir k') (pos t) \<and> beyond half c (seek_dir k') (pos t) \<le> seek_tol L + L * SEEK_EPS"
      proof (cases "t = low_time k'")
        case True
        show ?thesis unfolding True using w b tol_pos by (intro conjI) linarith+
      next
        case False
        then have h: "t = high_time k'" using at_end stop by blast
        show ?thesis unfolding h using w b tol_pos by (intro conjI) linarith+
      qed
      then show thesis
        using eq True stop ok last t seek_okD(4) [OF ok] by (intro step [of k']) (auto simp: seek_ok_def)
    qed
  next
    case False
    then have "- seek_tol L \<le> rel" "rel \<le> seek_tol L + L * SEEK_EPS" using tol_pos speed by linarith+
    then show thesis
      using eq False last f assms g(4) by (intro step [of "sampled t k1"]) (auto simp: seek_ok_def rel_def)
  qed
qed

lemma seek_next_ok:
  assumes "target k = c + dir_sign (seek_dir k) * half" "timely (tp_time (guess k))"
    "- seek_tol L \<le> beyond half c (seek_dir k) (pos (tp_time (guess k)))"
    "beyond half c (seek_dir k) (pos (tp_time (guess k))) \<le> seek_tol L + L * SEEK_EPS"
  shows "seek_ok (c + dir_sign (seek_dir k) * (2 * half)) (seek_next half end_time k)"
    "last_time (seek_next half end_time k) = tp_time (guess k)"
proof -
  let ?k = "seek_next half end_time k" and ?c = "c + dir_sign (seek_dir k) * (2 * half)" and ?t = "tp_time (guess k)"
  let ?d = "seek_delta k"
  have d: "0 < ?d" using seek_delta_ge [of k] by simp
  have h: "high_time ?k = (if ?t + ?d > end_time then end_time else ?t + ?d)"
    by (simp add: seek_next_def Let_def)
  have s: "seek_dir ?k = seek_dir k" "last_time ?k = ?t" "low_time ?k = ?t" "\<not> have_bracket ?k" "guess ?k = guess k"
    "target ?k = target k + dir_sign (seek_dir k) * (half + half)"
    by (simp_all add: seek_next_def Let_def dir_sign_def)
  have b: "beyond half ?c (seek_dir k) (pos ?t) = beyond half c (seek_dir k) (pos ?t) - 2 * half"
    by (simp add: beyond_def algebra_simps)
  have "\<bar>pos ?t - ?c\<bar> \<le> half + seek_tol L"
    unfolding beyond_commanded [of _ ?c _ "seek_dir k"] b using assms(3,4) tol_pos by linarith
  moreover have "beyond half ?c (seek_dir k) (pos ?t) \<le> seek_tol L" unfolding b using assms(4) tol_pos by linarith
  moreover have "target ?k = ?c + dir_sign (seek_dir k) * half" using assms(1) s(6) by (simp add: algebra_simps)
  ultimately show "seek_ok ?c ?k" using assms(2) d h s by (auto simp: seek_ok_def timely_def)
  show "last_time ?k = ?t" by (rule s)
qed

lemma seek_start_ok:
  assumes "\<bar>pos start_time - c\<bar> \<le> half + seek_tol L"
  shows "seek_ok c (seek_start half start_time end_time c d)" "last_time (seek_start half start_time end_time c d) = start_time"
proof -
  show "last_time (seek_start half start_time end_time c d) = start_time" by (simp add: seek_start_def Let_def)
  have "beyond half c d (pos start_time) \<le> seek_tol L" using assms beyond_commanded by blast
  then show "seek_ok c (seek_start half start_time end_time c d)"
    using assms interval by (auto simp: seek_ok_def seek_start_def Let_def timely_def dir_sign_def)
qed

lemma seek_run_ok:
  assumes "seek_run half end_time pos k0 tr k" "seek_ok c k0" "last_time k0 = start_time"
  shows "seek_ok (stepped half c tr) k \<and> sorted (map snd tr @ [last_time k]) \<and> (\<forall>p\<in>set tr. timely (snd p)) \<and>
    steps_at half pos (seek_tol L + L * SEEK_EPS) c tr"
  using assms
proof (induction rule: seek_run.induct)
  case run_start
  then show ?case by (simp add: steps_at_def)
next
  case (run_again tr k b k')
  then have ok: "seek_ok (stepped half c tr) k" by simp
  from ok show ?case
  proof (cases rule: seek_round_cases)
    case (again b t k1 rel)
    then have "last_time k' = last_time k"
      using run_again(2) next_guess_ok(1) [OF ok again(2)] by (auto simp: seek_bounds_def same_search_def)
    with again run_again show ?thesis by simp
  qed (use run_again in auto)
next
  case (run_step tr k k')
  then have ok: "seek_ok (stepped half c tr) k" by simp
  from ok show ?case
  proof (cases rule: seek_round_cases)
    case (step k2)
    then have k2: "k2 = k'" using run_step(2) by simp
    note s = step(2-) [unfolded k2]
    note n = seek_next_ok [OF s(1,4,6,7)]
    have "\<bar>pos (tp_time (guess k')) - (stepped half c tr + dir_sign (seek_dir k') * half)\<bar> \<le> seek_tol L + L * SEEK_EPS"
      using s(6,7) speed unfolding beyond_target [symmetric] by (auto simp: dir_sign_def)
    with n s run_step show ?thesis by (auto simp: steps_at_snoc sorted_append intro: order_trans)
  qed (use run_step in auto)
qed

end

subsection \<open>Every search ends\<close>

lemma nat_floor_less: "0 \<le> x \<Longrightarrow> x + 1 \<le> y \<Longrightarrow> nat \<lfloor>x\<rfloor> < nat \<lfloor>y\<rfloor>" for x y :: real
proof -
  assume a: "0 \<le> x" "x + 1 \<le> y"
  have "of_int \<lfloor>x\<rfloor> + 1 \<le> y" using of_int_floor_le [of x] a(2) by linarith
  then have "of_int (\<lfloor>x\<rfloor> + 1) \<le> y" by simp
  then have "\<lfloor>x\<rfloor> + 1 \<le> \<lfloor>y\<rfloor>" by (simp only: le_floor_iff)
  moreover have "0 \<le> \<lfloor>x\<rfloor>" using a(1) by simp
  ultimately show ?thesis by (subst nat_less_eq_zless) linarith+
qed

lemma divide_drop: "0 < d \<Longrightarrow> x' \<le> x - d \<Longrightarrow> x' / d \<le> x / d - 1" for d x x' :: real
proof -
  assume a: "0 < d" "x' \<le> x - d"
  then have "x' / d \<le> (x - d) / d" by (intro divide_right_mono) simp_all
  then show ?thesis using a(1) by (simp add: diff_divide_distrib)
qed

lemma nat_floor_mono: "x \<le> y \<Longrightarrow> nat \<lfloor>x\<rfloor> \<le> nat \<lfloor>y\<rfloor>" for x y :: real
  by (intro nat_mono floor_mono)

text \<open>The rounds of one search, at most \<open>n\<close>, up to its end or the next step.\<close>

fun seek_search :: "nat \<Rightarrow> real \<Rightarrow> real \<Rightarrow> (real \<Rightarrow> real) \<Rightarrow> seek \<Rightarrow> seek_result option" where
  "seek_search 0 half_step end pos k = None"
| "seek_search (Suc n) half_step end pos k =
     (case seek_round half_step end pos k of
        Seek_again b k' \<Rightarrow> seek_search n half_step end pos k'
      | r \<Rightarrow> Some r)"

text \<open>
  How close to a forced bisection the bracket is: the code forces one when guesses beyond the target come twice
  after guesses before it, without a bisection between.
\<close>

definition seek_rank :: "seek \<Rightarrow> real" where
  "seek_rank k =
     (if old_guess k = guess k then 0
      else if tp_time (guess k) = low_time k then if check_oscillate k then 1 else 3
      else if check_oscillate k then 2 else 4)"

lemma seek_rank_bounds: "0 \<le> seek_rank k" "seek_rank k \<le> 4"
  by (simp_all add: seek_rank_def)

context motion begin

definition true_sample :: "timepos \<Rightarrow> bool" where
  "true_sample p \<longleftrightarrow> tp_position p = pos (tp_time p) \<and> timely (tp_time p)"

definition good_guess :: "seek \<Rightarrow> bool" where
  "good_guess k \<longleftrightarrow> true_sample (guess k) \<and> SEEK_EPS < \<bar>tp_position (guess k) - target k\<bar>"

text \<open>Only the first two rounds of a range work with the commanded position instead of a sample.\<close>

definition bad_guesses :: "seek \<Rightarrow> nat" where
  "bad_guesses k = (if good_guess k then if true_sample (old_guess k) then 0 else 1 else 2)"

definition seek_live :: "seek \<Rightarrow> bool" where
  "seek_live k \<longleftrightarrow>
     (have_bracket k \<longrightarrow> SEEK_EPS < high_time k - low_time k \<and> (tp_time (guess k) = low_time k \<or> tp_time (guess k) = high_time k)) \<and>
     (\<not> have_bracket k \<longrightarrow> SEEK_EPS \<le> high_time k - last_time k \<or> high_time k = end_time)"

text \<open>The least distance between two guesses of the secant method, and the least narrowing of a bracket.\<close>

definition far :: real where "far = SEEK_EPS / L"

definition narrow :: real where "narrow = min far (SEEK_EPS / 2)"

lemma far_pos: "0 < far" "0 < narrow" "narrow \<le> far" "narrow \<le> SEEK_EPS / 2"
  using speed by (auto simp: far_def narrow_def)

definition seek_turns :: "seek \<Rightarrow> nat" where
  "seek_turns k = (if have_bracket k then nat \<lfloor>(high_time k - last_time k) * L / (2 * half)\<rfloor> else 0)"

definition seek_work :: "seek \<Rightarrow> real" where
  "seek_work k =
     (if have_bracket k then 5 * ((high_time k - low_time k) / narrow) + seek_rank k
      else (end_time - low_time k) / far + (end_time - high_time k) / SEEK_EPS +
        (of_bool (high_time k < end_time) + of_bool (low_time k < end_time)))"

definition seek_measure :: "(seek \<times> seek) set" where
  "seek_measure = measures [bad_guesses, \<lambda>k. of_bool (\<not> have_bracket k), seek_turns, \<lambda>k. nat \<lfloor>seek_work k\<rfloor>]"

lemma secant_far:
  assumes "good_guess k" "true_sample (old_guess k)" "secant_ok k"
  shows "far \<le> \<bar>secant_time k - tp_time (guess k)\<bar>"
proof -
  let ?g = "tp_position (guess k)" and ?o = "tp_position (old_guess k)" and ?gt = "tp_time (guess k)" and ?ot = "tp_time (old_guess k)"
  have ne: "?g - ?o \<noteq> 0" using assms(3) by (simp add: secant_ok_def)
  have le: "\<bar>?g - ?o\<bar> \<le> L * \<bar>?ot - ?gt\<bar>"
    using assms(1,2) lipschitz [of ?gt ?ot] by (simp add: good_guess_def true_sample_def timely_def abs_minus_commute)
  have "secant_time k - ?gt = (?g - target k) * (?ot - ?gt) / (?g - ?o)"
    using ne by (simp add: secant_time_def Let_def field_simps)
  then have eq: "\<bar>secant_time k - ?gt\<bar> = \<bar>?g - target k\<bar> * \<bar>?ot - ?gt\<bar> / \<bar>?g - ?o\<bar>"
    by (simp add: abs_mult)
  have "far * \<bar>?g - ?o\<bar> \<le> far * (L * \<bar>?ot - ?gt\<bar>)" using le far_pos(1) by (intro mult_left_mono) auto
  also have "\<dots> = SEEK_EPS * \<bar>?ot - ?gt\<bar>" using speed by (simp add: far_def)
  also have "\<dots> \<le> \<bar>?g - target k\<bar> * \<bar>?ot - ?gt\<bar>" using assms(1) by (intro mult_right_mono) (auto simp: good_guess_def)
  finally show ?thesis unfolding eq using ne by (simp add: pos_le_divide_eq)
qed

text \<open>A bracket gets narrower, or the code comes closer to forcing a bisection.\<close>

lemma bracket_work:
  assumes ok: "seek_ok c k" "seek_live k" "bad_guesses k = 0" "have_bracket k"
    and ng: "next_guess end_time k = Some (t, k1)"
    and k': "k' = seek_past (sampled t k1) \<or> k' = sampled t k1\<lparr>low_time := t\<rparr>"
  shows "seek_work k' + 1 \<le> seek_work k" "0 \<le> seek_work k'" "have_bracket k'" "high_time k' \<le> high_time k" "last_time k' = last_time k"
proof -
  note g = next_guess_ok [OF ok(1) ng]
  have f: "low_time k1 = low_time k" "high_time k1 = high_time k" "have_bracket k1" "guess k1 = guess k" "last_time k1 = last_time k"
    "low_time k < t" "t < high_time k"
    using g(1,2,5,8) ok(4) by (auto simp: same_search_def)
  have live: "SEEK_EPS < high_time k - low_time k" "tp_time (guess k) = low_time k \<or> tp_time (guess k) = high_time k"
    using ok(2,4) by (auto simp: seek_live_def)
  have good: "good_guess k" "true_sample (old_guess k)" using ok(3) by (auto simp: bad_guesses_def split: if_splits)
  define W where "W k = high_time k - low_time k" for k :: seek
  have br: "have_bracket k'" using k' f by auto
  have W': "W k' = (if k' = seek_past (sampled t k1) then t - low_time k else high_time k - t)" "low_time k' \<le> high_time k'"
    using k' f by (auto simp: W_def)
  have work: "seek_work k = 5 * (W k / narrow) + seek_rank k" "seek_work k' = 5 * (W k' / narrow) + seek_rank k'"
    using ok(4) br by (simp_all add: seek_work_def W_def)
  have narrowed: "seek_work k' + 1 \<le> seek_work k" if "W k' \<le> W k - narrow"
  proof -
    have "W k' / narrow \<le> W k / narrow - 1" using divide_drop [OF far_pos(2) that] .
    then show ?thesis unfolding work using seek_rank_bounds [of k] seek_rank_bounds [of k'] by linarith
  qed
  have ranked: "seek_work k' + 1 \<le> seek_work k" if "W k' \<le> W k" "seek_rank k' + 1 \<le> seek_rank k"
  proof -
    have "W k' / narrow \<le> W k / narrow" using that(1) far_pos(2) by (simp add: divide_right_mono)
    then show ?thesis unfolding work using that(2) by linarith
  qed
  from ng show "seek_work k' + 1 \<le> seek_work k"
  proof (cases rule: next_guess_cases)
    case bisect
    have "t - low_time k = W k / 2" "high_time k - t = W k / 2" unfolding bisect(3) W_def by (simp_all add: field_simps)
    then have "W k' = W k / 2" using W' by auto
    moreover have "SEEK_EPS < W k" unfolding W_def using live(1) .
    ultimately have "W k' \<le> W k - narrow" using far_pos(4) by linarith
    then show ?thesis by (rule narrowed)
  next
    case expand
    with ok(4) show ?thesis by simp
  next
    case secant
    have far: "far \<le> \<bar>t - tp_time (guess k)\<bar>" using secant_far [OF good secant(1)] secant(2) by simp
    have neq: "old_guess k \<noteq> guess k" using secant(1) by (auto simp: secant_ok_def)
    have lt: "low_time k < high_time k" using f by linarith
    have sg: "tp_time (guess (sampled t k1)) = t" by simp
    show ?thesis
    proof (cases "tp_time (guess k) = low_time k")
      case low: True
      then have d: "low_time k + far \<le> t" using far f by simp
      show ?thesis
      proof (cases "k' = seek_past (sampled t k1)")
        case True
        have "W k' \<le> W k" using W' True f by (simp add: W_def)
        moreover have "guess k \<noteq> \<lparr>tp_time = t, tp_position = pos t\<rparr>" using low f by auto
        then have "seek_rank k' + 1 \<le> seek_rank k"
          using True low neq f secant(3) lt by (simp add: seek_rank_def seek_past_def Let_def)
        ultimately show ?thesis by (rule ranked)
      next
        case False
        then have "W k' \<le> W k - narrow" using W' d far_pos(3) by (simp add: W_def)
        then show ?thesis by (rule narrowed)
      qed
    next
      case False
      then have high: "tp_time (guess k) = high_time k" using live(2) by simp
      then have d: "t + far \<le> high_time k" using far f by simp
      show ?thesis
      proof (cases "k' = seek_past (sampled t k1)")
        case True
        then have "W k' \<le> W k - narrow" using W' d far_pos(3) by (simp add: W_def)
        then show ?thesis by (rule narrowed)
      next
        case before: False
        then have k'': "k' = sampled t k1\<lparr>low_time := t\<rparr>" using k' by simp
        have "W k' \<le> W k" using W' before f by (simp add: W_def)
        moreover have "guess k \<noteq> \<lparr>tp_time = t, tp_position = pos t\<rparr>" using high f by auto
        then have "seek_rank k' + 1 \<le> seek_rank k"
          using k'' False neq f secant(3) by (simp add: seek_rank_def)
        ultimately show ?thesis by (rule ranked)
      qed
    qed
  qed
  show "0 \<le> seek_work k'" unfolding work using W' far_pos(2) seek_rank_bounds [of k'] by (simp add: W_def)
  show "have_bracket k'" by (rule br)
  show "high_time k' \<le> high_time k" "last_time k' = last_time k" using k' f by auto
qed

text \<open>Without a bracket the search moves on.\<close>

lemma open_work:
  assumes ok: "seek_ok c k" "seek_live k" "bad_guesses k = 0" "\<not> have_bracket k"
    and ng: "next_guess end_time k = Some (t, k1)" and k': "k' = sampled t k1\<lparr>low_time := t\<rparr>"
  shows "seek_work k' + 1 \<le> seek_work k" "0 \<le> seek_work k'"
proof -
  note g = next_guess_ok [OF ok(1) ng]
  have f: "last_time k1 = last_time k" "low_time k < t" "t \<le> end_time" "high_time k1 \<le> end_time" "high_time k \<le> end_time"
    "\<not> have_bracket k1" "last_time k \<le> low_time k"
    using g(1,2,4,7) ok(1,4) by (auto simp: same_search_def seek_ok_def timely_def)
  have good: "good_guess k" "true_sample (old_guess k)" using ok(3) by (auto simp: bad_guesses_def split: if_splits)
  have gt: "tp_time (guess k) = low_time k" using ok(1,4) by (simp add: seek_ok_def)
  have k's: "low_time k' = t" "high_time k' = high_time k1" "\<not> have_bracket k'" using k' f by simp_all
  have low: "(end_time - t) / far \<le> (end_time - low_time k) / far" using f(2) far_pos(1) by (simp add: divide_right_mono)
  have lowb: "of_bool (t < end_time) \<le> (of_bool (low_time k < end_time) :: real)" using f(2) by auto
  have w: "seek_work k = (end_time - low_time k) / far + (end_time - high_time k) / SEEK_EPS +
      (of_bool (high_time k < end_time) + of_bool (low_time k < end_time))"
    "seek_work k' = (end_time - t) / far + (end_time - high_time k1) / SEEK_EPS +
      (of_bool (high_time k1 < end_time) + of_bool (t < end_time))"
    using ok(4) k's by (simp_all add: seek_work_def)
  from ng show "seek_work k' + 1 \<le> seek_work k"
  proof (cases rule: next_guess_cases)
    case secant
    have "far \<le> t - low_time k" using secant_far [OF good secant(1)] secant(2) gt f(2) by simp
    then have "(end_time - t) / far \<le> (end_time - low_time k) / far - 1" by (intro divide_drop far_pos(1)) simp
    then show ?thesis unfolding w using secant(3) lowb by simp
  next
    case bisect
    with ok(4) show ?thesis by simp
  next
    case expand
    show ?thesis
    proof (cases "high_time k < end_time")
      case True
      then have grow: "SEEK_EPS \<le> high_time k - last_time k" using ok(2,4) by (auto simp: seek_live_def)
      show ?thesis
      proof (cases "2 * high_time k - last_time k > end_time")
        case far_out: True
        then have "high_time k1 = end_time" using expand(5) by simp
        moreover have "0 \<le> (end_time - high_time k) / SEEK_EPS" using f(5) by simp
        ultimately show ?thesis unfolding w using low lowb True by simp
      next
        case False
        then have h: "high_time k1 = 2 * high_time k - last_time k" using expand(5) by simp
        then have "(end_time - high_time k1) / SEEK_EPS \<le> (end_time - high_time k) / SEEK_EPS - 1" using grow by simp
        then show ?thesis unfolding w using low lowb True by (auto split: if_splits)
      qed
    next
      case False
      then have e: "high_time k = end_time" using f(5) by simp
      then have "t = end_time" "low_time k < end_time" using expand f(2) by simp_all
      moreover have "high_time k1 = end_time" using expand(5) e f by auto
      ultimately show ?thesis unfolding w using e low by simp
    qed
  qed
  show "0 \<le> seek_work k'" unfolding w using f far_pos(1) by simp
qed

end

lemma seek_bounds_cases:
  obtains (past) "0 < rel" "seek_bounds h rel k = seek_past k"
    | (turn) "rel < - (h + h + 1 / 100000000)" "\<not> 0 < rel" "seek_bounds h rel k = seek_turn h k"
    | (before) "\<not> 0 < rel" "\<not> rel < - (h + h + 1 / 100000000)" "seek_bounds h rel k = k\<lparr>low_time := tp_time (guess k)\<rparr>"
  by (cases "0 < rel"; cases "rel < - (h + h + 1 / 100000000)") (simp_all add: seek_bounds_def)

lemma old_guess_bounds: "old_guess (seek_bounds h rel k) = old_guess k \<or> old_guess (seek_bounds h rel k) = guess k"
  by (cases rule: seek_bounds_cases [of rel h k]) (auto simp: seek_past_def seek_turn_def Let_def)

context motion begin

lemma again_good:
  assumes ok: "seek_ok c k" and ng: "next_guess end_time k = Some (t, k1)"
    and rel: "rel = beyond half c (seek_dir k) (pos t)" "SEEK_EPS < \<bar>rel\<bar>"
  shows "bad_guesses (seek_bounds half rel (sampled t k1)) < bad_guesses k \<or>
    bad_guesses (seek_bounds half rel (sampled t k1)) = 0 \<and> bad_guesses k = 0"
proof -
  let ?k' = "seek_bounds half rel (sampled t k1)"
  note g = next_guess_ok [OF ok ng]
  have f: "seek_dir k1 = seek_dir k" "target k1 = target k" "guess k1 = guess k" "target k = c + dir_sign (seek_dir k) * half"
    using g(1) ok by (auto simp: same_search_def seek_ok_def)
  have tgt: "\<bar>pos t - (c + dir_sign d * half)\<bar> = \<bar>beyond half c d (pos t)\<bar>" for d
    unfolding beyond_target [symmetric] by (simp add: dir_sign_def abs_minus_commute)
  have gt: "guess ?k' = \<lparr>tp_time = t, tp_position = pos t\<rparr>" by (cases rule: seek_bounds_cases [of rel half "sampled t k1"]) simp_all
  have "SEEK_EPS < \<bar>pos t - target ?k'\<bar>"
  proof (cases rule: seek_bounds_cases [of rel half "sampled t k1"])
    case turn
    have "target ?k' = c + dir_sign (\<not> seek_dir k) * half" using turn f by (simp add: algebra_simps)
    moreover have "beyond half c (\<not> seek_dir k) (pos t) > 1 / 100000000" unfolding beyond_turn using turn(1) rel(1) by linarith
    ultimately have "\<bar>pos t - target ?k'\<bar> = \<bar>beyond half c (\<not> seek_dir k) (pos t)\<bar>" by (simp only: tgt)
    then show ?thesis using \<open>beyond half c (\<not> seek_dir k) (pos t) > _\<close> by linarith
  qed (use f rel tgt in simp_all)
  then have good: "good_guess ?k'" using gt g(4) by (simp add: good_guess_def true_sample_def)
  have old: "true_sample (old_guess ?k')" if "good_guess k"
    using old_guess_bounds [of half rel "sampled t k1"] that f g(4) by (auto simp: good_guess_def true_sample_def)
  show ?thesis using good old by (auto simp: bad_guesses_def)
qed

lemma again_live:
  assumes ok: "seek_ok c k" "seek_live k" and ng: "next_guess end_time k = Some (t, k1)"
    and br: "have_bracket (seek_bounds half rel (sampled t k1)) \<longrightarrow>
         SEEK_EPS < high_time (seek_bounds half rel (sampled t k1)) - low_time (seek_bounds half rel (sampled t k1)) \<and>
         (t = low_time (seek_bounds half rel (sampled t k1)) \<or> t = high_time (seek_bounds half rel (sampled t k1)))"
  shows "seek_live (seek_bounds half rel (sampled t k1))"
proof -
  let ?k' = "seek_bounds half rel (sampled t k1)"
  note g = next_guess_ok [OF ok(1) ng]
  have f: "last_time k1 = last_time k" "have_bracket k1 = have_bracket k" using g(1) by (auto simp: same_search_def)
  have le: "last_time k \<le> high_time k" "high_time k \<le> end_time" using ok(1) by (auto simp: seek_ok_def)
  have "SEEK_EPS \<le> high_time ?k' - last_time ?k' \<or> high_time ?k' = end_time" if nb: "\<not> have_bracket ?k'"
  proof -
    have "?k' = sampled t k1\<lparr>low_time := t\<rparr>"
      using nb by (cases rule: seek_bounds_cases [of rel half "sampled t k1"]) simp_all
    then have e: "high_time ?k' = high_time k1" "last_time ?k' = last_time k" "\<not> have_bracket k" using nb f by simp_all
    then have l: "SEEK_EPS \<le> high_time k - last_time k \<or> high_time k = end_time" using ok(2) by (simp add: seek_live_def)
    from ng show ?thesis
    proof (cases rule: next_guess_cases)
      case expand
      then show ?thesis using l e le by (auto split: if_splits)
    qed (use l e in auto)
  qed
  moreover have "tp_time (guess ?k') = t" by (simp add: seek_bounds_last)
  ultimately show ?thesis using br by (simp add: seek_live_def)
qed

lemma again_decreases:
  assumes ok: "seek_ok c k" "seek_live k" and ng: "next_guess end_time k = Some (t, k1)"
    and rel: "rel = beyond half c (seek_dir k) (pos t)" "SEEK_EPS < \<bar>rel\<bar>"
  shows "(seek_bounds half rel (sampled t k1), k) \<in> seek_measure"
proof (cases "bad_guesses k = 0 \<and> bad_guesses (seek_bounds half rel (sampled t k1)) = 0")
  case False
  then show ?thesis using again_good [OF ok(1) ng rel] by (auto simp: seek_measure_def)
next
  case good: True
  let ?k' = "seek_bounds half rel (sampled t k1)"
  note g = next_guess_ok [OF ok(1) ng]
  have f: "last_time k1 = last_time k" "have_bracket k1 = have_bracket k" "low_time k < t" "last_time k \<le> low_time k"
    using g(1,2) ok(1) by (auto simp: same_search_def seek_ok_def)
  have pick: "?thesis" if "have_bracket ?k' = have_bracket k" "seek_turns ?k' \<le> seek_turns k"
    "seek_turns ?k' < seek_turns k \<or> nat \<lfloor>seek_work ?k'\<rfloor> < nat \<lfloor>seek_work k\<rfloor>"
    using good that by (auto simp: seek_measure_def)
  show ?thesis
  proof (cases "have_bracket k")
    case False
    show ?thesis
    proof (cases "have_bracket ?k'")
      case True
      then show ?thesis using good False by (simp add: seek_measure_def)
    next
      case nb: False
      have k': "?k' = sampled t k1\<lparr>low_time := t\<rparr>"
        using nb by (cases rule: seek_bounds_cases [of rel half "sampled t k1"]) simp_all
      have "nat \<lfloor>seek_work ?k'\<rfloor> < nat \<lfloor>seek_work k\<rfloor>"
        using open_work [OF ok conjunct1 [OF good] False ng k'] by (intro nat_floor_less)
      then show ?thesis using nb False by (intro pick) (auto simp: seek_turns_def)
    qed
  next
    case br: True
    have turns: "seek_turns k2 \<le> seek_turns k" if "high_time k2 \<le> high_time k" "last_time k2 = last_time k" "have_bracket k2" for k2
      using that br speed tol_pos(2)
      by (auto simp: seek_turns_def intro!: nat_floor_mono divide_right_mono mult_right_mono)
    have worked: ?thesis if k': "?k' = seek_past (sampled t k1) \<or> ?k' = sampled t k1\<lparr>low_time := t\<rparr>"
    proof -
      note w = bracket_work [OF ok conjunct1 [OF good] br ng k']
      have "nat \<lfloor>seek_work ?k'\<rfloor> < nat \<lfloor>seek_work k\<rfloor>" using w(2,1) by (rule nat_floor_less)
      then show ?thesis using w(3) br turns [OF w(4,5,3)] by (intro pick) auto
    qed
    show ?thesis
    proof (cases rule: seek_bounds_cases [of rel half "sampled t k1"])
      case turn
      have k': "high_time ?k' = t" "last_time ?k' = last_time k" "have_bracket ?k'" using turn f by simp_all
      have "0 < beyond half c (seek_dir k) (pos (high_time k))" using ok(1) br by (simp add: seek_ok_def)
      then have "2 * half \<le> L * (high_time k - t)"
        using beyond_lipschitz [of "high_time k" t c "seek_dir k"] seek_okD(3) [OF ok(1)] g(4) g(5) [OF br] turn(1) rel(1) by simp
      then have "(t - last_time k) * L \<le> (high_time k - last_time k) * L - 2 * half" by (simp add: algebra_simps)
      then have "((t - last_time k) * L) / (2 * half) + 1 \<le> ((high_time k - last_time k) * L) / (2 * half)"
        using divide_drop [of "2 * half"] tol_pos(2) by fastforce
      moreover have "0 \<le> (t - last_time k) * L / (2 * half)" using f speed tol_pos(2) by simp
      ultimately have "nat \<lfloor>(t - last_time k) * L / (2 * half)\<rfloor> < nat \<lfloor>(high_time k - last_time k) * L / (2 * half)\<rfloor>"
        by (intro nat_floor_less)
      then have "seek_turns ?k' < seek_turns k" using k' br by (simp only: seek_turns_def if_True)
      then show ?thesis using k' br by (intro pick) simp_all
    qed (use worked in simp_all)
  qed
qed

lemma seek_search_ends:
  "seek_ok c k \<Longrightarrow> seek_live k \<Longrightarrow> \<exists>n r. seek_search n half end_time pos k = Some r"
proof (induction k rule: wf_induct [of seek_measure])
  case 1
  show ?case by (simp add: seek_measure_def)
next
  case (2 k)
  note IH = 2(1) and ok = 2(2) and live = 2(3)
  from ok show ?case
  proof (cases rule: seek_round_cases)
    case finished
    then have "seek_search (Suc 0) half end_time pos k = Some Seek_end" by simp
    then show ?thesis by blast
  next
    case (again b t k1 rel)
    let ?k' = "seek_bounds half rel (sampled t k1)"
    obtain n r where "seek_search n half end_time pos ?k' = Some r"
      using IH again_decreases [OF ok live again(2-4)] again(5) again_live [OF ok live again(2,6)] by blast
    then have "seek_search (Suc n) half end_time pos k = Some r" using again(1) by simp
    then show ?thesis by blast
  next
    case (step k')
    then have "seek_search (Suc 0) half end_time pos k = Some (Seek_step k')" by simp
    then show ?thesis by blast
  qed
qed

lemma seek_start_live: "seek_live (seek_start half start_time end_time c d)"
  by (simp add: seek_live_def seek_start_def Let_def)

lemma seek_next_live: "seek_live (seek_next half end_time k)"
  using seek_delta_ge [of k] by (simp add: seek_live_def seek_next_def Let_def)

lemma seek_run_live:
  assumes "seek_run half end_time pos k0 tr k" "seek_ok c k0" "last_time k0 = start_time" "seek_live k0"
  shows "seek_live k"
  using assms
proof (induction rule: seek_run.induct)
  case (run_again tr k b k')
  then have ok: "seek_ok (stepped half c tr) k" using seek_run_ok [of k0 tr k c] by blast
  from ok show ?case
  proof (cases rule: seek_round_cases)
    case (again b' t k1 rel)
    then show ?thesis using run_again again_live [OF ok _ again(2,6)] by simp
  qed (use run_again in auto)
next
  case (run_step tr k k')
  show ?case by (rule seek_next_live)
qed

lemma seek_run_end:
  assumes "seek_run half end_time pos k0 tr k" "seek_ok c k0" "last_time k0 = start_time"
    "seek_round half end_time pos k = Seek_end"
  shows "\<bar>pos end_time - stepped half c tr\<bar> \<le> half + seek_tol L"
proof -
  have ok: "seek_ok (stepped half c tr) k" using seek_run_ok [OF assms(1-3)] by blast
  from ok show ?thesis by (cases rule: seek_round_cases) (use assms(4) in auto)
qed

end

subsection \<open>What a range hands to the step compression\<close>

text \<open>
  The calls that a range makes to the step compression: a commit of the step that is pending, or a step with its direction and
  its time; all of them return 0.
\<close>

datatype sc_call = Commit_call | Step_call bool real

fun make_calls :: "real \<Rightarrow> sc_call list \<Rightarrow> int sc_op" where
  "make_calls pt [] = ret 0"
| "make_calls pt (Commit_call # cs) = then_op stepcompress_commit (make_calls pt cs)"
| "make_calls pt (Step_call d t # cs) =
     bind_op (stepcompress_append (if d then 1 else 0) pt t) (\<lambda>r. if r \<noteq> 0 then ret r else make_calls pt cs)"

fun steps_of :: "sc_call list \<Rightarrow> (bool \<times> real) list" where
  "steps_of [] = []"
| "steps_of (Commit_call # cs) = steps_of cs"
| "steps_of (Step_call d t # cs) = (d, t) # steps_of cs"

text \<open>A run from a state that a run has come to.\<close>

lemma seek_run_step:
  assumes "seek_run half fin pos k1 tr k" "seek_round half fin pos k0 = Seek_step k'" "k1 = seek_next half fin k'"
  shows "seek_run half fin pos k0 ((seek_dir k', tp_time (guess k')) # tr) k"
  using assms
proof (induction rule: seek_run.induct)
  case run_start
  show ?case using seek_run.run_step [OF seek_run.run_start] run_start by fastforce
next
  case (run_again tr k b k2)
  then show ?case by (blast intro: seek_run.run_again)
next
  case (run_step tr k k2)
  then have "seek_run half fin pos k0 ((seek_dir k', tp_time (guess k')) # tr) k" by blast
  then show ?case using seek_run.run_step run_step(2) by fastforce
qed

lemma seek_run_again:
  assumes "seek_run half fin pos k1 tr k" "seek_round half fin pos k0 = Seek_again b k1"
  shows "seek_run half fin pos k0 tr k"
  using assms
  by (induction rule: seek_run.induct) (blast intro: seek_run.intros)+

definition loop_code :: "loop_result \<Rightarrow> int" where
  "loop_code r = (case r of Failed e \<Rightarrow> e | _ \<Rightarrow> 0)"

lemma gen_loop_calls:
  assumes "gen_loop n half fin pt pos k0 sc = Ret r sc'"
  shows "\<exists>cs k. make_calls pt cs sc = Ret (loop_code r) sc' \<and> seek_run half fin pos k0 (steps_of cs) k \<and>
    (\<forall>k'. r = Finished k' \<longrightarrow> k' = k \<and> seek_round half fin pos k = Seek_end) \<and> r \<noteq> Failed 0"
  using assms
proof (induction n arbitrary: k0 sc)
  case 0
  then have "make_calls pt [] sc = Ret (loop_code r) sc' \<and> seek_run half fin pos k0 (steps_of []) k0 \<and> r = Running"
    by (auto simp: op_simps loop_code_def intro: seek_run.run_start)
  then show ?case by blast
next
  case (Suc n)
  show ?case
  proof (cases "seek_round half fin pos k0")
    case Seek_end
    then have "make_calls pt [] sc = Ret (loop_code r) sc' \<and> seek_run half fin pos k0 (steps_of []) k0 \<and> r = Finished k0"
      using Suc.prems by (auto simp: op_simps loop_code_def intro: seek_run.run_start)
    with Seek_end show ?thesis by blast
  next
    case (Seek_again b k1)
    define pre where "pre = (if b then [Commit_call] else [])"
    obtain sc1 where c: "make_calls pt pre sc = Ret 0 sc1" "gen_loop n half fin pt pos k1 sc1 = Ret r sc'"
      "make_calls pt (pre @ cs) sc = make_calls pt cs sc1" for cs
      using Suc.prems Seek_again by (auto simp: op_simps pre_def split: outcome.splits if_splits)
    then obtain cs k where cs: "make_calls pt cs sc1 = Ret (loop_code r) sc'" "seek_run half fin pos k1 (steps_of cs) k"
      "\<forall>k'. r = Finished k' \<longrightarrow> k' = k \<and> seek_round half fin pos k = Seek_end" "r \<noteq> Failed 0" using Suc.IH by blast
    have "steps_of (pre @ cs) = steps_of cs" by (simp add: pre_def)
    then have "seek_run half fin pos k0 (steps_of (pre @ cs)) k" using seek_run_again [OF cs(2) Seek_again] by simp
    moreover have "make_calls pt (pre @ cs) sc = Ret (loop_code r) sc'" using c(3) cs(1) by simp
    ultimately show ?thesis using cs(3,4) by blast
  next
    case (Seek_step k1)
    let ?call = "Step_call (seek_dir k1) (tp_time (guess k1))"
    obtain e sc1 where c: "stepcompress_append (if seek_dir k1 then 1 else 0) pt (tp_time (guess k1)) sc = Ret e sc1"
      "(if e \<noteq> 0 then Ret (Failed e) sc1 else gen_loop n half fin pt pos (seek_next half fin k1) sc1) = Ret r sc'"
      using Suc.prems Seek_step
      by (cases "stepcompress_append (if seek_dir k1 then 1 else 0) pt (tp_time (guess k1)) sc") (auto simp: op_simps split: if_splits)
    show ?thesis
    proof (cases "e = 0")
      case True
      then obtain cs k where cs: "make_calls pt cs sc1 = Ret (loop_code r) sc'" "seek_run half fin pos (seek_next half fin k1) (steps_of cs) k"
        "\<forall>k'. r = Finished k' \<longrightarrow> k' = k \<and> seek_round half fin pos k = Seek_end" "r \<noteq> Failed 0" using Suc.IH c(2) by fastforce
      have "make_calls pt (?call # cs) sc = Ret (loop_code r) sc'" using c(1) cs(1) True by (simp add: op_simps)
      moreover have "seek_run half fin pos k0 (steps_of (?call # cs)) k" using seek_run_step [OF cs(2) Seek_step refl] by simp
      ultimately show ?thesis using cs(3,4) by blast
    next
      case False
      then have "make_calls pt [?call] sc = Ret (loop_code r) sc'" "r = Failed e" "e \<noteq> 0"
        using c by (auto simp: op_simps loop_code_def)
      moreover have "seek_run half fin pos k0 (steps_of [?call]) (seek_next half fin k1)"
        using seek_run_step [OF seek_run.run_start Seek_step refl] by simp
      ultimately show ?thesis by blast
    qed
  qed
qed

text \<open>The part of the move \<open>i\<close> that a range covers, and its position.\<close>

definition range_start :: "move list \<Rightarrow> nat \<Rightarrow> real \<Rightarrow> real" where
  "range_start ms i abs_start = (if abs_start - print_time (ms ! i) < 0 then 0 else abs_start - print_time (ms ! i))"

definition range_end :: "move list \<Rightarrow> nat \<Rightarrow> real \<Rightarrow> real" where
  "range_end ms i abs_end =
     (if abs_end - print_time (ms ! i) > move_t (ms ! i) then move_t (ms ! i) else abs_end - print_time (ms ! i))"

definition range_position :: "stepper_kinematics \<Rightarrow> move list \<Rightarrow> nat \<Rightarrow> real \<Rightarrow> real" where
  "range_position sk ms i = calc_position_cb sk (commanded_pos sk) ms i"

definition half_step_of :: "stepper_kinematics \<Rightarrow> real" where
  "half_step_of sk = 1 / 2 * step_dist sk"

definition range_seek :: "stepper_kinematics \<Rightarrow> move list \<Rightarrow> nat \<Rightarrow> real \<Rightarrow> real \<Rightarrow> seek" where
  "range_seek sk ms i abs_start abs_end =
     seek_start (half_step_of sk) (range_start ms i abs_start) (range_end ms i abs_end) (commanded_pos sk)
       (stepcompress_get_step_dir (sk_sc sk) \<noteq> 0)"

text \<open>What a range leaves behind, from the result of its loop.\<close>

definition finish_range :: "stepper_kinematics \<Rightarrow> loop_result \<Rightarrow> stepcompress \<Rightarrow> stepper_kinematics" where
  "finish_range sk r sc =
     (case r of
        Finished k \<Rightarrow>
          (let c = target k - (if seek_dir k then half_step_of sk else - half_step_of sk)
           in sk\<lparr>sk_sc := sc, commanded_pos := (case post_cb sk of None \<Rightarrow> c | Some f \<Rightarrow> f c)\<rparr>)
      | _ \<Rightarrow> sk\<lparr>sk_sc := sc\<rparr>)"

definition range_value :: "loop_result \<Rightarrow> int option" where
  "range_value r = (case r of Running \<Rightarrow> None | Failed e \<Rightarrow> Some e | Finished k \<Rightarrow> Some 0)"

lemma itersolve_range_eq:
  "itersolve_gen_steps_range n ms i a b sk =
    (case gen_loop n (half_step_of sk) (range_end ms i b) (print_time (ms ! i)) (range_position sk ms i)
       (range_seek sk ms i a b) (sk_sc sk) of
       Ret r t \<Rightarrow> Ret (range_value r) (finish_range sk r t)
     | Shutdown e t \<Rightarrow> Shutdown e (sk\<lparr>sk_sc := t\<rparr>) | Undef \<Rightarrow> Undef)"
proof -
  let ?g = "gen_loop n (half_step_of sk) (range_end ms i b) (print_time (ms ! i)) (range_position sk ms i) (range_seek sk ms i a b)"
  have "itersolve_gen_steps_range n ms i a b sk =
    bind_op (on_sc ?g) (\<lambda>r. case r of
        Running \<Rightarrow> ret None
      | Failed e \<Rightarrow> ret (Some e)
      | Finished k \<Rightarrow>
          then_op (set_op (\<lambda>sk'.
            let c = target k - (if seek_dir k then half_step_of sk else - half_step_of sk)
            in sk'\<lparr>commanded_pos := (case post_cb sk' of None \<Rightarrow> c | Some f \<Rightarrow> f c)\<rparr>)) (ret (Some 0))) sk"
    by (simp only: itersolve_gen_steps_range_def range_start_def range_end_def range_position_def half_step_of_def range_seek_def
        Let_def bind_op_app get_op_app outcome.case)
  then show ?thesis
    by (cases "?g (sk_sc sk)")
      (auto simp: op_simps on_sc_def Let_def finish_range_def range_value_def split: loop_result.split)
qed

lemma itersolve_range_cases:
  assumes "itersolve_gen_steps_range n ms i a b sk = Ret (Some 0) sk'"
  obtains k where "gen_loop n (half_step_of sk) (range_end ms i b) (print_time (ms ! i)) (range_position sk ms i)
      (range_seek sk ms i a b) (sk_sc sk) = Ret (Finished k) (sk_sc sk')" "sk' = finish_range sk (Finished k) (sk_sc sk')"
proof -
  let ?g = "gen_loop n (half_step_of sk) (range_end ms i b) (print_time (ms ! i)) (range_position sk ms i)
      (range_seek sk ms i a b) (sk_sc sk)"
  obtain r t where r: "?g = Ret r t" "range_value r = Some 0" "sk' = finish_range sk r t"
    using assms unfolding itersolve_range_eq by (auto split: outcome.splits)
  have "r \<noteq> Failed 0" using gen_loop_calls [OF r(1)] by blast
  then obtain k where "r = Finished k" using r(2) by (cases r) (auto simp: range_value_def)
  then show thesis using that r by (auto simp: finish_range_def Let_def)
qed

lemma range_followed:
  assumes m: "motion (range_position sk ms i) (range_start ms i a) (range_end ms i b) L (half_step_of sk)"
    and run: "itersolve_gen_steps_range n ms i a b sk = Ret r sk'"
    and start: "\<bar>range_position sk ms i (range_start ms i a) - commanded_pos sk\<bar> \<le> half_step_of sk + seek_tol L"
  shows "\<exists>cs. make_calls (print_time (ms ! i)) cs (sk_sc sk) = Ret (case r of None \<Rightarrow> 0 | Some e \<Rightarrow> e) (sk_sc sk') \<and>
    sorted (map snd (steps_of cs)) \<and> (\<forall>(d, t)\<in>set (steps_of cs). range_start ms i a \<le> t \<and> t \<le> range_end ms i b) \<and>
    steps_at (half_step_of sk) (range_position sk ms i) (seek_tol L + L * SEEK_EPS) (commanded_pos sk) (steps_of cs) \<and>
    (let c = stepped (half_step_of sk) (commanded_pos sk) (steps_of cs)
     in if r = Some 0 then commanded_pos sk' = (case post_cb sk of None \<Rightarrow> c | Some f \<Rightarrow> f c) \<and>
            \<bar>range_position sk ms i (range_end ms i b) - c\<bar> \<le> half_step_of sk + seek_tol L
        else commanded_pos sk' = commanded_pos sk)"
proof -
  let ?p = "range_position sk ms i" and ?c = "commanded_pos sk" and ?h = "half_step_of sk"
  let ?s = "range_start ms i a" and ?e = "range_end ms i b" and ?k0 = "range_seek sk ms i a b"
  have k0: "motion.seek_ok ?p ?s ?e L ?h ?c ?k0" "last_time ?k0 = ?s"
    unfolding range_seek_def by (rule motion.seek_start_ok [OF m start])+
  obtain l t where l: "gen_loop n ?h ?e (print_time (ms ! i)) ?p ?k0 (sk_sc sk) = Ret l t" "r = range_value l" "sk' = finish_range sk l t"
    using run unfolding itersolve_range_eq by (auto split: outcome.splits)
  have sc: "sk_sc sk' = t" unfolding l(3) by (simp add: finish_range_def Let_def split: loop_result.split)
  have code: "loop_code l = (case r of None \<Rightarrow> 0 | Some e \<Rightarrow> e)" unfolding l(2) by (simp add: loop_code_def range_value_def split: loop_result.split)
  obtain cs k where cs: "make_calls (print_time (ms ! i)) cs (sk_sc sk) = Ret (loop_code l) t"
    "seek_run ?h ?e ?p ?k0 (steps_of cs) k" "\<forall>k'. l = Finished k' \<longrightarrow> k' = k \<and> seek_round ?h ?e ?p k = Seek_end" "l \<noteq> Failed 0"
    using gen_loop_calls [OF l(1)] by blast
  note ok = motion.seek_run_ok [OF m cs(2) k0]
  let ?st = "stepped ?h ?c (steps_of cs)"
  have fin: "if r = Some 0 then commanded_pos sk' = (case post_cb sk of None \<Rightarrow> ?st | Some f \<Rightarrow> f ?st) \<and> \<bar>?p ?e - ?st\<bar> \<le> ?h + seek_tol L
     else commanded_pos sk' = ?c"
  proof (cases l)
    case (Finished k')
    have k': "k' = k" "seek_round ?h ?e ?p k = Seek_end" using cs(3) Finished by auto
    have "target k - (if seek_dir k then ?h else - ?h) = ?st"
      using ok by (auto simp: motion.seek_ok_def [OF m] dir_sign_def split: if_splits)
    moreover have "\<bar>?p ?e - ?st\<bar> \<le> ?h + seek_tol L" by (rule motion.seek_run_end [OF m cs(2) k0 k'(2)])
    ultimately show ?thesis unfolding l(2,3) Finished by (simp add: finish_range_def range_value_def Let_def k'(1))
  qed (use cs(4) in \<open>auto simp: l(2,3) finish_range_def range_value_def\<close>)
  show ?thesis
    using cs(1) ok fin unfolding code sc by (intro exI [of _ cs]) (auto simp: sorted_append motion.timely_def [OF m] Let_def)
qed

subsection \<open>Properties\<close>

text \<open>
  C16: a part of a move for which steps are generated is followed, for any motion no faster than \<open>L\<close>. However many rounds the loop has run, the
  calls handed to the step compression are steps at increasing times within the part, each at a time when the position of the
  stepper is half a step beyond the one commanded by the steps before, up to the tolerance of the solver (ten nanometres and the way
  of two nanoseconds). When the loop is done, the position commanded by all the steps is within half a step of the position of the
  tool at the end of the part, up to the tolerance, and it is stored, after \<open>post_cb\<close> if there is one; while the loop is running (\<open>r = None\<close>) and when the
  step compression has failed (\<open>r\<close> is its error code, the last step of the list was refused) the stored position is the old one.
\<close>

theorem steps_follow_motion:
  assumes run: "itersolve_gen_steps_range n ms i a b sk = Ret r sk'"
    and interval: "range_start ms i a \<le> range_end ms i b"
    and slow: "\<And>s t. range_start ms i a \<le> s \<Longrightarrow> s \<le> range_end ms i b \<Longrightarrow> range_start ms i a \<le> t \<Longrightarrow> t \<le> range_end ms i b \<Longrightarrow>
      \<bar>range_position sk ms i s - range_position sk ms i t\<bar> \<le> L * \<bar>s - t\<bar>"
    and speed: "0 < L" "1 / 100000000 + SEEK_EPS + 2 * L * SEEK_EPS < 2 * half_step_of sk"
    and start: "\<bar>range_position sk ms i (range_start ms i a) - commanded_pos sk\<bar> \<le> half_step_of sk + seek_tol L"
  shows "\<exists>cs. make_calls (print_time (ms ! i)) cs (sk_sc sk) = Ret (case r of None \<Rightarrow> 0 | Some e \<Rightarrow> e) (sk_sc sk') \<and>
    sorted (map snd (steps_of cs)) \<and> (\<forall>(d, t)\<in>set (steps_of cs). range_start ms i a \<le> t \<and> t \<le> range_end ms i b) \<and>
    steps_at (half_step_of sk) (range_position sk ms i) (seek_tol L + L * SEEK_EPS) (commanded_pos sk) (steps_of cs) \<and>
    (let c = stepped (half_step_of sk) (commanded_pos sk) (steps_of cs)
     in if r = Some 0 then commanded_pos sk' = (case post_cb sk of None \<Rightarrow> c | Some f \<Rightarrow> f c) \<and>
            \<bar>range_position sk ms i (range_end ms i b) - c\<bar> \<le> half_step_of sk + seek_tol L
        else commanded_pos sk' = commanded_pos sk)"
proof -
  have "motion (range_position sk ms i) (range_start ms i a) (range_end ms i b) L (half_step_of sk)"
    by (rule motion.intro) (use interval slow speed in auto)
  then show ?thesis by (rule range_followed [OF _ run start])
qed

text \<open>A move at 6000 steps of 1 per second for the ten thousandth part of a second: one step, after five sixths of it.\<close>

definition witness_stepper :: stepper_kinematics where
  "witness_stepper =
     \<lparr>step_dist = 1, commanded_pos = 0, sk_sc = (stepcompress_alloc 0)\<lparr>mcu_freq := 1000000\<rparr>, last_flush_time = 0, last_move_time = 0,
      sk_tq = None, active_flags = AF_X, gen_steps_pre_active = 0, gen_steps_post_active = 0,
      calc_position_cb = (\<lambda>c ms i t. coord_x (move_get_coord (ms ! i) t)), post_cb = None\<rparr>"

definition witness_move :: move where
  "witness_move = zero_move\<lparr>move_t := 1 / 10000, start_v := 6000, axes_r := \<lparr>coord_x = 1, coord_y = 0, coord_z = 0\<rparr>\<rparr>"

lemma witness_range:
  "range_start [witness_move] 0 0 = 0" "range_end [witness_move] 0 1 = 1 / 10000"
  "range_position witness_stepper [witness_move] 0 = (\<lambda>t. 6000 * t)" "half_step_of witness_stepper = 1 / 2"
  "commanded_pos witness_stepper = 0"
  by (simp_all add: range_start_def range_end_def range_position_def half_step_of_def witness_stepper_def witness_move_def
      zero_move_def zero_coord_def move_get_coord_def move_get_distance_def fun_eq_iff)

definition witness_seek :: "real \<Rightarrow> real \<Rightarrow> bool \<Rightarrow> bool \<Rightarrow> real \<Rightarrow> real \<Rightarrow> real \<Rightarrow> seek" where
  "witness_seek old_t t bracket change tgt low high =
     \<lparr>old_guess = \<lparr>tp_time = old_t, tp_position = 6000 * old_t\<rparr>, guess = \<lparr>tp_time = t, tp_position = 6000 * t\<rparr>, seek_dir = True,
      is_dir_change = change, have_bracket = bracket, check_oscillate = False, target = tgt, last_time = low, low_time = low, high_time = high\<rparr>"

lemmas round_defs = seek_round_def next_guess_def secant_ok_def secant_time_def seek_bounds_def seek_turn_def seek_past_def Let_def

lemma witness_rounds:
  "seek_round (1 / 2) (1 / 10000) ((*) 6000) (seek_start (1 / 2) 0 (1 / 10000) 0 False) =
     Seek_again False (witness_seek 0 (1 / 10000) True True (1 / 2) 0 (1 / 10000))"
  "seek_round (1 / 2) (1 / 10000) ((*) 6000) (witness_seek 0 (1 / 10000) True True (1 / 2) 0 (1 / 10000)) =
     Seek_step (witness_seek (1 / 10000) (1 / 12000) True True (1 / 2) 0 (1 / 10000))"
  "seek_next (1 / 2) (1 / 10000) (witness_seek (1 / 10000) (1 / 12000) True True (1 / 2) 0 (1 / 10000)) =
     witness_seek (1 / 10000) (1 / 12000) False False (3 / 2) (1 / 12000) (1 / 10000)"
  "seek_round (1 / 2) (1 / 10000) ((*) 6000) (witness_seek (1 / 10000) (1 / 12000) False False (3 / 2) (1 / 12000) (1 / 10000)) =
     Seek_again False ((witness_seek (1 / 12000) (1 / 10000) False False (3 / 2) (1 / 12000) (1 / 10000))\<lparr>low_time := 1 / 10000\<rparr>)"
  "seek_round (1 / 2) (1 / 10000) ((*) 6000)
     ((witness_seek (1 / 12000) (1 / 10000) False False (3 / 2) (1 / 12000) (1 / 10000))\<lparr>low_time := 1 / 10000\<rparr>) = Seek_end"
  by (simp_all add: round_defs witness_seek_def seek_start_def seek_next_def seek_delta_def)

lemma witness_append:
  "\<exists>sc'. stepcompress_append 1 0 (1 / 12000) (sk_sc witness_stepper) = Ret 0 sc'"
  by (simp add: stepcompress_append_def op_simps witness_stepper_def stepcompress_alloc_def u64_of_double_def Let_def)

lemma witness_loop:
  assumes "stepcompress_append 1 pt (1 / 12000) sc = Ret 0 sc'"
  shows "gen_loop 5 (1 / 2) (1 / 10000) pt ((*) 6000) (seek_start (1 / 2) 0 (1 / 10000) 0 False) sc =
    Ret (Finished ((witness_seek (1 / 12000) (1 / 10000) False False (3 / 2) (1 / 12000) (1 / 10000))\<lparr>low_time := 1 / 10000\<rparr>)) sc'"
proof -
  have five: "5 = Suc (Suc (Suc (Suc (Suc 0))))" by simp
  show ?thesis
    unfolding five gen_loop.simps witness_rounds seek_result.case op_simps if_False using assms
    by (simp add: op_simps witness_rounds) (simp add: witness_seek_def)
qed

lemma witness_runs:
  "\<exists>sk'. itersolve_gen_steps_range 5 [witness_move] 0 0 1 witness_stepper = Ret (Some 0) sk' \<and> commanded_pos sk' = 1"
proof -
  obtain sc' where sc: "stepcompress_append 1 0 (1 / 12000) (sk_sc witness_stepper) = Ret 0 sc'" using witness_append ..
  have dir: "stepcompress_get_step_dir (sk_sc witness_stepper) = 0"
    by (simp add: stepcompress_get_step_dir_def witness_stepper_def stepcompress_alloc_def)
  have w: "print_time witness_move = 0" "move_t witness_move = 1 / 10000" "step_dist witness_stepper = 1"
    "post_cb witness_stepper = None" by (simp_all add: witness_move_def zero_move_def witness_stepper_def)
  have pos: "calc_position_cb witness_stepper 0 [witness_move] 0 = (*) 6000"
    using witness_range(3,5) by (simp add: range_position_def)
  note loop = witness_loop [OF sc]
  show ?thesis
    using loop by (simp add: itersolve_gen_steps_range_def op_simps on_sc_def witness_range dir w pos Let_def) (simp add: witness_seek_def)
qed

theorem steps_follow_motion_witness:
  "\<exists>sk' cs. itersolve_gen_steps_range 5 [witness_move] 0 0 1 witness_stepper = Ret (Some 0) sk' \<and> commanded_pos sk' = 1 \<and>
     stepped (1 / 2) 0 (steps_of cs) = 1 \<and> sorted (map snd (steps_of cs)) \<and> make_calls 0 cs (sk_sc witness_stepper) = Ret 0 (sk_sc sk')"
proof -
  obtain sk' where run: "itersolve_gen_steps_range 5 [witness_move] 0 0 1 witness_stepper = Ret (Some 0) sk'" "commanded_pos sk' = 1"
    using witness_runs by blast
  have w: "print_time witness_move = 0" "post_cb witness_stepper = None"
    by (simp_all add: witness_move_def zero_move_def witness_stepper_def)
  have slow: "\<bar>6000 * s - 6000 * t\<bar> \<le> 6000 * \<bar>s - t\<bar>" for s t :: real
    by (metis abs_mult abs_numeral order_refl right_diff_distrib)
  have six: "0 < (6000 :: real)" "1 / 100000000 + SEEK_EPS + 2 * 6000 * SEEK_EPS < (2 * (1 / 2) :: real)" "(0::real) \<le> 1 / 10000"
    "\<bar>6000 * 0 - 0\<bar> \<le> 1 / 2 + seek_tol 6000"
    by (simp_all add: seek_tol_def)
  note S = steps_follow_motion [OF run(1), of 6000, unfolded witness_range, OF six(3) slow six(1,2,4)]
  obtain cs where cs: "make_calls (print_time ([witness_move] ! 0)) cs (sk_sc witness_stepper) = Ret 0 (sk_sc sk')"
    "sorted (map snd (steps_of cs))" "commanded_pos sk' = stepped (1 / 2) 0 (steps_of cs)"
    using S w(2) by (elim exE conjE) (simp add: Let_def)
  show ?thesis
    by (intro exI [of _ sk'] exI [of _ cs] conjI) (use run cs w(1) in simp_all)
qed

text \<open>
  C17: the search for the next step ends, whatever steps the range has found before: after finitely many rounds of the secant method, bisections and
  extensions there is a step or the range is done, for any motion no faster than \<open>L\<close>.
\<close>

theorem step_search_ends:
  assumes interval: "range_start ms i a \<le> range_end ms i b"
    and slow: "\<And>s t. range_start ms i a \<le> s \<Longrightarrow> s \<le> range_end ms i b \<Longrightarrow> range_start ms i a \<le> t \<Longrightarrow> t \<le> range_end ms i b \<Longrightarrow>
      \<bar>range_position sk ms i s - range_position sk ms i t\<bar> \<le> L * \<bar>s - t\<bar>"
    and speed: "0 < L" "1 / 100000000 + SEEK_EPS + 2 * L * SEEK_EPS < 2 * half_step_of sk"
    and start: "\<bar>range_position sk ms i (range_start ms i a) - commanded_pos sk\<bar> \<le> half_step_of sk + seek_tol L"
    and run: "seek_run (half_step_of sk) (range_end ms i b) (range_position sk ms i) (range_seek sk ms i a b) tr k"
  shows "\<exists>n r. seek_search n (half_step_of sk) (range_end ms i b) (range_position sk ms i) k = Some r"
proof -
  have m: "motion (range_position sk ms i) (range_start ms i a) (range_end ms i b) L (half_step_of sk)"
    by (rule motion.intro) (use interval slow speed in auto)
  note start_ok = motion.seek_start_ok [OF m start, of "stepcompress_get_step_dir (sk_sc sk) \<noteq> 0", folded range_seek_def]
  have "motion.seek_live (range_end ms i b) (range_seek sk ms i a b)"
    unfolding range_seek_def by (rule motion.seek_start_live [OF m])
  then show ?thesis
    using motion.seek_search_ends [OF m] motion.seek_run_ok [OF m run start_ok] motion.seek_run_live [OF m run start_ok] by blast
qed

theorem step_search_ends_witness:
  "\<exists>n r. seek_search n (1 / 2) (1 / 10000) ((*) 6000) (seek_start (1 / 2) 0 (1 / 10000) 0 False) = Some r"
proof -
  have slow: "\<bar>6000 * s - 6000 * t\<bar> \<le> 6000 * \<bar>s - t\<bar>" for s t :: real
    by (metis abs_mult abs_numeral order_refl right_diff_distrib)
  have eq: "range_seek witness_stepper [witness_move] 0 0 1 = seek_start (1 / 2) 0 (1 / 10000) 0 False"
    by (simp add: range_seek_def witness_range)
       (simp add: stepcompress_get_step_dir_def witness_stepper_def stepcompress_alloc_def)
  have six: "0 < (6000 :: real)" "1 / 100000000 + SEEK_EPS + 2 * 6000 * SEEK_EPS < (2 * (1 / 2) :: real)" "(0::real) \<le> 1 / 10000"
    "\<bar>6000 * 0 - 0\<bar> \<le> 1 / 2 + seek_tol 6000"
    by (simp_all add: seek_tol_def)
  show ?thesis
    by (rule step_search_ends [of "[witness_move]" 0 0 1 witness_stepper 6000, unfolded witness_range eq,
      OF six(3) slow six(1,2,4) run_start])
qed

end
