(* ===== verification/Kinematics.thy ===== *)
theory Kinematics
  imports Itersolve_Search
begin

text \<open>
  The kinematics of \<open>klippy/chelper\<close>: from a move and a time within it to the position of one stepper, for the kinds of
  machine (\<open>kin_*.c\<close>), with the input shaper (\<open>kin_shaper.c\<close>) and the second carriage (\<open>kin_idex.c\<close>) that
  transform the motion before another kind sees it, and the extruder with pressure advance (\<open>kin_extruder.c\<close>).

  A stepper of a kind is a \<open>stepper_kinematics\<close> whose callback has the constants of the kind applied; \<open>malloc\<close> with \<open>memset\<close>
  is \<open>zero_sk\<close>. The step compression and the queue are set by other functions before they are used. \<open>M_PI\<close> is \<open>pi\<close>,
  \<open>sqrt\<close> of a negative number is a NaN in C and negative here; the properties ask for reachable positions.
\<close>

definition zero_sk :: stepper_kinematics where
  "zero_sk =
     \<lparr>step_dist = 0, commanded_pos = 0, sk_sc = stepcompress_alloc 0, last_flush_time = 0, last_move_time = 0, sk_tq = None,
      active_flags = 0, gen_steps_pre_active = 0, gen_steps_post_active = 0, calc_position_cb = (\<lambda>c ms i t. 0), post_cb = None\<rparr>"

subsection \<open>Cartesian, CoreXY and CoreXZ machines\<close>

definition cart_stepper_x_calc_position :: "real \<Rightarrow> move list \<Rightarrow> nat \<Rightarrow> real \<Rightarrow> real" where
  "cart_stepper_x_calc_position c ms i move_time = coord_x (move_get_coord (ms ! i) move_time)"

definition cart_stepper_y_calc_position :: "real \<Rightarrow> move list \<Rightarrow> nat \<Rightarrow> real \<Rightarrow> real" where
  "cart_stepper_y_calc_position c ms i move_time = coord_y (move_get_coord (ms ! i) move_time)"

definition cart_stepper_z_calc_position :: "real \<Rightarrow> move list \<Rightarrow> nat \<Rightarrow> real \<Rightarrow> real" where
  "cart_stepper_z_calc_position c ms i move_time = coord_z (move_get_coord (ms ! i) move_time)"

definition cartesian_stepper_alloc :: "char \<Rightarrow> stepper_kinematics" where
  "cartesian_stepper_alloc axis =
     (if axis = CHR ''x'' then zero_sk\<lparr>calc_position_cb := cart_stepper_x_calc_position, active_flags := AF_X\<rparr>
      else if axis = CHR ''y'' then zero_sk\<lparr>calc_position_cb := cart_stepper_y_calc_position, active_flags := AF_Y\<rparr>
      else if axis = CHR ''z'' then zero_sk\<lparr>calc_position_cb := cart_stepper_z_calc_position, active_flags := AF_Z\<rparr>
      else zero_sk)"

definition corexy_stepper_plus_calc_position :: "real \<Rightarrow> move list \<Rightarrow> nat \<Rightarrow> real \<Rightarrow> real" where
  "corexy_stepper_plus_calc_position c ms i move_time =
     (let c = move_get_coord (ms ! i) move_time in coord_x c + coord_y c)"

definition corexy_stepper_minus_calc_position :: "real \<Rightarrow> move list \<Rightarrow> nat \<Rightarrow> real \<Rightarrow> real" where
  "corexy_stepper_minus_calc_position c ms i move_time =
     (let c = move_get_coord (ms ! i) move_time in coord_x c - coord_y c)"

definition corexy_stepper_alloc :: "char \<Rightarrow> stepper_kinematics" where
  "corexy_stepper_alloc type =
     (let sk = zero_sk;
          sk = (if type = CHR ''+'' then sk\<lparr>calc_position_cb := corexy_stepper_plus_calc_position\<rparr>
                else if type = CHR ''-'' then sk\<lparr>calc_position_cb := corexy_stepper_minus_calc_position\<rparr>
                else sk)
      in sk\<lparr>active_flags := AF_X OR AF_Y\<rparr>)"

definition corexz_stepper_plus_calc_position :: "real \<Rightarrow> move list \<Rightarrow> nat \<Rightarrow> real \<Rightarrow> real" where
  "corexz_stepper_plus_calc_position c ms i move_time =
     (let c = move_get_coord (ms ! i) move_time in coord_x c + coord_z c)"

definition corexz_stepper_minus_calc_position :: "real \<Rightarrow> move list \<Rightarrow> nat \<Rightarrow> real \<Rightarrow> real" where
  "corexz_stepper_minus_calc_position c ms i move_time =
     (let c = move_get_coord (ms ! i) move_time in coord_x c - coord_z c)"

definition corexz_stepper_alloc :: "char \<Rightarrow> stepper_kinematics" where
  "corexz_stepper_alloc type =
     (let sk = zero_sk;
          sk = (if type = CHR ''+'' then sk\<lparr>calc_position_cb := corexz_stepper_plus_calc_position\<rparr>
                else if type = CHR ''-'' then sk\<lparr>calc_position_cb := corexz_stepper_minus_calc_position\<rparr>
                else sk)
      in sk\<lparr>active_flags := AF_X OR AF_Z\<rparr>)"

subsection \<open>Machines with arms and cables\<close>

record delta_stepper =
  ds_arm2 :: real
  tower_x :: real
  tower_y :: real

definition delta_stepper_calc_position :: "delta_stepper \<Rightarrow> real \<Rightarrow> move list \<Rightarrow> nat \<Rightarrow> real \<Rightarrow> real" where
  "delta_stepper_calc_position ds c ms i move_time =
     (let c = move_get_coord (ms ! i) move_time; dx = tower_x ds - coord_x c; dy = tower_y ds - coord_y c
      in sqrt (ds_arm2 ds - dx * dx - dy * dy) + coord_z c)"

definition delta_stepper_alloc :: "real \<Rightarrow> real \<Rightarrow> real \<Rightarrow> stepper_kinematics" where
  "delta_stepper_alloc arm2 x y =
     zero_sk\<lparr>calc_position_cb := delta_stepper_calc_position \<lparr>ds_arm2 = arm2, tower_x = x, tower_y = y\<rparr>,
             active_flags := AF_X OR AF_Y OR AF_Z\<rparr>"

record deltesian_stepper =
  dt_arm2 :: real
  arm_x :: real

definition deltesian_stepper_calc_position :: "deltesian_stepper \<Rightarrow> real \<Rightarrow> move list \<Rightarrow> nat \<Rightarrow> real \<Rightarrow> real" where
  "deltesian_stepper_calc_position ds c ms i move_time =
     (let c = move_get_coord (ms ! i) move_time; dx = coord_x c - arm_x ds
      in sqrt (dt_arm2 ds - dx * dx) + coord_z c)"

definition deltesian_stepper_alloc :: "real \<Rightarrow> real \<Rightarrow> stepper_kinematics" where
  "deltesian_stepper_alloc arm2 x =
     zero_sk\<lparr>calc_position_cb := deltesian_stepper_calc_position \<lparr>dt_arm2 = arm2, arm_x = x\<rparr>, active_flags := AF_X OR AF_Z\<rparr>"

text \<open>The one field of a \<open>struct winch_stepper\<close> is the anchor.\<close>

definition winch_stepper_calc_position :: "coord \<Rightarrow> real \<Rightarrow> move list \<Rightarrow> nat \<Rightarrow> real \<Rightarrow> real" where
  "winch_stepper_calc_position anchor c ms i move_time =
     (let c = move_get_coord (ms ! i) move_time;
          dx = coord_x anchor - coord_x c; dy = coord_y anchor - coord_y c; dz = coord_z anchor - coord_z c
      in sqrt (dx * dx + dy * dy + dz * dz))"

definition winch_stepper_alloc :: "real \<Rightarrow> real \<Rightarrow> real \<Rightarrow> stepper_kinematics" where
  "winch_stepper_alloc x y z =
     zero_sk\<lparr>calc_position_cb := winch_stepper_calc_position \<lparr>coord_x = x, coord_y = y, coord_z = z\<rparr>,
             active_flags := AF_X OR AF_Y OR AF_Z\<rparr>"

text \<open>\<open>atan2\<close> of the C library: the argument of a complex number, zero for the origin.\<close>

definition atan2 :: "real \<Rightarrow> real \<Rightarrow> real" where
  "atan2 y x = Arg (Complex x y)"

definition polar_stepper_radius_calc_position :: "real \<Rightarrow> move list \<Rightarrow> nat \<Rightarrow> real \<Rightarrow> real" where
  "polar_stepper_radius_calc_position c ms i move_time =
     (let c = move_get_coord (ms ! i) move_time in sqrt (coord_x c * coord_x c + coord_y c * coord_y c))"

definition polar_stepper_angle_calc_position :: "real \<Rightarrow> move list \<Rightarrow> nat \<Rightarrow> real \<Rightarrow> real" where
  "polar_stepper_angle_calc_position commanded ms i move_time =
     (let c = move_get_coord (ms ! i) move_time; angle = atan2 (coord_y c) (coord_x c)
      in if angle - commanded > pi then angle - 2 * pi
         else if angle - commanded < - pi then angle + 2 * pi
         else angle)"

definition polar_stepper_angle_post_fixup :: "real \<Rightarrow> real" where
  "polar_stepper_angle_post_fixup commanded =
     (if commanded < - pi then commanded + 2 * pi else if commanded > pi then commanded - 2 * pi else commanded)"

definition polar_stepper_alloc :: "char \<Rightarrow> stepper_kinematics" where
  "polar_stepper_alloc type =
     (let sk = zero_sk;
          sk = (if type = CHR ''r'' then sk\<lparr>calc_position_cb := polar_stepper_radius_calc_position\<rparr>
                else if type = CHR ''a'' then
                  sk\<lparr>calc_position_cb := polar_stepper_angle_calc_position, post_cb := Some polar_stepper_angle_post_fixup\<rparr>
                else sk)
      in sk\<lparr>active_flags := AF_X OR AF_Y\<rparr>)"

definition rotary_two_arm_calc :: "real \<Rightarrow> real \<Rightarrow> real \<Rightarrow> real \<Rightarrow> real" where
  "rotary_two_arm_calc dx dy upper_arm2 lower_arm2 =
     (let inv_dy = 1 / dy;
          c1 = 1 / 2 * inv_dy * (dx * dx + dy * dy + upper_arm2 - lower_arm2);
          c2 = dx * inv_dy;
          scale = c2 * c2 + 1;
          scaled_elbow_x = c1 * c2 + sqrt (scale * upper_arm2 - c1 * c1);
          scaled_elbow_y = c1 * scale - c2 * scaled_elbow_x
      in atan2 scaled_elbow_y scaled_elbow_x)"

record rotary_stepper =
  rs_cos :: real
  rs_sin :: real
  shoulder_radius :: real
  shoulder_height :: real
  upper_arm2 :: real
  lower_arm2 :: real

definition rotary_stepper_calc_position :: "rotary_stepper \<Rightarrow> real \<Rightarrow> move list \<Rightarrow> nat \<Rightarrow> real \<Rightarrow> real" where
  "rotary_stepper_calc_position rs c ms i move_time =
     (let c = move_get_coord (ms ! i) move_time;
          sjz = coord_y c * rs_cos rs - coord_x c * rs_sin rs;
          sjx = coord_x c * rs_cos rs + coord_y c * rs_sin rs - shoulder_radius rs;
          sjy = coord_z c - shoulder_height rs
      in rotary_two_arm_calc sjx sjy (upper_arm2 rs) (lower_arm2 rs - sjz * sjz))"

definition rotary_delta_stepper_alloc :: "real \<Rightarrow> real \<Rightarrow> real \<Rightarrow> real \<Rightarrow> real \<Rightarrow> stepper_kinematics" where
  "rotary_delta_stepper_alloc radius height angle upper_arm lower_arm =
     zero_sk\<lparr>calc_position_cb := rotary_stepper_calc_position
               \<lparr>rs_cos = cos angle, rs_sin = sin angle, shoulder_radius = radius, shoulder_height = height,
                upper_arm2 = upper_arm * upper_arm, lower_arm2 = lower_arm * lower_arm\<rparr>,
             active_flags := AF_X OR AF_Y OR AF_Z\<rparr>"

subsection \<open>The input shaper\<close>

text \<open>
  The pulses in use of a \<open>struct shaper_pulses\<close>. The two walks over the neighbours of a move are \<open>None\<close> when they leave the list, where the C code
  reads the root of the list as a move.
\<close>

record pulse =
  pulse_t :: real
  pulse_a :: real

abbreviation (input) MAX_PULSES :: int where "MAX_PULSES \<equiv> 5"
abbreviation (input) DUMMY_T :: real where "DUMMY_T \<equiv> 500"

definition shift_pulses :: "pulse list \<Rightarrow> pulse list" where
  "shift_pulses sp =
     (let ts = sum_list (map (\<lambda>p. pulse_a p * pulse_t p) sp) in map (\<lambda>p. p\<lparr>pulse_t := pulse_t p - ts\<rparr>) sp)"

definition init_shaper :: "int \<Rightarrow> real list \<Rightarrow> real list \<Rightarrow> int \<times> pulse list" where
  "init_shaper n a t =
     (if n < 0 \<or> n > MAX_PULSES then (- 1, [])
      else (let inv_a = 1 / sum_list (take (nat n) a)
            in (0, shift_pulses (rev (map (\<lambda>i. \<lparr>pulse_t = - (t ! i), pulse_a = a ! i * inv_a\<rparr>) [0..<nat n])))))"

definition coord_axis :: "char \<Rightarrow> coord \<Rightarrow> real" where
  "coord_axis axis c = (if axis = CHR ''x'' then coord_x c else if axis = CHR ''y'' then coord_y c else coord_z c)"

definition get_axis_position :: "move \<Rightarrow> char \<Rightarrow> real \<Rightarrow> real" where
  "get_axis_position m axis move_time =
     coord_axis axis (start_pos m) + coord_axis axis (axes_r m) * move_get_distance m move_time"

fun walk_back :: "move list \<Rightarrow> nat \<Rightarrow> real \<Rightarrow> (nat \<times> real) option" where
  "walk_back ms i time =
     (if time < 0 then (case i of 0 \<Rightarrow> None | Suc j \<Rightarrow> walk_back ms j (time + move_t (ms ! j))) else Some (i, time))"

function walk_on :: "move list \<Rightarrow> nat \<Rightarrow> real \<Rightarrow> (nat \<times> real) option" where
  "walk_on ms i time =
     (if i \<ge> length ms then None
      else if time > move_t (ms ! i) then walk_on ms (Suc i) (time - move_t (ms ! i)) else Some (i, time))"
  by pat_completeness auto
termination by (relation "measure (\<lambda>(ms, i, time). length ms - i)") auto

declare walk_back.simps [simp del] walk_on.simps [simp del]

definition get_axis_position_across_moves :: "move list \<Rightarrow> nat \<Rightarrow> char \<Rightarrow> real \<Rightarrow> real option" where
  "get_axis_position_across_moves ms i axis time =
     (case walk_back ms i time of
        None \<Rightarrow> None
      | Some (j, time) \<Rightarrow>
          (case walk_on ms j time of None \<Rightarrow> None | Some (k, time) \<Rightarrow> Some (get_axis_position (ms ! k) axis time)))"

fun add_pulses :: "move list \<Rightarrow> nat \<Rightarrow> char \<Rightarrow> real \<Rightarrow> real \<Rightarrow> pulse list \<Rightarrow> real option" where
  "add_pulses ms i axis move_time res [] = Some res"
| "add_pulses ms i axis move_time res (p # sp) =
     (case get_axis_position_across_moves ms i axis (move_time + pulse_t p) of
        None \<Rightarrow> None
      | Some x \<Rightarrow> add_pulses ms i axis move_time (res + pulse_a p * x) sp)"

definition calc_position :: "move list \<Rightarrow> nat \<Rightarrow> char \<Rightarrow> real \<Rightarrow> pulse list \<Rightarrow> real option" where
  "calc_position ms i axis move_time sp = add_pulses ms i axis move_time 0 sp"

text \<open>
  A \<open>struct input_shaper\<close>. Its callback is one of three functions that read the structure itself, so that it is kept as its name;
  \<open>shaper_stepper\<close> is the stepper the solver works with. The coordinates that a call leaves in the move \<open>m\<close>, where only the next call
  writes, are not kept.
\<close>

datatype shaper_cb = No_shaper | Shaper_x | Shaper_y | Shaper_xy

record input_shaper =
  is_sk :: stepper_kinematics
  is_cb :: shaper_cb
  is_orig :: stepper_kinematics
  is_m :: move
  is_sx :: "pulse list"
  is_sy :: "pulse list"

definition orig_position :: "stepper_kinematics \<Rightarrow> move list \<Rightarrow> nat \<Rightarrow> real \<Rightarrow> real" where
  "orig_position sk ms i t = calc_position_cb sk (commanded_pos sk) ms i t"

definition shaper_x_calc_position :: "input_shaper \<Rightarrow> move list \<Rightarrow> nat \<Rightarrow> real \<Rightarrow> real option" where
  "shaper_x_calc_position is ms i move_time =
     (if is_sx is = [] then Some (orig_position (is_orig is) ms i move_time)
      else map_option (\<lambda>x. orig_position (is_orig is) [(is_m is)\<lparr>start_pos := (start_pos (is_m is))\<lparr>coord_x := x\<rparr>\<rparr>] 0 DUMMY_T)
             (calc_position ms i CHR ''x'' move_time (is_sx is)))"

definition shaper_y_calc_position :: "input_shaper \<Rightarrow> move list \<Rightarrow> nat \<Rightarrow> real \<Rightarrow> real option" where
  "shaper_y_calc_position is ms i move_time =
     (if is_sy is = [] then Some (orig_position (is_orig is) ms i move_time)
      else map_option (\<lambda>y. orig_position (is_orig is) [(is_m is)\<lparr>start_pos := (start_pos (is_m is))\<lparr>coord_y := y\<rparr>\<rparr>] 0 DUMMY_T)
             (calc_position ms i CHR ''y'' move_time (is_sy is)))"

definition shaper_xy_calc_position :: "input_shaper \<Rightarrow> move list \<Rightarrow> nat \<Rightarrow> real \<Rightarrow> real option" where
  "shaper_xy_calc_position is ms i move_time =
     (if is_sx is = [] \<and> is_sy is = [] then Some (orig_position (is_orig is) ms i move_time)
      else (let c = move_get_coord (ms ! i) move_time
            in case (if is_sx is \<noteq> [] then calc_position ms i CHR ''x'' move_time (is_sx is) else Some (coord_x c)) of
                 None \<Rightarrow> None
               | Some x \<Rightarrow>
                   (case (if is_sy is \<noteq> [] then calc_position ms i CHR ''y'' move_time (is_sy is) else Some (coord_y c)) of
                      None \<Rightarrow> None
                    | Some y \<Rightarrow>
                        Some (orig_position (is_orig is) [(is_m is)\<lparr>start_pos := c\<lparr>coord_x := x, coord_y := y\<rparr>\<rparr>] 0 DUMMY_T))))"

definition shaper_position :: "input_shaper \<Rightarrow> move list \<Rightarrow> nat \<Rightarrow> real \<Rightarrow> real option" where
  "shaper_position is ms i t =
     (case is_cb is of
        No_shaper \<Rightarrow> None
      | Shaper_x \<Rightarrow> shaper_x_calc_position is ms i t
      | Shaper_y \<Rightarrow> shaper_y_calc_position is ms i t
      | Shaper_xy \<Rightarrow> shaper_xy_calc_position is ms i t)"

definition shaper_stepper :: "input_shaper \<Rightarrow> stepper_kinematics" where
  "shaper_stepper is = (is_sk is)\<lparr>calc_position_cb := (\<lambda>c ms i t. the (shaper_position is ms i t))\<rparr>"

definition input_shaper_set_sk :: "stepper_kinematics \<Rightarrow> input_shaper \<Rightarrow> int \<times> input_shaper" where
  "input_shaper_set_sk orig is =
     (let bind = (\<lambda>cb. (0, is\<lparr>is_cb := cb, is_orig := orig,
            is_sk := (is_sk is)\<lparr>active_flags := active_flags orig, commanded_pos := commanded_pos orig,
              last_flush_time := last_flush_time orig, last_move_time := last_move_time orig\<rparr>\<rparr>))
      in if active_flags orig = AF_X then bind Shaper_x
         else if active_flags orig = AF_Y then bind Shaper_y
         else if active_flags orig AND (AF_X OR AF_Y) \<noteq> 0 then bind Shaper_xy
         else (- 1, is))"

definition shaper_note_generation_time :: "input_shaper \<Rightarrow> input_shaper" where
  "shaper_note_generation_time is =
     (let (pre, post) =
            (if active_flags (is_sk is) AND AF_X \<noteq> 0 \<and> is_sx is \<noteq> []
             then (pulse_t (last (is_sx is)), - pulse_t (hd (is_sx is))) else (0, 0));
          (pre, post) =
            (if active_flags (is_sk is) AND AF_Y \<noteq> 0 \<and> is_sy is \<noteq> []
             then (if pulse_t (last (is_sy is)) > pre then pulse_t (last (is_sy is)) else pre,
                   if - pulse_t (hd (is_sy is)) > post then - pulse_t (hd (is_sy is)) else post)
             else (pre, post))
      in is\<lparr>is_sk := (is_sk is)\<lparr>gen_steps_pre_active := pre, gen_steps_post_active := post\<rparr>\<rparr>)"

definition input_shaper_set_shaper_params :: "char \<Rightarrow> int \<Rightarrow> real list \<Rightarrow> real list \<Rightarrow> input_shaper \<Rightarrow> int \<times> input_shaper" where
  "input_shaper_set_shaper_params axis n a t is =
     (if axis \<noteq> CHR ''x'' \<and> axis \<noteq> CHR ''y'' then (- 1, is)
      else if active_flags (is_orig is) AND (if axis = CHR ''x'' then AF_X else AF_Y) \<noteq> 0 then
        (let (status, sp) = init_shaper n a t
         in (status, shaper_note_generation_time (if axis = CHR ''x'' then is\<lparr>is_sx := sp\<rparr> else is\<lparr>is_sy := sp\<rparr>)))
      else (0, is))"

definition input_shaper_get_step_generation_window :: "input_shaper \<Rightarrow> real" where
  "input_shaper_get_step_generation_window is =
     (if gen_steps_pre_active (is_sk is) > gen_steps_post_active (is_sk is)
      then gen_steps_pre_active (is_sk is) else gen_steps_post_active (is_sk is))"

definition input_shaper_alloc :: input_shaper where
  "input_shaper_alloc =
     \<lparr>is_sk = zero_sk, is_cb = No_shaper, is_orig = zero_sk, is_m = zero_move\<lparr>move_t := 2 * DUMMY_T\<rparr>, is_sx = [], is_sy = []\<rparr>"

subsection \<open>The second carriage\<close>

record dual_carriage_stepper =
  dc_sk :: stepper_kinematics
  dc_orig :: stepper_kinematics
  dc_m :: move
  x_scale :: real
  x_offs :: real
  y_scale :: real
  y_offs :: real

definition dual_carriage_calc_position :: "dual_carriage_stepper \<Rightarrow> move list \<Rightarrow> nat \<Rightarrow> real \<Rightarrow> real" where
  "dual_carriage_calc_position dc ms i move_time =
     (let p = move_get_coord (ms ! i) move_time
      in orig_position (dc_orig dc)
           [(dc_m dc)\<lparr>start_pos := \<lparr>coord_x = coord_x p * x_scale dc + x_offs dc, coord_y = coord_y p * y_scale dc + y_offs dc,
                                   coord_z = coord_z p\<rparr>\<rparr>] 0 DUMMY_T)"

definition dual_carriage_set_sk :: "stepper_kinematics \<Rightarrow> dual_carriage_stepper \<Rightarrow> dual_carriage_stepper" where
  "dual_carriage_set_sk orig dc = dc\<lparr>dc_sk := (dc_sk dc)\<lparr>active_flags := active_flags orig\<rparr>, dc_orig := orig\<rparr>"

text \<open>The stepper the solver works with once \<open>dual_carriage_set_sk\<close> has set the callback.\<close>

definition dual_carriage_sk :: "dual_carriage_stepper \<Rightarrow> stepper_kinematics" where
  "dual_carriage_sk dc = (dc_sk dc)\<lparr>calc_position_cb := (\<lambda>c. dual_carriage_calc_position dc)\<rparr>"

definition scale_flags :: "real \<Rightarrow> u32 \<Rightarrow> dual_carriage_stepper \<Rightarrow> dual_carriage_stepper" where
  "scale_flags scale axis_flag dc =
     (if scale = 0 then dc\<lparr>dc_sk := (dc_sk dc)\<lparr>active_flags := active_flags (dc_sk dc) AND NOT axis_flag\<rparr>\<rparr>
      else if active_flags (dc_orig dc) AND axis_flag \<noteq> 0
      then dc\<lparr>dc_sk := (dc_sk dc)\<lparr>active_flags := active_flags (dc_sk dc) OR axis_flag\<rparr>\<rparr>
      else dc)"

definition dual_carriage_set_transform :: "char \<Rightarrow> real \<Rightarrow> real \<Rightarrow> dual_carriage_stepper \<Rightarrow> int \<times> dual_carriage_stepper" where
  "dual_carriage_set_transform axis scale offs dc =
     (if axis = CHR ''x'' then (0, scale_flags scale AF_X (dc\<lparr>x_scale := scale, x_offs := offs\<rparr>))
      else if axis = CHR ''y'' then (0, scale_flags scale AF_Y (dc\<lparr>y_scale := scale, y_offs := offs\<rparr>))
      else (- 1, dc))"

definition dual_carriage_alloc :: dual_carriage_stepper where
  "dual_carriage_alloc =
     \<lparr>dc_sk = zero_sk, dc_orig = zero_sk, dc_m = zero_move\<lparr>move_t := 2 * DUMMY_T\<rparr>, x_scale = 0, x_offs = 0, y_scale = 0, y_offs = 0\<rparr>"

subsection \<open>The extruder\<close>

definition extruder_integrate :: "real \<Rightarrow> real \<Rightarrow> real \<Rightarrow> real \<Rightarrow> real \<Rightarrow> real" where
  "extruder_integrate base v ha start end =
     (let half_v = 1 / 2 * v; sixth_a = 1 / 3 * ha;
          si = start * (base + start * (half_v + start * sixth_a));
          ei = end * (base + end * (half_v + end * sixth_a))
      in ei - si)"

definition extruder_integrate_time :: "real \<Rightarrow> real \<Rightarrow> real \<Rightarrow> real \<Rightarrow> real \<Rightarrow> real" where
  "extruder_integrate_time base v ha start end =
     (let half_b = 1 / 2 * base; third_v = 1 / 3 * v; eighth_a = 1 / 4 * ha;
          si = start * start * (half_b + start * (third_v + start * eighth_a));
          ei = end * end * (half_b + end * (third_v + end * eighth_a))
      in ei - si)"

definition pa_move_integrate :: "move \<Rightarrow> real \<Rightarrow> real \<Rightarrow> real \<Rightarrow> real \<Rightarrow> real \<Rightarrow> real" where
  "pa_move_integrate m pressure_advance base start end time_offset =
     (let start = (if start < 0 then 0 else start);
          end = (if end > move_t m then move_t m else end);
          pressure_advance = (if coord_y (axes_r m) \<noteq> 0 then pressure_advance else 0);
          base = base + pressure_advance * start_v m;
          v = start_v m + pressure_advance * 2 * half_accel m;
          ha = half_accel m;
          iext = extruder_integrate base v ha start end;
          wgt_ext = extruder_integrate_time base v ha start end
      in wgt_ext - time_offset * iext)"

text \<open>The two loops over the neighbours of the move \<open>i\<close>; \<open>None\<close> when they leave the list.\<close>

fun pa_back :: "move list \<Rightarrow> real \<Rightarrow> real \<Rightarrow> nat \<Rightarrow> real \<Rightarrow> real \<Rightarrow> real option" where
  "pa_back ms pa start_base i start res =
     (if start < 0 then
        (case i of
           0 \<Rightarrow> None
         | Suc j \<Rightarrow>
             (let prev = ms ! j; start = start + move_t prev; base = coord_x (start_pos prev) - start_base
              in pa_back ms pa start_base j start (res + pa_move_integrate prev pa base start (move_t prev) start)))
      else Some res)"

function pa_on :: "move list \<Rightarrow> real \<Rightarrow> real \<Rightarrow> nat \<Rightarrow> real \<Rightarrow> real \<Rightarrow> real option" where
  "pa_on ms pa start_base i end res =
     (if i \<ge> length ms then None
      else if end > move_t (ms ! i) then
        (if Suc i \<ge> length ms then None
         else (let end = end - move_t (ms ! i); m = ms ! Suc i; base = coord_x (start_pos m) - start_base
               in pa_on ms pa start_base (Suc i) end (res - pa_move_integrate m pa base 0 end end)))
      else Some res)"
  by pat_completeness auto
termination by (relation "measure (\<lambda>(ms, pa, start_base, i, end, res). length ms - i)") auto

declare pa_back.simps [simp del] pa_on.simps [simp del]

definition pa_range_integrate :: "move list \<Rightarrow> nat \<Rightarrow> real \<Rightarrow> real \<Rightarrow> real \<Rightarrow> real option" where
  "pa_range_integrate ms i move_time pa hst =
     (let m = ms ! i; start = move_time - hst; end = move_time + hst; start_base = coord_x (start_pos m);
          res = 0 + pa_move_integrate m pa 0 start move_time start;
          res = res - pa_move_integrate m pa 0 move_time end end
      in case pa_back ms pa start_base i start res of None \<Rightarrow> None | Some res \<Rightarrow> pa_on ms pa start_base i end res)"

record extruder_stepper =
  es_sk :: stepper_kinematics
  pressure_advance :: real
  half_smooth_time :: real
  inv_half_smooth_time2 :: real

definition extruder_calc_position :: "extruder_stepper \<Rightarrow> move list \<Rightarrow> nat \<Rightarrow> real \<Rightarrow> real option" where
  "extruder_calc_position es ms i move_time =
     (let hst = half_smooth_time es; m = ms ! i
      in if hst = 0 then Some (coord_x (start_pos m) + move_get_distance m move_time)
         else map_option (\<lambda>area. coord_x (start_pos m) + area * inv_half_smooth_time2 es)
                (pa_range_integrate ms i move_time (pressure_advance es) hst))"

definition extruder_sk :: "extruder_stepper \<Rightarrow> stepper_kinematics" where
  "extruder_sk es = (es_sk es)\<lparr>calc_position_cb := (\<lambda>c ms i t. the (extruder_calc_position es ms i t))\<rparr>"

definition extruder_set_pressure_advance :: "real \<Rightarrow> real \<Rightarrow> extruder_stepper \<Rightarrow> extruder_stepper" where
  "extruder_set_pressure_advance pa smooth_time es =
     (let hst = smooth_time * (1 / 2);
          es = es\<lparr>half_smooth_time := hst, es_sk := (es_sk es)\<lparr>gen_steps_pre_active := hst, gen_steps_post_active := hst\<rparr>\<rparr>
      in if hst = 0 then es else es\<lparr>inv_half_smooth_time2 := 1 / (hst * hst), pressure_advance := pa\<rparr>)"

definition extruder_stepper_alloc :: extruder_stepper where
  "extruder_stepper_alloc =
     \<lparr>es_sk = zero_sk\<lparr>active_flags := AF_X\<rparr>, pressure_advance = 0, half_smooth_time = 0, inv_half_smooth_time2 = 0\<rparr>"

subsection \<open>Linear kinematics follow the queue\<close>

text \<open>
  The kinds of stepper whose position is a linear combination of the coordinates, with the coefficients \<open>a\<close>; the stepper is
  active whenever a coordinate with a coefficient moves.
\<close>

definition dot :: "coord \<Rightarrow> coord \<Rightarrow> real" where
  "dot a c = coord_x a * coord_x c + coord_y a * coord_y c + coord_z a * coord_z c"

definition linear_sk :: "coord \<Rightarrow> stepper_kinematics \<Rightarrow> bool" where
  "linear_sk a sk \<longleftrightarrow> calc_position_cb sk = (\<lambda>c ms i t. dot a (move_get_coord (ms ! i) t)) \<and> post_cb sk = None \<and>
     gen_steps_pre_active sk = 0 \<and> gen_steps_post_active sk = 0 \<and>
     (coord_x a \<noteq> 0 \<longrightarrow> active_flags sk AND AF_X \<noteq> 0) \<and> (coord_y a \<noteq> 0 \<longrightarrow> active_flags sk AND AF_Y \<noteq> 0) \<and>
     (coord_z a \<noteq> 0 \<longrightarrow> active_flags sk AND AF_Z \<noteq> 0)"

lemmas linear_allocs = cartesian_stepper_alloc_def corexy_stepper_alloc_def corexz_stepper_alloc_def
  cart_stepper_x_calc_position_def cart_stepper_y_calc_position_def cart_stepper_z_calc_position_def
  corexy_stepper_plus_calc_position_def corexy_stepper_minus_calc_position_def corexz_stepper_plus_calc_position_def
  corexz_stepper_minus_calc_position_def zero_sk_def Let_def fun_eq_iff

lemma linear_steppers:
  "linear_sk \<lparr>coord_x = 1, coord_y = 0, coord_z = 0\<rparr> (cartesian_stepper_alloc CHR ''x'')"
  "linear_sk \<lparr>coord_x = 0, coord_y = 1, coord_z = 0\<rparr> (cartesian_stepper_alloc CHR ''y'')"
  "linear_sk \<lparr>coord_x = 0, coord_y = 0, coord_z = 1\<rparr> (cartesian_stepper_alloc CHR ''z'')"
  "linear_sk \<lparr>coord_x = 1, coord_y = 1, coord_z = 0\<rparr> (corexy_stepper_alloc CHR ''+'')"
  "linear_sk \<lparr>coord_x = 1, coord_y = - 1, coord_z = 0\<rparr> (corexy_stepper_alloc CHR ''-'')"
  "linear_sk \<lparr>coord_x = 1, coord_y = 0, coord_z = 1\<rparr> (corexz_stepper_alloc CHR ''+'')"
  "linear_sk \<lparr>coord_x = 1, coord_y = 0, coord_z = - 1\<rparr> (corexz_stepper_alloc CHR ''-'')"
  by (simp_all add: linear_sk_def dot_def linear_allocs)

lemma dot_coord: "dot a (move_get_coord m t) = dot a (start_pos m) + dot a (axes_r m) * move_get_distance m t"
  by (simp add: dot_def move_get_coord_def Let_def algebra_simps)

text \<open>The speed bound of a move along \<open>a\<close>, and a step that is large enough for it.\<close>

definition top_speed :: "coord \<Rightarrow> move \<Rightarrow> real" where
  "top_speed a m = \<bar>dot a (axes_r m)\<bar> * (\<bar>start_v m\<bar> + 2 * \<bar>half_accel m\<bar> * \<bar>move_t m\<bar>) + 1"

definition safe_half :: "real \<Rightarrow> real" where
  "safe_half L = 1 / 100000000 + L * SEEK_EPS"

lemma top_speed_pos: "1 \<le> top_speed a m"
  by (simp add: top_speed_def)

lemma distance_lipschitz:
  assumes "0 \<le> s" "s \<le> \<bar>move_t m\<bar>" "0 \<le> t" "t \<le> \<bar>move_t m\<bar>"
  shows "\<bar>move_get_distance m s - move_get_distance m t\<bar> \<le> (\<bar>start_v m\<bar> + 2 * \<bar>half_accel m\<bar> * \<bar>move_t m\<bar>) * \<bar>s - t\<bar>"
proof -
  have "move_get_distance m s - move_get_distance m t = (start_v m + half_accel m * (s + t)) * (s - t)"
    by (simp add: move_get_distance_def algebra_simps)
  then have "\<bar>move_get_distance m s - move_get_distance m t\<bar> = \<bar>start_v m + half_accel m * (s + t)\<bar> * \<bar>s - t\<bar>"
    by (simp add: abs_mult)
  moreover have "\<bar>half_accel m * (s + t)\<bar> \<le> \<bar>half_accel m\<bar> * (2 * \<bar>move_t m\<bar>)"
    using assms unfolding abs_mult by (intro mult_left_mono) auto
  then have "\<bar>start_v m + half_accel m * (s + t)\<bar> \<le> \<bar>start_v m\<bar> + 2 * \<bar>half_accel m\<bar> * \<bar>move_t m\<bar>" by linarith
  ultimately show ?thesis by (simp add: mult_right_mono)
qed

interpretation line: motion "\<lambda>t. dot a (move_get_coord m t)" 0 "\<bar>move_t m\<bar>" "top_speed a m" "max h (safe_half (top_speed a m))"
  for a m h
proof
  fix s t :: real
  assume st: "0 \<le> s" "s \<le> \<bar>move_t m\<bar>" "0 \<le> t" "t \<le> \<bar>move_t m\<bar>"
  have "dot a (move_get_coord m s) - dot a (move_get_coord m t) = dot a (axes_r m) * (move_get_distance m s - move_get_distance m t)"
    by (simp add: dot_coord algebra_simps)
  then have "\<bar>dot a (move_get_coord m s) - dot a (move_get_coord m t)\<bar> =
      \<bar>dot a (axes_r m)\<bar> * \<bar>move_get_distance m s - move_get_distance m t\<bar>" by (simp add: abs_mult)
  also have "\<dots> \<le> \<bar>dot a (axes_r m)\<bar> * ((\<bar>start_v m\<bar> + 2 * \<bar>half_accel m\<bar> * \<bar>move_t m\<bar>) * \<bar>s - t\<bar>)"
    by (rule mult_left_mono [OF distance_lipschitz [OF st] abs_ge_zero])
  also have "\<dots> \<le> top_speed a m * \<bar>s - t\<bar>" by (simp add: top_speed_def algebra_simps)
  finally show "\<bar>dot a (move_get_coord m s) - dot a (move_get_coord m t)\<bar> \<le> top_speed a m * \<bar>s - t\<bar>" .
next
  show "0 < top_speed a m" using top_speed_pos [of a m] by linarith
next
  have "1 / 100000000 + SEEK_EPS + 2 * top_speed a m * SEEK_EPS < 2 * safe_half (top_speed a m)"
    by (simp add: safe_half_def)
  then show "1 / 100000000 + SEEK_EPS + 2 * top_speed a m * SEEK_EPS < 2 * max h (safe_half (top_speed a m))"
    by (rule order_less_le_trans) simp
qed simp

lemma range_keeps_linear:
  assumes "itersolve_gen_steps_range n ms i a b sk = Ret (Some 0) sk'"
  shows "linear_sk v sk' \<longleftrightarrow> linear_sk v sk" "step_dist sk' = step_dist sk"
proof -
  obtain k where "sk' = finish_range sk (Finished k) (sk_sc sk')" using assms by (rule itersolve_range_cases)
  then have eq: "sk' = sk\<lparr>sk_sc := sk_sc sk', commanded_pos := commanded_pos sk'\<rparr>"
    by (cases sk', cases sk) (auto simp: finish_range_def Let_def)
  have "calc_position_cb sk' = calc_position_cb sk \<and> post_cb sk' = post_cb sk \<and> active_flags sk' = active_flags sk \<and>
    gen_steps_pre_active sk' = gen_steps_pre_active sk \<and> gen_steps_post_active sk' = gen_steps_post_active sk \<and> step_dist sk' = step_dist sk"
    by (subst (1 2 3 4 5 6) eq) simp
  then show "linear_sk v sk' \<longleftrightarrow> linear_sk v sk" "step_dist sk' = step_dist sk" by (simp_all add: linear_sk_def)
qed

text \<open>A range that is empty generates nothing.\<close>

lemma empty_range:
  assumes run: "itersolve_gen_steps_range n ms i a b sk = Ret (Some 0) sk'" and "post_cb sk = None"
    and "range_end ms i b \<le> range_start ms i a"
  shows "commanded_pos sk' = commanded_pos sk"
proof -
  let ?k = "range_seek sk ms i a b"
  have "next_guess (range_end ms i b) ?k = None"
    using assms(3) by (simp add: next_guess_def range_seek_def seek_start_def Let_def secant_ok_def)
  then have r: "seek_round (half_step_of sk) (range_end ms i b) (range_position sk ms i) ?k = Seek_end"
    by (simp add: seek_round_def)
  from run obtain k where k: "gen_loop n (half_step_of sk) (range_end ms i b) (print_time (ms ! i)) (range_position sk ms i)
      ?k (sk_sc sk) = Ret (Finished k) (sk_sc sk')" "sk' = finish_range sk (Finished k) (sk_sc sk')"
    by (rule itersolve_range_cases)
  have c: "commanded_pos sk' = target k - (if seek_dir k then half_step_of sk else - half_step_of sk)"
    using assms(2) by (subst k(2)) (simp add: finish_range_def Let_def)
  have "k = ?k" using k(1) r by (cases n) (auto simp: op_simps)
  then show ?thesis using c by (simp add: range_seek_def seek_start_def Let_def)
qed

text \<open>The commanded position of a stepper is within half a step of a position, up to the tolerance.\<close>

definition near :: "real \<Rightarrow> stepper_kinematics \<Rightarrow> real \<Rightarrow> bool" where
  "near tol sk x \<longleftrightarrow> \<bar>x - commanded_pos sk\<bar> \<le> half_step_of sk + tol"

end
