(* ===== verification/Kinematics_Follow.thy ===== *)
theory Kinematics_Follow
  imports Kinematics
begin

text \<open>
  Steppers whose position is linear in the coordinates follow the trapezoidal queue: \<open>itersolve_generate_steps\<close>, from flush to flush, keeps
  the commanded position within half a step of the position of the queue.
\<close>

lemma near_update [simp]: "near tol (sk\<lparr>last_move_time := x\<rparr>) y \<longleftrightarrow> near tol sk y" "near tol (sk\<lparr>last_flush_time := x\<rparr>) y \<longleftrightarrow> near tol sk y"
    "near tol (sk\<lparr>sk_tq := q\<rparr>) y \<longleftrightarrow> near tol sk y"
  and linear_sk_update [simp]: "linear_sk a (sk\<lparr>last_move_time := x\<rparr>) \<longleftrightarrow> linear_sk a sk" "linear_sk a (sk\<lparr>last_flush_time := x\<rparr>) \<longleftrightarrow> linear_sk a sk"
    "linear_sk a (sk\<lparr>sk_tq := q\<rparr>) \<longleftrightarrow> linear_sk a sk"
  and half_step_of_update [simp]: "half_step_of (sk\<lparr>last_move_time := x\<rparr>) = half_step_of sk" "half_step_of (sk\<lparr>last_flush_time := x\<rparr>) = half_step_of sk"
    "half_step_of (sk\<lparr>sk_tq := q\<rparr>) = half_step_of sk"
  by (simp_all add: near_def linear_sk_def half_step_of_def)

lemma linear_range:
  assumes run: "itersolve_gen_steps_range n ms i lf b sk = Ret (Some 0) sk'" and lin: "linear_sk a sk"
    and mt: "0 \<le> move_t (ms ! i)" and slow: "top_speed a (ms ! i) \<le> L" and half: "safe_half L \<le> half_step_of sk"
    and near: "near (seek_tol L) sk (dot a (move_get_coord (ms ! i) (range_start ms i lf)))"
    and le: "range_start ms i lf \<le> range_end ms i b"
  shows "near (seek_tol L) sk' (dot a (move_get_coord (ms ! i) (range_end ms i b)))"
proof -
  let ?m = "ms ! i"
  have pos: "range_position sk ms i = (\<lambda>t. dot a (move_get_coord ?m t))"
    using lin by (simp add: range_position_def linear_sk_def)
  have mx: "max (half_step_of sk) (safe_half (top_speed a ?m)) = half_step_of sk" using half slow by (simp add: safe_half_def)
  have b: "0 \<le> range_start ms i lf" "range_end ms i b \<le> \<bar>move_t ?m\<bar>" using mt by (auto simp: range_start_def range_end_def)
  have m: "motion (range_position sk ms i) (range_start ms i lf) (range_end ms i b) (top_speed a ?m) (half_step_of sk)"
    using line.motion_part [OF b(1) le b(2), where h = "half_step_of sk" and a = a] unfolding pos mx .
  have "motion (range_position sk ms i) (range_start ms i lf) (range_end ms i b) L (half_step_of sk)"
    by (rule motion.motion_faster [OF m slow]) (use half in \<open>simp add: safe_half_def\<close>)
  from range_followed [OF this run] show ?thesis
    using lin near range_keeps_linear(2) [OF run] by (auto simp: pos near_def linear_sk_def half_step_of_def Let_def)
qed

text \<open>A move that does not make a stepper active does not change its position.\<close>

lemma inactive_still:
  assumes "linear_sk a sk" "\<not> check_active sk m"
  shows "dot a (move_get_coord m t) = dot a (start_pos m)"
proof -
  have "coord_x a * coord_x (axes_r m) = 0" "coord_y a * coord_y (axes_r m) = 0" "coord_z a * coord_z (axes_r m) = 0"
    using assms by (auto simp: linear_sk_def check_active_def)
  then have "dot a (axes_r m) = 0" by (simp only: dot_def)
  then show ?thesis by (simp add: dot_coord)
qed

lemma still_range:
  assumes run: "itersolve_gen_steps_range n ms i lf b sk = Ret (Some 0) sk'" and lin: "linear_sk a sk" "\<not> check_active sk (ms ! i)"
    and ok: "0 \<le> move_t (ms ! i)" "top_speed a (ms ! i) \<le> L" "safe_half L \<le> half_step_of sk"
    and near: "near (seek_tol L) sk (dot a (start_pos (ms ! i)))"
  shows "near (seek_tol L) sk' (dot a (start_pos (ms ! i)))"
proof (cases "range_start ms i lf \<le> range_end ms i b")
  case True
  then show ?thesis using linear_range [OF run lin(1) ok _ True] near by (simp add: inactive_still [OF lin])
next
  case False
  then have "commanded_pos sk' = commanded_pos sk" using empty_range [OF run] lin(1) by (simp add: linear_sk_def)
  then show ?thesis using near range_keeps_linear(2) [OF run] by (simp add: near_def half_step_of_def)
qed

text \<open>
  A queue that a stepper can follow from the move \<open>i0\<close> on: the moves follow one another in time and position, none of them is faster than
  \<open>L\<close>, and half a step is large enough for that speed.
\<close>

definition followable :: "coord \<Rightarrow> real \<Rightarrow> real \<Rightarrow> move list \<Rightarrow> nat \<Rightarrow> bool" where
  "followable a L half ms i0 \<longleftrightarrow> safe_half L \<le> half \<and>
     (\<forall>i. i0 \<le> i \<and> i < length ms \<longrightarrow> 0 \<le> move_t (ms ! i) \<and> top_speed a (ms ! i) \<le> L) \<and>
     (\<forall>i. i0 \<le> i \<and> Suc i < length ms \<longrightarrow> print_time (ms ! Suc i) = ends (ms ! i) \<and>
        dot a (start_pos (ms ! Suc i)) = dot a (move_get_coord (ms ! i) (move_t (ms ! i))))"

lemma followable_Suc: "followable a L half ms i \<Longrightarrow> followable a L half ms (Suc i)"
  by (simp add: followable_def)

lemma start_coord: "dot a (move_get_coord m 0) = dot a (start_pos m)"
  by (simp add: dot_coord move_get_distance_def)

text \<open>The commanded position at the time \<open>t\<close> is near that of the queue.\<close>

definition follows_at :: "coord \<Rightarrow> real \<Rightarrow> move list \<Rightarrow> stepper_kinematics \<Rightarrow> nat \<Rightarrow> real \<Rightarrow> bool" where
  "follows_at a L ms sk i0 t \<longleftrightarrow>
     (\<exists>j. i0 \<le> j \<and> j < length ms \<and> print_time (ms ! j) \<le> t \<and> t \<le> ends (ms ! j) \<and>
        near (seek_tol L) sk (dot a (move_get_coord (ms ! j) (t - print_time (ms ! j)))))"

lemma follows_at_Suc: "follows_at a L ms sk (Suc i) t \<Longrightarrow> follows_at a L ms sk i t"
  by (auto simp: follows_at_def intro: Suc_leD)

lemma bind_get_app: "bind_op (get_op f) F s = F (f s) s"
  by (simp add: op_simps)

lemma gen_moves_still:
  assumes "i < length ms" "\<not> check_active sk (ms ! i)"
  shows "gen_moves n ms lf fl i skip force sk =
    bind_op
      (if print_time (ms ! i) < force
       then bind_op (itersolve_gen_steps_range n ms i lf (if force > fl then fl else force)) (\<lambda>r. ret (r, Suc 0))
       else ret (Some 0, Suc skip)) (\<lambda>(r, skip').
    if r \<noteq> Some 0 then ret r
    else if fl + gen_steps_pre_active sk \<le> ends (ms ! i) then ret (Some 0)
    else gen_moves n ms lf fl (Suc i) skip' force) sk"
  using assms unfolding ends_def by (subst gen_moves.simps) (simp add: bind_get_app Let_def)

lemma gen_moves_follow:
  assumes "gen_moves n ms lf fl i skip force sk = Ret (Some 0) sk'" "linear_sk a sk" "followable a L (half_step_of sk) ms i"
    "print_time (ms ! i) \<le> fl" "lf \<le> fl" "lf < ends (ms ! i)"
    "near (seek_tol L) sk (dot a (move_get_coord (ms ! i) (range_start ms i lf)))"
  shows "follows_at a L ms sk' i fl \<and> half_step_of sk' = half_step_of sk"
  using assms
proof (induction "length ms - i" arbitrary: i skip force sk rule: less_induct)
  case less
  let ?m = "ms ! i"
  have i: "i < length ms" using less.prems(1) by (subst (asm) gen_moves.simps) (auto simp: op_simps split: if_splits)
  have mv: "0 \<le> move_t ?m" "top_speed a ?m \<le> L" "safe_half L \<le> half_step_of sk"
    using less.prems(3) i by (auto simp: followable_def)
  have lin: "linear_sk a sk" "gen_steps_pre_active sk = 0" "gen_steps_post_active sk = 0"
    using less.prems(2) by (auto simp: linear_sk_def)
  have next_move: ?case
    if "gen_moves n ms lf fl (Suc i) skip' force' sk2 = Ret (Some 0) sk'" "linear_sk a sk2" "half_step_of sk2 = half_step_of sk" "ends ?m < fl"
      "near (seek_tol L) sk2 (dot a (move_get_coord ?m (move_t ?m)))" for skip' force' sk2
  proof -
    have i': "Suc i < length ms" using that(1) by (subst (asm) gen_moves.simps) (auto simp: op_simps split: if_splits)
    then have f: "print_time (ms ! Suc i) = ends ?m" "dot a (start_pos (ms ! Suc i)) = dot a (move_get_coord ?m (move_t ?m))"
      "0 \<le> move_t (ms ! Suc i)"
      using less.prems(3) by (auto simp: followable_def)
    have "range_start ms (Suc i) lf = 0" using f less.prems(6) by (simp add: range_start_def)
    then have "follows_at a L ms sk' (Suc i) fl \<and> half_step_of sk' = half_step_of sk2"
      using less.hyps [of "Suc i" skip' force' sk2] that i' f less.prems(3,5,6)
      by (simp add: followable_Suc start_coord ends_def)
    then show ?thesis using follows_at_Suc that(3) by auto
  qed
  have at_end: "range_end ms i fl = (if fl \<le> ends ?m then fl - print_time ?m else move_t ?m)"
    by (auto simp: range_end_def ends_def)
  have here: "follows_at a L ms sk2 i fl \<and> half_step_of sk2 = half_step_of sk"
    if "half_step_of sk2 = half_step_of sk" "near (seek_tol L) sk2 (dot a (move_get_coord ?m (fl - print_time ?m)))" "fl \<le> ends ?m" for sk2
    unfolding follows_at_def using that i less.prems(4) by blast
  show ?case
  proof (cases "check_active sk ?m")
    case True
    have "(if ends ?m \<ge> fl then Ret (Some 0) (sk1\<lparr>last_move_time := fl\<rparr>)
         else gen_moves n ms lf fl (Suc i) 0 (ends ?m) (sk1\<lparr>last_move_time := ends ?m\<rparr>)) = Ret (Some 0) sk' \<and>
       itersolve_gen_steps_range n ms i lf fl sk = Ret (Some 0) sk1" if "itersolve_gen_steps_range n ms i lf fl sk = Ret r sk1" for r sk1
      using less.prems(1) True i that lin
      by (subst (asm) gen_moves.simps) (simp add: op_simps try_sk_def Let_def ends_def split: if_splits)
    moreover obtain r sk1 where "itersolve_gen_steps_range n ms i lf fl sk = Ret r sk1"
      using less.prems(1) True i lin
      by (subst (asm) gen_moves.simps) (auto simp: op_simps try_sk_def Let_def split: outcome.splits)
    ultimately have sk1: "itersolve_gen_steps_range n ms i lf fl sk = Ret (Some 0) sk1"
      "(if ends ?m \<ge> fl then Ret (Some 0) (sk1\<lparr>last_move_time := fl\<rparr>)
         else gen_moves n ms lf fl (Suc i) 0 (ends ?m) (sk1\<lparr>last_move_time := ends ?m\<rparr>)) = Ret (Some 0) sk'" by blast+
    have "range_start ms i lf \<le> range_end ms i fl"
      using less.prems(4-6) mv(1) by (auto simp: range_start_def range_end_def ends_def)
    from linear_range [OF sk1(1) lin(1) mv less.prems(7) this]
    have n: "near (seek_tol L) sk1 (dot a (move_get_coord ?m (range_end ms i fl)))" .
    have keep: "linear_sk a sk1" "half_step_of sk1 = half_step_of sk"
      using range_keeps_linear [OF sk1(1)] lin(1) by (simp_all add: half_step_of_def)
    show ?thesis
    proof (cases "ends ?m \<ge> fl")
      case True
      then show ?thesis using here [of sk'] n keep sk1(2) by (auto simp: at_end)
    next
      case False
      then show ?thesis using next_move [OF _ _ _ _ _] sk1(2) n keep by (auto simp: at_end)
    qed
  next
    case still: False
    note st = inactive_still [OF lin(1) still]
    have n0: "near (seek_tol L) sk (dot a (start_pos ?m))" using less.prems(7) by (simp add: st)
    define body where "body = (if print_time ?m < force
                then bind_op (itersolve_gen_steps_range n ms i lf (if force > fl then fl else force)) (\<lambda>r. ret (r, Suc 0))
                else ret (Some 0, Suc skip))"
    have eq: "bind_op body (\<lambda>(r, skip').
             if r \<noteq> Some 0 then ret r
             else if fl \<le> ends ?m then ret (Some 0)
             else gen_moves n ms lf fl (Suc i) skip' force) sk = Ret (Some 0) sk'"
      using less.prems(1) unfolding gen_moves_still [OF i still] lin(2) body_def add_0_right .
    then obtain skip' sk1 where b: "body sk = Ret (Some 0, skip') sk1"
      "(if fl \<le> ends ?m then Ret (Some 0) sk1 else gen_moves n ms lf fl (Suc i) skip' force sk1) = Ret (Some 0) sk'"
      by (auto simp: op_simps split: outcome.splits if_splits)
    have sk1: "near (seek_tol L) sk1 (dot a (start_pos ?m)) \<and> linear_sk a sk1 \<and> half_step_of sk1 = half_step_of sk"
    proof (cases "print_time ?m < force")
      case True
      then have "itersolve_gen_steps_range n ms i lf (if force > fl then fl else force) sk = Ret (Some 0) sk1"
        using b(1) by (auto simp: body_def op_simps split: outcome.splits)
      from still_range [OF this lin(1) still mv n0] range_keeps_linear [OF this] show ?thesis
        using lin(1) by (simp add: half_step_of_def)
    next
      case False
      then show ?thesis using b(1) n0 lin(1) by (auto simp: body_def op_simps)
    qed
    show ?thesis
    proof (cases "fl \<le> ends ?m")
      case True
      then show ?thesis using here [of sk'] sk1 b(2) by (simp add: st)
    next
      case False
      then show ?thesis using next_move [of skip' force sk1] sk1 b(2) by (simp add: st)
    qed
  qed
qed

lemma first_move_spec:
  assumes "first_move t ms i = Some j"
  shows "i \<le> j \<and> j < length ms \<and> t < ends (ms ! j) \<and> (\<forall>k. i \<le> k \<and> k < j \<longrightarrow> ends (ms ! k) \<le> t)"
  using assms
proof (induction t ms i rule: first_move.induct)
  case (1 t ms i)
  show ?case
  proof (cases "i < length ms \<and> t \<ge> ends (ms ! i)")
    case True
    then have "first_move t ms (Suc i) = Some j" using 1(2) by (subst (asm) first_move.simps) (simp add: ends_def)
    then show ?thesis using 1(1) True by (auto simp: ends_def not_le le_eq_less_or_eq [of i] Suc_le_eq)
  next
    case False
    then show ?thesis using 1(2) by (subst (asm) first_move.simps) (auto simp: ends_def split: if_splits)
  qed
qed

text \<open>The plan has no jump along \<open>a\<close>: every move starts where the one before it ends.\<close>

definition no_jump :: "coord \<Rightarrow> move list \<Rightarrow> bool" where
  "no_jump a ms \<longleftrightarrow> (\<forall>i. Suc i < length ms \<longrightarrow>
     dot a (start_pos (ms ! Suc i)) = dot a (move_get_coord (ms ! i) (move_t (ms ! i))))"

lemma contiguous_nth: "contiguous ms \<Longrightarrow> Suc i < length ms \<Longrightarrow> print_time (ms ! Suc i) = ends (ms ! i)"
  by (induction ms arbitrary: i rule: contiguous.induct) (auto simp: nth_Cons split: nat.splits)

lemma queue_followable:
  assumes ms: "queue_ok ms" "ms \<noteq> []" and t: "tail_ok ms t" "print_time t \<noteq> 0"
    and jump: "no_jump a ms" and slow: "\<forall>m\<in>set ms. top_speed a m \<le> L" and half: "safe_half L \<le> half"
  shows "followable a L half (zero_move # ms @ [t]) 1"
proof -
  let ?q = "zero_move # ms @ [t]"
  have one: "1 \<le> L" using slow ms(2) top_speed_pos [of a] by (meson last_in_set order_trans)
  have tail: "print_time t = ends (last ms)" "start_pos t = move_get_coord (last ms) (move_t (last ms))" "move_t t = NEVER_TIME"
    "top_speed a t \<le> L"
    using t ms(2) one by (auto simp: tail_ok_def top_speed_def)
  have "0 \<le> move_t (?q ! i) \<and> top_speed a (?q ! i) \<le> L" if "1 \<le> i" "i < length ?q" for i
  proof (cases "i \<le> length ms")
    case True
    then have "?q ! i \<in> set ms" using that by (auto simp: nth_append nth_Cons')
    then show ?thesis using ms(1) slow by (auto simp: queue_ok_def less_imp_le)
  next
    case False
    then have "i = Suc (length ms)" using that by simp
    then show ?thesis using tail by (simp add: nth_append)
  qed
  moreover have "print_time (?q ! Suc i) = ends (?q ! i) \<and>
      dot a (start_pos (?q ! Suc i)) = dot a (move_get_coord (?q ! i) (move_t (?q ! i)))" if "1 \<le> i" "Suc i < length ?q" for i
  proof (cases "i = length ms")
    case True
    then show ?thesis using that tail ms(2) by (simp add: nth_append nth_Cons' last_conv_nth)
  next
    case False
    with that have "1 \<le> i" "i < length ms" by simp_all
    then obtain k where k: "i = Suc k" "Suc k < length ms" by (cases i) auto
    then have "?q ! Suc i = ms ! Suc k" "?q ! i = ms ! k" by (simp_all add: nth_append)
    moreover have "contiguous ms" using ms(1) by (simp add: queue_ok_def)
    ultimately show ?thesis using k jump contiguous_nth by (auto simp: no_jump_def)
  qed
  ultimately show ?thesis using half unfolding followable_def by blast
qed

lemma followable_ends_le:
  assumes "followable a L half ms i0" "i0 \<le> k" "k < j" "j < length ms"
  shows "ends (ms ! k) \<le> print_time (ms ! j)"
  using assms(3,4)
proof (induction j)
  case (Suc j)
  have "print_time (ms ! Suc j) = ends (ms ! j)" "0 \<le> move_t (ms ! j)" using assms(1,2) Suc.prems by (auto simp: followable_def)
  with Suc show ?case by (cases "k = j") (auto simp: ends_def)
qed simp

lemma find_at:
  assumes "j < length ms" "t < ends (ms ! j)" "\<forall>k<j. ends (ms ! k) \<le> t"
  shows "find (\<lambda>m. t < ends m) ms = Some (ms ! j)"
  using assms by (force simp: find_Some_iff)

lemma generate_steps_unfold:
  assumes "itersolve_generate_steps n flush sk = Ret (Some 0) sk'" "sk_tq sk = Some tq"
  obtains i where "first_move (last_flush_time sk) (moves (trapq_check_sentinels tq)) 0 = Some i"
    "gen_moves n (moves (trapq_check_sentinels tq)) (last_flush_time sk) flush i 0 (last_move_time sk + gen_steps_post_active sk)
       (sk\<lparr>last_flush_time := flush, sk_tq := Some (trapq_check_sentinels tq)\<rparr>) = Ret (Some 0) sk'"
  using assms by (auto simp: itersolve_generate_steps_def op_simps Let_def split: option.splits)

lemma follower_position:
  assumes fol: "followable a L half (moves q) 1" and q: "moves q = zero_move # ms @ [t]" "queue_ok ms" "tail_ok ms t" "ms \<noteq> []"
    and r: "follows_at a L (moves q) sk' i flush" "1 \<le> i" and time: "0 \<le> flush" "flush < NEVER_TIME"
  shows "\<exists>p'. position_at q flush = Some p' \<and> near (seek_tol L) sk' (dot a p')"
proof -
  have head: "ends (moves q ! 0) = 0" by (simp add: q(1) ends_def zero_move_def)
  obtain j where j: "i \<le> j" "j < length (moves q)" "print_time (moves q ! j) \<le> flush" "flush \<le> ends (moves q ! j)"
    "near (seek_tol L) sk' (dot a (move_get_coord (moves q ! j) (flush - print_time (moves q ! j))))"
    using r(1) by (auto simp: follows_at_def)
  have before: "ends (moves q ! k) \<le> flush" if "k < j" for k
  proof (cases "k = 0")
    case True
    then show ?thesis using head time by simp
  next
    case False
    then show ?thesis using followable_ends_le [OF fol _ that j(2)] j(3) by simp
  qed
  show ?thesis
  proof (cases "flush < ends (moves q ! j)")
    case True
    then show ?thesis
      using find_at [OF j(2) True] before j(5) by (simp add: position_at_def)
  next
    case False
    then have e: "flush = ends (moves q ! j)" using j(4) by simp
    have tail: "NEVER_TIME \<le> ends t" using q time by (auto simp: tail_ok_def ends_def queue_ok_def less_imp_le intro!: add_nonneg_nonneg)
    have "j \<noteq> Suc (length ms)" using e time(2) tail by (auto simp: q(1) nth_append)
    then have j': "Suc j < length (moves q)" using j(2) by (simp add: q(1))
    have n: "print_time (moves q ! Suc j) = flush"
      "dot a (start_pos (moves q ! Suc j)) = dot a (move_get_coord (moves q ! j) (move_t (moves q ! j)))"
      using fol r(2) j(1) j' e by (auto simp: followable_def)
    have "0 < move_t (moves q ! Suc j)"
      using q(2,3) j' by (auto simp: q(1) nth_append queue_ok_def tail_ok_def)
    then have "flush < ends (moves q ! Suc j)" using n(1) by (simp add: ends_def)
    moreover have "\<forall>k<Suc j. ends (moves q ! k) \<le> flush" using before e by (auto simp: less_Suc_eq)
    ultimately have "find (\<lambda>m. flush < ends m) (moves q) = Some (moves q ! Suc j)" by (rule find_at [OF j'])
    moreover have "flush - print_time (moves q ! j) = move_t (moves q ! j)" using e by (simp add: ends_def)
    ultimately show ?thesis using j(5) n by (simp add: position_at_def start_coord)
  qed
qed

text \<open>
  C0: The stepper follows the queue. Whenever \<open>itersolve_generate_steps\<close> succeeds for a stepper of a Cartesian, CoreXY or CoreXZ machine (or any
  other whose position is linear in the coordinates) on a well formed queue without jumps, whose moves are not too fast for the
  size of a step: if the commanded position was within half a step of the position of the queue at the last flush, up to the tolerance of the
  solver, it is so at the new flush time, through all moves in between, those that do not move the stepper, and the tail.
\<close>

theorem stepper_follows_queue:
  fixes sk :: stepper_kinematics and tq :: trapq
  defines "q \<equiv> trapq_check_sentinels tq"
  assumes run: "itersolve_generate_steps n flush sk = Ret (Some 0) sk'" and tq: "sk_tq sk = Some tq" "trapq_ok tq"
    and lin: "linear_sk a sk" and jump: "no_jump a (queued_moves tq)" and slow: "\<forall>m\<in>set (queued_moves tq). top_speed a m \<le> L"
    and half: "safe_half L \<le> half_step_of sk"
    and time: "0 \<le> last_flush_time sk" "last_flush_time sk \<le> flush" "flush < NEVER_TIME"
    and begun: "queued_moves tq \<noteq> []" "print_time (hd (queued_moves tq)) \<le> last_flush_time sk"
    and at: "position_at q (last_flush_time sk) = Some p" "\<bar>dot a p - commanded_pos sk\<bar> \<le> half_step_of sk + seek_tol L"
  shows "\<exists>p'. position_at q flush = Some p' \<and> \<bar>dot a p' - commanded_pos sk'\<bar> \<le> half_step_of sk + seek_tol L"
proof -
  note c = check_sentinels_ok [OF tq(2), folded q_def]
  obtain ms t where q0: "trapq_is q ms t" "queue_ok ms" "tail_ok ms t" using c(1) by (rule trapq_okE)
  have ms: "queued_moves tq = ms" "ms \<noteq> []" using trapq_is_simps(1) [OF q0(1)] begun(1) c(2) by simp_all
  have q: "moves q = zero_move # ms @ [t]" "print_time t \<noteq> 0"
    using q0(1) c(3) by (simp_all add: trapq_is_def)
  have fol: "followable a L (half_step_of sk) (moves q) 1"
    unfolding q(1) using queue_followable [OF q0(2) ms(2) q0(3) q(2)] jump slow half ms(1) by simp
  let ?lf = "last_flush_time sk"
  obtain i where i: "first_move ?lf (moves q) 0 = Some i"
    "gen_moves n (moves q) ?lf flush i 0 (last_move_time sk + gen_steps_post_active sk)
       (sk\<lparr>last_flush_time := flush, sk_tq := Some q\<rparr>) = Ret (Some 0) sk'"
    unfolding q_def using run tq(1) by (rule generate_steps_unfold)
  have fm: "i < length (moves q)" "?lf < ends (moves q ! i)" "\<forall>k<i. ends (moves q ! k) \<le> ?lf"
    using first_move_spec [OF i(1)] by auto
  have head: "ends (moves q ! 0) = 0" by (simp add: q(1) ends_def zero_move_def)
  have i1: "1 \<le> i" using fm(2) time(1) head by (cases i) auto
  have pt: "print_time (moves q ! i) \<le> ?lf"
  proof (cases "i = 1")
    case True
    then show ?thesis using begun(2) ms by (simp add: q(1) hd_conv_nth nth_append)
  next
    case False
    then have "print_time (moves q ! Suc (i - 1)) = ends (moves q ! (i - 1))"
      using fol i1 fm(1) unfolding followable_def by (metis Suc_pred' le_antisym not_less_eq_eq One_nat_def Suc_le_eq diff_Suc_1 le_SucE)
    then show ?thesis using fm(3) i1 by simp
  qed
  have p: "p = move_get_coord (moves q ! i) (?lf - print_time (moves q ! i))"
    using at(1) find_at [OF fm] by (simp add: position_at_def)
  have start: "range_start (moves q) i ?lf = ?lf - print_time (moves q ! i)" using pt by (simp add: range_start_def)
  have fol_i: "followable a L (half_step_of sk) (moves q) i" using fol i1 by (auto simp: followable_def)
  have r: "follows_at a L (moves q) sk' i flush \<and> half_step_of sk' = half_step_of sk"
    using gen_moves_follow [OF i(2), of a L] lin fol_i pt time fm(2) at(2) p start by (simp add: near_def)
  from r follower_position [OF fol q(1) q0(2,3) ms(2) _ i1 _ time(3)] time(1,2) show ?thesis
    by (fastforce simp: near_def)
qed

text \<open>A move at 6000 steps per second for a ten thousandth of a second, one second after the start.\<close>

definition witness_queue :: trapq where
  "witness_queue = trapq_append trapq_alloc 1 0 (1 / 10000) 0 zero_coord \<lparr>coord_x = 1, coord_y = 0, coord_z = 0\<rparr> 0 6000 0"

definition witness_sk :: stepper_kinematics where
  "witness_sk = (cartesian_stepper_alloc CHR ''x'')\<lparr>step_dist := 1, sk_sc := (stepcompress_alloc 0)\<lparr>mcu_freq := 1000000\<rparr>,
     sk_tq := Some witness_queue, last_flush_time := 1\<rparr>"

lemmas trapq_eval = trapq_append_def append_part_def trapq_add_move_def list_add_before_tail_def set_tail_def null_move_def
  zero_move_def trapq_alloc_def Let_def

definition cruise_move :: move where
  "cruise_move = \<lparr>print_time = 1, move_t = 1 / 10000, start_v = 6000, half_accel = 0, start_pos = zero_coord,
     axes_r = \<lparr>coord_x = 1, coord_y = 0, coord_z = 0\<rparr>\<rparr>"

definition wait_move :: move where
  "wait_move = zero_move\<lparr>move_t := 1\<rparr>"

definition tail_move :: move where
  "tail_move = zero_move\<lparr>print_time := 10001 / 10000, move_t := NEVER_TIME, start_pos := \<lparr>coord_x = 3 / 5, coord_y = 0, coord_z = 0\<rparr>\<rparr>"

lemma witness_moves:
  "moves (trapq_check_sentinels witness_queue) = [zero_move, wait_move, cruise_move, tail_move]"
  "queued_moves witness_queue = [wait_move, cruise_move]"
  by (simp_all add: witness_queue_def trapq_eval trapq_check_sentinels_def queued_moves_def wait_move_def cruise_move_def tail_move_def
      move_get_coord_def move_get_distance_def zero_coord_def)

lemma witness_fields:
  "sk_tq witness_sk = Some witness_queue" "last_flush_time witness_sk = 1" "commanded_pos witness_sk = 0" "step_dist witness_sk = 1"
  "half_step_of witness_sk = 1 / 2" "post_cb witness_sk = None" "gen_steps_pre_active witness_sk = 0" "gen_steps_post_active witness_sk = 0"
  "active_flags witness_sk = AF_X" "calc_position_cb witness_sk = cart_stepper_x_calc_position" "last_move_time witness_sk = 0"
  "sk_sc witness_sk = (stepcompress_alloc 0)\<lparr>mcu_freq := 1000000\<rparr>"
  by (simp_all add: witness_sk_def cartesian_stepper_alloc_def zero_sk_def half_step_of_def)

lemma witness_linear: "linear_sk \<lparr>coord_x = 1, coord_y = 0, coord_z = 0\<rparr> witness_sk"
  by (simp add: linear_sk_def witness_fields cart_stepper_x_calc_position_def dot_def fun_eq_iff)

lemma witness_append_at:
  "\<exists>sc'. stepcompress_append 1 1 (1 / 12000) (sk_sc witness_sk) = Ret 0 sc'"
  by (simp add: stepcompress_append_def op_simps witness_fields stepcompress_alloc_def u64_of_double_def Let_def)

lemmas witness_move_defs = cruise_move_def wait_move_def tail_move_def zero_move_def

lemma witness_first: "first_move 1 [zero_move, wait_move, cruise_move, tail_move] 0 = Some 2"
  by (simp add: first_move.simps numeral_2_eq_2) (simp add: witness_move_defs)

lemma range_result:
  assumes "gen_loop n (half_step_of sk) (range_end ms i b) (print_time (ms ! i)) (range_position sk ms i) (range_seek sk ms i a b) (sk_sc sk) =
      Ret (Finished k) sc" "post_cb sk = None"
  shows "itersolve_gen_steps_range n ms i a b sk =
    Ret (Some 0) (sk\<lparr>sk_sc := sc, commanded_pos := target k - (if seek_dir k then half_step_of sk else - half_step_of sk)\<rparr>)"
  using assms
  by (simp add: itersolve_gen_steps_range_def range_start_def range_end_def range_position_def half_step_of_def range_seek_def op_simps
      on_sc_def Let_def)

lemma witness_generates: "\<exists>sk'. itersolve_generate_steps 5 (10001 / 10000) witness_sk = Ret (Some 0) sk' \<and> commanded_pos sk' = 1"
proof -
  let ?ms = "[zero_move, wait_move, cruise_move, tail_move]"
  let ?sk = "witness_sk\<lparr>last_flush_time := 10001 / 10000, sk_tq := Some (trapq_check_sentinels witness_queue)\<rparr>"
  obtain sc' where sc: "stepcompress_append 1 1 (1 / 12000) (sk_sc witness_sk) = Ret 0 sc'" using witness_append_at ..
  note loop = witness_loop [OF sc]
  have cb: "cart_stepper_x_calc_position 0 ?ms 2 = (*) 6000"
    by (simp add: cart_stepper_x_calc_position_def fun_eq_iff cruise_move_def move_get_coord_def move_get_distance_def zero_coord_def)
  have dir: "stepcompress_get_step_dir (sk_sc witness_sk) = 0"
    by (simp add: stepcompress_get_step_dir_def witness_fields stepcompress_alloc_def)
  have F: "range_start ?ms 2 1 = 0" "range_end ?ms 2 (10001 / 10000) = 1 / 10000" "print_time (?ms ! 2) = 1"
    "range_position ?sk ?ms 2 = (*) 6000" "half_step_of ?sk = 1 / 2" "sk_sc ?sk = sk_sc witness_sk" "commanded_pos ?sk = 0" "post_cb ?sk = None"
    using cb by (simp_all add: range_start_def range_end_def range_position_def cruise_move_def witness_fields)
  have seek: "range_seek ?sk ?ms 2 1 (10001 / 10000) = seek_start (1 / 2) 0 (1 / 10000) 0 False"
    unfolding range_seek_def F dir by simp
  have range: "\<exists>sk'. itersolve_gen_steps_range 5 ?ms 2 1 (10001 / 10000) ?sk = Ret (Some 0) sk' \<and> commanded_pos sk' = 1"
    by (subst range_result [OF _ F(8)], unfold F seek, rule loop) (simp add: witness_seek_def)
  have "check_active ?sk cruise_move" by (simp add: check_active_def witness_fields cruise_move_def)
  moreover have "print_time cruise_move + move_t cruise_move = 10001 / 10000" by (simp add: cruise_move_def)
  ultimately have "\<exists>sk'. gen_moves 5 ?ms 1 (10001 / 10000) 2 0 0 ?sk = Ret (Some 0) sk' \<and> commanded_pos sk' = 1"
    using range by (subst gen_moves.simps) (auto simp: op_simps try_sk_def Let_def)
  then show ?thesis
    by (simp add: itersolve_generate_steps_def op_simps Let_def witness_fields witness_moves witness_first)
qed

theorem stepper_follows_queue_witness:
  "\<exists>sk' p. itersolve_generate_steps 5 (10001 / 10000) witness_sk = Ret (Some 0) sk' \<and> commanded_pos sk' = 1 \<and>
     position_at (trapq_check_sentinels witness_queue) (10001 / 10000) = Some p \<and> \<bar>coord_x p - 1\<bar> \<le> 1 / 2 + seek_tol 6001"
proof -
  let ?a = "\<lparr>coord_x = 1, coord_y = 0, coord_z = 0\<rparr>"
  obtain sk' where run: "itersolve_generate_steps 5 (10001 / 10000) witness_sk = Ret (Some 0) sk'" "commanded_pos sk' = 1"
    using witness_generates by blast
  have ok: "trapq_ok witness_queue"
    unfolding witness_queue_def by (rule conjunct1 [OF trapq_append_appended [OF trapq_alloc_ok(1), unfolded appended_def]])
      (simp_all add: can_add_def trapq_alloc_ok)
  have jump: "no_jump ?a (queued_moves witness_queue)"
    by (simp add: no_jump_def witness_moves less_Suc_eq) (simp add: witness_move_defs dot_def move_get_coord_def move_get_distance_def zero_coord_def)
  have slow: "\<forall>m\<in>set (queued_moves witness_queue). top_speed ?a m \<le> 6001"
    by (simp add: witness_moves top_speed_def witness_move_defs dot_def)
  have at: "position_at (trapq_check_sentinels witness_queue) (last_flush_time witness_sk) = Some zero_coord"
    by (simp add: position_at_def witness_moves witness_fields ends_def)
       (simp add: witness_move_defs move_get_coord_def move_get_distance_def zero_coord_def)
  have num: "safe_half 6001 \<le> half_step_of witness_sk" "0 \<le> last_flush_time witness_sk" "last_flush_time witness_sk \<le> 10001 / 10000"
    "10001 / 10000 < NEVER_TIME" "queued_moves witness_queue \<noteq> []" "print_time (hd (queued_moves witness_queue)) \<le> last_flush_time witness_sk"
    "\<bar>dot ?a zero_coord - commanded_pos witness_sk\<bar> \<le> half_step_of witness_sk + seek_tol 6001"
    by (simp_all add: safe_half_def witness_fields witness_moves wait_move_def zero_move_def dot_def zero_coord_def seek_tol_def)
  show ?thesis
    using stepper_follows_queue [OF run(1) witness_fields(1) ok witness_linear jump slow num(1-6) at num(7)] run
    by (auto simp: witness_fields(5) dot_def)
qed

end
