(* ===== verification/Spec2Isabelle.thy ===== *)
theory Spec2Isabelle
  imports Command Stepcompress Inputs Link Trdispatch Linkedlist Kinematics_Follow
begin

text \<open>
  A model of the firmware and of the C helper library of the Klipper tree.
\<close>

subsection \<open>From the host's step times to the pins\<close>






end
